(* ===== verification/Prelude.thy ===== *)
theory Prelude
  imports Main "HOL-Library.Word"
begin

text \<open>
  Shared vocabulary of the development: machine integers at their width, the outcome of
  code that may abort, and the generic facts on words, lists and intervals that the
  component theories use.

  The kernel is compiled with \<open>kassert\<close> enabled (\<open>NDEBUG\<close> undefined, the debug build of
  \<open>build/debug/Makefile\<close>).  \<open>kassert\<close>, \<open>kbugon\<close> and \<open>kabort\<close> (\<open>sys/debug.hpp\<close>) end in
  a halt loop and never return, so a function that reaches them has the outcome
  \<open>Fail\<close>; C++ undefined behaviour (an out-of-range index, \<open>__builtin_clz(0)\<close>, erasing an
  element that is not in the container) is the outcome \<open>Fail Undefined\<close>.
\<close>

unbundle bit_operations_syntax

type_synonym u8 = "8 word"
type_synonym u16 = "16 word"
type_synonym u32 = "32 word"
type_synonym u64 = "64 word"

type_synonym pfn = "64 word"  \<comment> \<open>\<open>pfn_t\<close>, a strong typedef of \<open>uintptr_t\<close>\<close>
type_synonym nid = int        \<comment> \<open>\<open>nid_t\<close>, a strong typedef of \<open>int\<close>\<close>

named_theorems arith_words \<open>word arithmetic read as arithmetic on natural numbers\<close>
named_theorems geom \<open>facts on intervals of page frames\<close>

subsection \<open>Outcomes of code that may abort\<close>

datatype fault =
    Assert_Failed   \<comment> \<open>\<open>kassert\<close>\<close>
  | Bug_On          \<comment> \<open>\<open>kbugon\<close>\<close>
  | Aborted         \<comment> \<open>\<open>kabort\<close>\<close>
  | Unimplemented   \<comment> \<open>\<open>UNIMPLEMENTED()\<close>\<close>
  | Thrown          \<comment> \<open>a C++ exception\<close>
  | Undefined       \<comment> \<open>undefined behaviour of the language or of a container\<close>

datatype 'a res = Ok 'a | Fail fault

fun bind_res :: "'a res \<Rightarrow> ('a \<Rightarrow> 'b res) \<Rightarrow> 'b res" where
  "bind_res (Ok x) f = f x"
| "bind_res (Fail e) f = Fail e"

definition kassert :: "bool \<Rightarrow> 'a res \<Rightarrow> 'a res" where
  "kassert c k = (if c then k else Fail Assert_Failed)"

definition kbugon :: "bool \<Rightarrow> 'a res \<Rightarrow> 'a res" where
  "kbugon c k = (if c then Fail Bug_On else k)"

definition defined :: "bool \<Rightarrow> 'a res \<Rightarrow> 'a res" where
  "defined c k = (if c then k else Fail Undefined)"

lemma bind_res_Ok_iff: "bind_res m f = Ok y \<longleftrightarrow> (\<exists>x. m = Ok x \<and> f x = Ok y)"
  by (cases m) auto

lemma bind_res_assoc: "bind_res (bind_res m f) g = bind_res m (\<lambda>x. bind_res (f x) g)"
  by (cases m) auto

lemma bind_res_cong [fundef_cong]:
  "m = m' \<Longrightarrow> (\<And>x. m' = Ok x \<Longrightarrow> f x = g x) \<Longrightarrow> bind_res m f = bind_res m' g"
  by (cases m') auto

lemma kassert_Ok_iff: "kassert c k = Ok y \<longleftrightarrow> c \<and> k = Ok y"
  by (simp add: kassert_def)

lemma kbugon_Ok_iff: "kbugon c k = Ok y \<longleftrightarrow> \<not> c \<and> k = Ok y"
  by (simp add: kbugon_def)

lemma defined_Ok_iff: "defined c k = Ok y \<longleftrightarrow> c \<and> k = Ok y"
  by (simp add: defined_def)

lemmas res_Ok_iff = bind_res_Ok_iff kassert_Ok_iff kbugon_Ok_iff defined_Ok_iff

lemma kassert_cong [fundef_cong]: "c = c' \<Longrightarrow> (c' \<Longrightarrow> k = k') \<Longrightarrow> kassert c k = kassert c' k'"
  by (simp add: kassert_def)

lemma kbugon_cong [fundef_cong]: "c = c' \<Longrightarrow> (\<not> c' \<Longrightarrow> k = k') \<Longrightarrow> kbugon c k = kbugon c' k'"
  by (simp add: kbugon_def)

lemma defined_cong [fundef_cong]: "c = c' \<Longrightarrow> (c' \<Longrightarrow> k = k') \<Longrightarrow> defined c k = defined c' k'"
  by (simp add: defined_def)

lemma kassert_simps [simp]: "kassert True k = k" "kassert False k = Fail Assert_Failed"
  by (simp_all add: kassert_def)

lemma kbugon_simps [simp]: "kbugon False k = k" "kbugon True k = Fail Bug_On"
  by (simp_all add: kbugon_def)

lemma defined_simps [simp]: "defined True k = k" "defined False k = Fail Undefined"
  by (simp_all add: defined_def)

subsection \<open>Words without wrap-around\<close>

lemma unat_add_nowrap [arith_words]:
  fixes a b :: "'a::len word"
  assumes "unat a + unat b < 2 ^ LENGTH('a)"
  shows "unat (a + b) = unat a + unat b"
  using assms by (simp add: unat_word_ariths)

lemma unat_sub_nowrap [arith_words]:
  fixes a b :: "'a::len word"
  assumes "b \<le> a"
  shows "unat (a - b) = unat a - unat b"
  using assms by (rule unat_sub)

lemma unat_pow2 [arith_words]:
  assumes "k < LENGTH('a)"
  shows "unat (2 ^ k :: 'a::len word) = 2 ^ k"
proof -
  have "(2 ^ k :: 'a word) = of_nat (2 ^ k)" by simp
  moreover have "(2::nat) ^ k < 2 ^ LENGTH('a)" using assms by simp
  ultimately show ?thesis by (simp only: unat_of_nat mod_less)
qed

lemma unat_drop_bit_word [arith_words]: "unat (drop_bit n w) = unat w div 2 ^ n" for w :: "'a::len word"
  by (subst unat_drop_bit_eq) (rule drop_bit_eq_div)

lemma unat_push_bit_nowrap [arith_words]:
  fixes w :: "'a::len word"
  assumes "unat w * 2 ^ n < 2 ^ LENGTH('a)"
  shows "unat (push_bit n w) = unat w * 2 ^ n"
  using assms unfolding unsigned_push_bit_eq by (simp only: push_bit_eq_mult [of n "unat w"] take_bit_eq_mod mod_less)

lemma word_and_not_mask: "w AND NOT (mask n) = push_bit n (drop_bit n w)" for w :: "'a::len word"
  by (rule bit_eqI) (auto simp: bit_simps)

lemma word_mask_eq: "(2 ^ n - 1 :: 'a::len word) = mask n"
  by (simp add: mask_eq_exp_minus_1)

lemma unat_and_not_mask [arith_words]:
  "unat (w AND NOT (mask n)) = unat w div 2 ^ n * 2 ^ n" for w :: "'a::len word"
proof -
  have "unat w div 2 ^ n * 2 ^ n \<le> unat w" by simp
  then have "unat w div 2 ^ n * 2 ^ n < 2 ^ LENGTH('a)"
    using unsigned_less [of w] by (rule le_less_trans)
  then show ?thesis
    by (simp add: word_and_not_mask unat_push_bit_nowrap unat_drop_bit_word)
qed

lemma word_eq_unat: "a = b \<longleftrightarrow> unat a = unat b" for a b :: "'a::len word"
  by (simp add: word_unat_eq_iff)

lemma unat_lt_pow: "unat (a :: 'a::len word) < 2 ^ LENGTH('a)"
  by (rule unsigned_less)


lemma unat_ucast_up [arith_words]:
  fixes x :: "'a::len word"
  assumes "LENGTH('a) \<le> LENGTH('b)"
  shows "unat (ucast x :: 'b::len word) = unat x"
proof -
  have "unat x < 2 ^ LENGTH('b)"
    using unsigned_less [of x, where ?'a = nat] power_increasing [OF assms, of "2::nat"]
    by (meson le_trans less_le_trans one_le_numeral)
  then show ?thesis by (simp add: unsigned_ucast_eq take_bit_nat_eq_self_iff)
qed

end
