(* ===== verification/Align_Pfn.thy ===== *)
theory Align_Pfn
  imports Prelude
begin

text \<open>
  \<open>sys/align.hpp\<close>, \<open>sys/pfn.hpp\<close>, \<open>sys/fls.hpp\<close>: alignment of addresses, page frame
  numbers, and the bit scans (\<open>fls\<close>, and the compiler's \<open>__builtin_clz\<close> and
  \<open>__builtin_ctz\<close>, which are undefined on 0).  All arithmetic is on 64-bit words and wraps.
\<close>

subsection \<open>Alignment\<close>

definition align_down :: "u64 \<Rightarrow> u64 \<Rightarrow> u64" where
  "align_down val alignment = val AND NOT (alignment - 1)"

definition align_up :: "u64 \<Rightarrow> u64 \<Rightarrow> u64" where
  "align_up val alignment = align_down (val + alignment - 1) alignment"

lemma align_down_pow2: "align_down v (2 ^ k) = v AND NOT (mask k)"
  by (simp add: align_down_def word_mask_eq)

lemma unat_align_down [arith_words]:
  "unat (align_down v (2 ^ k)) = unat v div 2 ^ k * 2 ^ k"
  by (simp add: align_down_pow2 unat_and_not_mask)

lemma unat_align_up [arith_words]:
  assumes "k < 64" and "unat v + 2 ^ k \<le> 2 ^ 64"
  shows "unat (align_up v (2 ^ k)) = (unat v + 2 ^ k - 1) div 2 ^ k * 2 ^ k"
proof -
  have one: "unat (2 ^ k - 1 :: u64) = 2 ^ k - 1"
    using assms(1) by (simp add: unat_sub_nowrap unat_pow2 word_le_nat_alt)
  have pos: "(1::nat) \<le> 2 ^ k" by simp
  have "unat (v + (2 ^ k - 1)) = unat v + (2 ^ k - 1)"
    using assms(2) pos by (subst unat_add_nowrap) (simp_all add: one)
  then have "unat (v + 2 ^ k - 1) = unat v + 2 ^ k - 1"
    using pos by (simp only: add_diff_eq [of v "2 ^ k" 1] Nat.add_diff_assoc)
  then show ?thesis by (simp only: align_up_def unat_align_down)
qed

subsection \<open>Page frame numbers\<close>

definition PAGE_SHIFT :: nat where "PAGE_SHIFT = 12"

definition PAGE_SIZE :: u64 where "PAGE_SIZE = push_bit PAGE_SHIFT 1"

definition NO_PFN :: pfn where "NO_PFN = - 1"

definition pfn_up :: "u64 \<Rightarrow> pfn" where
  "pfn_up addr = drop_bit PAGE_SHIFT (addr + PAGE_SIZE - 1)"

definition pfn_down :: "u64 \<Rightarrow> pfn" where
  "pfn_down addr = drop_bit PAGE_SHIFT addr"

definition pfn_to_addr :: "pfn \<Rightarrow> u64" where
  "pfn_to_addr pfn = push_bit PAGE_SHIFT pfn"

lemma PAGE_SIZE_eq: "PAGE_SIZE = 4096"
  by (simp add: PAGE_SIZE_def PAGE_SHIFT_def)

lemma unat_pfn_down [arith_words]: "unat (pfn_down a) = unat a div 4096"
  by (simp add: pfn_down_def PAGE_SHIFT_def unat_drop_bit_word)

lemma unat_pfn_up [arith_words]:
  assumes "unat a + 4096 \<le> 2 ^ 64"
  shows "unat (pfn_up a) = (unat a + 4095) div 4096"
proof -
  have "unat (a + 4095) = unat a + 4095"
    using assms by (simp add: unat_add_nowrap)
  moreover have "a + 4096 - 1 = a + 4095" by simp
  moreover have "(2::nat) ^ 12 = 4096" by simp
  ultimately show ?thesis
    by (simp only: pfn_up_def PAGE_SIZE_eq PAGE_SHIFT_def unat_drop_bit_word)
qed

lemma unat_pfn_to_addr [arith_words]:
  assumes "unat p < 2 ^ 52"
  shows "unat (pfn_to_addr p) = unat p * 4096"
  using assms by (simp add: pfn_to_addr_def PAGE_SHIFT_def unat_push_bit_nowrap)

subsection \<open>Bit scans\<close>

definition clz :: "'a::len word \<Rightarrow> nat" where
  "clz w = length (takeWhile (\<lambda>i. \<not> bit w i) (rev [0..<LENGTH('a)]))"

definition ctz :: "'a::len word \<Rightarrow> nat" where
  "ctz w = length (takeWhile (\<lambda>i. \<not> bit w i) [0..<LENGTH('a)])"

lemma takeWhile_upt_stop:
  assumes "i < n" and "P i"
  shows "length (takeWhile (\<lambda>i. \<not> P i) [0..<n]) < n"
    and "P (length (takeWhile (\<lambda>i. \<not> P i) [0..<n]))"
    and "j < length (takeWhile (\<lambda>i. \<not> P i) [0..<n]) \<Longrightarrow> \<not> P j"
proof -
  let ?t = "takeWhile (\<lambda>i. \<not> P i) [0..<n]"
  have "?t \<noteq> [0..<n]" using assms by (auto simp: takeWhile_eq_all_conv)
  then have lt: "length ?t < length [0..<n]"
    by (metis length_takeWhile_le le_neq_implies_less takeWhile_eq_take take_all order_refl)
  then show "length ?t < n" by simp
  show "P (length ?t)" using nth_length_takeWhile [OF lt] lt by simp
  show "\<not> P j" if "j < length ?t"
    using takeWhile_nth [OF that] nth_mem [OF that] lt that
    by (metis length_upt nth_upt order_less_trans plus_nat.add_0 set_takeWhileD diff_zero)
qed

lemma word_nonzero_bit: "w \<noteq> 0 \<Longrightarrow> \<exists>i<LENGTH('a). bit w i" for w :: "'a::len word"
proof (rule ccontr)
  assume "w \<noteq> 0" and "\<not> (\<exists>i<LENGTH('a). bit w i)"
  then have "w = 0" by (intro bit_word_eqI) auto
  with \<open>w \<noteq> 0\<close> show False by simp
qed

text \<open>On a non-zero word, \<open>ctz\<close> is the exponent of the largest power of two dividing it.\<close>

lemma ctz_bit:
  fixes w :: "'a::len word"
  assumes "w \<noteq> 0"
  shows "ctz w < LENGTH('a)" and "bit w (ctz w)" and "j < ctz w \<Longrightarrow> \<not> bit w j"
  using word_nonzero_bit [OF assms] takeWhile_upt_stop [where P = "bit w" and n = "LENGTH('a)"]
  unfolding ctz_def by blast+

lemma low_bits_zero_dvd:
  fixes n :: nat
  assumes "\<And>j. j < k \<Longrightarrow> \<not> bit n j"
  shows "2 ^ k dvd n"
proof -
  have "take_bit k n = 0" using assms by (intro bit_eqI) (auto simp: bit_take_bit_iff)
  then show ?thesis by (simp add: take_bit_eq_0_iff)
qed

lemma ctz_dvd:
  fixes w :: "'a::len word"
  assumes "w \<noteq> 0"
  shows "2 ^ ctz w dvd unat w" and "\<not> 2 ^ Suc (ctz w) dvd unat w"
proof -
  show "2 ^ ctz w dvd unat w"
    using ctz_bit(3) [OF assms] by (intro low_bits_zero_dvd) (simp add: bit_unsigned_iff)
  show "\<not> 2 ^ Suc (ctz w) dvd unat w"
  proof
    assume "2 ^ Suc (ctz w) dvd unat w"
    then have "take_bit (Suc (ctz w)) (unat w) = 0" by (simp add: take_bit_eq_0_iff)
    then have "\<not> bit (unat w) (ctz w)"
      by (metis bit_0_eq bot_apply bit_take_bit_iff lessI bot_bool_def)
    then show False
      using ctz_bit [OF assms] by (simp add: bit_unsigned_iff)
  qed
qed

text \<open>On a non-zero word, \<open>clz\<close> gives the binary logarithm.\<close>

lemma clz_bit:
  fixes w :: "'a::len word"
  assumes "w \<noteq> 0"
  shows "clz w < LENGTH('a)" and "bit w (LENGTH('a) - 1 - clz w)"
    and "LENGTH('a) - 1 - clz w < j \<Longrightarrow> \<not> bit w j"
proof -
  let ?n = "LENGTH('a)" let ?P = "\<lambda>i. bit w (?n - 1 - i)"
  have rv: "rev [0..<?n] = map (\<lambda>i. ?n - 1 - i) [0..<?n]"
    by (rule nth_equalityI) (simp_all add: rev_nth)
  have c: "clz w = length (takeWhile (\<lambda>i. \<not> ?P i) [0..<?n])"
    unfolding clz_def rv by (simp add: takeWhile_map comp_def)
  obtain i where i: "i < ?n" "bit w i" using word_nonzero_bit [OF assms] by blast
  then have "?n - 1 - i < ?n" "?P (?n - 1 - i)" by auto
  note st = takeWhile_upt_stop [where P = ?P, OF this, folded c]
  show "clz w < ?n" and "bit w (?n - 1 - clz w)" by (fact st)+
  show "\<not> bit w j" if j: "?n - 1 - clz w < j"
  proof (cases "j < ?n")
    case True
    then have "?n - 1 - j < clz w" using j by simp
    from st(3) [OF this] show ?thesis using True by simp
  qed (use bit_imp_le_length in auto)
qed

lemma clz_log:
  fixes w :: "'a::len word"
  assumes "w \<noteq> 0"
  shows "2 ^ (LENGTH('a) - 1 - clz w) \<le> unat w"
    and "unat w < 2 ^ Suc (LENGTH('a) - 1 - clz w)"
proof -
  let ?m = "LENGTH('a) - 1 - clz w"
  show "2 ^ ?m \<le> unat w"
  proof (rule ccontr)
    assume "\<not> 2 ^ ?m \<le> unat w"
    then have "take_bit ?m (unat w) = unat w" by (simp add: take_bit_nat_eq_self_iff)
    then have "\<not> bit (unat w) ?m" by (metis bit_take_bit_iff less_irrefl)
    then show False
      using clz_bit(2) [OF assms] by (simp add: bit_unsigned_iff)
  qed
  have "take_bit (Suc ?m) (unat w) = unat w"
    using clz_bit(3) [OF assms]
    by (intro bit_eqI) (metis bit_take_bit_iff bit_unsigned_iff less_Suc_eq_le not_less)
  then show "unat w < 2 ^ Suc ?m" by (metis take_bit_nat_less_exp)
qed

text \<open>\<open>fls\<close>: the index of the highest bit; \<open>__builtin_clzll(0)\<close> is undefined.\<close>

definition fls :: "u64 \<Rightarrow> nat res" where
  "fls word = defined (word \<noteq> 0) (Ok (63 - clz word))"

lemma fls_Ok: "w \<noteq> 0 \<Longrightarrow> fls w = Ok (63 - clz w)"
  by (simp add: fls_def)

lemma fls_log:
  assumes "fls w = Ok n"
  shows "2 ^ n \<le> unat w \<and> unat w < 2 ^ Suc n \<and> n < 64"
  using assms clz_log [of w] by (auto simp: fls_def res_Ok_iff)

lemma fls_unique:
  assumes "2 ^ n \<le> unat w" and "unat w < 2 ^ Suc n"
  shows "fls w = Ok n"
proof -
  have "w \<noteq> 0" using assms(1) by auto
  then have f: "fls w = Ok (63 - clz w)" by (rule fls_Ok)
  let ?m = "63 - clz w"
  have "2 ^ ?m \<le> unat w" "unat w < 2 ^ Suc ?m" using fls_log [OF f] by auto
  with assms have "(2::nat) ^ n < 2 ^ Suc ?m" "(2::nat) ^ ?m < 2 ^ Suc n" by linarith+
  then have "n < Suc ?m" "?m < Suc n" by (simp_all only: power_strict_increasing_iff one_less_numeral_iff semiring_norm(76))
  with f show ?thesis by simp
qed

end
