(* ===== verification/Page_Source.thy ===== *)
theory Page_Source
  imports Align_Pfn
begin

text \<open>
  The interface through which the kernel obtains single page frames.  Page tables
  (\<open>sys/vmem.cpp\<close>, \<open>sys/trans.cpp\<close>), boot stacks (\<open>sys/smp.cpp\<close>) and interrupt stacks
  (\<open>sys/cpu.cpp\<close>) only rely on these laws; the early allocator and the buddy allocator
  provide them.
\<close>

text \<open>Taking several pages one after the other, as the loops of the clients do.\<close>

fun take_pages :: "('s \<Rightarrow> (pfn \<times> 's) res) \<Rightarrow> nat \<Rightarrow> 's \<Rightarrow> (pfn list \<times> 's) res" where
  "take_pages get 0 s = Ok ([], s)"
| "take_pages get (Suc n) s =
     bind_res (get s) (\<lambda>(p, s1). bind_res (take_pages get n s1) (\<lambda>(ps, s2). Ok (p # ps, s2)))"

locale page_source =
  fixes get :: "'s \<Rightarrow> (pfn \<times> 's) res"
    and free :: "'s \<Rightarrow> nat set"
    and inv :: "'s \<Rightarrow> bool"
  assumes get_page: "inv s \<Longrightarrow> get s = Ok (p, s') \<Longrightarrow>
    inv s' \<and> unat p \<in> free s \<and> free s' = free s - {unat p} \<and> unat p < 2 ^ 52"
begin

lemma take_pages_distinct:
  assumes "inv s" and "take_pages get n s = Ok (ps, s')"
  shows "inv s' \<and> length ps = n \<and> distinct ps \<and> unat ` set ps \<subseteq> free s
    \<and> free s' = free s - unat ` set ps \<and> (\<forall>p\<in>set ps. unat p < 2 ^ 52)"
  using assms
proof (induction n arbitrary: s ps)
  case (Suc n)
  obtain p s1 qs where g: "get s = Ok (p, s1)" and t: "take_pages get n s1 = Ok (qs, s')"
    and ps: "ps = p # qs"
    using Suc.prems(2) by (auto simp: bind_res_Ok_iff)
  note 1 = get_page [OF Suc.prems(1) g]
  note 2 = Suc.IH [OF conjunct1 [OF 1] t]
  show ?case using 1 2 by (auto simp: ps)
qed simp

end

end
