(* ===== verification/Early_Pages.thy ===== *)
theory Early_Pages
  imports Page_Source
begin

text \<open>
  \<open>sys/early_page_allocator.cpp\<close>, \<open>.hpp\<close>: the allocator used before the buddy allocator
  exists.  Free memory is a \<open>boost::intrusive::set\<close> of \<open>page_range\<close> nodes, each stored in
  the first page of the range it describes and ordered by that page; the model is the list
  of the nodes in the set's order.  A placement \<open>new\<close> on a page whose node is in the set
  overwrites a live node, which is \<open>Fail Undefined\<close>.
\<close>

subsection \<open>Data\<close>

definition MAX_NUMA_NODES :: nat where "MAX_NUMA_NODES = 256"
definition NO_NID :: nid where "NO_NID = - 1"
definition ANY_NID :: nid where "ANY_NID = int MAX_NUMA_NODES"

record page_range =
  pr_start :: pfn     \<comment> \<open>\<open>start()\<close>: the page the node is stored in\<close>
  pr_npages :: u64
  pr_nid :: nid

definition pr_end :: "page_range \<Rightarrow> pfn" where
  "pr_end r = pr_start r + pr_npages r"

subsection \<open>Operations\<close>

definition coalesce :: "page_range \<Rightarrow> page_range \<Rightarrow> page_range option" where
  "coalesce a b =
     (if pr_end a \<noteq> pr_start b then None
      else Some (a\<lparr>pr_npages := pr_npages a + pr_npages b\<rparr>))"

text \<open>The two coalescing steps of \<open>free_page_range\<close>: with the predecessor, then with the successor.\<close>

definition link_prior :: "page_range list \<Rightarrow> page_range \<Rightarrow> page_range list \<times> page_range" where
  "link_prior xs it =
     (if xs = [] then (xs, it)
      else case coalesce (last xs) it of None \<Rightarrow> (xs, it) | Some m \<Rightarrow> (butlast xs, m))"

fun link_next :: "page_range list \<Rightarrow> page_range \<Rightarrow> page_range list \<Rightarrow> page_range list" where
  "link_next xs it [] = xs @ [it]"
| "link_next xs it (b # ys) =
     (case coalesce it b of None \<Rightarrow> xs @ it # b # ys | Some m \<Rightarrow> xs @ m # ys)"

definition free_page_range :: "pfn \<Rightarrow> pfn \<Rightarrow> nid \<Rightarrow> page_range list \<Rightarrow> page_range list res" where
  "free_page_range start stop nid rs =
     (let r = \<lparr>pr_start = start, pr_npages = stop - start, pr_nid = nid\<rparr>;
          xs = takeWhile (\<lambda>x. pr_start x < start) rs;
          ys = dropWhile (\<lambda>x. pr_start x < start) rs
      in defined (ys = [] \<or> pr_start (hd ys) \<noteq> start)
           (case link_prior xs r of (xs', it) \<Rightarrow> Ok (link_next xs' it ys)))"

definition early_free_memory_range :: "u64 \<Rightarrow> u64 \<Rightarrow> nid \<Rightarrow> page_range list \<Rightarrow> page_range list res" where
  "early_free_memory_range begin len nid rs =
     (let pfn_start = pfn_up begin;
          diff = pfn_to_addr pfn_start - begin
      in if diff > len then Ok rs
         else let pfn_end = pfn_down (begin + len - diff)
              in if pfn_end = pfn_start then Ok rs
                 else free_page_range pfn_start pfn_end nid rs)"

fun early_allocate_page :: "u32 \<Rightarrow> nid \<Rightarrow> page_range list \<Rightarrow> (pfn \<times> page_range list) res" where
  "early_allocate_page npages nid [] = Fail Aborted"
| "early_allocate_page npages nid (it # rs) =
     (let skip = bind_res (early_allocate_page npages nid rs) (\<lambda>(p, rs'). Ok (p, it # rs'))
      in if nid \<noteq> ANY_NID \<and> pr_nid it \<noteq> nid then skip
         else let ret = pr_end it - ucast npages
              in if ret < pr_start it then skip
                 else if ret = pr_start it then Ok (ret, rs)
                 else Ok (ret, it\<lparr>pr_npages := pr_npages it - ucast npages\<rparr> # rs))"

definition early_free_page :: "pfn \<Rightarrow> pfn \<Rightarrow> nid \<Rightarrow> page_range list \<Rightarrow> page_range list res" where
  "early_free_page start stop nid rs = free_page_range start stop nid rs"

text \<open>
  \<open>early_set_nid_range\<close> walks the set while it inserts into it: a node inserted by a
  straddling range comes directly after the current one, so the iterator reaches it next.
\<close>

function early_set_nid_range :: "pfn \<Rightarrow> pfn \<Rightarrow> nid \<Rightarrow> page_range list \<Rightarrow> page_range list" where
  "early_set_nid_range start stop nid [] = []"
| "early_set_nid_range start stop nid (it # rs) =
     (if pr_end it \<le> start then it # early_set_nid_range start stop nid rs
      else if pr_start it \<ge> stop then it # rs
      else if pr_start it < start \<and> pr_end it > start then
        let new_end = min stop (pr_end it);
            new_range = \<lparr>pr_start = start, pr_npages = new_end - start, pr_nid = nid\<rparr>
        in it\<lparr>pr_npages := start - pr_start it\<rparr>
             # early_set_nid_range start stop nid (new_range # rs)
      else if pr_start it < stop \<and> pr_end it > stop then
        let new_range = \<lparr>pr_start = stop, pr_npages = pr_end it - stop, pr_nid = ANY_NID\<rparr>
        in it\<lparr>pr_npages := stop - pr_start it, pr_nid := nid\<rparr>
             # early_set_nid_range start stop nid (new_range # rs)
      else it\<lparr>pr_nid := nid\<rparr> # early_set_nid_range start stop nid rs)"
  by pat_completeness auto
termination
  by (relation "measure (\<lambda>(s, e, n, rs). length rs + length (filter (\<lambda>r. pr_start r < s) rs)
        + length (filter (\<lambda>r. pr_start r < e) rs))") auto

text \<open>\<open>release_free_pages\<close> passes every range to its argument, then clears the set.\<close>

definition release_free_pages :: "page_range list \<Rightarrow> (pfn \<times> pfn \<times> nid) list \<times> page_range list" where
  "release_free_pages rs = (map (\<lambda>r. (pr_start r, pr_end r, pr_nid r)) rs, [])"

subsection \<open>The set of free pages and the invariant\<close>

definition r_lo :: "page_range \<Rightarrow> nat" where "r_lo r = unat (pr_start r)"
definition r_hi :: "page_range \<Rightarrow> nat" where "r_hi r = unat (pr_start r) + unat (pr_npages r)"

definition range_pages :: "page_range \<Rightarrow> nat set" where
  "range_pages r = {r_lo r ..< r_hi r}"

definition pages_of :: "page_range list \<Rightarrow> nat set" where
  "pages_of rs = (\<Union>r\<in>set rs. range_pages r)"

text \<open>Physical addresses have at most 52 bits + 12 bits of offset: page numbers stay below \<open>2 ^ 52\<close>.\<close>

fun ranges_ok :: "nat \<Rightarrow> page_range list \<Rightarrow> bool" where
  "ranges_ok lo [] \<longleftrightarrow> True"
| "ranges_ok lo (r # rs) \<longleftrightarrow> lo \<le> r_lo r \<and> r_lo r < r_hi r \<and> r_hi r \<le> 2 ^ 52 \<and> ranges_ok (r_hi r) rs"

fun ranges_end :: "nat \<Rightarrow> page_range list \<Rightarrow> nat" where
  "ranges_end lo [] = lo"
| "ranges_end lo (r # rs) = ranges_end (r_hi r) rs"

lemma pages_of_simps [simp]:
  "pages_of [] = {}" "pages_of (r # rs) = range_pages r \<union> pages_of rs"
  "pages_of (xs @ ys) = pages_of xs \<union> pages_of ys"
  by (auto simp: pages_of_def)

lemma unat_pr_end: "r_hi r \<le> 2 ^ 52 \<Longrightarrow> unat (pr_end r) = r_hi r"
  by (simp add: pr_end_def r_hi_def unat_add_nowrap)

lemma ranges_ok_append:
  "ranges_ok lo (xs @ ys) \<longleftrightarrow> ranges_ok lo xs \<and> ranges_ok (ranges_end lo xs) ys"
  by (induction xs arbitrary: lo) auto

lemma ranges_end_append [simp]: "ranges_end lo (xs @ ys) = ranges_end (ranges_end lo xs) ys"
  by (induction xs arbitrary: lo) auto

lemma ranges_ok_mono: "ranges_ok lo rs \<Longrightarrow> lo' \<le> lo \<Longrightarrow> ranges_ok lo' rs"
  by (cases rs) auto

lemma ranges_ok_lower: "ranges_ok lo rs \<Longrightarrow> p \<in> pages_of rs \<Longrightarrow> lo \<le> p"
  by (induction rs arbitrary: lo) (fastforce simp: range_pages_def)+

lemma ranges_ok_set: "ranges_ok lo rs \<Longrightarrow> r \<in> set rs \<Longrightarrow> lo \<le> r_lo r \<and> r_lo r < r_hi r \<and> r_hi r \<le> 2 ^ 52"
  by (induction rs arbitrary: lo) fastforce+

lemma ranges_end_ge: "ranges_ok lo rs \<Longrightarrow> lo \<le> ranges_end lo rs"
  by (induction rs arbitrary: lo) force+

lemma ranges_ok_below_end: "ranges_ok lo rs \<Longrightarrow> p \<in> pages_of rs \<Longrightarrow> p < ranges_end lo rs"
proof (induction rs arbitrary: lo)
  case (Cons r rs)
  then show ?case using ranges_end_ge [of "r_hi r" rs] by (auto simp: range_pages_def)
qed simp


subsection \<open>Freeing\<close>

lemma coalesce_Some:
  assumes "coalesce a b = Some m" and "r_hi a \<le> r_lo b" and "r_lo b \<le> r_hi b" and "r_hi b \<le> 2 ^ 52"
  shows "r_lo m = r_lo a" and "r_hi m = r_hi b" and "r_hi a = r_lo b"
proof -
  from assms(1) have e: "pr_end a = pr_start b"
    and m: "m = a\<lparr>pr_npages := pr_npages a + pr_npages b\<rparr>"
    by (auto simp: coalesce_def split: if_splits)
  have "r_hi a \<le> 2 ^ 52" using assms by simp
  then have hi: "r_hi a = r_lo b" using e unat_pr_end [of a] by (simp add: r_lo_def)
  then have "unat (pr_npages a + pr_npages b) = unat (pr_npages a) + unat (pr_npages b)"
    using assms(4) by (intro unat_add_nowrap) (simp add: r_hi_def r_lo_def)
  then show "r_lo m = r_lo a" and "r_hi m = r_hi b" and "r_hi a = r_lo b"
    using hi by (simp_all add: m r_lo_def r_hi_def)
qed

lemma link_prior_ok:
  assumes "link_prior xs it = (xs', it')"
    and "ranges_ok lo xs" and "ranges_end lo xs \<le> r_lo it" and "r_lo it < r_hi it" and "r_hi it \<le> 2 ^ 52"
  shows "ranges_ok lo xs' \<and> ranges_end lo xs' \<le> r_lo it' \<and> r_lo it' < r_hi it' \<and> r_hi it' = r_hi it
    \<and> pages_of xs' \<union> range_pages it' = pages_of xs \<union> range_pages it"
proof (cases xs rule: rev_cases)
  case Nil
  then show ?thesis using assms by (simp add: link_prior_def)
next
  case (snoc ws a)
  have a: "ranges_ok lo ws" "ranges_end lo ws \<le> r_lo a" "r_lo a < r_hi a" "r_hi a \<le> r_lo it"
    using assms(2,3) by (auto simp: snoc ranges_ok_append)
  show ?thesis
  proof (cases "coalesce a it")
    case None
    then show ?thesis using assms by (auto simp: link_prior_def snoc)
  next
    case (Some m)
    note c = coalesce_Some [OF Some a(4) less_imp_le [OF assms(4)] assms(5)]
    have "xs' = ws" "it' = m" using assms(1) Some by (auto simp: link_prior_def snoc)
    moreover have "range_pages m = range_pages a \<union> range_pages it"
      using c a assms(4) by (auto simp: range_pages_def)
    ultimately show ?thesis using a c assms(4) by (auto simp: snoc)
  qed
qed

lemma link_next_ok:
  assumes "ranges_ok lo xs" and "ranges_end lo xs \<le> r_lo it" and "r_lo it < r_hi it"
    and "r_hi it \<le> 2 ^ 52" and "ranges_ok (r_hi it) ys"
  shows "ranges_ok lo (link_next xs it ys)
    \<and> pages_of (link_next xs it ys) = pages_of xs \<union> range_pages it \<union> pages_of ys"
proof (cases ys)
  case Nil
  then show ?thesis using assms by (auto simp: ranges_ok_append)
next
  case (Cons b bs)
  have b: "r_hi it \<le> r_lo b" "r_lo b < r_hi b" "r_hi b \<le> 2 ^ 52" "ranges_ok (r_hi b) bs"
    using assms(5) by (auto simp: Cons)
  show ?thesis
  proof (cases "coalesce it b")
    case None
    then show ?thesis using assms by (auto simp: ranges_ok_append Cons)
  next
    case (Some m)
    note c = coalesce_Some [OF Some b(1) less_imp_le [OF b(2)] b(3)]
    have "range_pages m = range_pages it \<union> range_pages b"
      using c b assms(3) by (auto simp: range_pages_def)
    then show ?thesis using assms b c Some by (auto simp: ranges_ok_append Cons)
  qed
qed

text \<open>The insertion point: everything before it ends below the new range, everything after starts above.\<close>

lemma ranges_split:
  assumes "ranges_ok lo rs" and "lo \<le> s" and "s < e" and "{s ..< e} \<inter> pages_of rs = {}"
    and "P = (\<lambda>x. r_lo x < s)"
  shows "ranges_end lo (takeWhile P rs) \<le> s \<and> ranges_ok e (dropWhile P rs)"
  using assms
proof (induction rs arbitrary: lo)
  case (Cons r rs)
  show ?case
  proof (cases "r_lo r < s")
    case True
    have "s \<notin> range_pages r" using Cons.prems(3,4) by auto
    then have "r_hi r \<le> s" using True by (simp add: range_pages_def)
    then show ?thesis using Cons True by (auto simp: Int_Un_distrib)
  next
    case False
    have in_r: "r_lo r \<in> range_pages r" using Cons.prems(1) by (simp add: range_pages_def)
    have "\<not> (s \<le> r_lo r \<and> r_lo r < e)" using in_r Cons.prems(4) by auto
    then have "e \<le> r_lo r" using False by simp
    then show ?thesis using Cons.prems False by simp
  qed
qed simp

lemma free_page_range_ok:
  assumes ok: "ranges_ok 0 rs" and lt: "start < stop" and hi: "unat stop \<le> 2 ^ 52"
    and disj: "{unat start ..< unat stop} \<inter> pages_of rs = {}"
  shows "\<exists>rs'. free_page_range start stop nid rs = Ok rs' \<and> ranges_ok 0 rs'
    \<and> pages_of rs' = pages_of rs \<union> {unat start ..< unat stop}"
proof -
  let ?P = "\<lambda>x. pr_start x < start"
  have P: "?P = (\<lambda>x. r_lo x < unat start)" by (simp add: r_lo_def word_less_nat_alt)
  let ?r = "\<lparr>pr_start = start, pr_npages = stop - start, pr_nid = nid\<rparr>"
  have se: "unat start < unat stop" using lt by (simp add: word_less_nat_alt)
  have r: "r_lo ?r = unat start" "r_hi ?r = unat stop"
    using lt se by (simp_all add: r_lo_def r_hi_def unat_sub_nowrap)
  have sp: "ranges_end 0 (takeWhile ?P rs) \<le> unat start" "ranges_ok (unat stop) (dropWhile ?P rs)"
    using ranges_split [OF ok _ se disj P] by auto
  have tw: "ranges_ok 0 (takeWhile ?P rs)"
    using ok ranges_ok_append [of 0 "takeWhile ?P rs" "dropWhile ?P rs"] by simp
  have ne: "dropWhile ?P rs = [] \<or> pr_start (hd (dropWhile ?P rs)) \<noteq> start"
    using sp(2) se by (cases "dropWhile ?P rs") (auto simp: r_lo_def)
  obtain xs' it where lp: "link_prior (takeWhile ?P rs) ?r = (xs', it)" by force
  note 1 = link_prior_ok [OF lp tw, unfolded r, OF sp(1) se hi]
  have 2: "ranges_ok 0 (link_next xs' it (dropWhile ?P rs)) \<and>
      pages_of (link_next xs' it (dropWhile ?P rs)) = pages_of xs' \<union> range_pages it \<union> pages_of (dropWhile ?P rs)"
    by (rule link_next_ok) (use 1 sp hi in auto)
  have "pages_of rs = pages_of (takeWhile ?P rs) \<union> pages_of (dropWhile ?P rs)"
    by (metis pages_of_simps(3) takeWhile_dropWhile_id)
  then show ?thesis using 1 2 ne lp
    by (auto simp: free_page_range_def Let_def range_pages_def r)
qed

text \<open>
  \<open>early_free_memory_range\<close> rounds the start up, and computes the end from
  \<open>begin + length - diff\<close> although the end of the range is \<open>begin + length\<close>.  It is
  exact on page-aligned starts, and safe (though it gives up pages at the top) as long as the
  range is at least twice as long as the part cut off at the bottom.
\<close>

lemma early_free_memory_range_aligned:
  assumes ok: "ranges_ok 0 rs" and al: "unat begin = 4096 * b"
    and hi: "unat begin + unat len + 4096 \<le> 2 ^ 64"
    and disj: "{b ..< (unat begin + unat len) div 4096} \<inter> pages_of rs = {}"
  shows "\<exists>rs'. early_free_memory_range begin len nid rs = Ok rs' \<and> ranges_ok 0 rs'
    \<and> pages_of rs' = pages_of rs \<union> {b ..< (unat begin + unat len) div 4096}"
proof -
  let ?e = "(unat begin + unat len) div 4096"
  have up: "unat (pfn_up begin) = b"
    using hi by (subst unat_pfn_up) (simp_all add: al)
  have "4096 * b < 4096 * 2 ^ 52" using hi al by simp
  then have b52: "b < 2 ^ 52" by simp
  have "unat (pfn_to_addr (pfn_up begin)) = unat begin"
    using b52 by (simp add: unat_pfn_to_addr up al)
  then have diff: "pfn_to_addr (pfn_up begin) - begin = 0" by (simp only: word_eq_unat [symmetric] diff_self)
  have "unat (begin + len) = unat begin + unat len" using hi by (intro unat_add_nowrap) simp
  then have down: "unat (pfn_down (begin + len)) = ?e" by (simp add: unat_pfn_down)
  show ?thesis
  proof (cases "?e = b")
    case True
    then have "pfn_down (begin + len) = pfn_up begin" by (simp add: word_eq_unat up down)
    then show ?thesis using True ok diff by (simp add: early_free_memory_range_def Let_def)
  next
    case False
    then have lt: "b < ?e" using al by (simp add: div_le_mono le_neq_implies_less)
    have "?e \<le> 2 ^ 52" using hi div_le_mono [of "unat begin + unat len" "2 ^ 64" 4096] by simp
    then have "\<exists>rs'. free_page_range (pfn_up begin) (pfn_down (begin + len)) nid rs = Ok rs'
      \<and> ranges_ok 0 rs' \<and> pages_of rs' = pages_of rs \<union> {b ..< ?e}"
      using free_page_range_ok [OF ok, of "pfn_up begin" "pfn_down (begin + len)" nid] lt disj
      by (simp add: up down word_less_nat_alt)
    moreover have "pfn_down (begin + len) \<noteq> pfn_up begin" using lt by (auto simp: word_eq_unat up down)
    ultimately show ?thesis using diff by (simp add: early_free_memory_range_def Let_def)
  qed
qed

subsection \<open>Allocating\<close>

lemma early_allocate_page_ok:
  assumes "early_allocate_page n nid rs = Ok (p, rs')" and "ranges_ok lo rs"
    and "\<And>r. r \<in> set rs \<Longrightarrow> unat n \<le> r_hi r"
  shows "ranges_ok lo rs' \<and> pages_of rs' = pages_of rs - {unat p ..< unat p + unat n}
    \<and> (\<exists>r\<in>set rs. {unat p ..< unat p + unat n} \<subseteq> range_pages r \<and> (nid = ANY_NID \<or> pr_nid r = nid)
         \<and> unat p + unat n = r_hi r)"
  using assms
proof (induction n nid rs arbitrary: lo p rs' rule: early_allocate_page.induct)
  case (2 n nid r rs)
  let ?n = "ucast n :: u64" let ?ret = "pr_end r - ?n"
  have r: "lo \<le> r_lo r" "r_lo r < r_hi r" "r_hi r \<le> 2 ^ 52" "ranges_ok (r_hi r) rs"
    using "2.prems"(2) by auto
  have n: "unat ?n = unat n" by (simp add: unat_ucast_up)
  have nr: "unat n \<le> r_hi r" using "2.prems"(3) by simp
  have ret: "unat ?ret = r_hi r - unat n"
    using nr by (subst unat_sub_nowrap) (simp_all only: word_le_nat_alt n unat_pr_end [OF r(3)])
  have out: "p \<notin> pages_of rs" if "p < r_hi r" for p
    using ranges_ok_lower [OF r(4)] that by force
  have skip: ?case if b: "bind_res (early_allocate_page n nid rs) (\<lambda>(p, rs'). Ok (p, r # rs')) = Ok (p, rs')"
    and IH: "\<And>p rs'. early_allocate_page n nid rs = Ok (p, rs') \<Longrightarrow> ranges_ok (r_hi r) rs' \<and>
      pages_of rs' = pages_of rs - {unat p ..< unat p + unat n} \<and> (\<exists>r\<in>set rs. {unat p ..< unat p + unat n}
        \<subseteq> range_pages r \<and> (nid = ANY_NID \<or> pr_nid r = nid) \<and> unat p + unat n = r_hi r)"
  proof -
    from b obtain rs1 where e: "early_allocate_page n nid rs = Ok (p, rs1)" and rs': "rs' = r # rs1"
      by (auto simp: bind_res_Ok_iff)
    note h = IH [OF e]
    then have sub: "{unat p ..< unat p + unat n} \<subseteq> pages_of rs" by (auto simp: pages_of_def)
    have "range_pages r \<inter> pages_of rs = {}" using out by (auto simp: range_pages_def)
    then show ?thesis using h sub r by (auto simp: rs')
  qed
  show ?case
  proof (cases "nid \<noteq> ANY_NID \<and> pr_nid r \<noteq> nid")
    case True
    then have b: "bind_res (early_allocate_page n nid rs) (\<lambda>(p, rs'). Ok (p, r # rs')) = Ok (p, rs')"
      using "2.prems"(1) by (auto simp: Let_def)
    show ?thesis
      by (rule skip [OF b]) (use "2.IH" "2.prems"(3) r(4) in auto)
  next
    case False
    show ?thesis
    proof (cases "?ret < pr_start r")
      case True
      have b: "bind_res (early_allocate_page n nid rs) (\<lambda>(p, rs'). Ok (p, r # rs')) = Ok (p, rs')"
        using "2.prems"(1) False True by (auto simp: Let_def)
      show ?thesis
        by (rule skip [OF b]) (use "2.IH" "2.prems"(3) r(4) in auto)
    next
      case ge: False
      then have lo: "r_lo r + unat n \<le> r_hi r"
        using nr by (simp add: word_le_nat_alt not_less ret r_lo_def)
      show ?thesis
      proof (cases "?ret = pr_start r")
        case True
        then have "r_lo r + unat n = r_hi r" using ret nr by (simp add: r_lo_def)
        moreover have p: "p = ?ret" "rs' = rs" using "2.prems"(1) False ge True by (auto simp: Let_def)
        moreover have "unat p = r_lo r" using True p by (simp add: r_lo_def)
        ultimately have rp: "range_pages r = {unat p ..< unat p + unat n}" "unat p + unat n = r_hi r"
          by (simp_all add: range_pages_def)
        have "pages_of rs \<inter> range_pages r = {}" using out by (auto simp: range_pages_def)
        moreover have "ranges_ok lo rs" using ranges_ok_mono [OF r(4)] r by simp
        ultimately show ?thesis using False rp by (auto simp: p(2))
      next
        case ne: False
        let ?r = "r\<lparr>pr_npages := pr_npages r - ?n\<rparr>"
        have p: "p = ?ret" "rs' = ?r # rs" using "2.prems"(1) False ge ne by (auto simp: Let_def)
        have "unat ?ret \<noteq> r_lo r" using ne by (simp add: word_eq_unat r_lo_def)
        then have lt: "r_lo r < r_hi r - unat n" using lo ret by simp
        have "?n \<le> pr_npages r" using lo by (simp add: word_le_nat_alt n r_lo_def r_hi_def)
        then have hi: "r_hi ?r = r_hi r - unat n" and "r_lo ?r = r_lo r"
          by (simp_all add: r_hi_def r_lo_def unat_sub_nowrap word_le_nat_alt n)
        then show ?thesis
          using False r lt lo nr out ranges_ok_mono [OF r(4)]
          by (auto simp: p ret range_pages_def)
      qed
    qed
  qed
qed simp

text \<open>It fails only when no range of the node is long enough.\<close>

lemma early_allocate_page_Fail:
  assumes "early_allocate_page n nid rs = Fail e" and "ranges_ok lo rs"
    and "\<And>r. r \<in> set rs \<Longrightarrow> unat n \<le> r_hi r"
    and "r \<in> set rs" and "nid = ANY_NID \<or> pr_nid r = nid"
  shows "r_hi r - r_lo r < unat n"
  using assms
proof (induction n nid rs arbitrary: lo rule: early_allocate_page.induct)
  case (2 n nid it rs)
  have it: "r_hi it \<le> 2 ^ 52" "ranges_ok (r_hi it) rs" "r_lo it < r_hi it" using "2.prems"(2) by auto
  have rec: "early_allocate_page n nid rs = Fail e"
    using "2.prems"(1) by (cases "early_allocate_page n nid rs") (auto simp: Let_def split: if_splits)
  show ?case
  proof (cases "r = it")
    case True
    have "\<not> (nid \<noteq> ANY_NID \<and> pr_nid it \<noteq> nid)" using "2.prems"(5) True by auto
    then have "pr_end it - ucast n < pr_start it"
      using "2.prems"(1) by (auto simp: Let_def split: if_splits)
    then have "r_hi it - unat n < r_lo it"
      using "2.prems"(3) [of it] it(1)
      by (simp add: word_less_nat_alt r_lo_def unat_sub_nowrap word_le_nat_alt unat_ucast_up unat_pr_end)
    then show ?thesis using True it(3) "2.prems"(3) [of it] by simp
  next
    case False
    have "\<And>x. x \<in> set rs \<Longrightarrow> unat n \<le> r_hi x" using "2.prems"(3) by simp
    moreover have "r \<in> set rs" using "2.prems"(4) False by simp
    ultimately show ?thesis
      using "2.IH" rec it(2) "2.prems"(5) by blast
  qed
qed simp

subsection \<open>Assigning NUMA nodes\<close>

text \<open>
  A range that extends beyond the assigned interval on both sides keeps its lower part and
  gets its middle part as a new node, but the part above the interval is in no node: the
  branch for a range that straddles the lower end never looks at the upper one.
\<close>

definition lost_tail :: "nat \<Rightarrow> nat \<Rightarrow> page_range list \<Rightarrow> nat set" where
  "lost_tail s e rs = (\<Union>r\<in>set rs. if r_lo r < s \<and> e < r_hi r then {e ..< r_hi r} else {})"

definition on_node :: "page_range list \<Rightarrow> nat \<Rightarrow> nid \<Rightarrow> bool" where
  "on_node rs p n \<longleftrightarrow> (\<exists>r\<in>set rs. p \<in> range_pages r \<and> pr_nid r = n)"

lemma lost_tail_simps [simp]:
  "lost_tail s e [] = {}"
  "lost_tail s e (r # rs) = (if r_lo r < s \<and> e < r_hi r then {e ..< r_hi r} else {}) \<union> lost_tail s e rs"
  by (simp_all add: lost_tail_def)

lemma on_node_simps [simp]:
  "on_node [] p n \<longleftrightarrow> False"
  "on_node (r # rs) p n \<longleftrightarrow> p \<in> range_pages r \<and> pr_nid r = n \<or> on_node rs p n"
  by (auto simp: on_node_def)

lemma lost_tail_none: "ranges_ok s rs \<Longrightarrow> lost_tail s e rs = {}"
  using ranges_ok_set by (fastforce simp: lost_tail_def)

lemma lost_tail_above:
  assumes "ranges_ok lo rs" and "s \<le> e" and "p \<in> lost_tail s e rs"
  shows "lo \<le> p"
proof -
  obtain r where "r \<in> set rs" "r_lo r < s" "e \<le> p"
    using assms(3) by (auto simp: lost_tail_def split: if_splits)
  then show ?thesis using ranges_ok_set [OF assms(1), of r] assms(2) by linarith
qed

lemma on_node_lower: "on_node rs p n \<Longrightarrow> ranges_ok lo rs \<Longrightarrow> lo \<le> p"
  using ranges_ok_lower by (fastforce simp: on_node_def pages_of_def)

definition set_nid_spec :: "nat \<Rightarrow> nat \<Rightarrow> nid \<Rightarrow> page_range list \<Rightarrow> page_range list \<Rightarrow> bool" where
  "set_nid_spec s e nid rs rs' \<longleftrightarrow> pages_of rs' = pages_of rs - lost_tail s e rs
    \<and> (\<forall>p\<in>pages_of rs'. p \<in> {s ..< e} \<longrightarrow> on_node rs' p nid)
    \<and> (\<forall>p\<in>pages_of rs'. \<forall>n. p \<notin> {s ..< e} \<longrightarrow> on_node rs p n \<longrightarrow> on_node rs' p n \<or> on_node rs' p ANY_NID)"

lemma set_nid_spec_Cons:
  assumes "set_nid_spec s e nid rs rs'" and "ranges_ok (r_hi it) rs" and "s \<le> e"
    and rp: "range_pages it' = range_pages it"
    and "r_hi it \<le> s \<and> pr_nid it' = pr_nid it \<or> s \<le> r_lo it \<and> r_hi it \<le> e \<and> pr_nid it' = nid"
  shows "set_nid_spec s e nid (it # rs) (it' # rs')"
proof -
  have d: "range_pages it \<inter> lost_tail s e rs = {}"
    using lost_tail_above [OF assms(2,3)] by (fastforce simp: range_pages_def)
  have l: "lost_tail s e (it # rs) = lost_tail s e rs" using assms(3,5) by auto
  have i: "p \<in> range_pages it \<Longrightarrow> p \<in> {s ..< e} \<Longrightarrow> pr_nid it' = nid"
    and o: "p \<in> range_pages it \<Longrightarrow> p \<notin> {s ..< e} \<Longrightarrow> pr_nid it' = pr_nid it" for p
    using assms(5) by (auto simp: range_pages_def)
  show ?thesis
    unfolding set_nid_spec_def l pages_of_simps on_node_simps rp
  proof (intro conjI ballI allI impI)
    show "range_pages it \<union> pages_of rs' = range_pages it \<union> pages_of rs - lost_tail s e rs"
      using assms(1) d by (auto simp: set_nid_spec_def)
  next
    fix p assume "p \<in> range_pages it \<union> pages_of rs'" "p \<in> {s ..< e}"
    then show "p \<in> range_pages it \<and> pr_nid it' = nid \<or> on_node rs' p nid"
      using assms(1) i unfolding set_nid_spec_def by blast
  next
    fix p n assume h: "p \<in> range_pages it \<union> pages_of rs'" "p \<notin> {s ..< e}"
      "p \<in> range_pages it \<and> pr_nid it = n \<or> on_node rs p n"
    show "(p \<in> range_pages it \<and> pr_nid it' = n \<or> on_node rs' p n) \<or>
        (p \<in> range_pages it \<and> pr_nid it' = ANY_NID \<or> on_node rs' p ANY_NID)"
    proof (cases "p \<in> range_pages it")
      case True
      then have "\<not> on_node rs p n"
        using on_node_lower [OF _ assms(2)] by (force simp: range_pages_def)
      then show ?thesis using h o True by blast
    next
      case False
      then show ?thesis using h assms(1) unfolding set_nid_spec_def by blast
    qed
  qed
qed

lemma set_nid_spec_lower:
  assumes h: "set_nid_spec s e nid (new # rs) res" and ok: "ranges_ok (r_hi it) rs" and "s < e"
    and it: "r_lo it < s" "s < r_hi it"
    and new: "r_lo new = s" "r_hi new = min e (r_hi it)"
    and it': "r_lo it' = r_lo it" "r_hi it' = s" "pr_nid it' = pr_nid it"
  shows "set_nid_spec s e nid (it # rs) (it' # res)"
proof -
  have lt: "lost_tail s e rs = {}" using lost_tail_none [OF ranges_ok_mono [OF ok]] it by simp
  have out: "q \<in> pages_of rs \<Longrightarrow> r_hi it \<le> q" for q using ranges_ok_lower [OF ok] by blast
  have res: "pages_of res = range_pages new \<union> pages_of rs" using h new lt by (simp add: set_nid_spec_def)
  have split: "q \<in> range_pages it \<longleftrightarrow> q \<in> range_pages it' \<or> q \<in> range_pages new \<or> e \<le> q \<and> q < r_hi it" for q
    using it new it' \<open>s < e\<close> by (auto simp: range_pages_def)
  show ?thesis
    unfolding set_nid_spec_def pages_of_simps on_node_simps res
  proof (intro conjI ballI allI impI)
    have dj: "q < e \<or> r_hi it \<le> q" if "q \<in> range_pages it' \<union> (range_pages new \<union> pages_of rs)" for q
      using that out it it' new \<open>s < e\<close> by (auto simp: range_pages_def)
    show "range_pages it' \<union> (range_pages new \<union> pages_of rs) =
        range_pages it \<union> pages_of rs - lost_tail s e (it # rs)" (is "?L = ?R")
    proof (rule set_eqI)
      fix q
      have "q \<in> lost_tail s e (it # rs) \<longleftrightarrow> e \<le> q \<and> q < r_hi it" using it lt by auto
      then show "q \<in> ?L \<longleftrightarrow> q \<in> ?R" using split [of q] dj [of q] by (auto dest: leD)
    qed
  next
    fix q assume "q \<in> range_pages it' \<union> (range_pages new \<union> pages_of rs)" and q: "q \<in> {s ..< e}"
    moreover have "q \<notin> range_pages it'" using q it' by (simp add: range_pages_def)
    ultimately show "q \<in> range_pages it' \<and> pr_nid it' = nid \<or> on_node res q nid"
      using h res unfolding set_nid_spec_def by blast
  next
    fix q n assume 1: "q \<in> range_pages it' \<union> (range_pages new \<union> pages_of rs)" and 2: "q \<notin> {s ..< e}"
      and 3: "q \<in> range_pages it \<and> pr_nid it = n \<or> on_node rs q n"
    have nn: "q \<notin> range_pages new" using 2 new by (auto simp: range_pages_def)
    show "(q \<in> range_pages it' \<and> pr_nid it' = n \<or> on_node res q n) \<or>
        (q \<in> range_pages it' \<and> pr_nid it' = ANY_NID \<or> on_node res q ANY_NID)"
    proof (cases "q \<in> range_pages it'")
      case True
      then have "\<not> on_node rs q n" using on_node_lower [OF _ ok] it it' by (force simp: range_pages_def)
      then show ?thesis using 3 True it'(3) by blast
    next
      case False
      then have rs: "q \<in> pages_of rs" using 1 nn by blast
      then have "q \<notin> range_pages it" using out by (force simp: range_pages_def)
      then have "on_node rs q n" using 3 by blast
      then show ?thesis using h 2 rs res unfolding set_nid_spec_def on_node_simps by blast
    qed
  qed
qed

lemma set_nid_spec_upper:
  assumes h: "set_nid_spec s e nid (new # rs) res" and ok: "ranges_ok (r_hi it) rs" and "s < e"
    and it: "s \<le> r_lo it" "r_lo it < e" "e < r_hi it"
    and new: "r_lo new = e" "r_hi new = r_hi it" "pr_nid new = ANY_NID"
    and it': "r_lo it' = r_lo it" "r_hi it' = e" "pr_nid it' = nid"
  shows "set_nid_spec s e nid (it # rs) (it' # res)"
proof -
  have lt: "lost_tail s e rs = {}" using lost_tail_none [OF ranges_ok_mono [OF ok]] it by simp
  have out: "q \<in> pages_of rs \<Longrightarrow> r_hi it \<le> q" for q using ranges_ok_lower [OF ok] by blast
  have res: "pages_of res = range_pages new \<union> pages_of rs"
    using h new lt \<open>s < e\<close> by (simp add: set_nid_spec_def)
  have split: "range_pages it = range_pages it' \<union> range_pages new"
    using it new it' by (auto simp: range_pages_def)
  show ?thesis
    unfolding set_nid_spec_def pages_of_simps on_node_simps res split
  proof (intro conjI ballI allI impI)
    show "range_pages it' \<union> (range_pages new \<union> pages_of rs) =
        range_pages it' \<union> range_pages new \<union> pages_of rs - lost_tail s e (it # rs)"
      using it lt by auto
  next
    fix q assume 1: "q \<in> range_pages it' \<union> (range_pages new \<union> pages_of rs)" and q: "q \<in> {s ..< e}"
    have "q \<notin> range_pages new" "q \<notin> pages_of rs"
      using q new out it by (force simp: range_pages_def)+
    then show "q \<in> range_pages it' \<and> pr_nid it' = nid \<or> on_node res q nid"
      using 1 it'(3) by blast
  next
    fix q n assume 1: "q \<in> range_pages it' \<union> (range_pages new \<union> pages_of rs)" and 2: "q \<notin> {s ..< e}"
      and 3: "q \<in> range_pages it' \<union> range_pages new \<and> pr_nid it = n \<or> on_node rs q n"
    have "q \<notin> range_pages it'" using 2 it it' by (auto simp: range_pages_def)
    then have q: "q \<in> pages_of res" "on_node (new # rs) q ANY_NID \<or> on_node rs q n"
      using 1 3 new(3) res by auto
    then show "(q \<in> range_pages it' \<and> pr_nid it' = n \<or> on_node res q n) \<or>
        (q \<in> range_pages it' \<and> pr_nid it' = ANY_NID \<or> on_node res q ANY_NID)"
      using h 2 unfolding set_nid_spec_def on_node_simps(2) by blast
  qed
qed

lemma early_set_nid_range_spec:
  assumes "ranges_ok lo rs" and "unat start < unat stop" and "unat stop \<le> 2 ^ 52"
  shows "ranges_ok lo (early_set_nid_range start stop nid rs) \<and>
    set_nid_spec (unat start) (unat stop) nid rs (early_set_nid_range start stop nid rs)"
  using assms
proof (induction start stop nid rs arbitrary: lo rule: early_set_nid_range.induct)
  case (1 start stop nid)
  then show ?case by (simp add: set_nid_spec_def)
next
  case (2 start stop nid it rs)
  let ?s = "unat start" let ?e = "unat stop"
  let ?new1 = "\<lparr>pr_start = start, pr_npages = min stop (pr_end it) - start, pr_nid = nid\<rparr>"
  let ?new2 = "\<lparr>pr_start = stop, pr_npages = pr_end it - stop, pr_nid = ANY_NID\<rparr>"
  have it: "lo \<le> r_lo it" "r_lo it < r_hi it" "r_hi it \<le> 2 ^ 52" "ranges_ok (r_hi it) rs"
    using "2.prems"(1) by auto
  note se = "2.prems"(2)
  have cmp: "pr_end it \<le> start \<longleftrightarrow> r_hi it \<le> ?s" "stop \<le> pr_start it \<longleftrightarrow> ?e \<le> r_lo it"
    "pr_start it < start \<longleftrightarrow> r_lo it < ?s" "start < pr_end it \<longleftrightarrow> ?s < r_hi it"
    "pr_start it < stop \<longleftrightarrow> r_lo it < ?e" "stop < pr_end it \<longleftrightarrow> ?e < r_hi it"
    by (simp_all add: word_le_nat_alt word_less_nat_alt unat_pr_end [OF it(3)] r_lo_def)
  have out: "\<And>p. p \<in> pages_of rs \<Longrightarrow> r_hi it \<le> p" using ranges_ok_lower it(4) by blast
  have nout: "\<And>p n. on_node rs p n \<Longrightarrow> r_hi it \<le> p" using on_node_lower it(4) by blast
  consider (below) "r_hi it \<le> ?s" | (above) "?s < r_hi it" "?e \<le> r_lo it"
    | (lower) "r_lo it < ?s" "?s < r_hi it"
    | (upper) "?s \<le> r_lo it" "r_lo it < ?e" "?e < r_hi it"
    | (inside) "?s \<le> r_lo it" "r_lo it < ?e" "r_hi it \<le> ?e"
    by linarith
  then show ?case
  proof cases
    case below
    have IH: "ranges_ok (r_hi it) (early_set_nid_range start stop nid rs) \<and>
        set_nid_spec ?s ?e nid rs (early_set_nid_range start stop nid rs)"
      using "2.IH"(1) below cmp it(4) "2.prems"(2,3) by simp
    have e: "early_set_nid_range start stop nid (it # rs) = it # early_set_nid_range start stop nid rs"
      using below by (simp add: cmp)
    show ?thesis unfolding e
      using IH it below se by (auto intro!: set_nid_spec_Cons)
  next
    case above
    have e: "early_set_nid_range start stop nid (it # rs) = it # rs"
      using above by (simp add: cmp)
    have "lost_tail ?s ?e rs = {}" using lost_tail_none ranges_ok_mono it(4) above se by (meson less_imp_le)
    moreover have "\<And>p. p \<in> pages_of (it # rs) \<Longrightarrow> p \<notin> {?s ..< ?e}"
      using above(2) out it(2) by (force simp: range_pages_def)
    ultimately have "set_nid_spec ?s ?e nid (it # rs) (it # rs)"
      using above se by (auto simp: set_nid_spec_def)
    then show ?thesis unfolding e using "2.prems"(1) by simp
  next
    case lower
    let ?it = "it\<lparr>pr_npages := start - pr_start it\<rparr>"
    let ?res = "early_set_nid_range start stop nid (?new1 # rs)"
    have e: "early_set_nid_range start stop nid (it # rs) = ?it # ?res"
      using lower se by (simp add: cmp Let_def not_le)
    have mn: "unat (min stop (pr_end it)) = min ?e (r_hi it)"
      by (simp add: min_def word_le_nat_alt unat_pr_end [OF it(3)])
    have "start \<le> min stop (pr_end it)"
      using lower se unfolding word_le_nat_alt mn by simp
    then have n: "r_lo ?new1 = ?s" "r_hi ?new1 = min ?e (r_hi it)"
      using lower se by (simp_all add: r_lo_def r_hi_def unat_sub_nowrap mn)
    have i: "r_lo ?it = r_lo it" "r_hi ?it = ?s"
      using lower by (simp_all add: r_lo_def r_hi_def unat_sub_nowrap word_le_nat_alt)
    have IH: "ranges_ok ?s ?res \<and> set_nid_spec ?s ?e nid (?new1 # rs) ?res"
      using "2.IH"(2) [where lo = "?s", OF _ _ _ refl refl] lower n se it "2.prems"(3) ranges_ok_mono [OF it(4)]
      by (auto simp: cmp not_le)
    have "set_nid_spec ?s ?e nid (it # rs) (?it # ?res)"
      using set_nid_spec_lower [of ?s ?e nid ?new1 rs ?res it ?it] IH it(4) se lower n i by simp
    then show ?thesis unfolding e using IH i lower it by simp
  next
    case upper
    let ?it = "it\<lparr>pr_npages := stop - pr_start it, pr_nid := nid\<rparr>"
    let ?res = "early_set_nid_range start stop nid (?new2 # rs)"
    have e: "early_set_nid_range start stop nid (it # rs) = ?it # ?res"
      using upper se by (simp add: cmp Let_def not_le)
    have n: "r_lo ?new2 = ?e" "r_hi ?new2 = r_hi it"
      using upper it(3) by (simp_all add: r_lo_def r_hi_def unat_sub_nowrap word_le_nat_alt unat_pr_end [OF it(3)])
    have i: "r_lo ?it = r_lo it" "r_hi ?it = ?e"
      using upper by (simp_all add: r_lo_def r_hi_def unat_sub_nowrap word_le_nat_alt)
    have IH: "ranges_ok ?e ?res \<and> set_nid_spec ?s ?e nid (?new2 # rs) ?res"
      using "2.IH"(3) [where lo = "?e", OF _ _ _ _ refl] upper n se it "2.prems"(3)
      by (auto simp: cmp not_le not_less)
    have "set_nid_spec ?s ?e nid (it # rs) (?it # ?res)"
      using set_nid_spec_upper [of ?s ?e nid ?new2 rs ?res it ?it] IH it(4) se upper n i by simp
    then show ?thesis unfolding e using IH i upper it by simp
  next
    case inside
    let ?it = "it\<lparr>pr_nid := nid\<rparr>"
    have IH: "ranges_ok (r_hi it) (early_set_nid_range start stop nid rs) \<and>
        set_nid_spec ?s ?e nid rs (early_set_nid_range start stop nid rs)"
      using "2.IH"(4) inside it(2,4) "2.prems"(2,3) by (simp add: cmp not_le not_less)
    have e: "early_set_nid_range start stop nid (it # rs) = ?it # early_set_nid_range start stop nid rs"
      using inside it(2) by (simp add: cmp Let_def)
    have i: "r_lo ?it = r_lo it" "r_hi ?it = r_hi it" by (simp_all add: r_lo_def r_hi_def)
    show ?thesis unfolding e
      using IH it inside se i by (auto intro!: set_nid_spec_Cons simp: range_pages_def)
  qed
qed

subsection \<open>The early allocator as a source of pages\<close>

lemma early_one_page: "ranges_ok lo rs \<Longrightarrow> r \<in> set rs \<Longrightarrow> unat (1 :: u32) \<le> r_hi r"
  using ranges_ok_set by fastforce

interpretation early: page_source "early_allocate_page 1 nid" pages_of "ranges_ok 0"
proof
  fix rs p rs'
  assume ok: "ranges_ok 0 rs" and a: "early_allocate_page 1 nid rs = Ok (p, rs')"
  note h = early_allocate_page_ok [OF a ok early_one_page [OF ok]]
  then obtain r where r: "r \<in> set rs" "unat p \<in> range_pages r" "unat p < r_hi r" by auto
  then have "unat p \<in> pages_of rs" by (auto simp: pages_of_def)
  moreover have "unat p < 2 ^ 52" using ranges_ok_set [OF ok r(1)] r(3) by linarith
  ultimately show "ranges_ok 0 rs' \<and> unat p \<in> pages_of rs \<and> pages_of rs' = pages_of rs - {unat p}
      \<and> unat p < 2 ^ 52"
    using h by (auto simp: atLeastLessThanSuc)
qed

subsection \<open>Properties\<close>

text \<open>C28: Freeing an interval of pages that is not free yet succeeds, keeps the set of ranges
  well formed (ordered, non-empty, disjoint) and adds exactly the interval to the free pages,
  whatever coalescing happens on either side.\<close>

theorem free_page_range_correct:
  assumes "ranges_ok 0 rs" and "start < stop" and "unat stop \<le> 2 ^ 52"
    and "{unat start ..< unat stop} \<inter> pages_of rs = {}"
  shows "\<exists>rs'. free_page_range start stop nid rs = Ok rs' \<and> ranges_ok 0 rs'
    \<and> pages_of rs' = pages_of rs \<union> {unat start ..< unat stop}"
  using assms by (rule free_page_range_ok)

theorem free_page_range_correct_witness:
  "\<exists>rs'. free_page_range 20 30 ANY_NID [\<lparr>pr_start = 10, pr_npages = 10, pr_nid = ANY_NID\<rparr>,
       \<lparr>pr_start = 30, pr_npages = 2, pr_nid = ANY_NID\<rparr>] = Ok rs' \<and> ranges_ok 0 rs'
    \<and> pages_of rs' = {10 ..< 20} \<union> {30 ..< 32} \<union> {20 ..< 30}"
proof -
  have "{20 ..< 30} \<inter> ({10 ..< 20} \<union> {30 ..< 32}) = ({} :: nat set)" by auto
  then show ?thesis
    using free_page_range_correct [of "[\<lparr>pr_start = 10, pr_npages = 10, pr_nid = ANY_NID\<rparr>,
      \<lparr>pr_start = 30, pr_npages = 2, pr_nid = ANY_NID\<rparr>]" 20 30 ANY_NID]
    by (simp add: r_lo_def r_hi_def range_pages_def)
qed

text \<open>C31: The early allocator hands out the top \<open>npages\<close> pages of the first range of the
  requested node that is long enough: they were free, they are consecutive inside one range of
  that node, exactly they leave the free set, and the ranges stay well formed.  It aborts only
  when no range of that node is long enough.  (The hypothesis on the range ends excludes the
  wrap-around of \<open>end() - npages\<close>.)\<close>

theorem early_allocate_page_correct:
  assumes "ranges_ok 0 rs" and "\<forall>r\<in>set rs. unat n \<le> r_hi r"
  shows "case early_allocate_page n nid rs of
      Ok (p, rs') \<Rightarrow> ranges_ok 0 rs' \<and> pages_of rs' = pages_of rs - {unat p ..< unat p + unat n}
        \<and> (\<exists>r\<in>set rs. {unat p ..< unat p + unat n} \<subseteq> range_pages r
             \<and> (nid = ANY_NID \<or> pr_nid r = nid) \<and> unat p + unat n = r_hi r)
    | Fail e \<Rightarrow> \<forall>r\<in>set rs. nid = ANY_NID \<or> pr_nid r = nid \<longrightarrow> r_hi r - r_lo r < unat n"
  using early_allocate_page_ok [where lo = 0, OF _ assms(1)]
    early_allocate_page_Fail [where lo = 0, OF _ assms(1)] assms(2)
  by (simp split: res.split)

theorem early_allocate_page_correct_witness:
  "early_allocate_page 4 1 [\<lparr>pr_start = 10, pr_npages = 10, pr_nid = 0\<rparr>,
      \<lparr>pr_start = 30, pr_npages = 8, pr_nid = 1\<rparr>]
     = Ok (34, [\<lparr>pr_start = 10, pr_npages = 10, pr_nid = 0\<rparr>, \<lparr>pr_start = 30, pr_npages = 4, pr_nid = 1\<rparr>])
   \<and> pages_of [\<lparr>pr_start = 10, pr_npages = 10, pr_nid = 0\<rparr>, \<lparr>pr_start = 30, pr_npages = 4, pr_nid = 1\<rparr>]
     = {10 ..< 20} \<union> {30 ..< 38} - {34 ..< 38}"
  using early_allocate_page_correct [of "[\<lparr>pr_start = 10, pr_npages = 10, pr_nid = 0\<rparr>,
      \<lparr>pr_start = 30, pr_npages = 8, pr_nid = 1\<rparr>]" 4 1]
  by (simp add: r_lo_def r_hi_def range_pages_def ANY_NID_def MAX_NUMA_NODES_def pr_end_def)

text \<open>Assigning a node to an interval keeps the ranges well formed, gives every free page
  inside the interval that node and leaves the others on their node or on none; the pages that
  survive are all the free pages except the part above the interval of a range that extends
  beyond it on both sides, which the code drops from the free set.\<close>

theorem early_set_nid_range_correct:
  assumes "ranges_ok 0 rs" and "start < stop" and "unat stop \<le> 2 ^ 52"
  shows "ranges_ok 0 (early_set_nid_range start stop nid rs) \<and>
    set_nid_spec (unat start) (unat stop) nid rs (early_set_nid_range start stop nid rs)"
  using assms by (intro early_set_nid_range_spec) (simp_all add: word_less_nat_alt)

theorem early_set_nid_range_correct_witness:
  "early_set_nid_range 12 16 1 [\<lparr>pr_start = 10, pr_npages = 10, pr_nid = ANY_NID\<rparr>]
     = [\<lparr>pr_start = 10, pr_npages = 2, pr_nid = ANY_NID\<rparr>, \<lparr>pr_start = 12, pr_npages = 4, pr_nid = 1\<rparr>]
   \<and> pages_of (early_set_nid_range 12 16 1 [\<lparr>pr_start = 10, pr_npages = 10, pr_nid = ANY_NID\<rparr>])
     = {10 ..< 20} - {16 ..< 20}"
  using early_set_nid_range_correct [of "[\<lparr>pr_start = 10, pr_npages = 10, pr_nid = ANY_NID\<rparr>]" 12 16 1]
  by (simp add: r_lo_def r_hi_def range_pages_def set_nid_spec_def pr_end_def min_def)

text \<open>Two closed facts on inputs the hypotheses above exclude.  An unaligned range that is
  shorter than twice the part cut off is given an end below its start, and a node of
  \<open>2 ^ 64 - 1\<close> pages enters the set; a request longer than the end of the first range makes
  \<open>end() - npages\<close> wrap around, and the allocator returns a page outside every range.\<close>

lemma early_free_memory_range_underflow:
  "early_free_memory_range 0x1001 0x1000 ANY_NID [] = Ok [\<lparr>pr_start = 2, pr_npages = - 1, pr_nid = ANY_NID\<rparr>]"
  by (simp add: early_free_memory_range_def pfn_up_def pfn_down_def pfn_to_addr_def PAGE_SHIFT_def
      PAGE_SIZE_eq Let_def free_page_range_def link_prior_def)

lemma early_allocate_page_underflow:
  "early_allocate_page 4 ANY_NID [\<lparr>pr_start = 1, pr_npages = 1, pr_nid = ANY_NID\<rparr>]
     = Ok (- 2, [\<lparr>pr_start = 1, pr_npages = - 3, pr_nid = ANY_NID\<rparr>])"
  by (simp add: pr_end_def)

end
