(* ===== verification/Mem_Map.thy ===== *)
theory Mem_Map
  imports Early_Pages
begin

text \<open>
  \<open>sys/numa.hpp\<close>, \<open>sys/numa.cpp\<close>, \<open>sys/mem_map.hpp\<close>, \<open>sys/mem_map.cpp\<close>: the NUMA nodes
  and their memory blocks, and the sparse map from page frames to their \<open>struct page\<close>.
  Physical memory is divided into sections of \<open>2 ^ 15\<close> frames; a section's single word holds
  first its node, then the (biased) address of its array of \<open>struct page\<close>.  The size of
  \<open>struct page\<close> depends on the library's hook types and is the parameter \<open>psz\<close>.
\<close>

subsection \<open>NUMA nodes\<close>

record numa_memblock =
  mb_start :: pfn
  mb_end :: pfn
  mb_nid :: nid

record numa_node =
  nn_memblocks :: "numa_memblock list"
  nn_pfn_start :: pfn
  nn_pfn_end :: pfn

fun set_nid_blocks :: "numa_memblock list \<Rightarrow> page_range list \<Rightarrow> page_range list" where
  "set_nid_blocks [] rs = rs"
| "set_nid_blocks (b # bs) rs = set_nid_blocks bs (early_set_nid_range (mb_start b) (mb_end b) (mb_nid b) rs)"

fun numa_init :: "numa_node list \<Rightarrow> page_range list \<Rightarrow> numa_node list \<times> page_range list" where
  "numa_init [] rs = ([], rs)"
| "numa_init (node # nodes) rs =
     (let blocks = sort_key mb_start (nn_memblocks node);
          rs1 = set_nid_blocks blocks rs;
          node' = (if blocks = []
                   then node\<lparr>nn_memblocks := blocks, nn_pfn_start := 0, nn_pfn_end := 0\<rparr>
                   else node\<lparr>nn_memblocks := blocks, nn_pfn_start := mb_start (hd blocks),
                             nn_pfn_end := mb_end (last blocks)\<rparr>);
          (nodes', rs') = numa_init nodes rs1
      in (node' # nodes', rs'))"

subsection \<open>Memory sections\<close>

definition SECTION_SIZE_BITS :: nat where "SECTION_SIZE_BITS = 27"
definition PFN_SECTION_SHIFT :: nat where "PFN_SECTION_SHIFT = SECTION_SIZE_BITS - PAGE_SHIFT"
definition PAGES_PER_SECTION :: u64 where "PAGES_PER_SECTION = push_bit PFN_SECTION_SHIFT 1"
definition PAGE_SECTION_MASK :: u64 where "PAGE_SECTION_MASK = NOT (PAGES_PER_SECTION - 1)"
definition NUM_MEM_SECTIONS :: nat where "NUM_MEM_SECTIONS = 2 ^ (46 - SECTION_SIZE_BITS)"

definition PRESENT :: u64 where "PRESENT = 1"
definition HAS_MEM_MAP :: u64 where "HAS_MEM_MAP = 2"
definition MAP_MASK :: u64 where "MAP_MASK = NOT 3"

definition present :: "u64 \<Rightarrow> bool" where "present mem_map \<longleftrightarrow> mem_map AND PRESENT \<noteq> 0"
definition valid :: "u64 \<Rightarrow> bool" where "valid mem_map \<longleftrightarrow> mem_map AND MAP_MASK \<noteq> 0"
definition map_addr :: "u64 \<Rightarrow> u64" where "map_addr mem_map = mem_map AND MAP_MASK"

definition set_early_nid :: "nid \<Rightarrow> u64" where
  "set_early_nid nid = push_bit 2 (word_of_int nid) OR PRESENT"

definition early_get_nid :: "u64 \<Rightarrow> nid" where
  "early_get_nid mem_map = sint (ucast (drop_bit 2 mem_map) :: u32)"

definition set_map :: "u64 \<Rightarrow> u64 \<Rightarrow> nat \<Rightarrow> u64" where
  "set_map psz addr index = (addr - of_nat index * PAGES_PER_SECTION * psz) OR PRESENT OR HAS_MEM_MAP"

text \<open>Pointer arithmetic on \<open>page *\<close>: the address of the \<open>struct page\<close> of a frame.\<close>

definition get_page :: "u64 \<Rightarrow> u64 \<Rightarrow> pfn \<Rightarrow> u64" where
  "get_page psz mem_map pfn = map_addr mem_map + pfn * psz"

definition pfn_to_section_num :: "pfn \<Rightarrow> nat" where
  "pfn_to_section_num pfn = unat (drop_bit PFN_SECTION_SHIFT pfn)"

definition pfn_to_page :: "u64 \<Rightarrow> (nat \<Rightarrow> u64) \<Rightarrow> pfn \<Rightarrow> u64 option res" where
  "pfn_to_page psz sections pfn =
     defined (pfn_to_section_num pfn < NUM_MEM_SECTIONS)
       (let section = sections (pfn_to_section_num pfn)
        in if \<not> valid section \<or> \<not> present section then Ok None
           else Ok (Some (get_page psz section pfn)))"

definition addr_to_page :: "u64 \<Rightarrow> (nat \<Rightarrow> u64) \<Rightarrow> u64 \<Rightarrow> u64 option res" where
  "addr_to_page psz sections addr = pfn_to_page psz sections (pfn_down addr)"

subsection \<open>\<open>mem_map_init\<close>\<close>

text \<open>First loop: every section that a memory block touches becomes present.\<close>

function mark_sections :: "nid \<Rightarrow> pfn \<Rightarrow> pfn \<Rightarrow> (nat \<Rightarrow> u64) \<Rightarrow> (nat \<Rightarrow> u64) res" where
  "mark_sections nid pfn stop secs =
     (if pfn < stop
      then let n = pfn_to_section_num pfn
           in defined (n < NUM_MEM_SECTIONS)
                (mark_sections nid (pfn + PAGES_PER_SECTION) stop
                   (if present (secs n) then secs else secs(n := set_early_nid nid)))
      else Ok secs)"
  by pat_completeness auto

lemma section_consts:
  "PFN_SECTION_SHIFT = 15" "PAGES_PER_SECTION = 32768" "NUM_MEM_SECTIONS = 2 ^ 19"
  "PAGE_SECTION_MASK = NOT (mask 15)"
  by (simp_all add: PFN_SECTION_SHIFT_def SECTION_SIZE_BITS_def PAGE_SHIFT_def PAGES_PER_SECTION_def
      NUM_MEM_SECTIONS_def PAGE_SECTION_MASK_def mask_eq_exp_minus_1)

lemma section_num: "pfn_to_section_num p = unat p div 2 ^ 15"
  by (simp only: pfn_to_section_num_def section_consts unat_drop_bit_word)

lemma section_bound: "pfn_to_section_num p < NUM_MEM_SECTIONS \<Longrightarrow> unat p < 2 ^ 34"
  by (simp add: section_num section_consts)

lemma next_section:
  assumes "pfn_to_section_num p < NUM_MEM_SECTIONS"
  shows "unat (p + PAGES_PER_SECTION) = unat p + 2 ^ 15"
  using section_bound [OF assms] by (simp add: section_consts unat_add_nowrap)

termination mark_sections
proof (relation "measure (\<lambda>(n, p, s, secs). 2 ^ 64 - unat p)")
  fix p x assume "x = pfn_to_section_num p" and h: "x < NUM_MEM_SECTIONS"
  then have "unat p < 2 ^ 34" "unat (p + PAGES_PER_SECTION) = unat p + 2 ^ 15"
    using section_bound next_section by blast+
  then show "((nid, p + PAGES_PER_SECTION, stop, secs'), nid, p, stop, secs)
      \<in> measure (\<lambda>(n, p, s, secs). 2 ^ 64 - unat p)" for nid stop secs' and secs :: "nat \<Rightarrow> u64"
    by simp
qed simp

definition mark_block :: "numa_memblock \<Rightarrow> (nat \<Rightarrow> u64) \<Rightarrow> (nat \<Rightarrow> u64) res" where
  "mark_block b secs = mark_sections (mb_nid b) (mb_start b AND PAGE_SECTION_MASK) (mb_end b) secs"

fun mark_blocks :: "numa_memblock list \<Rightarrow> (nat \<Rightarrow> u64) \<Rightarrow> (nat \<Rightarrow> u64) res" where
  "mark_blocks [] secs = Ok secs"
| "mark_blocks (b # bs) secs = bind_res (mark_block b secs) (mark_blocks bs)"

text \<open>Second loop: an array of \<open>struct page\<close> for every present section, from its own node.\<close>

definition section_map_pages :: "u64 \<Rightarrow> u32" where
  "section_map_pages psz = ucast (drop_bit PAGE_SHIFT (align_up (PAGES_PER_SECTION * psz) PAGE_SIZE))"

fun build_maps :: "u64 \<Rightarrow> nat list \<Rightarrow> (nat \<Rightarrow> u64) \<times> page_range list \<Rightarrow> ((nat \<Rightarrow> u64) \<times> page_range list) res" where
  "build_maps psz [] s = Ok s"
| "build_maps psz (i # is) (secs, rs) =
     (if present (secs i)
      then bind_res (early_allocate_page (section_map_pages psz) (early_get_nid (secs i)) rs)
             (\<lambda>(map_pfn, rs'). build_maps psz is (secs(i := set_map psz (pfn_to_addr map_pfn) i), rs'))
      else build_maps psz is (secs, rs))"

definition mem_map_init ::
    "u64 \<Rightarrow> numa_node list \<Rightarrow> (nat \<Rightarrow> u64) \<times> page_range list \<Rightarrow> ((nat \<Rightarrow> u64) \<times> page_range list) res" where
  "mem_map_init psz nodes s = (case s of (secs, rs) \<Rightarrow>
     bind_res (mark_blocks (concat (map nn_memblocks nodes)) secs)
       (\<lambda>secs'. build_maps psz [0..<NUM_MEM_SECTIONS] (secs', rs)))"

declare mark_sections.simps [simp del]


subsection \<open>The encodings of a section\<close>

lemma present_set_early_nid: "present (set_early_nid n)"
proof -
  have "bit (set_early_nid n) 0" by (simp add: set_early_nid_def PRESENT_def bit_or_iff bit_push_bit_iff)
  then have "bit (set_early_nid n AND PRESENT) 0" by (simp add: PRESENT_def bit_and_iff)
  then show ?thesis unfolding present_def by (metis bit_0_eq bot_apply bot_bool_def)
qed

lemma early_nid_roundtrip:
  assumes "- (2 ^ 31) \<le> n" and "n < 2 ^ 31"
  shows "early_get_nid (set_early_nid n) = n"
proof -
  have "ucast (drop_bit 2 (set_early_nid n)) = (word_of_int n :: u32)"
    by (rule bit_eqI) (auto simp: set_early_nid_def PRESENT_def bit_simps)
  then show ?thesis
    using assms by (simp add: early_get_nid_def sint_sbintrunc' signed_take_bit_int_eq_self)
qed


lemma MAP_MASK_mask: "MAP_MASK = NOT (mask 2)"
  by (simp add: MAP_MASK_def mask_eq_exp_minus_1)

lemma set_map_flags: "w OR PRESENT OR HAS_MEM_MAP = w OR mask 2"
  by (simp add: PRESENT_def HAS_MEM_MAP_def mask_eq_exp_minus_1 or.assoc)

lemma map_addr_set_map:
  "map_addr (set_map psz (pfn_to_addr m) i) = pfn_to_addr m - of_nat i * PAGES_PER_SECTION * psz"
proof -
  let ?w = "pfn_to_addr m - of_nat i * PAGES_PER_SECTION * psz"
  have "?w = push_bit 2 (push_bit 10 m - of_nat i * 8192 * psz)"
    by (simp add: pfn_to_addr_def PAGE_SHIFT_def section_consts push_bit_eq_mult algebra_simps)
  then obtain v where v: "?w = push_bit 2 v" by blast
  show ?thesis
    unfolding map_addr_def set_map_def v
    by (rule bit_eqI) (auto simp: set_map_flags MAP_MASK_mask bit_simps)
qed

lemma present_set_map: "present (set_map psz a i)"
proof -
  have "bit (set_map psz a i AND PRESENT) 0"
    by (simp add: set_map_def PRESENT_def bit_simps)
  then show ?thesis unfolding present_def by (metis bit_0_eq bot_apply bot_bool_def)
qed

lemma get_page_set_map:
  "get_page psz (set_map psz (pfn_to_addr m) i) p = pfn_to_addr m + (p - of_nat i * PAGES_PER_SECTION) * psz"
  by (simp add: get_page_def map_addr_set_map algebra_simps)

lemma offset_in_section:
  assumes "pfn_to_section_num p = i"
  shows "p - of_nat i * PAGES_PER_SECTION = of_nat (unat p mod 2 ^ 15)"
proof -
  have "p = of_nat (unat p)" by simp
  also have "\<dots> = of_nat (unat p div 2 ^ 15 * 2 ^ 15 + unat p mod 2 ^ 15)"
    by (simp only: div_mult_mod_eq)
  also have "\<dots> = of_nat i * PAGES_PER_SECTION + of_nat (unat p mod 2 ^ 15)"
    using assms by (simp only: section_num section_consts of_nat_add of_nat_mult) simp
  finally show ?thesis by (metis add_diff_cancel_left')
qed

subsection \<open>Marking and mapping\<close>

lemma mark_sections_keeps:
  "mark_sections n p stop secs = Ok secs' \<Longrightarrow> present (secs i) \<Longrightarrow> secs' i = secs i"
proof (induction n p stop secs rule: mark_sections.induct)
  case (1 n p stop secs)
  show ?case
  proof (cases "p < stop")
    case True
    let ?n = "pfn_to_section_num p"
    let ?secs = "if present (secs ?n) then secs else secs(?n := set_early_nid n)"
    have "?n < NUM_MEM_SECTIONS" and "mark_sections n (p + PAGES_PER_SECTION) stop ?secs = Ok secs'"
      using "1.prems"(1) True by (simp_all add: mark_sections.simps [of n p] Let_def res_Ok_iff)
    moreover have "?secs i = secs i" using "1.prems"(2) by auto
    ultimately show ?thesis using "1.IH" [OF True refl] "1.prems"(2) by simp
  next
    case False
    then show ?thesis using "1.prems" by (simp add: mark_sections.simps [of n p])
  qed
qed

lemma mark_sections_marks:
  assumes "mark_sections n p stop secs = Ok secs'" and "2 ^ 15 dvd unat p"
    and "unat p \<le> q" and "q < unat stop"
  shows "present (secs' (q div 2 ^ 15))"
  using assms
proof (induction n p stop secs rule: mark_sections.induct)
  case (1 n p stop secs)
  let ?n = "pfn_to_section_num p"
  let ?secs = "if present (secs ?n) then secs else secs(?n := set_early_nid n)"
  have lt: "p < stop" using "1.prems" by (simp add: word_less_nat_alt)
  have b: "?n < NUM_MEM_SECTIONS" and rec: "mark_sections n (p + PAGES_PER_SECTION) stop ?secs = Ok secs'"
    using "1.prems"(1) lt by (simp_all add: mark_sections.simps [of n p] Let_def res_Ok_iff)
  note nx = next_section [OF b]
  show ?case
  proof (cases "unat p + 2 ^ 15 \<le> q")
    case True
    then show ?thesis
      using "1.IH" [OF lt refl b rec] "1.prems"(2,4) nx by simp
  next
    case False
    then have "q div 2 ^ 15 = unat p div 2 ^ 15"
      using "1.prems"(2,3) by (auto elim!: dvdE)
    then have q: "q div 2 ^ 15 = ?n" by (simp only: section_num)
    have p: "present (?secs ?n)" by (simp add: present_set_early_nid)
    from mark_sections_keeps [OF rec p] p show ?thesis by (simp only: q)
  qed
qed

text \<open>After the first loop of \<open>mem_map_init\<close> has visited a memory block, the section of
  every frame of the block is present, and sections that were present keep their word (a
  section shared by two blocks keeps the node of the first).\<close>

theorem mark_block_present:
  assumes "mark_block b secs = Ok secs'" and "unat (mb_start b) \<le> q" and "q < unat (mb_end b)"
  shows "present (secs' (q div 2 ^ 15)) \<and> (\<forall>i. present (secs i) \<longrightarrow> secs' i = secs i)"
proof -
  let ?s = "mb_start b AND PAGE_SECTION_MASK"
  have s: "unat ?s = unat (mb_start b) div 2 ^ 15 * 2 ^ 15"
    by (simp only: section_consts unat_and_not_mask)
  have run: "mark_sections (mb_nid b) ?s (mb_end b) secs = Ok secs'"
    using assms(1) by (simp add: mark_block_def)
  have "unat ?s \<le> unat (mb_start b)" by (simp only: s div_times_less_eq_dividend)
  then have "unat ?s \<le> q" using assms(2) by (rule order_trans)
  then show ?thesis
    using mark_sections_marks [OF run] mark_sections_keeps [OF run] assms(3) s by simp
qed

theorem mark_block_present_witness:
  "\<exists>secs'. mark_block \<lparr>mb_start = 0x8010, mb_end = 0x10001, mb_nid = 1\<rparr> (\<lambda>_. 0) = Ok secs'
    \<and> present (secs' 2) \<and> early_get_nid (secs' 2) = 1"
proof -
  let ?b = "\<lparr>mb_start = 0x8010, mb_end = 0x10001, mb_nid = 1\<rparr>"
  let ?s = "(\<lambda>_. 0)(1 := set_early_nid 1, 2 := set_early_nid 1)"
  have run: "mark_block ?b (\<lambda>_. 0) = Ok ?s"
    by (simp add: mark_block_def mark_sections.simps section_consts section_num pfn_to_section_num_def
        Let_def present_def mask_eq_exp_minus_1)
  have "present (?s 2)"
    using mark_block_present [OF run, of "0x10000"] by simp
  moreover have "early_get_nid (?s 2) = 1" by (simp add: early_nid_roundtrip)
  ultimately show ?thesis using run by blast
qed

text \<open>Once a section has its array, \<open>pfn_to_page\<close> finds the \<open>struct page\<close> of each of its
  frames at the array's base plus the frame's index within the section: the bias folded into
  the section word cancels, modulo \<open>2 ^ 64\<close>.  The lookup fails only for the one base at which the
  biased address is 0.\<close>

theorem pfn_to_page_mapped:
  assumes "pfn_to_section_num p = i" and "i < NUM_MEM_SECTIONS"
    and "sections i = set_map psz (pfn_to_addr m) i"
  shows "pfn_to_page psz sections p =
    Ok (if pfn_to_addr m = of_nat i * PAGES_PER_SECTION * psz then None
        else Some (pfn_to_addr m + of_nat (unat p mod 2 ^ 15) * psz))"
proof -
  have "valid (sections i) \<longleftrightarrow> pfn_to_addr m \<noteq> of_nat i * PAGES_PER_SECTION * psz"
    using map_addr_set_map [of psz m i] by (simp add: valid_def map_addr_def [symmetric] assms(3))
  moreover have "get_page psz (sections i) p = pfn_to_addr m + of_nat (unat p mod 2 ^ 15) * psz"
    by (simp only: assms(3) get_page_set_map offset_in_section [OF assms(1)])
  ultimately show ?thesis
    using assms(1,2) present_set_map [of psz "pfn_to_addr m" i]
    by (simp add: pfn_to_page_def Let_def assms(3))
qed

theorem pfn_to_page_mapped_witness:
  "pfn_to_page 42 (\<lambda>_. set_map 42 (pfn_to_addr 0x7000) 1) 0x8003 = Ok (Some (0x7000000 + 3 * 42))"
  using pfn_to_page_mapped [of "0x8003" 1 "\<lambda>_. set_map 42 (pfn_to_addr 0x7000) 1" 42 "0x7000"]
  by (simp add: section_num section_consts pfn_to_addr_def PAGE_SHIFT_def)

text \<open>With 42-byte \<open>struct page\<close>s, a map for section 1 placed at frame 336 has a biased
  address of 0 and the section reads as absent.\<close>

lemma pfn_to_page_zero_bias:
  "pfn_to_page 42 (\<lambda>_. set_map 42 (pfn_to_addr 336) 1) 0x8003 = Ok None"
  using pfn_to_page_mapped [of "0x8003" 1 "\<lambda>_. set_map 42 (pfn_to_addr 336) 1" 42 "336"]
  by (simp add: section_num section_consts pfn_to_addr_def PAGE_SHIFT_def)

lemma early_allocate_page_lo:
  "early_allocate_page n nid rs = Ok (p, rs') \<Longrightarrow> r_lo ` set rs' \<subseteq> r_lo ` set rs"
proof (induction n nid rs arbitrary: p rs' rule: early_allocate_page.induct)
  case (2 n nid r rs)
  have lo: "r_lo (r\<lparr>pr_npages := x\<rparr>) = r_lo r" for x by (simp add: r_lo_def)
  show ?case
    using "2.prems" "2.IH" by (fastforce simp: Let_def bind_res_Ok_iff lo split: if_splits)
qed simp

text \<open>the second loop of \<open>mem_map_init\<close>: every present section gets its own run of pages,
  taken from the free pages and disjoint from every other section's; its entry holds that run's
  address biased by the section's index; nothing else is taken and no other entry changes.\<close>

theorem build_maps_correct:
  fixes psz :: u64
  defines "N \<equiv> unat (section_map_pages psz)"
  assumes "build_maps psz is (secs, rs) = Ok (secs', rs')" and "distinct is" and "ranges_ok 0 rs"
    and "\<forall>r\<in>set rs. N \<le> r_lo r"
  shows "ranges_ok 0 rs' \<and> (\<forall>i. i \<notin> set is \<longrightarrow> secs' i = secs i) \<and>
    (\<exists>base. (\<forall>i\<in>set is. present (secs i) \<longrightarrow> secs' i = set_map psz (pfn_to_addr (base i)) i
               \<and> {unat (base i) ..< unat (base i) + N} \<subseteq> pages_of rs)
       \<and> (\<forall>i\<in>set is. \<forall>j\<in>set is. present (secs i) \<and> present (secs j) \<and> i \<noteq> j \<longrightarrow>
            {unat (base i) ..< unat (base i) + N} \<inter> {unat (base j) ..< unat (base j) + N} = {})
       \<and> pages_of rs' = pages_of rs - (\<Union>i\<in>{i \<in> set is. present (secs i)}. {unat (base i) ..< unat (base i) + N}))"
  using assms(2-5)
proof (induction "is" arbitrary: secs rs)
  case (Cons i "is")
  show ?case
  proof (cases "present (secs i)")
    case True
    let ?secs1 = "\<lambda>m. secs(i := set_map psz (pfn_to_addr m) i)"
    obtain m rs1 where a: "early_allocate_page (section_map_pages psz) (early_get_nid (secs i)) rs = Ok (m, rs1)"
      and b: "build_maps psz is (?secs1 m, rs1) = Ok (secs', rs')"
      using Cons.prems(1) True by (auto simp: bind_res_Ok_iff)
    have "\<And>r. r \<in> set rs \<Longrightarrow> unat (section_map_pages psz) \<le> r_hi r"
      using Cons.prems(4) ranges_ok_set [OF Cons.prems(3)] unfolding N_def by fastforce
    note h = early_allocate_page_ok [OF a Cons.prems(3) this]
    let ?I = "{unat m ..< unat m + N}"
    have sub: "?I \<subseteq> pages_of rs" using h by (auto simp: pages_of_def N_def)
    have pg: "pages_of rs1 = pages_of rs - ?I" using h by (simp add: N_def)
    have lo: "\<forall>r\<in>set rs1. N \<le> r_lo r"
      using early_allocate_page_lo [OF a] Cons.prems(4) by fastforce
    have d: "distinct is" "i \<notin> set is" using Cons.prems(2) by auto
    have same: "\<And>j. j \<in> set is \<Longrightarrow> ?secs1 m j = secs j" using d(2) by auto
    have ball: "(\<forall>j\<in>set is. present (?secs1 m j) \<longrightarrow> P j) = (\<forall>j\<in>set is. present (secs j) \<longrightarrow> P j)" for P
      using same by (simp del: fun_upd_apply)
    have ball2: "(\<forall>j\<in>set is. \<forall>k\<in>set is. present (?secs1 m j) \<and> present (?secs1 m k) \<and> j \<noteq> k \<longrightarrow> P j k)
        = (\<forall>j\<in>set is. \<forall>k\<in>set is. present (secs j) \<and> present (secs k) \<and> j \<noteq> k \<longrightarrow> P j k)" for P
      using same by (simp del: fun_upd_apply)
    have coll: "{j \<in> set is. present (?secs1 m j)} = {j \<in> set is. present (secs j)}"
      using same by (intro Collect_cong conj_cong) (auto simp del: fun_upd_apply)
    obtain base where f: "ranges_ok 0 rs'" "\<forall>j. j \<notin> set is \<longrightarrow> secs' j = ?secs1 m j"
      and g: "\<forall>j\<in>set is. present (secs j) \<longrightarrow> secs' j = set_map psz (pfn_to_addr (base j)) j
               \<and> {unat (base j) ..< unat (base j) + N} \<subseteq> pages_of rs1"
       "\<forall>j\<in>set is. \<forall>k\<in>set is. present (secs j) \<and> present (secs k) \<and> j \<noteq> k \<longrightarrow>
            {unat (base j) ..< unat (base j) + N} \<inter> {unat (base k) ..< unat (base k) + N} = {}"
       "pages_of rs' = pages_of rs1 - (\<Union>j\<in>{j \<in> set is. present (secs j)}. {unat (base j) ..< unat (base j) + N})"
      using Cons.IH [OF b d(1) _ lo, unfolded ball ball2 coll] h by blast
    let ?base = "base(i := m)"
    show ?thesis
    proof (intro conjI exI [of _ ?base])
      show "\<forall>j\<in>set (i # is). present (secs j) \<longrightarrow> secs' j = set_map psz (pfn_to_addr (?base j)) j
          \<and> {unat (?base j) ..< unat (?base j) + N} \<subseteq> pages_of rs"
        using f(2) g(1) d(2) sub pg by auto
      show "\<forall>j\<in>set (i # is). \<forall>k\<in>set (i # is). present (secs j) \<and> present (secs k) \<and> j \<noteq> k \<longrightarrow>
            {unat (?base j) ..< unat (?base j) + N} \<inter> {unat (?base k) ..< unat (?base k) + N} = {}"
      proof (intro ballI impI)
        fix j k assume jk: "j \<in> set (i # is)" "k \<in> set (i # is)"
          "present (secs j) \<and> present (secs k) \<and> j \<noteq> k"
        have dm: "J x \<inter> J' = {}" if "x \<in> set is" "present (secs x)"
          "J = (\<lambda>x. {unat (base x) ..< unat (base x) + N})" "J' = ?I" for x J J'
          using g(1) that pg by blast
        consider "j = i" "k \<in> set is" | "k = i" "j \<in> set is" | "j \<in> set is" "k \<in> set is"
          using jk by auto
        then show "{unat (?base j) ..< unat (?base j) + N} \<inter> {unat (?base k) ..< unat (?base k) + N} = {}"
        proof cases
          case 1 then show ?thesis using dm [of k, OF _ _ refl refl] jk(3) by (simp add: Int_commute del: Int_atLeastLessThan)
        next
          case 2 then show ?thesis using dm [of j, OF _ _ refl refl] jk(3) by (simp del: Int_atLeastLessThan)
        next
          case 3
          then have "j \<noteq> i" "k \<noteq> i" using d(2) by auto
          then show ?thesis using g(2) 3 jk(3) by (simp del: Int_atLeastLessThan)
        qed
      qed
      show "pages_of rs' = pages_of rs -
          (\<Union>j\<in>{j \<in> set (i # is). present (secs j)}. {unat (?base j) ..< unat (?base j) + N})"
      proof -
        have "{j \<in> set (i # is). present (secs j)} = insert i {j \<in> set is. present (secs j)}"
          using True by auto
        moreover have "(\<Union>j\<in>{j \<in> set is. present (secs j)}. {unat (?base j) ..< unat (?base j) + N})
            = (\<Union>j\<in>{j \<in> set is. present (secs j)}. {unat (base j) ..< unat (base j) + N})"
          using d(2) by (intro SUP_cong) auto
        ultimately show ?thesis using g(3) pg by (simp add: Diff_eq Int_assoc)
      qed
    qed (use f d(2) in auto)
  next
    case False
    then have b: "build_maps psz is (secs, rs) = Ok (secs', rs')" and d: "distinct is"
      using Cons.prems(1,2) by auto
    have coll: "{j \<in> set (i # is). present (secs j)} = {j \<in> set is. present (secs j)}"
      using False by auto
    have ball: "(\<forall>j\<in>set (i # is). present (secs j) \<longrightarrow> P j) = (\<forall>j\<in>set is. present (secs j) \<longrightarrow> P j)" for P
      using False by simp
    have ball2: "(\<forall>j\<in>set (i # is). \<forall>k\<in>set (i # is). present (secs j) \<and> present (secs k) \<and> j \<noteq> k \<longrightarrow> P j k)
        = (\<forall>j\<in>set is. \<forall>k\<in>set is. present (secs j) \<and> present (secs k) \<and> j \<noteq> k \<longrightarrow> P j k)" for P
      using False by simp
    have frame: "\<forall>j. j \<notin> set (i # is) \<longrightarrow> secs' j = secs j"
      if "\<forall>j. j \<notin> set is \<longrightarrow> secs' j = secs j"
      using that by simp
    from Cons.IH [OF b d Cons.prems(3,4)] frame show ?thesis
      unfolding coll ball ball2 by (elim conjE) (intro conjI, assumption, blast, assumption)
  qed
qed simp

lemma build_maps_example:
  "build_maps 40 [1, 2] ((\<lambda>_. 0)(1 := set_early_nid 0), [\<lparr>pr_start = 0x1000, pr_npages = 0x1000, pr_nid = 0\<rparr>])
   = Ok ((\<lambda>_. 0)(1 := set_map 40 (pfn_to_addr 7872) 1), [\<lparr>pr_start = 0x1000, pr_npages = 0xEC0, pr_nid = 0\<rparr>])"
  by (simp add: early_get_nid_def set_early_nid_def present_def section_map_pages_def align_up_def
      align_down_def section_consts PAGE_SIZE_eq PAGE_SHIFT_def Let_def pr_end_def PRESENT_def)

theorem build_maps_correct_witness:
  "\<exists>base :: nat \<Rightarrow> pfn. set_map 40 (pfn_to_addr 7872) 1 = set_map 40 (pfn_to_addr (base 1)) 1
     \<and> {unat (base 1) ..< unat (base 1) + 320} \<subseteq> {0x1000 ..< 0x2000}"
proof -
  have n: "unat (section_map_pages 40) = 320"
    by (simp add: section_map_pages_def section_consts align_up_def align_down_def PAGE_SIZE_eq PAGE_SHIFT_def)
  have p: "present (((\<lambda>_. 0)(1 := set_early_nid 0)) 1)" by (simp add: present_set_early_nid)
  show ?thesis
    using build_maps_correct [OF build_maps_example, unfolded n] p
    by (auto simp: r_lo_def r_hi_def pages_of_def range_pages_def)
qed

end
