(* ===== verification/Page_Allocator.thy ===== *)
theory Page_Allocator
  imports Mem_Map
begin

text \<open>
  \<open>sys/page_allocator.hpp\<close>, \<open>sys/page_allocator.cpp\<close>: the buddy allocator.  Each NUMA node
  has one allocator with twelve lists of free blocks, block sizes \<open>2 ^ 0\<close> to \<open>2 ^ 11\<close> pages;
  the head frame of a free block carries its usage and order in its \<open>struct page\<close>
  (\<open>sys/mem_map.hpp\<close>).  A \<open>struct page\<close> is present for a frame exactly when \<open>pfn_to_page\<close>
  does not return null; a frame beyond the section table indexes it out of bounds, which is
  undefined.  So is linking a node that is linked already, or erasing one that is not.
\<close>

subsection \<open>Data\<close>

datatype usage = RESERVED | PAGE_ALLOCATOR | SLAB_ALLOCATOR | IN_USE

record page_meta =
  pg_usage :: usage
  pg_nid :: u8
  pg_order :: nat

type_synonym pages = "pfn \<Rightarrow> page_meta option"
type_synonym free_lists = "nat \<Rightarrow> pfn list"
type_synonym buddy = "free_lists \<times> pages"

definition MAX_ORDER :: nat where "MAX_ORDER = 11"

definition page_at :: "pages \<Rightarrow> pfn \<Rightarrow> page_meta option res" where
  "page_at pages pfn = defined (pfn_to_section_num pfn < NUM_MEM_SECTIONS) (Ok (pages pfn))"

definition pfn_to_buddy :: "pfn \<Rightarrow> nat \<Rightarrow> pfn" where
  "pfn_to_buddy pfn order = pfn XOR push_bit order 1"

definition linked :: "free_lists \<Rightarrow> pfn \<Rightarrow> bool" where
  "linked fl pfn \<longleftrightarrow> list_ex (\<lambda>o'. pfn \<in> set (fl o')) [0..<Suc MAX_ORDER]"

subsection \<open>Operations of one allocator\<close>

definition FreePageNoCoalesce :: "pfn \<Rightarrow> nat \<Rightarrow> buddy \<Rightarrow> buddy res" where
  "FreePageNoCoalesce pfn order s = (case s of (fl, pages) \<Rightarrow>
     defined (order \<le> MAX_ORDER \<and> \<not> linked fl pfn)
       (bind_res (page_at pages pfn) (\<lambda>page.
          case page of
            None \<Rightarrow> Fail Assert_Failed
          | Some m \<Rightarrow> Ok (fl(order := pfn # fl order),
                          pages(pfn \<mapsto> m\<lparr>pg_usage := PAGE_ALLOCATOR, pg_order := order\<rparr>)))))"

text \<open>The splitting loop of \<open>AllocLocal\<close>: \<open>this_order\<close> counts down to the order asked for.\<close>

fun split_block :: "pfn \<Rightarrow> nat \<Rightarrow> nat \<Rightarrow> buddy \<Rightarrow> buddy res" where
  "split_block fp order 0 s = Ok s"
| "split_block fp order (Suc this_order) s =
     (if Suc this_order = order then Ok s
      else bind_res (FreePageNoCoalesce (pfn_to_buddy fp this_order) this_order s)
             (split_block fp order this_order))"

definition AllocLocal :: "nat \<Rightarrow> buddy \<Rightarrow> (pfn \<times> buddy) res" where
  "AllocLocal order s = (case s of (fl, pages) \<Rightarrow>
     (case find (\<lambda>o'. fl o' \<noteq> []) [order..<Suc MAX_ORDER] of
        None \<Rightarrow> Ok (NO_PFN, s)
      | Some this_order \<Rightarrow>
          let fp = hd (fl this_order)
          in bind_res (split_block fp order this_order (fl(this_order := tl (fl this_order)), pages))
               (\<lambda>(fl', pages'). bind_res (page_at pages' fp) (\<lambda>page.
                  case page of
                    None \<Rightarrow> Fail Assert_Failed
                  | Some m \<Rightarrow> Ok (fp, (fl', pages'(fp \<mapsto> m\<lparr>pg_usage := IN_USE\<rparr>)))))))"

function free_loop :: "pfn \<Rightarrow> nat \<Rightarrow> buddy \<Rightarrow> buddy res" where
  "free_loop pfn order (fl, pages) =
     (if order < MAX_ORDER
      then let buddy = pfn_to_buddy pfn order
           in bind_res (page_at pages buddy) (\<lambda>page.
                case page of
                  None \<Rightarrow> FreePageNoCoalesce pfn order (fl, pages)
                | Some m \<Rightarrow>
                    if pg_usage m \<noteq> PAGE_ALLOCATOR \<or> pg_order m \<noteq> order
                    then FreePageNoCoalesce pfn order (fl, pages)
                    else defined (buddy \<in> set (fl order))
                           (free_loop pfn (Suc order) (fl(order := remove1 buddy (fl order)), pages)))
      else FreePageNoCoalesce pfn order (fl, pages))"
  by pat_completeness auto
termination by (relation "measure (\<lambda>(p, k, s). MAX_ORDER - k)") auto

declare free_loop.simps [simp del]

definition Free :: "pfn \<Rightarrow> nat \<Rightarrow> buddy \<Rightarrow> buddy res" where
  "Free pfn order s = kassert (order \<le> MAX_ORDER) (free_loop pfn order s)"

subsection \<open>The allocators of all nodes\<close>

record page_allocators =
  allocators :: "free_lists list"
  page_map :: pages

text \<open>Running an operation on the allocator of a node; an index past the vector is undefined.\<close>

definition on_allocator :: "(buddy \<Rightarrow> ('a \<times> buddy) res) \<Rightarrow> nid \<Rightarrow> page_allocators \<Rightarrow> ('a \<times> page_allocators) res" where
  "on_allocator f nid st =
     defined (0 \<le> nid \<and> nat nid < length (allocators st))
       (bind_res (f (allocators st ! nat nid, page_map st)) (\<lambda>(x, fl, pages).
          Ok (x, \<lparr>allocators = (allocators st)[nat nid := fl], page_map = pages\<rparr>)))"

definition Alloc :: "nat \<Rightarrow> nid \<Rightarrow> page_allocators \<Rightarrow> (pfn \<times> page_allocators) res" where
  "Alloc order nid st = on_allocator (AllocLocal order) nid st"

definition early_free_block :: "pfn \<Rightarrow> nat \<Rightarrow> nid \<Rightarrow> page_allocators \<Rightarrow> page_allocators res" where
  "early_free_block start order nid st =
     kassert (order \<le> MAX_ORDER)
       (bind_res (on_allocator (\<lambda>s. bind_res (FreePageNoCoalesce start order s) (\<lambda>s'. Ok ((), s'))) nid st)
          (\<lambda>(_, st'). Ok st'))"

text \<open>The two loops of the lambda in \<open>PageAllocator::Init\<close>; the bit scans truncate to
  \<open>unsigned int\<close>.\<close>

definition clz32 :: "u64 \<Rightarrow> nat res" where
  "clz32 x = defined ((ucast x :: u32) \<noteq> 0) (Ok (clz (ucast x :: u32)))"

definition ctz32 :: "u64 \<Rightarrow> nat res" where
  "ctz32 x = defined ((ucast x :: u32) \<noteq> 0) (Ok (ctz (ucast x :: u32)))"

lemma on_allocator_Ok:
  "on_allocator f nid st = Ok (x, st') \<longleftrightarrow> 0 \<le> nid \<and> nat nid < length (allocators st) \<and>
     (\<exists>fl pages. f (allocators st ! nat nid, page_map st) = Ok (x, fl, pages) \<and>
        st' = \<lparr>allocators = (allocators st)[nat nid := fl], page_map = pages\<rparr>)"
  by (auto simp: on_allocator_def res_Ok_iff)

lemma FreePageNoCoalesce_Ok:
  "FreePageNoCoalesce p k (fl, pages) = Ok s' \<longleftrightarrow> k \<le> MAX_ORDER \<and> \<not> linked fl p
     \<and> pfn_to_section_num p < NUM_MEM_SECTIONS \<and> (\<exists>m. pages p = Some m \<and>
        s' = (fl(k := p # fl k), pages(p \<mapsto> m\<lparr>pg_usage := PAGE_ALLOCATOR, pg_order := k\<rparr>)))"
  by (auto simp: FreePageNoCoalesce_def page_at_def res_Ok_iff split: option.splits)

lemma next_block:
  assumes "early_free_block p k nid st = Ok st'"
  shows "unat (p + push_bit k 1) = unat p + 2 ^ k"
proof -
  have k: "k \<le> 11" and "pfn_to_section_num p < NUM_MEM_SECTIONS"
    using assms by (auto simp: early_free_block_def on_allocator_Ok FreePageNoCoalesce_Ok MAX_ORDER_def res_Ok_iff)
  then have "unat p < 2 ^ 34" using section_bound by blast
  moreover have "(2::nat) ^ k \<le> 2 ^ 11" using k by (rule power_increasing) simp
  moreover have "unat (push_bit k 1 :: u64) = 2 ^ k"
    using k by (simp add: push_bit_eq_mult unat_pow2)
  ultimately show ?thesis by (simp add: unat_add_nowrap)
qed

lemma next_block_measure:
  assumes "early_free_block p k nid st = Ok st'"
  shows "18446744073709551616 - unat (p + push_bit k 1) < 18446744073709551616 - unat p"
proof -
  have "unat (p + push_bit k 1) < 2 ^ LENGTH(64)" by (rule unat_lt_pow)
  then show ?thesis unfolding next_block [OF assms] by (intro diff_less_mono2) auto
qed

function init_low :: "pfn \<Rightarrow> pfn \<Rightarrow> nid \<Rightarrow> page_allocators \<Rightarrow> page_allocators res" where
  "init_low pfn divide_at nid st =
     (if pfn \<noteq> divide_at
      then kassert (pfn < divide_at)
        (bind_res (ctz32 pfn) (\<lambda>tz.
           let order = (if tz > MAX_ORDER then MAX_ORDER else tz)
           in bind_res (early_free_block pfn order nid st)
                (init_low (pfn + push_bit order 1) divide_at nid)))
      else Ok st)"
  by pat_completeness auto
termination
  by (relation "measure (\<lambda>(p, d, n, s). 2 ^ 64 - unat p)")
    (auto dest!: next_block_measure simp: Let_def)

function init_high :: "pfn \<Rightarrow> pfn \<Rightarrow> nid \<Rightarrow> page_allocators \<Rightarrow> page_allocators res" where
  "init_high pfn stop nid st =
     (if pfn \<noteq> stop
      then kassert (pfn < stop)
        (bind_res (clz32 (stop - pfn)) (\<lambda>lz.
           let order0 = 32 - lz - 1; order = (if order0 > MAX_ORDER then MAX_ORDER else order0)
           in bind_res (early_free_block pfn order nid st)
                (init_high (pfn + push_bit order 1) stop nid)))
      else Ok st)"
  by pat_completeness auto
termination
  by (relation "measure (\<lambda>(p, d, n, s). 2 ^ 64 - unat p)")
    (auto dest!: next_block_measure simp: Let_def)

declare init_low.simps [simp del] init_high.simps [simp del]

definition init_range :: "pfn \<Rightarrow> pfn \<Rightarrow> nid \<Rightarrow> page_allocators \<Rightarrow> page_allocators res" where
  "init_range start stop nid st =
     kassert (stop - start \<noteq> 0)
       (bind_res (clz32 (stop - start)) (\<lambda>lz.
          let shift = 32 - lz - 1
          in defined (shift < 31)
               (let largest_pow2 = push_bit shift 1;
                    divide_at = align_up start largest_pow2
                in bind_res (init_low start divide_at nid st) (init_high divide_at stop nid))))"

fun init_ranges :: "(pfn \<times> pfn \<times> nid) list \<Rightarrow> page_allocators \<Rightarrow> page_allocators res" where
  "init_ranges [] st = Ok st"
| "init_ranges ((start, stop, nid) # rs) st =
     bind_res (init_range start stop nid st) (init_ranges rs)"

definition page_allocator_init :: "nat \<Rightarrow> page_range list \<Rightarrow> pages \<Rightarrow> page_allocators res" where
  "page_allocator_init n_nodes rs pages =
     init_ranges (fst (release_free_pages rs))
       \<lparr>allocators = replicate n_nodes (\<lambda>_. []), page_map = pages\<rparr>"

subsection \<open>Buddies\<close>

lemma pfn_to_buddy_flip: "pfn_to_buddy p k = flip_bit k p"
  by (simp add: pfn_to_buddy_def flip_bit_eq_xor)

lemma bit_unat: "bit p k \<longleftrightarrow> odd (unat p div 2 ^ k)" for p :: pfn
proof (cases "k < 64")
  case True
  then show ?thesis by (simp add: bit_unsigned_iff flip: bit_iff_odd)
next
  case False
  then have "unat p < 2 ^ k"
    using unat_lt_pow [of p] by (intro order_less_le_trans [OF _ power_increasing [of 64 k 2]]) auto
  then show ?thesis using False by (auto dest: bit_imp_le_length)
qed

lemma buddy_cases:
  assumes "2 ^ k dvd unat p" and "unat p < 2 ^ 34" and "k < 34"
  shows "(2 ^ Suc k dvd unat p \<and> unat (pfn_to_buddy p k) = unat p + 2 ^ k)
    \<or> (2 ^ Suc k dvd unat (pfn_to_buddy p k) \<and> unat p = unat (pfn_to_buddy p k) + 2 ^ k)"
proof -
  have two: "unat (2 ^ k :: pfn) = 2 ^ k" using assms(3) by (simp add: unat_pow2)
  have "(2::nat) ^ k \<le> 2 ^ 34" using assms(3) by (intro power_increasing) auto
  then have nowrap: "unat p + 2 ^ k < 2 ^ 64" using assms(2) by simp
  obtain c where c: "unat p = 2 ^ k * c" using assms(1) by blast
  show ?thesis
  proof (cases "bit p k")
    case False
    then have "even c" by (simp add: bit_unat c)
    then have "2 ^ Suc k dvd unat p" by (auto simp: c elim!: evenE)
    moreover have "pfn_to_buddy p k = p + 2 ^ k"
      using False by (simp add: pfn_to_buddy_flip flip_bit_eq_if set_bit_eq)
    ultimately show ?thesis using nowrap by (simp add: unat_add_nowrap two)
  next
    case True
    then have odd: "odd c" by (simp add: bit_unat c)
    then obtain d where d: "c = 2 * d + 1" by (elim oddE)
    have "2 ^ k \<le> p" by (simp add: word_le_nat_alt two c d)
    then have "unat (p - 2 ^ k) = 2 ^ Suc k * d"
      by (simp add: unat_sub_nowrap two c d)
    moreover have "pfn_to_buddy p k = p - 2 ^ k"
      using True by (simp add: pfn_to_buddy_flip flip_bit_eq_if unset_bit_eq)
    ultimately show ?thesis by (simp add: c d)
  qed
qed

lemma buddy_low:
  assumes "unat p < 2 ^ 34" and "k < 34"
  shows "unat (pfn_to_buddy p k) < 2 ^ 34"
proof -
  have "unat (push_bit k 1 :: pfn) = 2 ^ k" using assms(2) by (simp add: push_bit_eq_mult unat_pow2)
  moreover have "(2::nat) ^ k < 2 ^ 34" using assms(2) by (rule power_strict_increasing) simp
  ultimately have "take_bit 34 (unat (pfn_to_buddy p k)) = unat (pfn_to_buddy p k)"
    using assms(1) unfolding pfn_to_buddy_def unsigned_xor_eq take_bit_xor
    by (simp only: take_bit_nat_eq_self_iff [THEN iffD2])
  then show ?thesis by (simp only: take_bit_nat_eq_self_iff)
qed

subsection \<open>Blocks and the invariant\<close>

type_synonym blk = "pfn \<times> nat"

definition block :: "blk \<Rightarrow> nat set" where
  "block b = {unat (fst b) ..< unat (fst b) + 2 ^ snd b}"

definition free_blocks :: "free_lists \<Rightarrow> blk set" where
  "free_blocks fl = {(p, k). k \<le> MAX_ORDER \<and> p \<in> set (fl k)}"

definition free_frames :: "free_lists \<Rightarrow> nat set" where
  "free_frames fl = (\<Union>b\<in>free_blocks fl. block b)"

definition block_ok :: "pages \<Rightarrow> blk \<Rightarrow> bool" where
  "block_ok pages b \<longleftrightarrow> snd b \<le> MAX_ORDER \<and> 2 ^ snd b dvd unat (fst b) \<and>
     unat (fst b) + 2 ^ snd b \<le> 2 ^ 34 \<and> (\<forall>p. unat p \<in> block b \<longrightarrow> pages p \<noteq> None)"

definition disjoint_blocks :: "blk set \<Rightarrow> bool" where
  "disjoint_blocks S \<longleftrightarrow> (\<forall>b\<in>S. \<forall>c\<in>S. b \<noteq> c \<longrightarrow> block b \<inter> block c = {})"

definition inside :: "blk set \<Rightarrow> pfn \<Rightarrow> bool" where
  "inside S p \<longleftrightarrow> (\<exists>b\<in>S. unat (fst b) < unat p \<and> unat p \<in> block b)"

text \<open>
  The invariant of a node's allocator, with the set \<open>A\<close> of blocks its clients hold: blocks are
  aligned, mapped and pairwise disjoint, a free block's head says so, and a frame whose
  \<open>struct page\<close> claims to head a free block either does or lies inside a larger block (the
  metadata of merged heads is not erased).  Frames in \<open>X\<close> are exempt from the last clause.
\<close>

definition buddy_inv :: "pfn set \<Rightarrow> blk set \<Rightarrow> buddy \<Rightarrow> bool" where
  "buddy_inv X A s \<longleftrightarrow> (case s of (fl, pages) \<Rightarrow>
     (\<forall>k\<le>MAX_ORDER. distinct (fl k)) \<and> A \<inter> free_blocks fl = {} \<and>
     (\<forall>b\<in>A \<union> free_blocks fl. block_ok pages b) \<and> disjoint_blocks (A \<union> free_blocks fl) \<and>
     (\<forall>(p, k)\<in>free_blocks fl. \<exists>m. pages p = Some m \<and> pg_usage m = PAGE_ALLOCATOR \<and> pg_order m = k) \<and>
     (\<forall>p m. p \<notin> X \<and> pages p = Some m \<and> pg_usage m = PAGE_ALLOCATOR \<longrightarrow>
        (p, pg_order m) \<in> free_blocks fl \<or> inside (A \<union> free_blocks fl) p))"

lemma buddy_invD:
  assumes "buddy_inv X A (fl, pages)"
  shows "\<And>k. k \<le> MAX_ORDER \<Longrightarrow> distinct (fl k)" and "A \<inter> free_blocks fl = {}"
    and "\<And>b. b \<in> A \<union> free_blocks fl \<Longrightarrow> block_ok pages b" and "disjoint_blocks (A \<union> free_blocks fl)"
    and "\<And>p k. (p, k) \<in> free_blocks fl \<Longrightarrow> \<exists>m. pages p = Some m \<and> pg_usage m = PAGE_ALLOCATOR \<and> pg_order m = k"
    and "\<And>p m. p \<notin> X \<Longrightarrow> pages p = Some m \<Longrightarrow> pg_usage m = PAGE_ALLOCATOR \<Longrightarrow>
        (p, pg_order m) \<in> free_blocks fl \<or> inside (A \<union> free_blocks fl) p"
  using assms by (auto simp: buddy_inv_def)

lemma buddy_invI:
  assumes "\<And>k. k \<le> MAX_ORDER \<Longrightarrow> distinct (fl k)" and "A \<inter> free_blocks fl = {}"
    and "\<And>b. b \<in> A \<union> free_blocks fl \<Longrightarrow> block_ok pages b" and "disjoint_blocks (A \<union> free_blocks fl)"
    and "\<And>p k. (p, k) \<in> free_blocks fl \<Longrightarrow> \<exists>m. pages p = Some m \<and> pg_usage m = PAGE_ALLOCATOR \<and> pg_order m = k"
    and "\<And>p m. p \<notin> X \<Longrightarrow> pages p = Some m \<Longrightarrow> pg_usage m = PAGE_ALLOCATOR \<Longrightarrow>
        (p, pg_order m) \<in> free_blocks fl \<or> inside (A \<union> free_blocks fl) p"
  shows "buddy_inv X A (fl, pages)"
  using assms by (auto simp: buddy_inv_def)

lemma head_in_block [simp]: "unat p \<in> block (p, k)"
  by (simp add: block_def)

lemma linked_iff: "linked fl p \<longleftrightarrow> (\<exists>k. (p, k) \<in> free_blocks fl)"
  by (auto simp: linked_def free_blocks_def list_ex_iff less_Suc_eq_le simp del: upt_Suc)

lemma disjoint_blocksD: "disjoint_blocks S \<Longrightarrow> b \<in> S \<Longrightarrow> c \<in> S \<Longrightarrow> x \<in> block b \<Longrightarrow> x \<in> block c \<Longrightarrow> b = c"
  by (auto simp: disjoint_blocks_def)

lemma inside_mono: "inside S p \<Longrightarrow> S \<subseteq> T \<Longrightarrow> inside T p"
  by (auto simp: inside_def)

lemma block_ok_cong: "(\<And>p. pages p = None \<longleftrightarrow> pages' p = None) \<Longrightarrow> block_ok pages b = block_ok pages' b"
  by (simp add: block_ok_def)

lemma block_ok_low:
  assumes "block_ok pages (p, k)"
  shows "unat p < 2 ^ 34" and "pfn_to_section_num p < NUM_MEM_SECTIONS"
proof -
  have "unat p + 2 ^ k \<le> 2 ^ 34" using assms by (simp add: block_ok_def)
  moreover have "0 < (2::nat) ^ k" by simp
  ultimately show low: "unat p < 2 ^ 34" by linarith
  then show "pfn_to_section_num p < NUM_MEM_SECTIONS"
    by (simp add: section_num section_consts less_mult_imp_div_less)
qed

lemma inv_add_block:
  assumes "buddy_inv X A (fl, pages)" and "block_ok pages b"
    and "\<And>c. c \<in> A \<union> free_blocks fl \<Longrightarrow> block b \<inter> block c = {}"
  shows "buddy_inv X (insert b A) (fl, pages)"
proof -
  note inv = buddy_invD [OF assms(1)]
  have "unat (fst b) \<in> block b" by (cases b) simp
  then have nf: "b \<notin> free_blocks fl" using assms(3) by blast
  show ?thesis
  proof (rule buddy_invI)
    show "disjoint_blocks (insert b A \<union> free_blocks fl)"
      using inv(4) assms(3) unfolding disjoint_blocks_def by (auto simp: Int_commute)
    show "(p, pg_order m) \<in> free_blocks fl \<or> inside (insert b A \<union> free_blocks fl) p"
      if "p \<notin> X" "pages p = Some m" "pg_usage m = PAGE_ALLOCATOR" for p m
      using inv(6) [OF that] inside_mono [of _ p "insert b A \<union> free_blocks fl"] by blast
  qed (use inv(1,2,3,5) assms(2) nf in auto)
qed

lemma inv_push:
  assumes "buddy_inv X (insert (p, k) A) (fl, pages)" and "(p, k) \<notin> A"
  shows "\<exists>fl' pages'. FreePageNoCoalesce p k (fl, pages) = Ok (fl', pages')
    \<and> buddy_inv (X - {p}) A (fl', pages') \<and> free_blocks fl' = insert (p, k) (free_blocks fl)"
proof -
  note inv = buddy_invD [OF assms(1)]
  have ok: "block_ok pages (p, k)" using inv(3) by blast
  then have k: "k \<le> MAX_ORDER" by (auto simp: block_ok_def)
  note sec = block_ok_low(2) [OF ok]
  obtain m where m: "pages p = Some m" using ok unfolding block_ok_def by (metis head_in_block option.exhaust)
  have nolink: "(p, j) \<notin> free_blocks fl" for j
    using disjoint_blocksD [OF inv(4), of "(p, k)" "(p, j)" "unat p"] inv(2) by auto
  let ?fl = "fl(k := p # fl k)"
  let ?pages = "pages(p \<mapsto> m\<lparr>pg_usage := PAGE_ALLOCATOR, pg_order := k\<rparr>)"
  have F: "free_blocks ?fl = insert (p, k) (free_blocks fl)"
    using k by (auto simp: free_blocks_def split: if_splits)
  have S: "A \<union> free_blocks ?fl = insert (p, k) A \<union> free_blocks fl" unfolding F by blast
  have okb: "block_ok ?pages b = block_ok pages b" for b
    using m by (intro block_ok_cong) auto
  have "buddy_inv (X - {p}) A (?fl, ?pages)"
  proof (rule buddy_invI, unfold S okb)
    show "distinct (?fl j)" if "j \<le> MAX_ORDER" for j
      using inv(1) [OF that] nolink k by (auto simp: free_blocks_def)
    show "A \<inter> free_blocks ?fl = {}" using inv(2) assms(2) by (auto simp: F)
    show "\<exists>m. ?pages q = Some m \<and> pg_usage m = PAGE_ALLOCATOR \<and> pg_order m = j"
      if "(q, j) \<in> free_blocks ?fl" for q j
      using that inv(5) [of q j] nolink unfolding F by auto
    show "(q, pg_order m) \<in> free_blocks ?fl \<or> inside (insert (p, k) A \<union> free_blocks fl) q"
      if "q \<notin> X - {p}" "?pages q = Some m" "pg_usage m = PAGE_ALLOCATOR" for q m
      using that inv(6) [of q m] unfolding F by (auto split: if_splits)
  qed (fact inv(3) inv(4))+
  then show ?thesis
    using k nolink sec m F by (auto simp: FreePageNoCoalesce_Ok linked_iff)
qed

lemma inv_pop:
  assumes "buddy_inv X A (fl, pages)" and "(p, k) \<in> free_blocks fl"
  defines "fl' \<equiv> fl(k := remove1 p (fl k))"
  shows "buddy_inv (insert p X) (insert (p, k) A) (fl', pages)"
    and "free_blocks fl' = free_blocks fl - {(p, k)}"
proof -
  note inv = buddy_invD [OF assms(1)]
  show F: "free_blocks fl' = free_blocks fl - {(p, k)}"
    using inv(1) by (auto simp: free_blocks_def fl'_def split: if_splits)
  have S: "insert (p, k) A \<union> free_blocks fl' = A \<union> free_blocks fl"
    using assms(2) unfolding F by blast
  show "buddy_inv (insert p X) (insert (p, k) A) (fl', pages)"
  proof (rule buddy_invI, unfold S)
    show "distinct (fl' j)" if "j \<le> MAX_ORDER" for j
      using inv(1) [OF that] by (auto simp: fl'_def)
    show "insert (p, k) A \<inter> free_blocks fl' = {}" using inv(2) by (auto simp: F)
    show "\<exists>m. pages q = Some m \<and> pg_usage m = PAGE_ALLOCATOR \<and> pg_order m = j"
      if "(q, j) \<in> free_blocks fl'" for q j
      using that inv(5) [of q j] by (simp add: F)
    show "(q, pg_order m) \<in> free_blocks fl' \<or> inside (A \<union> free_blocks fl) q"
      if "q \<notin> insert p X" "pages q = Some m" "pg_usage m = PAGE_ALLOCATOR" for q m
      using that inv(6) [of q m] by (auto simp: F)
  qed (fact inv(3) inv(4))+
qed

text \<open>Halving a block and joining two halves.\<close>

lemma disjoint_blocks_insert:
  "disjoint_blocks (insert b S) \<longleftrightarrow> disjoint_blocks S \<and> (\<forall>c\<in>S - {b}. block b \<inter> block c = {})"
  unfolding disjoint_blocks_def by blast

lemma inside_insert: "inside (insert b S) p \<longleftrightarrow> (unat (fst b) < unat p \<and> unat p \<in> block b) \<or> inside S p"
  by (auto simp: inside_def)

definition halves :: "pfn \<Rightarrow> nat \<Rightarrow> pfn \<Rightarrow> bool" where
  "halves p k u \<longleftrightarrow> 2 ^ Suc k dvd unat p \<and> unat u = unat p + 2 ^ k"

lemma upper_halves:
  assumes "2 ^ Suc k dvd unat p" and "unat p < 2 ^ 34" and "k < 34"
  shows "halves p k (pfn_to_buddy p k)"
proof -
  have "2 ^ k dvd unat p" using assms(1) by (rule power_le_dvd) simp
  moreover have "\<not> (2::nat) ^ Suc k dvd 2 ^ k" by (intro nat_dvd_not_less) auto
  ultimately show ?thesis
    using buddy_cases [of k p] assms dvd_add_right_iff [of "2 ^ Suc k" "unat (pfn_to_buddy p k)" "2 ^ k"]
    by (auto simp: halves_def)
qed

lemma halves_buddy: "block_ok pages (p, Suc k) \<Longrightarrow> halves p k (pfn_to_buddy p k)"
  using block_ok_low(1) [of pages p "Suc k"] by (intro upper_halves) (auto simp: block_ok_def MAX_ORDER_def)

lemma halves_block:
  assumes "halves p k u"
  shows "block (p, Suc k) = block (p, k) \<union> block (u, k)" and "block (p, k) \<inter> block (u, k) = {}"
    and "(p, k) \<noteq> (u, k)"
  using assms by (auto simp: halves_def block_def)

lemma halves_block_ok:
  assumes "halves p k u" and "k < MAX_ORDER"
  shows "block_ok pages (p, Suc k) \<longleftrightarrow> block_ok pages (p, k) \<and> block_ok pages (u, k)"
proof -
  have d: "2 ^ k dvd unat p" using assms(1) unfolding halves_def by (metis dvd_trans power_le_dvd le_SucI order_refl dvd_refl)
  then have "2 ^ k dvd unat u" using assms(1) by (simp add: halves_def)
  then show ?thesis
    using assms d by (auto simp: block_ok_def halves_block halves_def)
qed

lemma halves_disjoint:
  assumes "halves p k u" and "(p, Suc k) \<notin> S"
  shows "disjoint_blocks (insert (p, Suc k) S) \<Longrightarrow> disjoint_blocks (insert (p, k) (insert (u, k) S))
     \<and> (p, k) \<notin> S \<and> (u, k) \<notin> S"
    and "disjoint_blocks (insert (p, k) (insert (u, k) S)) \<Longrightarrow> (p, k) \<notin> S \<Longrightarrow> (u, k) \<notin> S \<Longrightarrow>
     disjoint_blocks (insert (p, Suc k) S)"
proof -
  note hb = halves_block [OF assms(1)]
  { assume d: "disjoint_blocks (insert (p, Suc k) S)"
    have "block (p, Suc k) \<inter> block c = {}" if "c \<in> S" for c
      using d that assms(2) unfolding disjoint_blocks_insert by blast
    then have *: "block (p, k) \<inter> block c = {}" "block (u, k) \<inter> block c = {}" if "c \<in> S" for c
      using that unfolding hb(1) by blast+
    then have "(p, k) \<notin> S" "(u, k) \<notin> S" using head_in_block by blast+
    then show "disjoint_blocks (insert (p, k) (insert (u, k) S)) \<and> (p, k) \<notin> S \<and> (u, k) \<notin> S"
      using d * hb(2) unfolding disjoint_blocks_insert by blast }
  { assume d: "disjoint_blocks (insert (p, k) (insert (u, k) S))" "(p, k) \<notin> S" "(u, k) \<notin> S"
    then show "disjoint_blocks (insert (p, Suc k) S)"
      unfolding disjoint_blocks_insert hb(1) by blast }
qed

lemma halves_inside:
  assumes "halves p k u"
  shows "inside (insert (p, Suc k) S) q \<Longrightarrow> q \<noteq> u \<Longrightarrow> inside (insert (p, k) (insert (u, k) S)) q"
    and "inside (insert (p, k) (insert (u, k) S)) q \<Longrightarrow> inside (insert (p, Suc k) S) q"
    and "inside (insert (p, Suc k) S) u"
  using assms by (auto simp: inside_insert halves_def block_def word_eq_unat)

lemma inv_split:
  assumes "buddy_inv X (insert (p, Suc k) A) (fl, pages)" and "(p, Suc k) \<notin> A"
  defines "u \<equiv> pfn_to_buddy p k"
  shows "buddy_inv (insert u X) (insert (u, k) (insert (p, k) A)) (fl, pages)
    \<and> (p, k) \<notin> A \<and> (u, k) \<notin> insert (p, k) A \<and> (p, k) \<notin> free_blocks fl \<and> block (p, Suc k) = block (p, k) \<union> block (u, k)"
proof -
  note inv = buddy_invD [OF assms(1)]
  have ok: "block_ok pages (p, Suc k)" using inv(3) by blast
  then have k: "k < MAX_ORDER" and h: "halves p k u"
    unfolding u_def using halves_buddy by (auto simp: block_ok_def)
  let ?S = "A \<union> free_blocks fl"
  have n: "(p, Suc k) \<notin> ?S" using assms(2) inv(2) by blast
  note d = halves_disjoint(1) [OF h n] inv(4)
  have eq: "insert (u, k) (insert (p, k) A) \<union> free_blocks fl = insert (p, k) (insert (u, k) ?S)"
    "insert (p, Suc k) A \<union> free_blocks fl = insert (p, Suc k) ?S" by blast+
  have "buddy_inv (insert u X) (insert (u, k) (insert (p, k) A)) (fl, pages)"
  proof (rule buddy_invI, unfold eq)
    show "block_ok pages b" if "b \<in> insert (p, k) (insert (u, k) ?S)" for b
      using that ok inv(3) halves_block_ok [OF h k] by blast
    show "disjoint_blocks (insert (p, k) (insert (u, k) ?S))" using d unfolding eq by blast
    show "insert (u, k) (insert (p, k) A) \<inter> free_blocks fl = {}"
      using inv(2) d unfolding eq by blast
    show "(q, pg_order m) \<in> free_blocks fl \<or> inside (insert (p, k) (insert (u, k) ?S)) q"
      if "q \<notin> insert u X" "pages q = Some m" "pg_usage m = PAGE_ALLOCATOR" for q m
      using that inv(6) [of q m] halves_inside(1) [OF h] unfolding eq by blast
  qed (use inv(1,5) in auto)
  then show ?thesis using d halves_block [OF h] unfolding eq by blast
qed

lemma inv_join:
  assumes "buddy_inv X (insert (p, k) (insert (u, k) A)) (fl, pages)" and "(p, k) \<notin> A" "(u, k) \<notin> A"
    and "halves p k u" and "k < MAX_ORDER"
  shows "buddy_inv (X - {u}) (insert (p, Suc k) A) (fl, pages)" and "(p, Suc k) \<notin> A"
proof -
  note inv = buddy_invD [OF assms(1)] and h = assms(4)
  let ?S = "A \<union> free_blocks fl"
  have "(p, Suc k) \<notin> ?S"
    using disjoint_blocksD [OF inv(4), of "(p, k)" "(p, Suc k)" "unat p"] by auto
  then have n: "(p, Suc k) \<notin> A" "(p, Suc k) \<notin> free_blocks fl" by auto
  then show "(p, Suc k) \<notin> A" by blast
  have eq: "insert (p, k) (insert (u, k) A) \<union> free_blocks fl = insert (p, k) (insert (u, k) ?S)"
    "insert (p, Suc k) A \<union> free_blocks fl = insert (p, Suc k) ?S" by blast+
  have pu: "(p, k) \<notin> ?S" "(u, k) \<notin> ?S" using assms(2,3) inv(2) by blast+
  show "buddy_inv (X - {u}) (insert (p, Suc k) A) (fl, pages)"
  proof (rule buddy_invI, unfold eq)
    show "block_ok pages b" if "b \<in> insert (p, Suc k) ?S" for b
      using that inv(3) halves_block_ok [OF h assms(5)] by blast
    show "disjoint_blocks (insert (p, Suc k) ?S)"
      using halves_disjoint(2) [OF h _ _ pu] n inv(4) unfolding eq by blast
    show "insert (p, Suc k) A \<inter> free_blocks fl = {}" using inv(2) n by blast
    show "(q, pg_order m) \<in> free_blocks fl \<or> inside (insert (p, Suc k) ?S) q"
      if "q \<notin> X - {u}" "pages q = Some m" "pg_usage m = PAGE_ALLOCATOR" for q m
      using that inv(6) [of q m] halves_inside(2,3) [OF h] unfolding eq by blast
  qed (use inv(1,5) in auto)
qed

lemma inv_mark:
  assumes "buddy_inv X A (fl, pages)" and "pages p = Some m0" and "pg_usage m \<noteq> PAGE_ALLOCATOR"
    and "\<And>k. (p, k) \<notin> free_blocks fl"
  shows "buddy_inv (X - {p}) A (fl, pages(p \<mapsto> m))"
proof -
  note inv = buddy_invD [OF assms(1)]
  have okb: "block_ok (pages(p \<mapsto> m)) b = block_ok pages b" for b
    using assms(2) by (intro block_ok_cong) auto
  show ?thesis
  proof (rule buddy_invI, unfold okb)
    show "\<exists>m'. (pages(p \<mapsto> m)) q = Some m' \<and> pg_usage m' = PAGE_ALLOCATOR \<and> pg_order m' = j"
      if "(q, j) \<in> free_blocks fl" for q j
      using that inv(5) assms(4) by auto
    show "(q, pg_order m') \<in> free_blocks fl \<or> inside (A \<union> free_blocks fl) q"
      if "q \<notin> X - {p}" "(pages(p \<mapsto> m)) q = Some m'" "pg_usage m' = PAGE_ALLOCATOR" for q m'
      using that inv(6) [of q m'] assms(3) by (auto split: if_splits)
  qed (fact inv(1-4))+
qed

subsection \<open>Allocation\<close>

lemma inv_mono: "buddy_inv X A s \<Longrightarrow> X \<subseteq> Y \<Longrightarrow> buddy_inv Y A s"
  unfolding buddy_inv_def by (cases s) (simp, blast)

lemma free_frames_insert:
  "free_blocks fl' = insert b (free_blocks fl) \<Longrightarrow> free_frames fl' = block b \<union> free_frames fl"
  by (simp add: free_frames_def)

lemma free_frames_remove:
  assumes "disjoint_blocks (free_blocks fl)" and "b \<in> free_blocks fl" and "free_blocks fl' = free_blocks fl - {b}"
  shows "free_frames fl' = free_frames fl - block b" and "block b \<subseteq> free_frames fl"
  using assms unfolding free_frames_def disjoint_blocks_def by blast+

lemma disjoint_blocks_subset: "disjoint_blocks S \<Longrightarrow> T \<subseteq> S \<Longrightarrow> disjoint_blocks T"
  unfolding disjoint_blocks_def by blast

lemma split_block_ok:
  assumes "buddy_inv X (insert (p, t) A) s" and "(p, t) \<notin> A" and "order \<le> t"
  shows "\<exists>s'. split_block p order t s = Ok s' \<and> buddy_inv X (insert (p, order) A) s' \<and> (p, order) \<notin> A
    \<and> free_frames (fst s') = free_frames (fst s) \<union> (block (p, t) - block (p, order))
    \<and> block (p, order) \<subseteq> block (p, t)"
  using assms
proof (induction t arbitrary: s)
  case (Suc k)
  show ?case
  proof (cases "Suc k = order")
    case False
    let ?u = "pfn_to_buddy p k"
    obtain fl pages where s: "s = (fl, pages)" by (cases s)
    note h = inv_split [OF Suc.prems(1) [unfolded s] Suc.prems(2)]
    then obtain s1 where push: "FreePageNoCoalesce ?u k s = Ok s1"
      and inv1: "buddy_inv X (insert (p, k) A) s1" and F1: "free_blocks (fst s1) = insert (?u, k) (free_blocks fl)"
      using inv_push [of "insert ?u X" ?u k "insert (p, k) A" fl pages] inv_mono [of "insert ?u X - {?u}" _ _ X]
      unfolding s by fastforce
    have k: "order \<le> k" using Suc.prems(3) False by simp
    obtain s' where s': "split_block p order k s1 = Ok s'" "buddy_inv X (insert (p, order) A) s'"
      "(p, order) \<notin> A" "free_frames (fst s') = free_frames (fst s1) \<union> (block (p, k) - block (p, order))"
      "block (p, order) \<subseteq> block (p, k)"
      using Suc.IH [OF inv1 _ k] h by blast
    have "block (?u, k) \<inter> block (p, k) = {}"
      using h buddy_invD(4) [of "insert ?u X"] unfolding disjoint_blocks_def by blast
    then have "free_frames (fst s') = free_frames (fst s) \<union> (block (p, Suc k) - block (p, order))"
      using s' h free_frames_insert [OF F1] unfolding s by auto
    then show ?thesis using s' h push False by auto
  next
    case True
    then show ?thesis using Suc.prems by (intro exI [of _ s]) auto
  qed
qed auto

lemma inv_head_free:
  assumes "buddy_inv X (insert (p, k) A) (fl, pages)"
  shows "(p, j) \<notin> free_blocks fl"
  using disjoint_blocksD [OF buddy_invD(4) [OF assms], of "(p, k)" "(p, j)" "unat p"]
    buddy_invD(2) [OF assms] by auto

lemma find_upt_Some:
  "find P [a..<b] = Some k \<Longrightarrow> P k \<and> a \<le> k \<and> k < b"
  by (metis find_Some_iff nth_mem atLeastLessThan_iff set_upt)

lemma AllocLocal_ok:
  assumes "buddy_inv X A s"
  shows "(AllocLocal order s = Ok (NO_PFN, s) \<and> (\<forall>k. order \<le> k \<and> k \<le> MAX_ORDER \<longrightarrow> fst s k = []))
    \<or> (\<exists>p s'. AllocLocal order s = Ok (p, s') \<and> p \<noteq> NO_PFN \<and> (p, order) \<notin> A
         \<and> buddy_inv X (insert (p, order) A) s' \<and> block (p, order) \<subseteq> free_frames (fst s)
         \<and> free_frames (fst s') = free_frames (fst s) - block (p, order))"
proof -
  obtain fl pages where s: "s = (fl, pages)" by (cases s)
  note inv = buddy_invD [OF assms [unfolded s]]
  show ?thesis
  proof (cases "find (\<lambda>k. fl k \<noteq> []) [order..<Suc MAX_ORDER]")
    case None
    then have "\<forall>k. order \<le> k \<and> k \<le> MAX_ORDER \<longrightarrow> fl k = []"
      by (auto simp: find_None_iff less_Suc_eq_le simp del: upt_Suc)
    then show ?thesis using None by (simp add: AllocLocal_def s del: upt_Suc)
  next
    case (Some t)
    then have t: "fl t \<noteq> []" "order \<le> t" "t \<le> MAX_ORDER" using find_upt_Some [OF Some] by auto
    let ?p = "hd (fl t)"
    let ?fl = "fl(t := tl (fl t))"
    have tl: "remove1 ?p (fl t) = tl (fl t)" using t(1) by (cases "fl t") auto
    have mem: "(?p, t) \<in> free_blocks fl" using t by (simp add: free_blocks_def)
    note pop = inv_pop [OF assms [unfolded s] mem, unfolded tl]
    have dis: "disjoint_blocks (free_blocks fl)" by (rule disjoint_blocks_subset [OF inv(4)]) blast
    note fr = free_frames_remove [OF dis mem pop(2)]
    have nA: "(?p, t) \<notin> A" using inv(2) mem by blast
    obtain fl' pages' where s': "split_block ?p order t (?fl, pages) = Ok (fl', pages')"
      "buddy_inv (insert ?p X) (insert (?p, order) A) (fl', pages')" "(?p, order) \<notin> A"
      "free_frames fl' = free_frames ?fl \<union> (block (?p, t) - block (?p, order))"
      "block (?p, order) \<subseteq> block (?p, t)"
      using split_block_ok [OF pop(1) nA t(2)] by auto
    note inv' = buddy_invD [OF s'(2)]
    have ok: "block_ok pages' (?p, order)" using inv'(3) by blast
    then obtain m where m: "pages' ?p = Some m" unfolding block_ok_def by (metis head_in_block option.exhaust)
    note sec = block_ok_low(2) [OF ok]
    have "?p \<noteq> NO_PFN" using block_ok_low(1) [OF ok] by (auto simp: NO_PFN_def unsigned_minus_1_eq_mask mask_eq_exp_minus_1)
    moreover have "buddy_inv X (insert (?p, order) A) (fl', pages'(?p \<mapsto> m\<lparr>pg_usage := IN_USE\<rparr>))"
      using inv_mono [OF inv_mark [OF s'(2) m, of "m\<lparr>pg_usage := IN_USE\<rparr>"], of X] inv_head_free [OF s'(2)] by auto
    moreover have "AllocLocal order s = Ok (?p, (fl', pages'(?p \<mapsto> m\<lparr>pg_usage := IN_USE\<rparr>)))"
      using Some s'(1) m sec by (simp add: AllocLocal_def s page_at_def Let_def del: upt_Suc)
    ultimately show ?thesis using s'(3,4,5) fr unfolding s by auto
  qed
qed

subsection \<open>Freeing\<close>

lemma dvd_less_step: "d dvd a \<Longrightarrow> d dvd b \<Longrightarrow> a < b \<Longrightarrow> a + d \<le> b" for a b d :: nat
  by (metis dvd_diff_nat dvd_imp_le le_add_diff_inverse less_imp_le nat_add_left_cancel_le zero_less_diff)

lemma buddy_not_inside:
  assumes "\<And>b. b \<in> S \<Longrightarrow> block_ok pages b" and "disjoint_blocks S" and "(p, k) \<in> S"
  shows "\<not> inside S (pfn_to_buddy p k)"
proof
  let ?b = "pfn_to_buddy p k"
  have p: "2 ^ k dvd unat p" "unat p < 2 ^ 34" "k < 34"
    using assms(1) [OF assms(3)] block_ok_low(1) by (auto simp: block_ok_def MAX_ORDER_def)
  note bc = buddy_cases [OF p]
  then have b: "2 ^ k dvd unat ?b" using p(1) power_le_dvd [of 2 "Suc k" "unat ?b" k] by auto
  assume "inside S ?b"
  then obtain q j where q: "(q, j) \<in> S" "unat q < unat ?b" "unat ?b < unat q + 2 ^ j"
    by (auto simp: inside_def block_def)
  have qj: "2 ^ j dvd unat q" using assms(1) [OF q(1)] by (simp add: block_ok_def)
  show False
  proof (cases "j \<le> k")
    case True
    then have "2 ^ j dvd unat ?b" using b power_le_dvd by blast
    then show False using dvd_less_step [OF qj _ q(2)] q(3) by simp
  next
    case False
    then have j: "Suc k \<le> j" by simp
    then have q2: "2 ^ Suc k dvd unat q" using qj power_le_dvd by blast
    have e2: "2 ^ Suc k dvd unat q + 2 ^ j" using q2 j by (simp add: le_imp_power_dvd dvd_add del: power_Suc)
    from bc have "unat p \<in> block (q, j)"
    proof (elim disjE conjE)
      assume h: "2 ^ Suc k dvd unat p" "unat ?b = unat p + 2 ^ k"
      have "unat q \<le> unat p"
        using dvd_less_step [OF h(1) q2] q(2) h(2) by (cases "unat p < unat q") auto
      then show ?thesis using q(3) h(2) by (simp add: block_def)
    next
      assume h: "2 ^ Suc k dvd unat ?b" "unat p = unat ?b + 2 ^ k"
      have "unat ?b + 2 ^ Suc k \<le> unat q + 2 ^ j" by (rule dvd_less_step [OF h(1) e2 q(3)])
      then have "unat p < unat q + 2 ^ j" using h(2) by (simp add: order_less_le_trans [rotated])
      then show ?thesis using h(2) q(2) by (simp add: block_def)
    qed
    then have "(q, j) = (p, k)" using disjoint_blocksD [OF assms(2) q(1) assms(3)] by simp
    then show False using False by simp
  qed
qed

text \<open>The order of the block that freeing \<open>(p, k)\<close> ends with.\<close>

function merge_order :: "pfn \<Rightarrow> nat \<Rightarrow> free_lists \<Rightarrow> nat" where
  "merge_order p k fl =
     (if k < MAX_ORDER \<and> pfn_to_buddy p k \<in> set (fl k) then merge_order p (Suc k) fl else k)"
  by pat_completeness auto
termination by (relation "measure (\<lambda>(p, k, fl). MAX_ORDER - k)") auto

declare merge_order.simps [simp del]

lemma merge_order_ge: "k \<le> merge_order p k fl"
proof (induction p k fl rule: merge_order.induct)
  case (1 p k fl)
  then show ?case by (subst merge_order.simps) (auto intro: Suc_leD)
qed

lemma merge_order_cong: "(\<And>j. k \<le> j \<Longrightarrow> fl' j = fl j) \<Longrightarrow> merge_order p k fl' = merge_order p k fl"
proof (induction p k fl rule: merge_order.induct)
  case (1 p k fl)
  then show ?case by (subst (1 2) merge_order.simps) auto
qed

lemma free_loop_ok:
  assumes "buddy_inv {} (insert (p, k) A) (fl, pages)" and "(p, k) \<notin> A"
    and "2 ^ merge_order p k fl dvd unat p"
  shows "\<exists>s'. free_loop p k (fl, pages) = Ok s' \<and> buddy_inv {} A s'
    \<and> free_frames (fst s') = free_frames fl \<union> block (p, k)
    \<and> (p, merge_order p k fl) \<in> free_blocks (fst s')"
  using assms
proof (induction "MAX_ORDER - k" arbitrary: k fl)
  case 0
  have ok: "block_ok pages (p, k)" using buddy_invD(3) [OF 0(2)] by blast
  then have "\<not> k < MAX_ORDER" using 0 by (simp add: block_ok_def)
  then have "free_loop p k (fl, pages) = FreePageNoCoalesce p k (fl, pages)" "merge_order p k fl = k"
    by (simp_all add: free_loop.simps merge_order.simps)
  then show ?case using inv_push [OF 0(2,3)] free_frames_insert by fastforce
next
  case (Suc n)
  note inv = buddy_invD [OF Suc.prems(1)]
  let ?S = "insert (p, k) A \<union> free_blocks fl" and ?u = "pfn_to_buddy p k"
  have ok: "block_ok pages (p, k)" using inv(3) by blast
  have k: "k < MAX_ORDER" using Suc.hyps(2) by simp
  have k34: "k < 34" using k by (simp add: MAX_ORDER_def)
  have "unat ?u < 2 ^ 34" using buddy_low [OF block_ok_low(1) [OF ok] k34] .
  then have sec: "pfn_to_section_num ?u < NUM_MEM_SECTIONS"
    by (simp add: section_num section_consts less_mult_imp_div_less)
  have meta: "?u \<in> set (fl k) \<longleftrightarrow> (\<exists>m. pages ?u = Some m \<and> pg_usage m = PAGE_ALLOCATOR \<and> pg_order m = k)"
    (is "?L \<longleftrightarrow> ?R")
  proof
    show "?L \<Longrightarrow> ?R" using inv(5) [of ?u k] k by (auto simp: free_blocks_def)
    have "\<not> inside ?S ?u" by (rule buddy_not_inside [OF inv(3,4)]) auto
    then show "?R \<Longrightarrow> ?L" using inv(6) [of ?u] by (auto simp: free_blocks_def)
  qed
  show ?case
  proof (cases "?u \<in> set (fl k)")
    case False
    then have "free_loop p k (fl, pages) = FreePageNoCoalesce p k (fl, pages)"
      using k sec meta by (auto simp: free_loop.simps page_at_def Let_def split: option.splits)
    moreover have "merge_order p k fl = k" using False by (simp add: merge_order.simps)
    ultimately show ?thesis using inv_push [OF Suc.prems(1,2)] free_frames_insert by fastforce
  next
    case True
    let ?fl = "fl(k := remove1 ?u (fl k))"
    have mem: "(?u, k) \<in> free_blocks fl" using True k by (simp add: free_blocks_def)
    have mo: "merge_order p k fl = merge_order p (Suc k) fl"
      using True k by (subst merge_order.simps) simp
    also have "\<dots> = merge_order p (Suc k) ?fl" by (intro merge_order_cong [symmetric]) auto
    finally have mo: "merge_order p k fl = merge_order p (Suc k) ?fl" .
    have "Suc k \<le> merge_order p k fl" unfolding mo by (rule merge_order_ge)
    then have dvd: "2 ^ Suc k dvd unat p" using Suc.prems(3) power_le_dvd by blast
    have h: "halves p k ?u" by (rule upper_halves [OF dvd block_ok_low(1) [OF ok] k34])
    note pop = inv_pop [OF Suc.prems(1) mem]
    have nA: "(?u, k) \<notin> A" using inv(2) mem by blast
    have "buddy_inv {?u} (insert (p, k) (insert (?u, k) A)) (?fl, pages)"
      using pop(1) by (simp add: insert_commute)
    from inv_join [OF this Suc.prems(2) nA h k]
    have inv': "buddy_inv {} (insert (p, Suc k) A) (?fl, pages)" and n': "(p, Suc k) \<notin> A" by simp_all
    have dis: "disjoint_blocks (free_blocks fl)" by (rule disjoint_blocks_subset [OF inv(4)]) blast
    note fr = free_frames_remove [OF dis mem pop(2)]
    obtain s' where s': "free_loop p (Suc k) (?fl, pages) = Ok s'" "buddy_inv {} A s'"
      "free_frames (fst s') = free_frames ?fl \<union> block (p, Suc k)"
      "(p, merge_order p (Suc k) ?fl) \<in> free_blocks (fst s')"
      using Suc.hyps(1) [OF _ inv' n'] Suc.hyps(2) Suc.prems(3) unfolding mo by fastforce
    have "free_loop p k (fl, pages) = Ok s'"
      using s'(1) k sec meta True by (subst free_loop.simps) (auto simp: page_at_def Let_def)
    then show ?thesis using s'(2-4) fr halves_block [OF h] unfolding mo by auto
  qed
qed

lemma Free_ok:
  assumes "buddy_inv {} (insert (p, k) A) s" and "(p, k) \<notin> A" and "2 ^ merge_order p k (fst s) dvd unat p"
  shows "\<exists>s'. Free p k s = Ok s' \<and> buddy_inv {} A s'
    \<and> free_frames (fst s') = free_frames (fst s) \<union> block (p, k)
    \<and> (p, merge_order p k (fst s)) \<in> free_blocks (fst s')"
proof -
  obtain fl pages where s: "s = (fl, pages)" by (cases s)
  have "k \<le> MAX_ORDER" using buddy_invD(3) [OF assms(1) [unfolded s]] by (force simp: block_ok_def)
  then show ?thesis using free_loop_ok [OF assms(1) [unfolded s] assms(2)] assms(3) by (simp add: Free_def s)
qed

subsection \<open>Handing the boot memory to the buddy allocators\<close>

definition frames_of :: "nat \<Rightarrow> page_allocators \<Rightarrow> nat set" where
  "frames_of n st = free_frames (allocators st ! n)"

text \<open>\<open>adds n st st' R\<close>: the frames \<open>R\<close> became free at node \<open>n\<close>, nothing else changed hands and only
  their \<open>struct page\<close>s were written.\<close>

definition adds :: "nat \<Rightarrow> page_allocators \<Rightarrow> page_allocators \<Rightarrow> nat set \<Rightarrow> bool" where
  "adds n st st' R \<longleftrightarrow> length (allocators st') = length (allocators st)
     \<and> (\<forall>i. i \<noteq> n \<longrightarrow> allocators st' ! i = allocators st ! i)
     \<and> frames_of n st' = frames_of n st \<union> R
     \<and> (\<forall>q. page_map st' q = None \<longleftrightarrow> page_map st q = None)
     \<and> (\<forall>q. unat q \<notin> R \<longrightarrow> page_map st' q = page_map st q)"

definition node_inv :: "pfn set \<Rightarrow> blk set \<Rightarrow> nat \<Rightarrow> page_allocators \<Rightarrow> bool" where
  "node_inv X A n st \<longleftrightarrow> n < length (allocators st) \<and> buddy_inv X A (allocators st ! n, page_map st)"

text \<open>The frames \<open>R\<close> have a \<open>struct page\<close> and no block of the node's allocator or its clients
  touches them.\<close>

definition fresh :: "blk set \<Rightarrow> nat \<Rightarrow> page_allocators \<Rightarrow> nat set \<Rightarrow> bool" where
  "fresh A n st R \<longleftrightarrow> (\<forall>p. unat p \<in> R \<longrightarrow> page_map st p \<noteq> None)
     \<and> R \<inter> frames_of n st = {} \<and> (\<forall>b\<in>A. R \<inter> block b = {})"

lemma adds_refl: "adds n st st {}"
  by (simp add: adds_def)

lemma adds_trans: "adds n a b R \<Longrightarrow> adds n b c S \<Longrightarrow> adds n a c (R \<union> S)"
  by (auto simp: adds_def)

lemma fresh_after: "fresh A n st (R \<union> S) \<Longrightarrow> adds n st st' R \<Longrightarrow> R \<inter> S = {} \<Longrightarrow> fresh A n st' S"
  unfolding fresh_def adds_def by blast

lemma fresh_subset: "fresh A n st R \<Longrightarrow> S \<subseteq> R \<Longrightarrow> fresh A n st S"
  unfolding fresh_def by blast

lemma early_free_block_ok:
  assumes "node_inv X A n st" and "fresh A n st (block (p, k))"
    and "2 ^ k dvd unat p" and "unat p + 2 ^ k \<le> 2 ^ 34" and "k \<le> MAX_ORDER"
  shows "\<exists>st'. early_free_block p k (int n) st = Ok st' \<and> node_inv X A n st' \<and> adds n st st' (block (p, k))"
proof -
  let ?fl = "allocators st ! n" and ?pg = "page_map st"
  have n: "n < length (allocators st)" and inv: "buddy_inv X A (?fl, ?pg)"
    using assms(1) by (auto simp: node_inv_def)
  have ok: "block_ok ?pg (p, k)" using assms(2-5) by (simp add: block_ok_def fresh_def)
  have dis: "block (p, k) \<inter> block c = {}" if "c \<in> A \<union> free_blocks ?fl" for c
    using that assms(2) unfolding fresh_def frames_of_def free_frames_def by blast
  then have nA: "(p, k) \<notin> A" using head_in_block by blast
  obtain fl' pg' where f: "FreePageNoCoalesce p k (?fl, ?pg) = Ok (fl', pg')"
    "buddy_inv (X - {p}) A (fl', pg')" "free_blocks fl' = insert (p, k) (free_blocks ?fl)"
    using inv_push [OF inv_add_block [OF inv ok dis] nA] by auto
  let ?st = "\<lparr>allocators = (allocators st)[n := fl'], page_map = pg'\<rparr>"
  have "early_free_block p k (int n) st = Ok ?st"
    using assms(5) n f(1) by (simp add: early_free_block_def on_allocator_def)
  moreover have "node_inv X A n ?st" using n inv_mono [OF f(2)] by (auto simp: node_inv_def)
  moreover have "adds n st ?st (block (p, k))"
    using n f(1) free_frames_insert [OF f(3)]
    by (auto simp: adds_def frames_of_def FreePageNoCoalesce_Ok split: if_splits)
  ultimately show ?thesis by blast
qed

lemma ctz32_Ok:
  assumes "\<not> 2 ^ e dvd unat p" and "e \<le> 32"
  obtains t where "ctz32 p = Ok t" and "2 ^ t dvd unat p" and "t < e"
proof -
  let ?w = "ucast p :: u32"
  have w: "unat ?w = unat p mod 2 ^ 32" by (simp add: unsigned_ucast_eq take_bit_eq_mod)
  have lift: "2 ^ j dvd unat ?w \<longleftrightarrow> 2 ^ j dvd unat p" if "j \<le> 32" for j
    unfolding w using that by (intro dvd_mod_iff le_imp_power_dvd)
  have nz: "?w \<noteq> 0"
  proof
    assume "?w = 0"
    then have "2 ^ e dvd unat ?w" by (simp only: unat_0 dvd_0_right)
    then show False using lift [OF assms(2)] assms(1) by blast
  qed
  have t: "ctz ?w < 32" using ctz_bit(1) [OF nz] by simp
  have "2 ^ ctz ?w dvd unat p" using lift [of "ctz ?w"] t ctz_dvd(1) [OF nz] by simp
  moreover from this have "ctz ?w < e" using assms(1) power_le_dvd not_less by blast
  ultimately show ?thesis using that nz by (simp add: ctz32_def)
qed

lemma clz32_Ok:
  assumes "x \<noteq> 0" and "unat x < 2 ^ 32"
  obtains lz where "clz32 x = Ok lz" and "2 ^ (32 - lz - 1) \<le> unat x" and "unat x < 2 ^ Suc (32 - lz - 1)"
proof -
  let ?w = "ucast x :: u32"
  have w: "unat ?w = unat x" using assms(2) by (simp add: unsigned_ucast_eq take_bit_nat_eq_self_iff)
  then have nz: "?w \<noteq> 0" using assms(1) by (metis unat_0 word_eq_unat)
  then have "clz32 x = Ok (clz ?w)" by (simp add: clz32_def)
  moreover have "32 - clz ?w - 1 = LENGTH(32) - 1 - clz ?w" by simp
  ultimately show ?thesis using that clz_log [OF nz] w by metis
qed

lemma block_interval: "unat (p + push_bit k 1) = unat p + 2 ^ k \<Longrightarrow>
    unat p + 2 ^ k \<le> e \<Longrightarrow> {unat p ..< e} = block (p, k) \<union> {unat (p + push_bit k 1) ..< e}
      \<and> block (p, k) \<inter> {unat (p + push_bit k 1) ..< e} = {}"
  by (auto simp: block_def)

text \<open>One iteration of either loop.\<close>

lemma init_step:
  assumes "node_inv X A n st" and "fresh A n st {unat p ..< e}" and "k \<le> MAX_ORDER"
    and "2 ^ k dvd unat p" and "unat p + 2 ^ k \<le> e" and "e \<le> 2 ^ 34"
  obtains st' where "early_free_block p k (int n) st = Ok st'" and "node_inv X A n st'"
    and "adds n st st' (block (p, k))" and "fresh A n st' {unat (p + push_bit k 1) ..< e}"
    and "unat (p + push_bit k 1) = unat p + 2 ^ k"
proof -
  have "block (p, k) \<subseteq> {unat p ..< e}" using assms(5) by (auto simp: block_def)
  then have fr: "fresh A n st (block (p, k))" using assms(2) fresh_subset by blast
  have "unat p + 2 ^ k \<le> 2 ^ 34" using assms(5,6) by linarith
  from early_free_block_ok [OF assms(1) fr assms(4) this assms(3)]
  obtain st' where st': "early_free_block p k (int n) st = Ok st'" "node_inv X A n st'"
    "adds n st st' (block (p, k))" by blast
  note nx = next_block [OF st'(1)]
  have "fresh A n st' {unat (p + push_bit k 1) ..< e}"
    using fresh_after [OF _ st'(3)] block_interval [OF nx assms(5)] assms(2) by metis
  then show ?thesis using that st' nx by blast
qed

lemma init_low_ok:
  assumes "node_inv X A n st" and "fresh A n st {unat p ..< unat d}" and "p \<le> d"
    and "unat d \<le> 2 ^ 34" and "2 ^ e dvd unat d" and "unat d < unat p + 2 ^ e" and "e \<le> 30"
  shows "\<exists>st'. init_low p d (int n) st = Ok st' \<and> node_inv X A n st' \<and> adds n st st' {unat p ..< unat d}"
  using assms
proof (induction "unat d - unat p" arbitrary: p st rule: less_induct)
  case less
  show ?case
  proof (cases "p = d")
    case True
    then show ?thesis using less.prems(1) adds_refl by (simp add: init_low.simps)
  next
    case False
    then have lt: "unat p < unat d" using less.prems(3) by (simp add: word_le_nat_alt word_eq_unat)
    have "\<not> 2 ^ e dvd unat p" using dvd_less_step [OF _ less.prems(5) lt] less.prems(6) by auto
    then obtain t where t: "ctz32 p = Ok t" "2 ^ t dvd unat p" "t < e"
      using ctz32_Ok [of e p] less.prems(7) by auto
    let ?k = "if MAX_ORDER < t then MAX_ORDER else t"
    have k: "?k \<le> MAX_ORDER" "?k \<le> t" "?k \<le> e" using t(3) by auto
    have dk: "2 ^ ?k dvd unat p" "2 ^ ?k dvd unat d"
      using t(2) less.prems(5) k power_le_dvd by blast+
    note up = dvd_less_step [OF dk lt]
    obtain st1 where s1: "early_free_block p ?k (int n) st = Ok st1" "node_inv X A n st1"
      "adds n st st1 (block (p, ?k))" "fresh A n st1 {unat (p + push_bit ?k 1) ..< unat d}"
      "unat (p + push_bit ?k 1) = unat p + 2 ^ ?k"
      using init_step [OF less.prems(1,2) k(1) dk(1) up less.prems(4)] .
    have pos: "0 < (2::nat) ^ ?k" by simp
    have le: "p + push_bit ?k 1 \<le> d" using up s1(5) by (simp only: word_le_nat_alt)
    have "unat d - unat (p + push_bit ?k 1) < unat d - unat p" using s1(5) lt pos by linarith
    moreover have "unat d < unat (p + push_bit ?k 1) + 2 ^ e" using s1(5) less.prems(6) by linarith
    ultimately obtain st' where st': "init_low (p + push_bit ?k 1) d (int n) st1 = Ok st'"
      "node_inv X A n st'" "adds n st1 st' {unat (p + push_bit ?k 1) ..< unat d}"
      using less.hyps [OF _ s1(2,4) le less.prems(4,5) _ less.prems(7)] by blast
    have "p < d" using lt by (simp only: word_less_nat_alt)
    then have "init_low p d (int n) st = Ok st'"
      using False t(1) s1(1) st'(1) by (subst init_low.simps) (simp only: if_True kassert_simps bind_res.simps Let_def not_False_eq_True)
    then show ?thesis
      using adds_trans [OF s1(3) st'(3)] st'(2) block_interval [OF s1(5) up] by auto
  qed
qed

lemma init_high_ok:
  assumes "node_inv X A n st" and "fresh A n st {unat p ..< unat d}" and "p \<le> d"
    and "unat d \<le> 2 ^ 34" and "unat d < unat p + 2 ^ 31"
    and "\<And>k. k \<le> MAX_ORDER \<Longrightarrow> unat p + 2 ^ k \<le> unat d \<Longrightarrow> 2 ^ k dvd unat p"
  shows "\<exists>st'. init_high p d (int n) st = Ok st' \<and> node_inv X A n st' \<and> adds n st st' {unat p ..< unat d}"
  using assms
proof (induction "unat d - unat p" arbitrary: p st rule: less_induct)
  case less
  show ?case
  proof (cases "p = d")
    case True
    then show ?thesis using less.prems(1) adds_refl by (simp add: init_high.simps)
  next
    case False
    then have lt: "unat p < unat d" using less.prems(3) by (simp add: word_le_nat_alt word_eq_unat)
    have r: "unat (d - p) = unat d - unat p" using less.prems(3) by (rule unat_sub_nowrap)
    have "d - p \<noteq> 0" "unat (d - p) < 2 ^ 32" using False r less.prems(5) by auto
    then obtain lz where lz: "clz32 (d - p) = Ok lz" "2 ^ (32 - lz - 1) \<le> unat d - unat p"
      "unat d - unat p < 2 ^ Suc (32 - lz - 1)"
      using clz32_Ok r by metis
    let ?k = "if MAX_ORDER < 32 - lz - 1 then MAX_ORDER else 32 - lz - 1"
    have k: "?k \<le> MAX_ORDER" by simp
    have "(2::nat) ^ ?k \<le> 2 ^ (32 - lz - 1)" by (rule power_increasing) auto
    then have up: "unat p + 2 ^ ?k \<le> unat d" using lz(2) lt by linarith
    have dk: "2 ^ ?k dvd unat p" by (rule less.prems(6) [OF k up])
    obtain st1 where s1: "early_free_block p ?k (int n) st = Ok st1" "node_inv X A n st1"
      "adds n st st1 (block (p, ?k))" "fresh A n st1 {unat (p + push_bit ?k 1) ..< unat d}"
      "unat (p + push_bit ?k 1) = unat p + 2 ^ ?k"
      using init_step [OF less.prems(1,2) k dk up less.prems(4)] .
    have pos: "0 < (2::nat) ^ ?k" by simp
    have le: "p + push_bit ?k 1 \<le> d" using up s1(5) by (simp only: word_le_nat_alt)
    have dec: "unat d - unat (p + push_bit ?k 1) < unat d - unat p" using s1(5) lt pos by linarith
    have "2 ^ j dvd unat (p + push_bit ?k 1)"
      if j: "j \<le> MAX_ORDER" "unat (p + push_bit ?k 1) + 2 ^ j \<le> unat d" for j
    proof -
      have le: "unat p + 2 ^ j \<le> unat d" using j(2) s1(5) by linarith
      then have "(2::nat) ^ j < 2 ^ Suc (32 - lz - 1)" using lz(3) by linarith
      then have "j < Suc (32 - lz - 1)" by (rule power_less_imp_less_exp [rotated]) simp
      then have "j \<le> ?k" using j(1) by simp
      then show ?thesis unfolding s1(5) using less.prems(6) [OF j(1) le] by (intro dvd_add le_imp_power_dvd)
    qed
    moreover have "unat d < unat (p + push_bit ?k 1) + 2 ^ 31" using s1(5) less.prems(5) by linarith
    ultimately obtain st' where st': "init_high (p + push_bit ?k 1) d (int n) st1 = Ok st'"
      "node_inv X A n st'" "adds n st1 st' {unat (p + push_bit ?k 1) ..< unat d}"
      using less.hyps [OF dec s1(2,4) le less.prems(4)] by blast
    have "p < d" using lt by (simp only: word_less_nat_alt)
    then have "init_high p d (int n) st = Ok st'"
      using False lz(1) s1(1) st'(1) by (subst init_high.simps) (simp only: if_True kassert_simps bind_res.simps Let_def not_False_eq_True)
    then show ?thesis
      using adds_trans [OF s1(3) st'(3)] st'(2) block_interval [OF s1(5) up] by auto
  qed
qed

lemma init_range_ok:
  assumes "node_inv X A n st" and "fresh A n st {unat start ..< unat stop}" and "start < stop"
    and "unat stop \<le> 2 ^ 34" and "unat stop - unat start < 2 ^ 31"
  shows "\<exists>st'. init_range start stop (int n) st = Ok st' \<and> node_inv X A n st'
    \<and> adds n st st' {unat start ..< unat stop}"
proof -
  have lt: "unat start < unat stop" using assms(3) by (simp only: word_less_nat_alt)
  have r: "unat (stop - start) = unat stop - unat start"
    using assms(3) by (intro unat_sub_nowrap) simp
  have nz: "stop - start \<noteq> 0" using assms(3) by auto
  have "unat (stop - start) < 2 ^ 32" using r assms(5) by simp
  with nz obtain lz where lz: "clz32 (stop - start) = Ok lz" "2 ^ (32 - lz - 1) \<le> unat stop - unat start"
    "unat stop - unat start < 2 ^ Suc (32 - lz - 1)"
    using clz32_Ok r by metis
  let ?e = "32 - lz - 1"
  have "(2::nat) ^ ?e < 2 ^ 31" using lz(2) assms(5) by linarith
  then have e: "?e < 31" by (rule power_less_imp_less_exp [rotated]) simp
  have "(2::nat) ^ ?e \<le> 2 ^ 30" using e by (intro power_increasing) auto
  then have small: "unat start + 2 ^ ?e \<le> 2 ^ 64" using lt assms(4) by simp
  let ?d = "align_up start (push_bit ?e 1)"
  have ud: "unat ?d = (unat start + 2 ^ ?e - 1) div 2 ^ ?e * 2 ^ ?e"
    using unat_align_up [of ?e start] e small by (simp add: push_bit_eq_mult)
  have dv: "2 ^ ?e dvd unat ?d" unfolding ud by simp
  define m where "m = (2::nat) ^ ?e"
  have pos: "0 < m" by (simp add: m_def)
  have div: "(unat start + m - 1) div m * m + (unat start + m - 1) mod m = unat start + m - 1"
    by (rule div_mult_mod_eq)
  have "(unat start + m - 1) mod m < m" using pos by simp
  then have lo: "unat start \<le> unat ?d" and hi: "unat ?d < unat start + 2 ^ ?e"
    using div pos unfolding ud m_def [symmetric] by linarith+
  have le: "unat ?d \<le> unat stop" using hi lz(2) lt by linarith
  then have d34: "unat ?d \<le> 2 ^ 34" using assms(4) by linarith
  have split: "{unat start ..< unat stop} = {unat start ..< unat ?d} \<union> {unat ?d ..< unat stop}"
    using lo le by auto
  have "fresh A n st {unat start ..< unat ?d}" using assms(2) split fresh_subset by blast
  moreover have "start \<le> ?d" using lo by (simp only: word_le_nat_alt)
  moreover have "unat ?d < unat start + 2 ^ ?e" "?e \<le> 30" using hi e by auto
  ultimately obtain st1 where s1: "init_low start ?d (int n) st = Ok st1" "node_inv X A n st1"
    "adds n st st1 {unat start ..< unat ?d}"
    using init_low_ok [OF assms(1) _ _ d34 dv] by blast
  have fr: "fresh A n st1 {unat ?d ..< unat stop}"
    using fresh_after [OF _ s1(3)] assms(2) unfolding split by auto
  have "2 ^ k dvd unat ?d" if k: "k \<le> MAX_ORDER" "unat ?d + 2 ^ k \<le> unat stop" for k
  proof -
    have "(2::nat) ^ k < 2 ^ Suc ?e" using k(2) lo lz(3) by linarith
    then have "k < Suc ?e" by (rule power_less_imp_less_exp [rotated]) simp
    then show ?thesis using dv by (intro power_le_dvd [OF dv]) simp
  qed
  moreover have "?d \<le> stop" using le by (simp only: word_le_nat_alt)
  moreover have "unat stop < unat ?d + 2 ^ 31" using lo lt assms(5) by linarith
  ultimately obtain st2 where s2: "init_high ?d stop (int n) st1 = Ok st2" "node_inv X A n st2"
    "adds n st1 st2 {unat ?d ..< unat stop}"
    using init_high_ok [OF s1(2) fr _ assms(4)] by blast
  have "init_range start stop (int n) st = Ok st2"
    unfolding init_range_def Let_def
    using nz lz(1) e s1(1) s2(1) by (simp only: kassert_simps bind_res.simps defined_simps not_False_eq_True)
  then show ?thesis using s2(2) adds_trans [OF s1(3) s2(3)] split by auto
qed

subsection \<open>Properties\<close>

text \<open>A small system: the four frames \<open>[4, 8)\<close> given to node 0 at boot.\<close>

definition page0 :: page_meta where "page0 = \<lparr>pg_usage = RESERVED, pg_nid = 0, pg_order = 0\<rparr>"

definition empty_node :: page_allocators where
  "empty_node = \<lparr>allocators = [\<lambda>_. []], page_map = \<lambda>_. Some page0\<rparr>"

definition small_node :: buddy where
  "small_node = ((\<lambda>_. [])(2 := [4]), (\<lambda>_. Some page0)(4 \<mapsto> page0\<lparr>pg_usage := PAGE_ALLOCATOR, pg_order := 2\<rparr>))"

lemma empty_inv: "buddy_inv X {} (\<lambda>_. [], \<lambda>_. Some page0)"
  by (auto simp: buddy_inv_def free_blocks_def disjoint_blocks_def page0_def)

lemma small_block_ok: "block_ok (\<lambda>_. Some page0) (4, 2)"
  by (simp add: block_ok_def MAX_ORDER_def)

lemma small_inv: "buddy_inv {} {} small_node"
proof -
  have "buddy_inv {} (insert (4, 2) {}) (\<lambda>_. [], \<lambda>_. Some page0)"
    by (rule inv_add_block [OF empty_inv small_block_ok]) (simp add: free_blocks_def)
  from inv_push [OF this] obtain s' where s': "FreePageNoCoalesce 4 2 (\<lambda>_. [], \<lambda>_. Some page0) = Ok s'"
    "buddy_inv {} {} s'" by auto
  then have "s' = small_node"
    by (auto simp: FreePageNoCoalesce_Ok small_node_def fun_eq_iff)
  with s'(2) show ?thesis by simp
qed

text \<open>Evaluating the operations on concrete states.\<close>

lemma page_at_low: "unat p < 17179869184 \<Longrightarrow> page_at pages p = Ok (pages p)"
  by (simp add: page_at_def section_num section_consts less_mult_imp_div_less)

lemma all_orders: "[0..<12] = [0, 1, 2, 3, 4, 5, 6, 7, 8, 9, 10, 11]"
   "[Suc 0..<12] = [1, 2, 3, 4, 5, 6, 7, 8, 9, 10, 11]"
  by (simp_all add: upt_conv_Cons)

lemma split_block_numeral:
  "split_block fp order (numeral k) s = (if numeral k = order then Ok s
     else bind_res (FreePageNoCoalesce (pfn_to_buddy fp (pred_numeral k)) (pred_numeral k) s)
            (split_block fp order (pred_numeral k)))"
  by (simp add: numeral_eq_Suc)

lemmas run_buddy = AllocLocal_def all_orders split_block_numeral FreePageNoCoalesce_def linked_def
  page_at_low pfn_to_buddy_def Let_def MAX_ORDER_def page0_def Free_def free_loop.simps

lemma small_alloc:
  "AllocLocal 0 small_node = Ok (4, (\<lambda>_. [])(2 := [], Suc 0 := [6], 0 := [5]),
     (\<lambda>_. Some page0)(6 \<mapsto> page0\<lparr>pg_usage := PAGE_ALLOCATOR, pg_order := 1\<rparr>,
       5 \<mapsto> page0\<lparr>pg_usage := PAGE_ALLOCATOR, pg_order := 0\<rparr>,
       4 \<mapsto> page0\<lparr>pg_usage := IN_USE, pg_order := 2\<rparr>))"
  by (simp add: run_buddy small_node_def del: upt_Suc)

text \<open>Merging with the buddy below.\<close>

lemma lower_buddy_block:
  assumes "unat p = unat u + 2 ^ k"
  shows "{unat p + 2 ^ k ..< unat p + 2 ^ Suc k} \<subseteq> block (p, Suc k) - block (p, k) - block (u, k)"
    and "block (u, k) \<inter> block (p, Suc k) = {}"
  using assms by (auto simp: block_def)

lemma buddy_erase_unlinked:
  assumes "pfn_to_section_num (pfn_to_buddy p k) < NUM_MEM_SECTIONS" and "pfn_to_buddy p k \<notin> set (fl k)" and "k < MAX_ORDER"
  shows "free_loop p k (fl, pages) =
    (if \<exists>m. pages (pfn_to_buddy p k) = Some m \<and> pg_usage m = PAGE_ALLOCATOR \<and> pg_order m = k
     then Fail Undefined else FreePageNoCoalesce p k (fl, pages))"
  using assms by (subst free_loop.simps) (auto simp: page_at_def Let_def split: option.splits)

lemma upper_next_unaligned:
  assumes "2 ^ k dvd unat p" and "\<not> 2 ^ Suc k dvd unat p" and "k < 34"
  shows "\<not> 2 ^ Suc k dvd unat (pfn_to_buddy p (Suc k))"
proof
  assume "2 ^ Suc k dvd unat (pfn_to_buddy p (Suc k))"
  then have "\<not> bit (pfn_to_buddy p (Suc k)) k" by (auto simp: bit_unat elim!: dvdE)
  then have "\<not> bit p k" using assms(3) by (simp add: pfn_to_buddy_flip bit_simps)
  then have "even (unat p div 2 ^ k)" by (simp add: bit_unat)
  then show False using assms(1,2) by (auto simp: dvd_div_iff_mult mult.commute elim!: dvdE)
qed

lemma lower_merge:
  assumes inv: "buddy_inv {} (insert (p, k) A) (fl, pages)" and "(p, k) \<notin> A" and k: "k < MAX_ORDER"
    and u: "pfn_to_buddy p k \<in> set (fl k)" "pfn_to_buddy p k < p"
  defines "u \<equiv> pfn_to_buddy p k" and "fl' \<equiv> fl(k := remove1 (pfn_to_buddy p k) (fl k))"
  shows "unat p = unat u + 2 ^ k" and "pfn_to_section_num p < NUM_MEM_SECTIONS" and "\<not> 2 ^ Suc k dvd unat p"
    and "block (u, k) \<inter> free_frames fl' = {}"
    and "Suc k < MAX_ORDER \<and> (\<exists>m. pages (pfn_to_buddy p (Suc k)) = Some m \<and> pg_usage m = PAGE_ALLOCATOR \<and> pg_order m = Suc k)
      \<Longrightarrow> Free p k (fl, pages) = Fail Undefined"
    and "\<not> (Suc k < MAX_ORDER \<and> (\<exists>m. pages (pfn_to_buddy p (Suc k)) = Some m \<and> pg_usage m = PAGE_ALLOCATOR \<and> pg_order m = Suc k))
      \<Longrightarrow> \<exists>pages1. Free p k (fl, pages) = Ok (fl'(Suc k := p # fl' (Suc k)), pages1) \<and> pages1 p \<noteq> None"
proof -
  note I = buddy_invD [OF inv]
  have ok: "block_ok pages (p, k)" using I(3) by blast
  have p: "2 ^ k dvd unat p" "unat p < 2 ^ 34" "k < 34" "Suc k < 34"
    using ok block_ok_low(1) [OF ok] k by (auto simp: block_ok_def MAX_ORDER_def)
  show sp: "pfn_to_section_num p < NUM_MEM_SECTIONS" by (rule block_ok_low(2) [OF ok])
  have mem: "(u, k) \<in> free_blocks fl" using u k by (simp add: free_blocks_def u_def)
  have up: "2 ^ Suc k dvd unat u \<and> unat p = unat u + 2 ^ k"
    using buddy_cases [OF p(1-3)] u(2) by (auto simp: u_def word_less_nat_alt)
  then show pu: "unat p = unat u + 2 ^ k" by blast
  have odd: "\<not> (2::nat) ^ Suc k dvd 2 ^ k" by (simp add: power_dvd_imp_le)
  then show nd: "\<not> 2 ^ Suc k dvd unat p" using up dvd_add_right_iff [of "2 ^ Suc k" "unat u" "2 ^ k"] by auto
  have F: "free_blocks fl' = free_blocks fl - {(u, k)}" unfolding fl'_def u_def by (rule inv_pop(2) [OF inv mem [unfolded u_def]])
  have "disjoint_blocks (free_blocks fl)" by (rule disjoint_blocks_subset [OF I(4)]) blast
  then show "block (u, k) \<inter> free_frames fl' = {}"
    using mem unfolding free_frames_def F disjoint_blocks_def by blast
  let ?v = "pfn_to_buddy p (Suc k)"
  have lowbuddy: "pfn_to_section_num (pfn_to_buddy p j) < NUM_MEM_SECTIONS" if "j < 34" for j
    using buddy_low [OF p(2) that] by (simp add: section_num section_consts less_mult_imp_div_less)
  have nv: "?v \<notin> set (fl' (Suc k))" if "Suc k < MAX_ORDER"
  proof
    assume "?v \<in> set (fl' (Suc k))"
    then have "(?v, Suc k) \<in> free_blocks fl" using that by (simp add: free_blocks_def fl'_def)
    then have "block_ok pages (?v, Suc k)" using I(3) by blast
    then have "2 ^ Suc k dvd unat ?v" by (simp only: block_ok_def fst_conv snd_conv)
    then show False using upper_next_unaligned [OF p(1) nd p(3)] by blast
  qed
  obtain m where "pages u = Some m" "pg_usage m = PAGE_ALLOCATOR" "pg_order m = k" using I(5) [OF mem] by blast
  then have step: "Free p k (fl, pages) = free_loop p (Suc k) (fl', pages)"
    using k u(1) lowbuddy [OF p(3)] unfolding u_def fl'_def Free_def
    by (subst free_loop.simps) (simp add: page_at_def Let_def)
  have nolink: "(p, j) \<notin> free_blocks fl'" for j using inv_head_free [OF inv] F by simp
  obtain n where n: "pages p = Some n" using ok unfolding block_ok_def by (metis head_in_block option.exhaust)
  have push: "FreePageNoCoalesce p (Suc k) (fl', pages) = Ok (fl'(Suc k := p # fl' (Suc k)),
      pages(p \<mapsto> n\<lparr>pg_usage := PAGE_ALLOCATOR, pg_order := Suc k\<rparr>))"
    using k nolink sp n by (auto simp: FreePageNoCoalesce_Ok linked_iff)
  show "Free p k (fl, pages) = Fail Undefined"
    if "Suc k < MAX_ORDER \<and> (\<exists>m. pages ?v = Some m \<and> pg_usage m = PAGE_ALLOCATOR \<and> pg_order m = Suc k)"
    using that by (simp add: step buddy_erase_unlinked [where p = p and k = "Suc k" and fl = fl', OF lowbuddy [OF p(4)] nv])
  show "\<exists>pages1. Free p k (fl, pages) = Ok (fl'(Suc k := p # fl' (Suc k)), pages1) \<and> pages1 p \<noteq> None"
    if no: "\<not> (Suc k < MAX_ORDER \<and> (\<exists>m. pages ?v = Some m \<and> pg_usage m = PAGE_ALLOCATOR \<and> pg_order m = Suc k))"
  proof (cases "Suc k < MAX_ORDER")
    case True
    then show ?thesis using no push by (simp add: step buddy_erase_unlinked [where p = p and k = "Suc k" and fl = fl', OF lowbuddy [OF p(4)] nv])
  next
    case False
    then have "free_loop p (Suc k) (fl', pages) = FreePageNoCoalesce p (Suc k) (fl', pages)"
      by (subst free_loop.simps) simp
    then show ?thesis using push by (simp add: step)
  qed
qed

lemma alloc_head:
  assumes "k \<le> MAX_ORDER" and "pfn_to_section_num p < NUM_MEM_SECTIONS" and "pages p \<noteq> None" and "fl k = p # ps"
  shows "\<exists>pages'. AllocLocal k (fl, pages) = Ok (p, fl(k := ps), pages')"
proof -
  have "find (\<lambda>o'. fl o' \<noteq> []) [k..<Suc MAX_ORDER] = Some k"
    using assms(1,4) by (simp add: upt_rec)
  moreover have "split_block p k k s = Ok s" for s by (cases k) simp_all
  ultimately show ?thesis using assms by (auto simp: AllocLocal_def Let_def page_at_def simp del: upt_Suc)
qed

text \<open>C10: \<open>PageAllocator::Init\<close> hands a free range of boot memory to its node: every assertion
  holds, the range is cut into aligned blocks of at most \<open>2 ^ 11\<close> pages that cover exactly its
  frames, and the node's allocator stays well formed; no other node changes.\<close>

theorem init_range_correct:
  assumes "node_inv X A n st" and "fresh A n st {unat start ..< unat stop}" and "start < stop"
    and "unat stop \<le> 2 ^ 34" and "unat stop - unat start < 2 ^ 31"
  shows "\<exists>st'. init_range start stop (int n) st = Ok st' \<and> node_inv X A n st'
    \<and> frames_of n st' = frames_of n st \<union> {unat start ..< unat stop}
    \<and> (\<forall>i. i \<noteq> n \<longrightarrow> allocators st' ! i = allocators st ! i)"
  using init_range_ok [OF assms] by (auto simp: adds_def)

theorem init_range_correct_witness:
  "\<exists>st'. init_range 5 19 0 empty_node = Ok st' \<and> frames_of 0 st' = {5 ..< 19}"
proof -
  have inv: "node_inv {} {} 0 empty_node" using empty_inv by (simp add: node_inv_def empty_node_def)
  have fr: "frames_of 0 empty_node = {}"
    by (simp add: frames_of_def empty_node_def free_frames_def free_blocks_def)
  then have "fresh {} 0 empty_node {unat (5 :: pfn) ..< unat (19 :: pfn)}"
    by (simp add: fresh_def) (simp add: empty_node_def)
  from init_range_correct [OF inv this] show ?thesis by (auto simp: fr)
qed

text \<open>C3: The allocator either has no block of the order asked for or a larger one, and returns
  \<open>NO_PFN\<close> unchanged, or it hands out an aligned block of that order from its free frames,
  keeps the rest free, and stays well formed with the block added to the ones clients hold.\<close>

theorem AllocLocal_correct:
  assumes "buddy_inv X A s"
  shows "(AllocLocal order s = Ok (NO_PFN, s) \<and> (\<forall>k. order \<le> k \<and> k \<le> MAX_ORDER \<longrightarrow> fst s k = []))
    \<or> (\<exists>p s'. AllocLocal order s = Ok (p, s') \<and> p \<noteq> NO_PFN \<and> (p, order) \<notin> A
         \<and> buddy_inv X (insert (p, order) A) s' \<and> block (p, order) \<subseteq> free_frames (fst s)
         \<and> free_frames (fst s') = free_frames (fst s) - block (p, order))"
  using AllocLocal_ok [OF assms] .

theorem AllocLocal_correct_witness:
  "\<exists>s'. AllocLocal 0 small_node = Ok (4, s') \<and> buddy_inv {} {(4, 0)} s'
     \<and> free_frames (fst s') = free_frames (fst small_node) - {4}"
  using AllocLocal_correct [OF small_inv, of 0]
  by (auto simp: small_alloc block_def NO_PFN_def)

text \<open>C4: Freeing a held block, when the block it ends up in starts at its own first frame (no
  free buddy below it): the call succeeds, the block's frames and no others become free, and the
  allocator is well formed without it.\<close>

theorem Free_correct:
  assumes "buddy_inv {} (insert (p, k) A) s" and "(p, k) \<notin> A" and "2 ^ merge_order p k (fst s) dvd unat p"
  shows "\<exists>s'. Free p k s = Ok s' \<and> buddy_inv {} A s'
    \<and> free_frames (fst s') = free_frames (fst s) \<union> block (p, k)
    \<and> (p, merge_order p k (fst s)) \<in> free_blocks (fst s')"
  using Free_ok [OF assms] .

theorem Free_correct_witness:
  "\<exists>s1 s2. AllocLocal 0 small_node = Ok (4, s1) \<and> Free 4 0 s1 = Ok s2 \<and> buddy_inv {} {} s2
     \<and> (4, 2) \<in> free_blocks (fst s2)"
proof -
  obtain s1 where s1: "AllocLocal 0 small_node = Ok (4, s1)" "buddy_inv {} {(4, 0)} s1"
    using AllocLocal_ok [OF small_inv, of 0] by (auto simp: small_alloc NO_PFN_def)
  then have "fst s1 = (\<lambda>_. [])(2 := [], Suc 0 := [6], 0 := [5])" by (auto simp: small_alloc)
  then have "merge_order 4 0 (fst s1) = 2"
    by (simp add: merge_order.simps pfn_to_buddy_def MAX_ORDER_def)
  then show ?thesis using Free_correct [OF s1(2)] s1(1) by auto
qed

text \<open>C5: Freeing any held block whose buddy below it is free.  \<open>Free\<close> takes the lower buddy off its list but
  keeps the upper frame \<open>p\<close> as the head, and looks for the next buddy relative to \<open>p\<close>; a frame found there
  is never on the list, so the loop erases an element that is not linked (undefined) when stale
  metadata there claims a free block, and otherwise stops.  Then the merged block is \<open>(p, k + 1)\<close>,
  which is not aligned to its size, and it is the next block of its order that the allocator hands out: with
  \<open>2 ^ k\<close> frames that belong to neither of the two blocks merged, so that it overlaps whatever block
  a client holds there, while the frames of the lower buddy are lost, neither free nor handed out.\<close>

theorem Free_lower_buddy_overlap:
  assumes "buddy_inv {} (insert (p, k) A) s" and "(p, k) \<notin> A" and "k < MAX_ORDER"
    and "pfn_to_buddy p k \<in> set (fst s k)" and "pfn_to_buddy p k < p"
  shows "if Suc k < MAX_ORDER \<and> (\<exists>m. snd s (pfn_to_buddy p (Suc k)) = Some m \<and> pg_usage m = PAGE_ALLOCATOR \<and> pg_order m = Suc k)
    then Free p k s = Fail Undefined
    else \<exists>s1 s2. Free p k s = Ok s1 \<and> AllocLocal (Suc k) s1 = Ok (p, s2) \<and> \<not> 2 ^ Suc k dvd unat p
      \<and> {unat p + 2 ^ k ..< unat p + 2 ^ Suc k} \<subseteq> block (p, Suc k) - block (p, k) - block (pfn_to_buddy p k, k)
      \<and> (\<forall>b\<in>A. unat p + 2 ^ k \<in> block b \<longrightarrow> block b \<inter> block (p, Suc k) \<noteq> {})
      \<and> block (pfn_to_buddy p k, k) \<inter> (free_frames (fst s2) \<union> block (p, Suc k)) = {}"
proof -
  obtain fl pages where s: "s = (fl, pages)" by (cases s)
  let ?u = "pfn_to_buddy p k" and ?v = "pfn_to_buddy p (Suc k)"
  note low = lower_merge [OF assms(1) [unfolded s] assms(2,3) assms(4) [unfolded s fst_conv] assms(5)]
  note geo = lower_buddy_block [OF low(1)]
  let ?fl = "fl(k := remove1 ?u (fl k))"
  show ?thesis
  proof (cases "Suc k < MAX_ORDER \<and> (\<exists>m. pages ?v = Some m \<and> pg_usage m = PAGE_ALLOCATOR \<and> pg_order m = Suc k)")
    case True
    then show ?thesis using low(5) by (auto simp: s)
  next
    case False
    obtain pages1 where s1: "Free p k (fl, pages) = Ok (?fl(Suc k := p # ?fl (Suc k)), pages1)" "pages1 p \<noteq> None"
      using low(6) [OF False] by blast
    have same: "?fl(Suc k := p # ?fl (Suc k), Suc k := ?fl (Suc k)) = ?fl" by auto
    obtain pages2 where s2: "AllocLocal (Suc k) (?fl(Suc k := p # ?fl (Suc k)), pages1) = Ok (p, ?fl, pages2)"
      using alloc_head [where k = "Suc k" and fl = "?fl(Suc k := p # ?fl (Suc k))" and pages = pages1 and ps = "?fl (Suc k)",
          OF _ low(2) s1(2)] assms(3) same by auto
    have "unat p + 2 ^ k \<in> block (p, Suc k)" by (simp add: block_def)
    then have "block b \<inter> block (p, Suc k) \<noteq> {}" if "unat p + 2 ^ k \<in> block b" for b
      using that by blast
    moreover have "block (?u, k) \<inter> (free_frames ?fl \<union> block (p, Suc k)) = {}" using low(4) geo(2) by blast
    ultimately show ?thesis using s1(1) s2 low(3) geo(1) False by (auto simp: s)
  qed
qed

text \<open>Frames 4, 5 and 6 of \<open>[4, 8)\<close> are allocated one by one, and 4 is freed, then 5: the allocator hands out
  frame 5 as a two-frame block although its second frame, 6, is held.\<close>

lemma small_run:
  "\<exists>s1 s2 s3 s4. AllocLocal 0 small_node = Ok (4, s1) \<and> AllocLocal 0 s1 = Ok (5, s2) \<and> AllocLocal 0 s2 = Ok (6, s3)
    \<and> Free 4 0 s3 = Ok s4 \<and> buddy_inv {} {(5, 0), (6, 0)} s4 \<and> fst s4 0 = [4, 7] \<and> snd s4 7 = Some \<lparr>pg_usage = PAGE_ALLOCATOR, pg_nid = 0, pg_order = 0\<rparr>"
proof -
  have next_inv: "buddy_inv {} (insert (p, 0) A) s'" if "buddy_inv {} A s" "AllocLocal 0 s = Ok (p, s')" "p \<noteq> NO_PFN" for A s p s'
    using AllocLocal_ok [OF that(1), of 0] that(2,3) by auto
  let ?m = "\<lambda>u k. \<lparr>pg_usage = u, pg_nid = 0, pg_order = k\<rparr>"
  let ?s1 = "((\<lambda>_. [])(2 := [], Suc 0 := [6], 0 := [5]), (\<lambda>_. Some page0)
    (6 \<mapsto> ?m PAGE_ALLOCATOR 1, 5 \<mapsto> ?m PAGE_ALLOCATOR 0, 4 \<mapsto> ?m IN_USE 2))"
  let ?s2 = "((\<lambda>_. [])(2 := [], Suc 0 := [6], 0 := []), (\<lambda>_. Some page0)
    (6 \<mapsto> ?m PAGE_ALLOCATOR 1, 5 \<mapsto> ?m IN_USE 0, 4 \<mapsto> ?m IN_USE 2))"
  let ?s3 = "((\<lambda>_. [])(2 := [], Suc 0 := [], 0 := [7]), (\<lambda>_. Some page0)
    (7 \<mapsto> ?m PAGE_ALLOCATOR 0, 6 \<mapsto> ?m IN_USE 1, 5 \<mapsto> ?m IN_USE 0, 4 \<mapsto> ?m IN_USE 2))"
  let ?s4 = "((\<lambda>_. [])(2 := [], Suc 0 := [], 0 := [4, 7]), (\<lambda>_. Some page0)
    (7 \<mapsto> ?m PAGE_ALLOCATOR 0, 6 \<mapsto> ?m IN_USE 1, 5 \<mapsto> ?m IN_USE 0, 4 \<mapsto> ?m PAGE_ALLOCATOR 0))"
  have s1: "AllocLocal 0 small_node = Ok (4, ?s1)" by (simp add: small_alloc page0_def)
  have s2: "AllocLocal 0 ?s1 = Ok (5, ?s2)" by (simp add: run_buddy fun_upd_twist del: upt_Suc)
  have s3: "AllocLocal 0 ?s2 = Ok (6, ?s3)" by (simp add: run_buddy fun_upd_twist del: upt_Suc)
  have s4: "Free 4 0 ?s3 = Ok ?s4" by (simp add: run_buddy fun_upd_twist del: upt_Suc)
  have i3: "buddy_inv {} {(6, 0), (5, 0), (4, 0)} ?s3"
    using next_inv [OF next_inv [OF next_inv [OF small_inv s1] s2] s3] by (simp add: NO_PFN_def)
  have m: "merge_order 4 0 (fst ?s3) = 0" by (subst merge_order.simps) (simp add: pfn_to_buddy_def)
  have A: "{(6, 0), (5, 0), (4, 0)} = insert (4 :: pfn, 0 :: nat) {(5, 0), (6, 0)}" by blast
  have "buddy_inv {} {(5, 0), (6, 0)} ?s4"
    using Free_ok [OF i3 [unfolded A]] m s4 by auto
  then show ?thesis using s1 s2 s3 s4 by (intro exI conjI) (assumption | simp)+
qed

theorem Free_lower_buddy_overlap_witness:
  "\<exists>s1 s2 s3 s4 s5 s6. AllocLocal 0 small_node = Ok (4, s1) \<and> AllocLocal 0 s1 = Ok (5, s2) \<and> AllocLocal 0 s2 = Ok (6, s3)
    \<and> Free 4 0 s3 = Ok s4 \<and> Free 5 0 s4 = Ok s5 \<and> AllocLocal 1 s5 = Ok (5, s6)
    \<and> block (6, 0) \<inter> block (5, 1) \<noteq> {} \<and> 4 \<notin> free_frames (fst s6) \<union> block (5, 1)"
proof -
  obtain s1 s2 s3 s4 where run: "AllocLocal 0 small_node = Ok (4, s1)" "AllocLocal 0 s1 = Ok (5, s2)"
      "AllocLocal 0 s2 = Ok (6, s3)" "Free 4 0 s3 = Ok s4" "buddy_inv {} {(5, 0), (6, 0)} s4" "fst s4 0 = [4, 7]"
      "snd s4 7 = Some \<lparr>pg_usage = PAGE_ALLOCATOR, pg_nid = 0, pg_order = 0\<rparr>"
    using small_run by blast
  have b: "pfn_to_buddy 5 0 = 4" "pfn_to_buddy 5 (Suc 0) = 7" "4 \<in> block (4, 0)"
    by (simp_all add: pfn_to_buddy_def block_def)
  obtain s5 s6 where "Free 5 0 s4 = Ok s5" "AllocLocal 1 s5 = Ok (5, s6)" "block (6, 0) \<inter> block (5, 1) \<noteq> {}"
    "block (4, 0) \<inter> (free_frames (fst s6) \<union> block (5, 1)) = {}"
    using Free_lower_buddy_overlap [OF run(5)] b(1,2) run(6,7) by (auto simp: MAX_ORDER_def block_def)
  then show ?thesis using run(1-4) b(3) by (intro exI conjI) (assumption | auto)+
qed

subsection \<open>The buddy allocator as a source of pages\<close>

text \<open>Taking one page; running out is the outcome \<open>Fail Aborted\<close> here, so that a client's loop stops.\<close>

definition buddy_page :: "buddy \<Rightarrow> (pfn \<times> buddy) res" where
  "buddy_page s = bind_res (AllocLocal 0 s) (\<lambda>(p, s'). if p = NO_PFN then Fail Aborted else Ok (p, s'))"

interpretation node: page_source buddy_page "\<lambda>s. free_frames (fst s)" "\<lambda>s. \<exists>A. buddy_inv {} A s"
proof
  fix s p s'
  assume "\<exists>A. buddy_inv {} A s" and g: "buddy_page s = Ok (p, s')"
  then obtain A where inv: "buddy_inv {} A s" by blast
  have a: "AllocLocal 0 s = Ok (p, s')" "p \<noteq> NO_PFN"
    using g by (auto simp: buddy_page_def res_Ok_iff split: if_splits)
  with AllocLocal_ok [OF inv, of 0]
  have h: "buddy_inv {} (insert (p, 0) A) s'" "block (p, 0) \<subseteq> free_frames (fst s)"
    "free_frames (fst s') = free_frames (fst s) - block (p, 0)" by auto
  have "block_ok (snd s') (p, 0)"
    using h(1) buddy_invD(3) [of "{}" "insert (p, 0) A" "fst s'" "snd s'" "(p, 0)"] by simp
  then have "unat p < 2 ^ 34" by (rule block_ok_low)
  then have "unat p < 2 ^ 52" by simp
  then show "(\<exists>A. buddy_inv {} A s') \<and> unat p \<in> free_frames (fst s)
      \<and> free_frames (fst s') = free_frames (fst s) - {unat p} \<and> unat p < 2 ^ 52"
    using h by (auto simp: block_def)
qed

text \<open>Pages taken one after the other from the buddy allocator, as the boot stack and interrupt
  stack loops do, are distinct, were free, and are the only frames that leave the free set.\<close>

theorem buddy_pages_distinct:
  assumes "buddy_inv {} A s" and "take_pages buddy_page n s = Ok (ps, s')"
  shows "length ps = n \<and> distinct ps \<and> unat ` set ps \<subseteq> free_frames (fst s)
    \<and> free_frames (fst s') = free_frames (fst s) - unat ` set ps"
proof -
  have "\<exists>A. buddy_inv {} A s" using assms(1) by blast
  from node.take_pages_distinct [OF this assms(2)] show ?thesis by blast
qed

theorem buddy_pages_distinct_witness:
  "\<exists>s'. take_pages buddy_page 1 small_node = Ok ([4], s') \<and> free_frames (fst s') = free_frames (fst small_node) - {4}"
proof -
  obtain s' where s': "take_pages buddy_page 1 small_node = Ok ([4], s')"
    by (simp add: buddy_page_def small_alloc NO_PFN_def)
  then show ?thesis using buddy_pages_distinct [OF small_inv s'] by auto
qed

text \<open>The allocator of one node out of the state of all: page tables, rings and stacks take their pages from
  that of the processor's node.\<close>

definition node_buddy :: "nid \<Rightarrow> page_allocators \<Rightarrow> buddy" where
  "node_buddy nid st = (allocators st ! nat nid, page_map st)"

definition set_node_buddy :: "nid \<Rightarrow> buddy \<Rightarrow> page_allocators \<Rightarrow> page_allocators" where
  "set_node_buddy nid b st = \<lparr>allocators = (allocators st)[nat nid := fst b], page_map = snd b\<rparr>"

end
