(* ===== verification/E820.thy ===== *)
theory E820
  imports Early_Pages
begin

text \<open>
  \<open>sys/multiboot.hpp\<close>, \<open>sys/e820.hpp\<close>, \<open>sys/e820.cpp\<close> and the two memory loops of
  \<open>kmain\<close> (\<open>sys/main.cpp\<close>): the boot loader's memory map is read from memory byte by byte,
  copied into the sorted \<open>e820_map\<close>, and its usable regions are handed to the early page
  allocator in two passes, below and above the initial 1 GB mapping.
\<close>

subsection \<open>Reading the boot loader's memory map\<close>

record mmregion =
  mm_size :: u32
  mm_base_address :: u64
  mm_length :: u64
  mm_type :: u32

fun read_le :: "(u64 \<Rightarrow> u8) \<Rightarrow> u64 \<Rightarrow> nat \<Rightarrow> 'a::len word" where
  "read_le mem p 0 = 0"
| "read_le mem p (Suc n) = ucast (mem p) OR push_bit 8 (read_le mem (p + 1) n)"

text \<open>The packed struct: \<open>size\<close> at 0, \<open>base_address\<close> at 4, \<open>length\<close> at 12, \<open>type\<close> at 20.\<close>

definition read_mmregion :: "(u64 \<Rightarrow> u8) \<Rightarrow> u64 \<Rightarrow> mmregion" where
  "read_mmregion mem p = \<lparr>mm_size = read_le mem p 4, mm_base_address = read_le mem (p + 4) 8,
     mm_length = read_le mem (p + 12) 8, mm_type = read_le mem (p + 20) 4\<rparr>"

text \<open>
  \<open>for_each_mmregion\<close>: \<open>region->size + 4\<close> is 32-bit arithmetic, so a size of
  \<open>0xFFFFFFFC\<close> does not advance the pointer.  The result is the list of regions passed to the
  callback, \<open>None\<close> when the loop does not end.
\<close>

partial_function (option) mmregions_from :: "(u64 \<Rightarrow> u8) \<Rightarrow> u64 \<Rightarrow> u64 \<Rightarrow> mmregion list option" where
  "mmregions_from mem p end_addr =
     (if p < end_addr
      then let region = read_mmregion mem p
           in Option.bind (mmregions_from mem (p + ucast (mm_size region + 4)) end_addr)
                (\<lambda>rs. Some (region # rs))
      else Some [])"

definition for_each_mmregion :: "(u64 \<Rightarrow> u8) \<Rightarrow> u64 \<Rightarrow> u32 \<Rightarrow> mmregion list option" where
  "for_each_mmregion mem buffer sz = mmregions_from mem buffer (buffer + ucast sz)"

subsection \<open>The e820 map\<close>

record e820_entry =
  e_addr :: u64
  e_length :: u64
  e_type :: u32

definition TYPE_RAM :: u32 where "TYPE_RAM = 1"

definition MAX_NUM_E820_ENTRIES :: nat where "MAX_NUM_E820_ENTRIES = 128"

definition trim_below :: "u64 \<Rightarrow> e820_entry \<Rightarrow> e820_entry" where
  "trim_below new_addr e =
     (if e_addr e > new_addr \<or> e_addr e + e_length e < new_addr then e
      else e\<lparr>e_length := e_length e - (new_addr - e_addr e), e_addr := new_addr\<rparr>)"

definition trim_above :: "u64 \<Rightarrow> e820_entry \<Rightarrow> e820_entry" where
  "trim_above new_addr e =
     (if e_addr e > new_addr \<or> e_addr e + e_length e < new_addr then e
      else e\<lparr>e_length := e_length e - ((e_addr e + e_length e) - new_addr)\<rparr>)"

fun e820_add_regions :: "mmregion list \<Rightarrow> e820_entry list \<Rightarrow> e820_entry list res" where
  "e820_add_regions [] es = Ok es"
| "e820_add_regions (r # rs) es =
     kassert (length es < MAX_NUM_E820_ENTRIES)
       (e820_add_regions rs (es @ [\<lparr>e_addr = mm_base_address r, e_length = mm_length r, e_type = mm_type r\<rparr>]))"

text \<open>\<open>std::sort\<close> by address: the order of entries with equal addresses is not specified by
  the standard; the model keeps them in the order of the map.\<close>

definition e820_init :: "mmregion list \<Rightarrow> e820_entry list res" where
  "e820_init regions = bind_res (e820_add_regions regions []) (\<lambda>es. Ok (sort_key e_addr es))"

fun e820_for_each_usable_region :: "(e820_entry \<Rightarrow> 's \<Rightarrow> 's res) \<Rightarrow> e820_entry list \<Rightarrow> 's \<Rightarrow> 's res" where
  "e820_for_each_usable_region f [] s = Ok s"
| "e820_for_each_usable_region f (e # es) s =
     bind_res (if e_type e = TYPE_RAM then f e s else Ok s) (e820_for_each_usable_region f es)"

subsection \<open>The memory loops of \<open>kmain\<close>\<close>

text \<open>
  The state is the early allocator and the page tables; \<open>early_map\<close> is \<open>early_map_memory\<close>,
  which takes the pages of the tables it creates from the allocator.
\<close>

definition initial_map_end :: u64 where "initial_map_end = push_bit 30 1"

definition kmain_low_region ::
    "(u64 \<Rightarrow> u64 \<Rightarrow> page_range list \<times> 't \<Rightarrow> (page_range list \<times> 't) res) \<Rightarrow> u64 \<Rightarrow> e820_entry
       \<Rightarrow> page_range list \<times> 't \<Rightarrow> (page_range list \<times> 't) res" where
  "kmain_low_region early_map kend_addr entry s =
     (if e_addr entry + e_length entry \<le> kend_addr then Ok s
      else let begin_addr = e_addr entry; len = e_length entry;
               entry' = trim_above initial_map_end (trim_below kend_addr entry)
           in bind_res
                (if e_addr entry' < initial_map_end
                 then bind_res (early_free_memory_range (e_addr entry') (e_length entry') ANY_NID (fst s))
                        (\<lambda>rs. Ok (rs, snd s))
                 else Ok s)
                (early_map begin_addr len))"

definition kmain_high_region :: "e820_entry \<Rightarrow> page_range list \<times> 't \<Rightarrow> (page_range list \<times> 't) res" where
  "kmain_high_region entry s =
     (if e_addr entry + e_length entry < initial_map_end then Ok s
      else let entry' = trim_below initial_map_end entry
           in bind_res (early_free_memory_range (e_addr entry') (e_length entry') ANY_NID (fst s))
                (\<lambda>rs. Ok (rs, snd s)))"

definition kmain_memory ::
    "(u64 \<Rightarrow> u64 \<Rightarrow> page_range list \<times> 't \<Rightarrow> (page_range list \<times> 't) res) \<Rightarrow> u64 \<Rightarrow> e820_entry list
       \<Rightarrow> 't \<Rightarrow> (page_range list \<times> 't) res" where
  "kmain_memory early_map kend_addr e820_map pt =
     bind_res (e820_for_each_usable_region (kmain_low_region early_map kend_addr) e820_map ([], pt))
       (e820_for_each_usable_region kmain_high_region e820_map)"

subsection \<open>The byte encoding is read back\<close>

fun bytes_le :: "nat \<Rightarrow> 'a::len word \<Rightarrow> u8 list" where
  "bytes_le 0 w = []"
| "bytes_le (Suc n) w = ucast w # bytes_le n (drop_bit 8 w)"

text \<open>A region as the boot loader writes it; \<open>size\<close> counts the bytes after the size field.\<close>

definition mmregion_bytes :: "mmregion \<times> u8 list \<Rightarrow> u8 list" where
  "mmregion_bytes x = (case x of (r, pad) \<Rightarrow>
     bytes_le 4 (mm_size r) @ bytes_le 8 (mm_base_address r) @ bytes_le 8 (mm_length r)
       @ bytes_le 4 (mm_type r) @ pad)"

definition mmregion_wf :: "mmregion \<times> u8 list \<Rightarrow> bool" where
  "mmregion_wf x \<longleftrightarrow> unat (mm_size (fst x)) = 20 + length (snd x) \<and> length (snd x) < 2 ^ 31"

fun bytes_at :: "(u64 \<Rightarrow> u8) \<Rightarrow> u64 \<Rightarrow> u8 list \<Rightarrow> bool" where
  "bytes_at mem p [] \<longleftrightarrow> True"
| "bytes_at mem p (b # bs) \<longleftrightarrow> mem p = b \<and> bytes_at mem (p + 1) bs"

lemma bytes_at_append:
  "bytes_at mem p (xs @ ys) \<longleftrightarrow> bytes_at mem p xs \<and> bytes_at mem (p + of_nat (length xs)) ys"
  by (induction xs arbitrary: p) (auto simp: algebra_simps)

lemma length_bytes_le [simp]: "length (bytes_le n w) = n"
  by (induction n arbitrary: w) auto

lemma read_bytes_le:
  "bytes_at mem p (bytes_le n w) \<Longrightarrow> read_le mem p n = take_bit (8 * n) w"
proof (induction n arbitrary: p w)
  case (Suc n)
  have IH: "read_le mem (p + 1) n = take_bit (8 * n) (drop_bit 8 w)" using Suc by simp
  have m: "mem p = ucast w" using Suc.prems by simp
  show ?case
    by (rule bit_eqI) (auto simp: IH m bit_simps)
qed simp

lemma read_bytes_le_all:
  "bytes_at mem p (bytes_le n w) \<Longrightarrow> LENGTH('a) = 8 * n \<Longrightarrow> read_le mem p n = (w :: 'a::len word)"
  by (simp add: read_bytes_le take_bit_word_eq_self)

lemma length_mmregion_bytes: "length (mmregion_bytes x) = 24 + length (snd x)"
  by (simp add: mmregion_bytes_def split: prod.split)

lemma read_mmregion_bytes:
  assumes "bytes_at mem p (mmregion_bytes (r, pad))"
  shows "read_mmregion mem p = r"
proof -
  have "bytes_at mem p (bytes_le 4 (mm_size r))" "bytes_at mem (p + 4) (bytes_le 8 (mm_base_address r))"
    "bytes_at mem (p + 12) (bytes_le 8 (mm_length r))" "bytes_at mem (p + 20) (bytes_le 4 (mm_type r))"
    using assms by (simp_all add: mmregion_bytes_def bytes_at_append add.assoc)
  note this [THEN read_bytes_le_all]
  then show ?thesis by (simp add: read_mmregion_def)
qed

text \<open>The loop of \<open>for_each_mmregion\<close> returns, and passes to its callback exactly the
  regions whose encodings lie one after the other in the boot loader's buffer, in order, each
  found at the previous one's address plus its size field plus 4.\<close>

theorem mmregions_roundtrip:
  assumes "bytes_at mem p (concat (map mmregion_bytes rs))" and "\<forall>x\<in>set rs. mmregion_wf x"
    and "unat p + length (concat (map mmregion_bytes rs)) < 2 ^ 64"
  shows "mmregions_from mem p (p + of_nat (length (concat (map mmregion_bytes rs)))) = Some (map fst rs)"
  using assms
proof (induction rs arbitrary: p)
  case Nil
  then show ?case by (simp add: mmregions_from.simps)
next
  case (Cons x rs)
  obtain r pad where x: "x = (r, pad)" by force
  let ?n = "length (mmregion_bytes x)" let ?m = "length (concat (map mmregion_bytes rs))"
  have n: "?n = 24 + length pad" by (simp add: length_mmregion_bytes x)
  have wf: "unat (mm_size r) = 20 + length pad" "length pad < 2 ^ 31"
    using Cons.prems(2) by (simp_all add: mmregion_wf_def x)
  have b: "bytes_at mem p (mmregion_bytes x)" "bytes_at mem (p + of_nat ?n) (concat (map mmregion_bytes rs))"
    using Cons.prems(1) by (simp_all add: bytes_at_append)
  have lim: "unat p + (?n + ?m) < 2 ^ 64" using Cons.prems(3) by simp
  then have q: "unat (of_nat k :: u64) = k" if "k \<le> ?n + ?m" for k using that by (simp add: unat_of_nat)
  have "unat (mm_size r + 4) = ?n" using wf n by (subst unat_add_nowrap) simp_all
  then have step: "ucast (mm_size r + 4) = (of_nat ?n :: u64)"
    by (simp only: word_eq_unat unat_ucast_up len_of_numeral_defs) (use q in simp)
  have pn: "unat (p + of_nat ?n) = unat p + ?n" "unat (p + of_nat (?n + ?m)) = unat p + (?n + ?m)"
    using lim q by (auto simp: unat_add_nowrap simp del: of_nat_add)
  have lt: "p < p + of_nat (?n + ?m)" using pn n by (simp add: word_less_nat_alt)
  have rec: "mmregions_from mem (p + of_nat ?n) (p + of_nat ?n + of_nat ?m) = Some (map fst rs)"
    by (rule Cons.IH) (use b Cons.prems(2) lim pn in simp_all)
  show ?case
    using lt rec step read_mmregion_bytes [OF b(1) [unfolded x]]
    by (subst mmregions_from.simps) (simp add: x add.assoc)
qed

text \<open>Two regions, the second with two bytes of padding, at address \<open>0x1000\<close>.\<close>

definition example_map :: "(mmregion \<times> u8 list) list" where
  "example_map =
     [(\<lparr>mm_size = 20, mm_base_address = 0, mm_length = 0x9fc00, mm_type = 1\<rparr>, []),
      (\<lparr>mm_size = 22, mm_base_address = 0x100000, mm_length = 0x7ee0000, mm_type = 1\<rparr>, [7, 7])]"

definition example_mem :: "u64 \<Rightarrow> u8" where
  "example_mem a = concat (map mmregion_bytes example_map) ! unat (a - 0x1000)"

theorem mmregions_roundtrip_witness:
  "mmregions_from example_mem 0x1000 (0x1000 + 50) = Some (map fst example_map)"
proof -
  have l: "length (concat (map mmregion_bytes example_map)) = 50"
    by (simp add: example_map_def length_mmregion_bytes)
  have "bytes_at example_mem 0x1000 (concat (map mmregion_bytes example_map))"
    by code_simp
  moreover have "\<forall>x\<in>set example_map. mmregion_wf x"
    by (simp add: example_map_def mmregion_wf_def)
  ultimately show ?thesis
    using mmregions_roundtrip [of example_mem "0x1000" example_map] by (simp add: l)
qed

text \<open>A size field of \<open>0xFFFFFFFC\<close> makes the 32-bit increment 0: the loop does not end.\<close>

lemma mmregions_stuck:
  assumes "mm_size (read_mmregion mem p) = 0xFFFFFFFC" and "p < q"
  shows "mmregions_from mem p q = Option.bind (mmregions_from mem p q) (\<lambda>rs. Some (read_mmregion mem p # rs))"
  using assms by (subst mmregions_from.simps) (simp add: Let_def)

lemma mmregions_stuck_None:
  assumes "mm_size (read_mmregion mem p) = 0xFFFFFFFC" and "p < q"
  shows "mmregions_from mem p q = None"
proof (cases "mmregions_from mem p q")
  case (Some rs)
  then have "rs = read_mmregion mem p # rs" using mmregions_stuck [OF assms] by simp
  then show ?thesis by (metis not_Cons_self2)
qed

subsection \<open>What the memory loops hand to the allocator\<close>

definition entry_pages :: "e820_entry \<Rightarrow> nat set" where
  "entry_pages e = {unat (e_addr e) div 4096 ..< (unat (e_addr e) + unat (e_length e)) div 4096}"

definition entry_ok :: "e820_entry \<Rightarrow> bool" where
  "entry_ok e \<longleftrightarrow> 4096 dvd unat (e_addr e) \<and> unat (e_addr e) + unat (e_length e) + 4096 \<le> 2 ^ 64"

definition low_pages :: "u64 \<Rightarrow> e820_entry \<Rightarrow> nat set" where
  "low_pages kend e = entry_pages e \<inter> {unat kend div 4096 ..< 2 ^ 18}"

definition high_pages :: "e820_entry \<Rightarrow> nat set" where
  "high_pages e = entry_pages e \<inter> {2 ^ 18 ..}"

lemma initial_map_end_eq: "initial_map_end = 0x40000000"
  by (simp add: initial_map_end_def)

lemma unat_entry_end: "entry_ok e \<Longrightarrow> unat (e_addr e + e_length e) = unat (e_addr e) + unat (e_length e)"
  by (simp add: entry_ok_def unat_add_nowrap)

lemma trim_below_ok:
  assumes "entry_ok e" and "new \<le> e_addr e + e_length e" and "4096 dvd unat new"
  shows "entry_ok (trim_below new e)"
    and "unat (e_addr (trim_below new e)) = max (unat (e_addr e)) (unat new)"
    and "unat (e_addr (trim_below new e)) + unat (e_length (trim_below new e))
           = unat (e_addr e) + unat (e_length e)"
proof -
  note E = unat_entry_end [OF assms(1)]
  have le: "unat new \<le> unat (e_addr e) + unat (e_length e)"
    using assms(2) E by (simp add: word_le_nat_alt)
  have "unat (e_addr (trim_below new e)) = max (unat (e_addr e)) (unat new) \<and>
    unat (e_addr (trim_below new e)) + unat (e_length (trim_below new e)) = unat (e_addr e) + unat (e_length e)"
  proof (cases "new < e_addr e")
    case True
    then show ?thesis by (simp add: trim_below_def word_less_nat_alt)
  next
    case False
    then have le2: "unat (e_addr e) \<le> unat new" by (simp add: word_less_nat_alt)
    then have d: "unat (new - e_addr e) = unat new - unat (e_addr e)"
      by (simp add: unat_sub_nowrap word_le_nat_alt)
    then have "unat (e_length e - (new - e_addr e)) = unat (e_length e) - (unat new - unat (e_addr e))"
      using le by (subst unat_sub_nowrap) (simp_all add: word_le_nat_alt)
    moreover have "\<not> e_addr e + e_length e < new" using assms(2) by simp
    ultimately show ?thesis using False le le2 by (simp add: trim_below_def)
  qed
  then show "unat (e_addr (trim_below new e)) = max (unat (e_addr e)) (unat new)"
    and "unat (e_addr (trim_below new e)) + unat (e_length (trim_below new e))
           = unat (e_addr e) + unat (e_length e)"
    and "entry_ok (trim_below new e)"
    using assms by (auto simp: entry_ok_def max_def)
qed

lemma trim_above_ok:
  assumes "entry_ok e" and "e_addr e < new"
  shows "e_addr (trim_above new e) = e_addr e"
    and "unat (e_addr e) + unat (e_length (trim_above new e))
           = min (unat (e_addr e) + unat (e_length e)) (unat new)"
proof -
  note E = unat_entry_end [OF assms(1)]
  have lt: "unat (e_addr e) < unat new" using assms(2) by (simp add: word_less_nat_alt)
  show "unat (e_addr e) + unat (e_length (trim_above new e))
      = min (unat (e_addr e) + unat (e_length e)) (unat new)"
  proof (cases "e_addr e + e_length e < new")
    case True
    then show ?thesis using E by (simp add: trim_above_def word_less_nat_alt)
  next
    case False
    then have le: "unat new \<le> unat (e_addr e) + unat (e_length e)"
      using E by (simp add: word_less_nat_alt)
    then have d: "unat (e_addr e + e_length e - new) = unat (e_addr e) + unat (e_length e) - unat new"
      using E by (simp add: unat_sub_nowrap word_le_nat_alt)
    then have "unat (e_length e - (e_addr e + e_length e - new))
        = unat (e_length e) - (unat (e_addr e) + unat (e_length e) - unat new)"
      using le lt by (subst unat_sub_nowrap) (simp_all add: word_le_nat_alt)
    moreover have "\<not> new < e_addr e" using assms(2) by simp
    ultimately show ?thesis using False le lt by (simp add: trim_above_def)
  qed
qed (simp add: trim_above_def)


lemma early_free_entry:
  assumes "ranges_ok 0 rs" and "entry_ok e" and "entry_pages e \<inter> pages_of rs = {}"
  shows "\<exists>rs'. early_free_memory_range (e_addr e) (e_length e) nid rs = Ok rs' \<and> ranges_ok 0 rs'
    \<and> pages_of rs' = pages_of rs \<union> entry_pages e"
proof -
  obtain a where a: "unat (e_addr e) = 4096 * a" using assms(2) by (auto simp: entry_ok_def)
  then have "entry_pages e = {a ..< (unat (e_addr e) + unat (e_length e)) div 4096}"
    by (simp add: entry_pages_def)
  then show ?thesis
    using early_free_memory_range_aligned [OF assms(1) a] assms(2,3) by (simp add: entry_ok_def)
qed

lemma kmain_high_region_ok:
  assumes "ranges_ok 0 rs" and "entry_ok e" and "high_pages e \<inter> pages_of rs = {}"
  shows "\<exists>rs'. kmain_high_region e (rs, pt) = Ok (rs', pt) \<and> ranges_ok 0 rs'
    \<and> pages_of rs' = pages_of rs \<union> high_pages e"
proof (cases "e_addr e + e_length e < initial_map_end")
  case True
  then have "unat (e_addr e) + unat (e_length e) < 0x40000000"
    using unat_entry_end [OF assms(2)] by (simp add: word_less_nat_alt initial_map_end_eq)
  then have "high_pages e = {}" by (auto simp: high_pages_def entry_pages_def)
  then show ?thesis using assms(1) True by (simp add: kmain_high_region_def)
next
  case False
  let ?e = "trim_below initial_map_end e"
  have d: "4096 dvd unat initial_map_end" "unat initial_map_end = 0x40000000"
    by (simp_all add: initial_map_end_eq)
  note t = trim_below_ok [OF assms(2) _ d(1)]
  have le: "initial_map_end \<le> e_addr e + e_length e" using False by simp
  have "entry_pages ?e = high_pages e"
    using t(2,3) [OF le] by (auto simp: entry_pages_def high_pages_def d(2) max_def)
  then obtain rs' where "early_free_memory_range (e_addr ?e) (e_length ?e) ANY_NID rs = Ok rs'"
    "ranges_ok 0 rs'" "pages_of rs' = pages_of rs \<union> high_pages e"
    using early_free_entry [OF assms(1) t(1) [OF le]] assms(3) by metis
  then show ?thesis using False by (simp add: kmain_high_region_def Let_def)
qed

text \<open>What the mapping step may do to the allocator: it keeps the ranges well formed and only
  takes pages out.\<close>

definition map_law :: "(u64 \<Rightarrow> u64 \<Rightarrow> page_range list \<times> 't \<Rightarrow> (page_range list \<times> 't) res) \<Rightarrow> bool" where
  "map_law early_map \<longleftrightarrow> (\<forall>a l s s'. ranges_ok 0 (fst s) \<longrightarrow> early_map a l s = Ok s' \<longrightarrow>
     ranges_ok 0 (fst s') \<and> pages_of (fst s') \<subseteq> pages_of (fst s))"

lemma kmain_low_region_ok:
  assumes "ranges_ok 0 rs" and "entry_ok e" and "low_pages kend e \<inter> pages_of rs = {}"
    and "4096 dvd unat kend" and "kend \<le> initial_map_end"
    and "kmain_low_region early_map kend e (rs, pt) = Ok (rs', pt')" and "map_law early_map"
  shows "ranges_ok 0 rs' \<and> pages_of rs' \<subseteq> pages_of rs \<union> low_pages kend e"
proof (cases "e_addr e + e_length e \<le> kend")
  case True
  then show ?thesis using assms by (auto simp: kmain_low_region_def)
next
  case False
  let ?b = "trim_below kend e" let ?e = "trim_above initial_map_end ?b"
  have le: "kend \<le> e_addr e + e_length e" using False by simp
  note b = trim_below_ok [OF assms(2) le assms(4)]
  have g: "unat initial_map_end = 0x40000000" by (simp add: initial_map_end_eq)
  have run: "bind_res (if e_addr ?e < initial_map_end
       then bind_res (early_free_memory_range (e_addr ?e) (e_length ?e) ANY_NID rs) (\<lambda>rs. Ok (rs, pt))
       else Ok (rs, pt)) (early_map (e_addr e) (e_length e)) = Ok (rs', pt')"
    using assms(6) False by (simp only: kmain_low_region_def Let_def fst_conv snd_conv if_False)
  show ?thesis
  proof (cases "e_addr ?e < initial_map_end")
    case True
    have ab: "e_addr ?b < initial_map_end"
    proof (rule ccontr)
      assume "\<not> e_addr ?b < initial_map_end"
      then have "e_addr ?e = e_addr ?b" by (simp add: trim_above_def)
      then show False using True \<open>\<not> e_addr ?b < initial_map_end\<close> by simp
    qed
    note t = trim_above_ok [OF b(1) ab]
    have "unat (e_addr ?b) + unat (e_length ?e) \<le> unat (e_addr ?b) + unat (e_length ?b)"
      using t(2) by simp
    then have "entry_ok ?e" using b(1) unfolding entry_ok_def t(1) by linarith
    moreover have ep: "entry_pages ?e = low_pages kend e"
      using b(2,3) t by (auto simp: entry_pages_def low_pages_def g max_def min_def)
    ultimately obtain rs1 where "early_free_memory_range (e_addr ?e) (e_length ?e) ANY_NID rs = Ok rs1"
      "ranges_ok 0 rs1" "pages_of rs1 = pages_of rs \<union> low_pages kend e"
      using early_free_entry [OF assms(1)] assms(3) by metis
    moreover from this run True have "early_map (e_addr e) (e_length e) (rs1, pt) = Ok (rs', pt')" by simp
    ultimately show ?thesis using assms(7) unfolding map_law_def by (metis fst_conv)
  next
    case False
    then have "early_map (e_addr e) (e_length e) (rs, pt) = Ok (rs', pt')" using run by simp
    then show ?thesis using assms(1,7) unfolding map_law_def by (metis fst_conv sup.coboundedI1)
  qed
qed


text \<open>The two passes over the map.\<close>

definition ram :: "e820_entry list \<Rightarrow> e820_entry list" where
  "ram es = filter (\<lambda>e. e_type e = TYPE_RAM) es"

fun disjoint_entries :: "e820_entry list \<Rightarrow> bool" where
  "disjoint_entries [] \<longleftrightarrow> True"
| "disjoint_entries (e # es) \<longleftrightarrow>
     (\<forall>e'\<in>set es. entry_pages e \<inter> entry_pages e' = {}) \<and> disjoint_entries es"

lemma ram_simps [simp]:
  "ram [] = []" "ram (e # es) = (if e_type e = TYPE_RAM then e # ram es else ram es)"
  by (simp_all add: ram_def)

lemma low_pass:
  assumes "e820_for_each_usable_region (kmain_low_region early_map kend) es (rs, pt) = Ok (rs', pt')"
    and "ranges_ok 0 rs" and "\<forall>e\<in>set (ram es). entry_ok e" and "disjoint_entries (ram es)"
    and "\<forall>e\<in>set (ram es). low_pages kend e \<inter> pages_of rs = {}"
    and "4096 dvd unat kend" and "kend \<le> initial_map_end" and "map_law early_map"
  shows "ranges_ok 0 rs' \<and> pages_of rs' \<subseteq> pages_of rs \<union> (\<Union>e\<in>set (ram es). low_pages kend e)"
  using assms(1-5)
proof (induction es arbitrary: rs pt)
  case (Cons e es)
  show ?case
  proof (cases "e_type e = TYPE_RAM")
    case True
    obtain rs1 pt1 where 1: "kmain_low_region early_map kend e (rs, pt) = Ok (rs1, pt1)"
      and 2: "e820_for_each_usable_region (kmain_low_region early_map kend) es (rs1, pt1) = Ok (rs', pt')"
      using Cons.prems(1) True by (auto simp: bind_res_Ok_iff)
    have 3: "ranges_ok 0 rs1 \<and> pages_of rs1 \<subseteq> pages_of rs \<union> low_pages kend e"
      by (rule kmain_low_region_ok [OF Cons.prems(2) _ _ assms(6,7) 1 assms(8)])
        (use Cons.prems True in auto)
    have "\<forall>e'\<in>set (ram es). low_pages kend e' \<inter> pages_of rs1 = {}"
    proof
      fix e' assume m: "e' \<in> set (ram es)"
      have "entry_pages e \<inter> entry_pages e' = {}" "low_pages kend e' \<inter> pages_of rs = {}"
        using Cons.prems(4,5) True m by auto
      then show "low_pages kend e' \<inter> pages_of rs1 = {}" using 3 by (auto simp: low_pages_def)
    qed
    then have "ranges_ok 0 rs' \<and> pages_of rs' \<subseteq> pages_of rs1 \<union> (\<Union>e\<in>set (ram es). low_pages kend e)"
      using Cons.IH [OF 2] 3 Cons.prems(3,4) True by simp
    then show ?thesis using 3 True by auto
  next
    case False
    then show ?thesis using Cons by simp
  qed
qed simp

lemma high_pass:
  assumes "ranges_ok 0 rs" and "\<forall>e\<in>set (ram es). entry_ok e" and "disjoint_entries (ram es)"
    and "\<forall>e\<in>set (ram es). high_pages e \<inter> pages_of rs = {}"
  shows "\<exists>rs'. e820_for_each_usable_region kmain_high_region es (rs, pt) = Ok (rs', pt)
    \<and> ranges_ok 0 rs' \<and> pages_of rs' = pages_of rs \<union> (\<Union>e\<in>set (ram es). high_pages e)"
  using assms
proof (induction es arbitrary: rs)
  case (Cons e es)
  show ?case
  proof (cases "e_type e = TYPE_RAM")
    case True
    obtain rs1 where 1: "kmain_high_region e (rs, pt) = Ok (rs1, pt)" "ranges_ok 0 rs1"
      "pages_of rs1 = pages_of rs \<union> high_pages e"
      using kmain_high_region_ok [OF Cons.prems(1), of e pt] Cons.prems(2,4) True by auto
    have m1: "\<forall>e'\<in>set (ram es). high_pages e' \<inter> pages_of rs1 = {}"
    proof
      fix e' assume m: "e' \<in> set (ram es)"
      have "entry_pages e \<inter> entry_pages e' = {}" "high_pages e' \<inter> pages_of rs = {}"
        using Cons.prems(3,4) True m by auto
      then show "high_pages e' \<inter> pages_of rs1 = {}" using 1(3) by (auto simp: high_pages_def)
    qed
    obtain rs' where "e820_for_each_usable_region kmain_high_region es (rs1, pt) = Ok (rs', pt)"
      "ranges_ok 0 rs'" "pages_of rs' = pages_of rs1 \<union> (\<Union>e\<in>set (ram es). high_pages e)"
      using Cons.IH [OF 1(2) _ _ m1] Cons.prems(2,3) True by auto
    then show ?thesis using 1 True by auto
  next
    case False
    then show ?thesis using Cons by simp
  qed
qed simp

definition usable_pages :: "u64 \<Rightarrow> e820_entry list \<Rightarrow> nat set" where
  "usable_pages kend es = (\<Union>e\<in>set (ram es). entry_pages e) \<inter> {unat kend div 4096 ..}"

lemma kmain_memory_ok:
  assumes "kmain_memory early_map kend es pt = Ok (rs, pt')"
    and "\<forall>e\<in>set (ram es). entry_ok e" and "disjoint_entries (ram es)"
    and "4096 dvd unat kend" and "kend \<le> initial_map_end" and "map_law early_map"
  shows "ranges_ok 0 rs \<and> pages_of rs \<subseteq> usable_pages kend es
    \<and> (\<Union>e\<in>set (ram es). high_pages e) \<subseteq> pages_of rs"
proof -
  obtain rs1 pt1 where
    1: "e820_for_each_usable_region (kmain_low_region early_map kend) es ([], pt) = Ok (rs1, pt1)"
    and 2: "e820_for_each_usable_region kmain_high_region es (rs1, pt1) = Ok (rs, pt')"
    using assms(1) by (auto simp: kmain_memory_def bind_res_Ok_iff)
  have 3: "ranges_ok 0 rs1" "pages_of rs1 \<subseteq> (\<Union>e\<in>set (ram es). low_pages kend e)"
    using low_pass [OF 1 _ assms(2,3) _ assms(4-6)] by simp_all
  then have "\<forall>e\<in>set (ram es). high_pages e \<inter> pages_of rs1 = {}"
    by (fastforce simp: low_pages_def high_pages_def)
  then have 4: "ranges_ok 0 rs" "pages_of rs = pages_of rs1 \<union> (\<Union>e\<in>set (ram es). high_pages e)"
    using high_pass [OF 3(1) assms(2,3), of pt1] 2 by auto
  have "unat kend div 4096 \<le> 2 ^ 18"
    using assms(5) div_le_mono [of "unat kend" "2 ^ 30" 4096]
    by (simp add: word_le_nat_alt initial_map_end_eq)
  then have sub: "{2 ^ 18 ..} \<subseteq> {unat kend div 4096 ..}" by (simp only: atLeast_subset_iff)
  have "low_pages kend e \<subseteq> entry_pages e \<inter> {unat kend div 4096 ..}" for e
    by (auto simp: low_pages_def)
  moreover have "high_pages e \<subseteq> entry_pages e \<inter> {unat kend div 4096 ..}" for e
    unfolding high_pages_def by (rule Int_mono [OF subset_refl sub])
  moreover have "usable_pages kend es = (\<Union>e\<in>set (ram es). entry_pages e \<inter> {unat kend div 4096 ..})"
    by (simp only: usable_pages_def Int_UN_distrib2 UN_simps)
  ultimately have "(\<Union>e\<in>set (ram es). low_pages kend e) \<subseteq> usable_pages kend es"
    and "(\<Union>e\<in>set (ram es). high_pages e) \<subseteq> usable_pages kend es"
    by (simp_all only: UN_mono subset_refl)
  then show ?thesis using 3 4 by (simp only: Un_subset_iff subset_trans [OF 3(2)] Un_upper2 simp_thms)
qed

text \<open>When the memory loops of \<open>kmain\<close> end, the early allocator is well formed and holds
  only pages of usable regions above the kernel image: no page below \<open>kend\<close>, no reserved page
  and no page twice, although every region is cut at \<open>kend\<close> and at 1 GB and visited twice.
  Every usable page above the initial mapping is there.\<close>

theorem kmain_memory_safe:
  assumes "kmain_memory early_map kend es pt = Ok (rs, pt')"
    and "\<forall>e\<in>set (ram es). entry_ok e" and "disjoint_entries (ram es)"
    and "4096 dvd unat kend" and "kend \<le> initial_map_end" and "map_law early_map"
  shows "ranges_ok 0 rs \<and> pages_of rs \<subseteq> usable_pages kend es
    \<and> (\<Union>e\<in>set (ram es). high_pages e) \<subseteq> pages_of rs"
  using assms by (rule kmain_memory_ok)

text \<open>A machine with 639 kB of low memory and a region across the 1 GB line, and a mapping step
  that takes no page.\<close>

theorem kmain_memory_safe_witness:
  "kmain_memory (\<lambda>a l s. Ok s) 0x200000
      [\<lparr>e_addr = 0, e_length = 0x9fc00, e_type = 1\<rparr>, \<lparr>e_addr = 0x100000, e_length = 0x40000000, e_type = 1\<rparr>] ()
     = Ok ([\<lparr>pr_start = 0x200, pr_npages = 0x3ff00, pr_nid = ANY_NID\<rparr>], ())
   \<and> {0x200 ..< 0x40100} \<subseteq> {256 ..< 0x40100} \<inter> {0x200 :: nat ..}"
proof -
  let ?es = "[\<lparr>e_addr = 0, e_length = 0x9fc00, e_type = 1\<rparr>,
    \<lparr>e_addr = 0x100000, e_length = 0x40000000, e_type = 1\<rparr>]"
  have run: "kmain_memory (\<lambda>a l s. Ok s) 0x200000 ?es ()
      = Ok ([\<lparr>pr_start = 0x200, pr_npages = 0x3ff00, pr_nid = ANY_NID\<rparr>], ())"
    by code_simp
  have ok: "\<forall>e\<in>set (ram ?es). entry_ok e"
    by (simp add: ram_def entry_ok_def TYPE_RAM_def)
  have dj: "disjoint_entries (ram ?es)"
    by (simp add: ram_def TYPE_RAM_def entry_pages_def)
  have "map_law (\<lambda>a l s. Ok s :: (page_range list \<times> unit) res)" by (simp add: map_law_def)
  from kmain_memory_safe [OF run ok dj _ _ this]
  have "{0x200 ..< 0x40100} \<subseteq> usable_pages 0x200000 ?es"
    by (simp add: initial_map_end_eq range_pages_def r_lo_def r_hi_def)
  moreover have "usable_pages 0x200000 ?es = {256 ..< 0x40100} \<inter> {0x200 ..}"
    by (auto simp: usable_pages_def ram_def TYPE_RAM_def entry_pages_def)
  ultimately show ?thesis using run by simp
qed

end
