(* ===== verification/VMem.thy ===== *)
theory VMem
  imports Page_Allocator
begin

text \<open>
  \<open>sys/vmem.hpp\<close>, \<open>sys/vmem.cpp\<close> and the page-table parts of \<open>sys/trans.cpp\<close>: page-table
  entries, the recursive traversal of the four levels, and the operations that map and unmap
  memory with it.  The tables live in physical memory, which the kernel maps one to one: a
  function from the address of an entry to its 64 bits.  The \<open>pte &\<close> the traversal starts from
  is either a variable (\<open>page_table_root\<close>, a copy of \<open>cr3\<close>) or an entry of a table.
\<close>

subsection \<open>Page-table entries\<close>

definition pte_set_bit :: "nat \<Rightarrow> bool \<Rightarrow> u64 \<Rightarrow> u64" where
  "pte_set_bit bit_num value raw = (raw AND NOT (push_bit bit_num 1)) OR push_bit bit_num (of_bool value)"

definition pte_present :: "u64 \<Rightarrow> bool" where "pte_present raw \<longleftrightarrow> raw AND 1 \<noteq> 0"

definition pte_addr :: "u64 \<Rightarrow> bool \<Rightarrow> u64" where
  "pte_addr raw large =
     (let ret = raw AND (push_bit 52 1 - 1);
          ret = ret AND NOT (push_bit 12 1 - 1)
      in ret AND NOT (push_bit 12 (of_bool large)))"

definition pte_large :: "u64 \<Rightarrow> bool" where "pte_large raw \<longleftrightarrow> raw AND push_bit 7 1 \<noteq> 0"

definition pte_set_addr :: "u64 \<Rightarrow> bool \<Rightarrow> u64 \<Rightarrow> u64" where
  "pte_set_addr addr large raw =
     (let m = 0x8000000000000fff OR push_bit 12 (of_bool large) in (raw AND m) OR addr)"

definition perm_read :: u32 where "perm_read = 1"
definition perm_write :: u32 where "perm_write = 2"
definition perm_exec :: u32 where "perm_exec = 4"
definition perm_all :: u32 where "perm_all = perm_read OR perm_write OR perm_exec"

definition pte_set :: "u64 \<Rightarrow> bool \<Rightarrow> u32 \<Rightarrow> u64" where
  "pte_set phys_addr large permissions =
     (let raw = 0;
          raw = pte_set_bit 0 (permissions \<noteq> 0) raw;
          raw = pte_set_bit 1 (permissions AND perm_write \<noteq> 0) raw;
          raw = pte_set_bit 7 large raw;
          raw = pte_set_addr phys_addr large raw
      in pte_set_bit 63 (permissions AND perm_exec = 0) raw)"

definition pte_set_normal :: "u64 \<Rightarrow> u32 \<Rightarrow> u64" where
  "pte_set_normal phys_addr permissions = pte_set phys_addr False permissions"

text \<open>\<open>pt_index\<close> with its shift count, and at a level.\<close>

definition pt_index_shift :: "u64 \<Rightarrow> nat \<Rightarrow> nat" where
  "pt_index_shift virt_addr shift = unat (drop_bit shift virt_addr AND (push_bit 9 1 - 1))"

definition pt_index :: "u64 \<Rightarrow> nat \<Rightarrow> nat" where
  "pt_index virt_addr level = pt_index_shift virt_addr (12 + level * 9)"

definition canonical :: "u64 \<Rightarrow> u64" where
  "canonical addr = signed_drop_bit 16 (push_bit 16 addr)"

definition num_page_sizes :: nat where "num_page_sizes = 2"

subsection \<open>The traversal\<close>

datatype pte_loc = Root | Entry u64

record page_tables =
  pt_root :: u64
  pt_mem :: "u64 \<Rightarrow> u64"

fun pte_at :: "page_tables \<Rightarrow> pte_loc \<Rightarrow> u64" where
  "pte_at t Root = pt_root t"
| "pte_at t (Entry a) = pt_mem t a"

fun pte_write :: "pte_loc \<Rightarrow> u64 \<Rightarrow> page_tables \<Rightarrow> page_tables" where
  "pte_write Root raw t = t\<lparr>pt_root := raw\<rparr>"
| "pte_write (Entry a) raw t = t\<lparr>pt_mem := (pt_mem t)(a := raw)\<rparr>"

text \<open>Clearing the 512 entries of a new table (or of a data page).\<close>

definition clear_page :: "u64 \<Rightarrow> page_tables \<Rightarrow> page_tables" where
  "clear_page page_addr t = t\<lparr>pt_mem := (\<lambda>a. if a - page_addr < PAGE_SIZE then 0 else pt_mem t a)\<rparr>"

type_synonym 's vm = "'s \<times> page_tables"
type_synonym 's found_fn = "pte_loc \<Rightarrow> u64 \<Rightarrow> nat \<Rightarrow> 's vm \<Rightarrow> 's vm res"
type_synonym 's empty_fn = "pte_loc \<Rightarrow> 's vm \<Rightarrow> (bool \<times> 's vm) res"

text \<open>The loop over the entries of one table.\<close>

fun pt_loop :: "(nat \<Rightarrow> u64 \<Rightarrow> 'a \<Rightarrow> 'a res) \<Rightarrow> u64 \<Rightarrow> nat list \<Rightarrow> u64 \<Rightarrow> 'a \<Rightarrow> 'a res" where
  "pt_loop body step [] base_virt s = Ok s"
| "pt_loop body step (idx # is) base_virt s =
     bind_res (body idx base_virt s) (pt_loop body step is (canonical (base_virt + step)))"

definition ensure_present :: "'s empty_fn \<Rightarrow> pte_loc \<Rightarrow> 's vm \<Rightarrow> (bool \<times> 's vm) res" where
  "ensure_present on_empty entry s = (if pte_present (pte_at (snd s) entry) then Ok (True, s) else on_empty entry s)"

text \<open>The entries of one table that the interval reaches, each of \<open>2 ^ shift\<close> bytes.\<close>

definition walk_table ::
    "nat \<Rightarrow> (nat \<Rightarrow> u64 \<Rightarrow> 'a \<Rightarrow> 'a res) \<Rightarrow> u64 \<Rightarrow> u64 \<Rightarrow> u64 \<Rightarrow> 'a \<Rightarrow> 'a res" where
  "walk_table shift body virt_start virt_end base_virt s =
     (let step = push_bit shift 1;
          idx_begin = pt_index_shift (max virt_start base_virt) shift;
          base_virt_end = canonical (base_virt + step * 512 - 1);
          idx_end = pt_index_shift (min (virt_end - 1) base_virt_end) shift
      in pt_loop body step [idx_begin..<Suc idx_end] (base_virt + canonical (of_nat idx_begin * step)) s)"

text \<open>The entry is made present first.  Called at level 0 the decremented level is \<open>2\<^sup>6\<^sup>4 - 1\<close>: the shift
  count wraps to 3, no entry is a page, and each is traversed in turn, where, once the entry is present, the
  shift count is \<open>2\<^sup>6\<^sup>4 - 6\<close>, which is undefined.\<close>

primrec traverse_page_table ::
    "nat \<Rightarrow> 's found_fn \<Rightarrow> 's empty_fn \<Rightarrow> u64 \<Rightarrow> u64 \<Rightarrow> pte_loc \<Rightarrow> u64 \<Rightarrow> 's vm \<Rightarrow> 's vm res" where
  "traverse_page_table 0 found on_empty virt_start virt_end entry base_virt s =
     bind_res (ensure_present on_empty entry s) (\<lambda>(go, s1).
       if \<not> go then Ok s1
       else let pt = pte_addr (pte_at (snd s1) entry) False
            in walk_table 3 (\<lambda>idx b s2.
                 bind_res (ensure_present on_empty (Entry (pt + 8 * of_nat idx)) s2) (\<lambda>(go, s3).
                   if \<not> go then Ok s3 else Fail Undefined))
                 virt_start virt_end base_virt s1)"
| "traverse_page_table (Suc level) found on_empty virt_start virt_end entry base_virt s =
     bind_res (ensure_present on_empty entry s) (\<lambda>(go, s1).
       if \<not> go then Ok s1
       else let pt = pte_addr (pte_at (snd s1) entry) False
            in walk_table (12 + level * 9) (\<lambda>idx b.
                 let slot = Entry (pt + 8 * of_nat idx)
                 in if level < num_page_sizes \<and> virt_start \<le> b \<and> virt_end \<ge> b + push_bit (12 + level * 9) 1
                    then found slot b level
                    else traverse_page_table level found on_empty virt_start virt_end slot b)
                 virt_start virt_end base_virt s1)"

declare traverse_page_table.simps(1) [simp del]

subsection \<open>Mapping and unmapping\<close>

text \<open>A new table: a page from the given source, cleared, and entered with all permissions.\<close>

definition new_table :: "('s \<Rightarrow> (pfn \<times> 's) res) \<Rightarrow> 's empty_fn" where
  "new_table get entry s = (case s of (a, t) \<Rightarrow>
     bind_res (get a) (\<lambda>(page, a').
       let page_addr = pfn_to_addr page
       in Ok (True, (a', pte_write entry (pte_set_normal page_addr perm_all) (clear_page page_addr t)))))"

definition map_entry :: "u64 \<Rightarrow> 's found_fn" where
  "map_entry phys entry base_virt level s = (case s of (a, t) \<Rightarrow>
     kassert (\<not> pte_present (pte_at t entry))
       (Ok (a, pte_write entry (pte_set phys (0 < level) perm_all) t)))"

definition early_map_entry :: "'s found_fn" where
  "early_map_entry entry base_virt level s = (case s of (a, t) \<Rightarrow>
     if pte_present (pte_at t entry)
     then kassert (pte_addr (pte_at t entry) (0 < level) = base_virt) (Ok (a, t))
     else Ok (a, pte_write entry (pte_set base_virt (0 < level) perm_all) t))"

definition unmap_entry :: "'s found_fn" where
  "unmap_entry entry base_virt level s = (case s of (a, t) \<Rightarrow>
     kassert (pte_present (pte_at t entry))
       (Ok (a, pte_write entry (pte_set_bit 0 False (pte_at t entry)) t)))"

definition aligned_extent :: "u64 \<Rightarrow> u64 \<Rightarrow> u64 \<times> u64" where
  "aligned_extent addr len =
     (let aligned_addr = align_down addr PAGE_SIZE
      in (aligned_addr, align_up (len + (addr - aligned_addr)) PAGE_SIZE))"

definition early_map_memory :: "u64 \<Rightarrow> u64 \<Rightarrow> page_range list vm \<Rightarrow> page_range list vm res" where
  "early_map_memory addr len s = (case aligned_extent addr len of (aligned_addr, aligned_length) \<Rightarrow>
     traverse_page_table 4 early_map_entry (new_table (early_allocate_page 1 ANY_NID))
       aligned_addr (aligned_addr + aligned_length) Root 0 s)"

definition early_unmap_memory :: "u64 \<Rightarrow> u64 \<Rightarrow> 's vm \<Rightarrow> 's vm res" where
  "early_unmap_memory addr len s = (case aligned_extent addr len of (aligned_addr, aligned_length) \<Rightarrow>
     traverse_page_table 4 unmap_entry (\<lambda>entry s. Fail Aborted)
       aligned_addr (aligned_addr + aligned_length) Root 0 s)"

text \<open>The pages of \<open>map_memory\<close> come from the buddy allocator.  The code tests the result against
  0; on \<open>NO_PFN\<close> it goes on to clear a table at the top of the address space, which is not memory.\<close>

definition table_page :: "buddy \<Rightarrow> (pfn \<times> buddy) res" where
  "table_page s = bind_res (AllocLocal 0 s) (\<lambda>(page, s').
     kbugon (page = 0) (defined (page \<noteq> NO_PFN) (Ok (page, s'))))"

text \<open>\<open>map_memory\<close> walks from a local copy of \<open>cr3\<close>, whose changes are dropped.\<close>

definition map_memory :: "u64 \<Rightarrow> pfn \<Rightarrow> pfn \<Rightarrow> u64 \<Rightarrow> buddy vm \<Rightarrow> buddy vm res" where
  "map_memory cr3 vfn pfn len s =
     (let vaddr = pfn_to_addr vfn
      in bind_res (traverse_page_table 4
                     (\<lambda>entry base_virt. map_entry (pfn_to_addr pfn + (base_virt - vaddr)) entry base_virt)
                     (new_table table_page) vaddr (vaddr + len) Root 0
                     (fst s, (snd s)\<lparr>pt_root := cr3\<rparr>))
           (\<lambda>(a, t). Ok (a, t\<lparr>pt_root := pt_root (snd s)\<rparr>)))"

subsection \<open>The translation region of each processor\<close>

definition LOCAL_TRANS_VMEM_START :: u64 where "LOCAL_TRANS_VMEM_START = 0xFFFFFFFF00000000"

definition trans_init :: "nid \<Rightarrow> page_range list vm \<Rightarrow> page_range list vm res" where
  "trans_init my_node s =
     bind_res (early_allocate_page 1 my_node (fst s)) (\<lambda>(page, a).
       bind_res (traverse_page_table 4
                   (\<lambda>entry base_virt. map_entry (pfn_to_addr page + (base_virt - LOCAL_TRANS_VMEM_START)) entry base_virt)
                   (new_table (early_allocate_page 1 my_node))
                   LOCAL_TRANS_VMEM_START (LOCAL_TRANS_VMEM_START + PAGE_SIZE) Root 0 (a, snd s))
         (\<lambda>(a', t). Ok (a', clear_page (pfn_to_addr page) t)))"

text \<open>On another processor the top-level entry of the region, copied from the boot tables, is
  dropped and the region rebuilt from the node's allocator; no result is tested.\<close>

definition trans_page :: "buddy \<Rightarrow> (pfn \<times> buddy) res" where
  "trans_page s = bind_res (AllocLocal 0 s) (\<lambda>(page, s'). defined (page \<noteq> NO_PFN) (Ok (page, s')))"

definition trans_found :: "buddy found_fn" where
  "trans_found entry base_virt level s = (case s of (a, t) \<Rightarrow>
     kassert (\<not> pte_present (pte_at t entry))
       (bind_res (trans_page a) (\<lambda>(page, a').
          Ok (a', pte_write entry
                (pte_set (pfn_to_addr page + (base_virt - LOCAL_TRANS_VMEM_START)) (0 < level) perm_all)
                (clear_page (pfn_to_addr page) t)))))"

definition trans_ap_init :: "u64 \<Rightarrow> buddy vm \<Rightarrow> buddy vm res" where
  "trans_ap_init cr3 s =
     (let idx = pt_index LOCAL_TRANS_VMEM_START 3;
          pt = pte_addr cr3 False;
          t = pte_write (Entry (pt + 8 * of_nat idx)) 0 (snd s)
      in bind_res (traverse_page_table 4 trans_found (new_table trans_page)
                     LOCAL_TRANS_VMEM_START (LOCAL_TRANS_VMEM_START + PAGE_SIZE) Root 0
                     (fst s, t\<lparr>pt_root := cr3\<rparr>))
           (\<lambda>(a, t'). Ok (a, t'\<lparr>pt_root := pt_root (snd s)\<rparr>)))"

text \<open>\<open>vmem_ap_init\<close>: a processor gets its own copy of the top-level table; the result is its
  new \<open>cr3\<close>.\<close>

definition copy_page :: "u64 \<Rightarrow> u64 \<Rightarrow> page_tables \<Rightarrow> page_tables" where
  "copy_page dst src t = t\<lparr>pt_mem := (\<lambda>a. if a - dst < PAGE_SIZE then pt_mem t (src + (a - dst)) else pt_mem t a)\<rparr>"

definition vmem_ap_init :: "buddy vm \<Rightarrow> (u64 \<times> buddy vm) res" where
  "vmem_ap_init s =
     bind_res (table_page (fst s)) (\<lambda>(page, a).
       let page_addr = pfn_to_addr page
       in Ok (pte_set_normal page_addr perm_all,
              (a, copy_page page_addr (pte_addr (pt_root (snd s)) False) (snd s))))"

subsection \<open>The entry encoding\<close>

lemma flag_mask_bits: "bit (0x8000000000000fff :: u64) n \<longleftrightarrow> n < 12 \<or> n = 63"
proof -
  have "(0x8000000000000fff :: u64) = push_bit 63 1 OR mask 12" by (simp add: mask_eq_exp_minus_1)
  moreover have "bit (push_bit 63 1 OR mask 12 :: u64) n \<longleftrightarrow> (63 \<le> n \<and> n < 64 \<and> n - 63 = 0) \<or> n < 12"
    by (simp only: bit_or_iff bit_push_bit_iff bit_mask_iff bit_1_iff possible_bit_word) auto
  ultimately show ?thesis by auto
qed

lemma bit_of_bool_word: "bit (of_bool b :: 'a::len word) n \<longleftrightarrow> n = 0 \<and> b"
  by (cases b) (auto simp: bit_1_iff)

lemma bit_pte_set_bit: "k < 64 \<Longrightarrow> bit (pte_set_bit k v raw) n \<longleftrightarrow> (if n = k then v else bit raw n)"
  by (auto simp: pte_set_bit_def bit_simps bit_of_bool_word dest: bit_imp_le_length)

lemma bit_pte_set:
  "bit (pte_set a large p) n \<longleftrightarrow>
     (if n = 63 then p AND perm_exec = 0
      else bit a n \<or> n = 0 \<and> p \<noteq> 0 \<or> n = 1 \<and> p AND perm_write \<noteq> 0 \<or> n = 7 \<and> large)"
  unfolding pte_set_def Let_def
  by (simp add: bit_pte_set_bit) (auto simp: pte_set_addr_def bit_pte_set_bit bit_simps flag_mask_bits bit_of_bool_word)

lemma bit_pte_addr: "bit (pte_addr raw large) n \<longleftrightarrow> bit raw n \<and> 12 \<le> n \<and> n < 52 \<and> \<not> (large \<and> n = 12)"
proof -
  have m: "(push_bit 52 1 - 1 :: u64) = mask 52" "(push_bit 12 1 - 1 :: u64) = mask 12"
    by (simp_all add: mask_eq_exp_minus_1 push_bit_eq_mult)
  show ?thesis
    unfolding pte_addr_def Let_def m
    by (auto simp: bit_simps bit_of_bool_word dest: bit_imp_le_length)
qed

lemma and_one_bit: "(w AND push_bit n 1 \<noteq> 0) = bit w n" for w :: u64
proof
  assume "w AND push_bit n 1 \<noteq> 0"
  then obtain i where "bit (w AND push_bit n 1) i" using word_nonzero_bit by blast
  then show "bit w n" by (auto simp: bit_simps)
next
  assume "bit w n"
  moreover from this have "n < 64" by (auto dest: bit_imp_le_length)
  ultimately have "bit (w AND push_bit n 1) n" by (simp add: bit_simps)
  then show "w AND push_bit n 1 \<noteq> 0" by auto
qed

lemma pte_present_bit: "pte_present raw = bit raw 0"
  using and_one_bit [of raw 0] by (simp add: pte_present_def)

lemma pte_large_bit: "pte_large raw = bit raw 7"
  by (simp only: pte_large_def and_one_bit)

text \<open>C39: An entry set to a physical address reads back: its address, its size flag, and its
  permissions; the address must lie in bits 12 to 51 and, for a large page, not use bit 12,
  which the code never checks.\<close>

theorem pte_set_roundtrip:
  assumes "\<And>n. bit a n \<Longrightarrow> 12 \<le> n \<and> n < 52 \<and> \<not> (large \<and> n = 12)"
  shows "pte_addr (pte_set a large p) large = a \<and> pte_large (pte_set a large p) = large
    \<and> (pte_present (pte_set a large p) \<longleftrightarrow> p \<noteq> 0)
    \<and> (bit (pte_set a large p) 1 \<longleftrightarrow> p AND perm_write \<noteq> 0)
    \<and> (bit (pte_set a large p) 63 \<longleftrightarrow> p AND perm_exec = 0)"
proof (intro conjI)
  show "pte_addr (pte_set a large p) large = a"
    by (rule bit_eqI) (use assms assms [of 63] in \<open>auto simp: bit_pte_addr bit_pte_set\<close>)
qed (use assms [of 0] assms [of 1] assms [of 7] assms [of 63] in \<open>auto simp: pte_large_bit pte_present_bit bit_pte_set\<close>)

theorem pte_set_roundtrip_witness:
  "pte_addr (pte_set (2 ^ 30) True perm_all) True = 2 ^ 30 \<and> pte_large (pte_set (2 ^ 30) True perm_all)"
proof -
  have "n = 30" if "bit (2 ^ 30 :: u64) n" for n
    using that by (simp only: bit_exp_iff)
  then have "12 \<le> n \<and> n < 52 \<and> \<not> (True \<and> n = 12)" if "bit (2 ^ 30 :: u64) n" for n
    using that by fastforce
  from pte_set_roundtrip [OF this] show ?thesis by blast
qed

subsection \<open>Which entries the traversal visits\<close>

text \<open>\<open>visits found on_empty s log s'\<close>: from \<open>s\<close> to \<open>s'\<close> by successful calls of the two callbacks.
  The log has \<open>Table entry raw\<close> where the walk goes on to the table that the entry's value \<open>raw\<close>, read
  at that moment, points to, and \<open>Found entry b level\<close> for each call of \<open>found\<close>, in order.\<close>

datatype visit = Table pte_loc u64 | Found pte_loc u64 nat

inductive visits :: "'s found_fn \<Rightarrow> 's empty_fn \<Rightarrow> 's vm \<Rightarrow> visit list \<Rightarrow> 's vm \<Rightarrow> bool"
  for found on_empty where
  visits_nil: "visits found on_empty s [] s"
| visits_fill: "on_empty entry s = Ok (True, s1) \<Longrightarrow> visits found on_empty s1 log s' \<Longrightarrow> visits found on_empty s log s'"
| visits_table: "visits found on_empty s log s' \<Longrightarrow> visits found on_empty s (Table entry (pte_at (snd s) entry) # log) s'"
| visits_found: "found entry b level s = Ok s1 \<Longrightarrow> visits found on_empty s1 log s' \<Longrightarrow>
     visits found on_empty s (Found entry b level # log) s'"

inductive_cases visits_nilE: "visits found on_empty s [] s'"

lemma visits_append:
  "visits found on_empty s xs s1 \<Longrightarrow> visits found on_empty s1 ys s2 \<Longrightarrow> visits found on_empty s (xs @ ys) s2"
  by (induction rule: visits.induct) (auto intro: visits.intros)

text \<open>The pages of the calls fill an interval from left to right, each aligned to its size.\<close>

fun tiles :: "nat \<Rightarrow> visit list \<Rightarrow> nat \<Rightarrow> bool" where
  "tiles lo [] hi \<longleftrightarrow> lo = hi"
| "tiles lo (Table entry raw # log) hi \<longleftrightarrow> tiles lo log hi"
| "tiles lo (Found entry b level # log) hi \<longleftrightarrow> unat b = lo \<and> level < num_page_sizes \<and>
     2 ^ (12 + level * 9) dvd lo \<and> tiles (lo + 2 ^ (12 + level * 9)) log hi"

lemma tiles_append: "tiles a xs b \<Longrightarrow> tiles b ys c \<Longrightarrow> tiles a (xs @ ys) c"
  by (induction a xs b rule: tiles.induct) (simp_all only: tiles.simps append_Nil append_Cons simp_thms)

text \<open>The walk the processor makes for the address \<open>a\<close>, from the root at level 4 down: at each level it
  takes the table whose address the entry of the level above holds, and in it the element with the
  index that nine bits of \<open>a\<close> give.  \<open>seen\<close> are the entries the traversal has gone through, with
  the values it read in them.\<close>

inductive leads :: "(pte_loc \<times> u64) set \<Rightarrow> nat \<Rightarrow> u64 \<Rightarrow> pte_loc \<Rightarrow> bool" for seen where
  leads_root: "leads seen 4 a Root"
| leads_down: "leads seen (Suc level) a entry \<Longrightarrow> (entry, raw) \<in> seen \<Longrightarrow>
     leads seen level a (Entry (pte_addr raw False + 8 * of_nat (pt_index a level)))"

lemma leads_mono: "leads seen level a entry \<Longrightarrow> seen \<subseteq> seen' \<Longrightarrow> leads seen' level a entry"
  by (induction rule: leads.induct) (auto intro: leads.intros)

text \<open>Every entry that \<open>found\<close> is called on is the one this walk reaches for the call's address and level,
  through entries the traversal has gone through before.\<close>

fun walked :: "(pte_loc \<times> u64) set \<Rightarrow> visit list \<Rightarrow> bool" where
  "walked seen [] \<longleftrightarrow> True"
| "walked seen (Table entry raw # log) \<longleftrightarrow> walked (insert (entry, raw) seen) log"
| "walked seen (Found entry b level # log) \<longleftrightarrow> leads seen level b entry \<and> walked seen log"

lemma walked_mono: "walked seen log \<Longrightarrow> seen \<subseteq> seen' \<Longrightarrow> walked seen' log"
proof (induction seen log arbitrary: seen' rule: walked.induct)
  case (2 seen entry raw log)
  show ?case using 2(1) [of "insert (entry, raw) seen'"] 2(2,3) by auto
qed (auto intro: leads_mono)

lemma walked_append: "walked seen xs \<Longrightarrow> walked seen ys \<Longrightarrow> walked seen (xs @ ys)"
  by (induction seen xs rule: walked.induct) (auto intro: walked_mono)

definition covers ::
    "'s found_fn \<Rightarrow> 's empty_fn \<Rightarrow> (pte_loc \<times> u64) set \<Rightarrow> 's vm \<Rightarrow> nat \<Rightarrow> nat \<Rightarrow> 's vm \<Rightarrow> bool" where
  "covers found on_empty seen s lo hi s' \<longleftrightarrow>
     (\<exists>log. visits found on_empty s log s' \<and> tiles lo log hi \<and> walked seen log)"

lemma covers_append:
  "covers found on_empty seen s lo mid s1 \<Longrightarrow> covers found on_empty seen s1 mid hi s' \<Longrightarrow>
    covers found on_empty seen s lo hi s'"
  unfolding covers_def using visits_append tiles_append walked_append by blast

lemma covers_found:
  assumes "found slot b level s = Ok s'" and "level < num_page_sizes" and "2 ^ (12 + level * 9) dvd unat b"
    and "leads seen level b slot"
  shows "covers found on_empty seen s (unat b) (unat b + 2 ^ (12 + level * 9)) s'"
proof -
  have "visits found on_empty s [Found slot b level] s'" by (rule visits_found [OF _ visits_nil]) (rule assms(1))
  then show ?thesis unfolding covers_def
    by (intro exI [of _ "[Found slot b level]"] conjI) (use assms(2-4) in simp_all)
qed

lemma covers_table:
  assumes "ensure_present on_empty entry s = Ok (True, s1)"
    and "covers found on_empty (insert (entry, pte_at (snd s1) entry) seen) s1 lo hi s'"
  shows "covers found on_empty seen s lo hi s'"
proof -
  obtain log where log: "visits found on_empty s1 log s'" "tiles lo log hi" "walked (insert (entry, pte_at (snd s1) entry) seen) log"
    using assms(2) by (auto simp: covers_def)
  have "visits found on_empty s (Table entry (pte_at (snd s1) entry) # log) s'"
    using assms(1) visits_table [OF log(1), of entry]
    by (auto simp: ensure_present_def split: if_splits intro: visits_fill)
  then show ?thesis unfolding covers_def using log(2,3)
    by (intro exI [of _ "Table entry (pte_at (snd s1) entry) # log"]) simp
qed

text \<open>The loop over one table, each of whose entries covers \<open>st\<close> bytes.\<close>

lemma pt_loop_tiles:
  assumes "pt_loop body step [i..<i + n] b s = Ok s'" and "0 < n"
    and "unat b + n * st \<le> 2 ^ 64" and "unat step = st" and "0 < st"
    and "\<And>k b s s'. k < n \<Longrightarrow> unat b = bs + k * st \<Longrightarrow> body (i + k) b s = Ok s' \<Longrightarrow>
        covers found on_empty seen s (max vs (unat b)) (min ve (unat b + st)) s'"
    and "\<And>x. unat x < unat b + n * st \<Longrightarrow> unat b < unat x \<Longrightarrow> canonical x = x"
    and "unat b = bs" and "vs < bs + st" and "bs + (n - 1) * st < ve"
  shows "covers found on_empty seen s (max vs bs) (min ve (bs + n * st)) s'"
  using assms
proof (induction n arbitrary: i b s bs vs)
  case (Suc n)
  have up: "[i..<i + Suc n] = i # [Suc i..<Suc i + n]" by (simp add: upt_conv_Cons del: upt_Suc)
  obtain s1 where s1: "body i b s = Ok s1" and rest: "pt_loop body step [Suc i..<Suc i + n] (canonical (b + step)) s1 = Ok s'"
    using Suc.prems(1) unfolding up by (auto simp: bind_res_Ok_iff)
  have fst: "covers found on_empty seen s (max vs bs) (min ve (bs + st)) s1"
    using Suc.prems(6) [of 0 b s s1] s1 Suc.prems(8) by auto
  show ?case
  proof (cases "n = 0")
    case True
    then have "s' = s1" using rest by simp
    then show ?thesis using fst True by simp
  next
    case False
    have nx: "unat (b + step) = bs + st"
    proof -
      have "st < Suc n * st" using False Suc.prems(5) by simp
      then have "unat b + unat step < 2 ^ 64" using Suc.prems(3,4) by linarith
      then show ?thesis using Suc.prems(4,8) by (simp add: unat_add_nowrap)
    qed
    have can: "canonical (b + step) = b + step"
      using Suc.prems(5,7,8) nx False by (intro Suc.prems(7)) auto
    have lt: "bs + st < ve" using Suc.prems(10) False Suc.prems(5)
      by (cases n) auto
    have snd: "covers found on_empty seen s1 (max (bs + st) (bs + st)) (min ve (bs + st + n * st)) s'"
    proof (rule Suc.IH [of "Suc i" "b + step" s1 "bs + st" "bs + st"])
        show "pt_loop body step [Suc i..<Suc i + n] (b + step) s1 = Ok s'" using rest can by simp
        show "0 < n" using False by simp
        show "unat (b + step) + n * st \<le> 2 ^ 64" using Suc.prems(3,8) nx by simp
        show "covers found on_empty seen s (max (bs + st) (unat b)) (min ve (unat b + st)) s'"
          if "k < n" "unat b = bs + st + k * st" "body (Suc i + k) b s = Ok s'" for k b s s'
        proof -
          have "max vs (unat b) = max (bs + st) (unat b)" using that(2) Suc.prems(9) by simp
          then show ?thesis using Suc.prems(6) [of "Suc k" b s s'] that by simp
        qed
        show "canonical x = x" if "unat x < unat (b + step) + n * st" "unat (b + step) < unat x" for x
          using that nx Suc.prems(8) by (intro Suc.prems(7)) auto
        show "bs + st + (n - 1) * st < ve" using Suc.prems(10) False by (cases n) auto
    qed (use Suc.prems nx in auto)
    have "min ve (bs + st) = max (bs + st) (bs + st)" using lt by simp
    then have "covers found on_empty seen s (max vs bs) (min ve (bs + st + n * st)) s'"
      using covers_append fst snd by metis
    moreover have "bs + st + n * st = bs + Suc n * st" by simp
    ultimately show ?thesis by metis
  qed
qed simp

subsection \<open>Index arithmetic\<close>

lemma pt_index_shift_div: "pt_index_shift a sh = unat a div 2 ^ sh mod 512"
proof -
  have "(push_bit 9 1 - 1 :: u64) = mask 9" by (simp add: mask_eq_exp_minus_1 push_bit_eq_mult)
  then have "pt_index_shift a sh = unat (take_bit 9 (drop_bit sh a))"
    by (simp only: pt_index_shift_def take_bit_eq_mask)
  also have "\<dots> = unat a div 2 ^ sh mod 2 ^ 9"
    by (simp only: unsigned_take_bit_eq unat_drop_bit_word take_bit_eq_mod [where 'a = nat])
  finally show ?thesis by simp
qed

lemma pt_index_div: "pt_index a level = unat a div 2 ^ (12 + level * 9) mod 512"
  by (simp only: pt_index_def pt_index_shift_div)

lemma bit_canonical: "bit (canonical a) n \<longleftrightarrow> n < 64 \<and> (if n < 48 then bit a n else bit a 47)"
  by (auto simp: canonical_def bit_signed_drop_bit_iff bit_push_bit_iff)

lemma high_bits_zero: "unat w < 2 ^ k \<Longrightarrow> k \<le> n \<Longrightarrow> \<not> bit w n" for w :: "'a::len word"
proof
  assume w: "unat w < 2 ^ k" "k \<le> n" "bit w n"
  have "take_bit k (unat w) = unat w" using w(1) by (simp only: take_bit_nat_eq_self_iff)
  moreover have "bit (unat w) n" using w(3) by (simp add: bit_unsigned_iff bit_imp_le_length)
  ultimately have "bit (take_bit k (unat w)) n" by simp
  then show False using w(2) by (simp add: bit_take_bit_iff)
qed

text \<open>A canonical address is in the lower or in the upper half of the address space.\<close>

definition canon :: "nat \<Rightarrow> bool" where
  "canon x \<longleftrightarrow> x < 2 ^ 47 \<or> 2 ^ 64 - 2 ^ 47 \<le> x"

lemma canonical_id: "canon (unat a) \<Longrightarrow> canonical a = a"
proof -
  assume c: "canon (unat a)"
  have same: "bit a n = bit a 47" if "47 \<le> n" "n < 64" for n
  proof (cases "unat a < 2 ^ 47")
    case True
    then show ?thesis using high_bits_zero [OF True] that by blast
  next
    case False
    then have ge: "2 ^ 64 - 2 ^ 47 \<le> unat a" using c by (simp add: canon_def)
    have "NOT a = - 1 - a" by (simp add: not_eq_complement)
    moreover have "unat (- 1 :: u64) = 2 ^ 64 - 1" by (simp add: unsigned_minus_1_eq_mask mask_eq_exp_minus_1)
    ultimately have "unat (NOT a) = 2 ^ 64 - 1 - unat a" using unat_sub_nowrap [of a "- 1"] by simp
    then have "unat (NOT a) < 2 ^ 47" using ge unat_lt_pow [of a] by simp
    then have "\<not> bit (NOT a) n" "\<not> bit (NOT a) 47" using high_bits_zero that by blast+
    then show ?thesis using that by (simp add: bit_not_iff)
  qed
  show ?thesis
  proof (rule bit_eqI)
    fix n
    show "bit (canonical a) n \<longleftrightarrow> bit a n"
      using same [of n] bit_imp_le_length [of a n] by (auto simp: bit_canonical)
  qed
qed

lemma canonical_low_bits:
  assumes "unat x mod 2 ^ 48 = unat y mod 2 ^ 48"
  shows "canonical x = canonical y"
proof -
  have "take_bit 48 x = take_bit 48 y"
    using assms by (simp only: word_eq_unat unsigned_take_bit_eq take_bit_eq_mod [where 'a = nat])
  then have "bit x n = bit y n" if "n < 48" for n using that by (metis bit_take_bit_iff)
  then show ?thesis by (intro bit_eqI) (auto simp: bit_canonical)
qed

lemma div_block: "0 < st \<Longrightarrow> x div st * st \<le> x \<and> x < x div st * st + st" for x st :: nat
  using div_mult_mod_eq [of x st] mod_less_divisor [of st x] by linarith

text \<open>The table at level \<open>level\<close> is walked from the entry containing \<open>lo\<close> to the entry
  containing \<open>hi - 1\<close>.\<close>

lemma table_tiles:
  fixes level :: nat
  defines "st \<equiv> (2::nat) ^ (12 + level * 9)"
  assumes run: "pt_loop body (push_bit (12 + level * 9) 1) [lo div st mod 512..<Suc ((hi - 1) div st mod 512)] b s = Ok s'"
    and level: "level \<le> 3" and lh: "lo < hi" "hi \<le> ve" "vs \<le> lo"
    and same: "lo div (512 * st) = (hi - 1) div (512 * st)"
    and b: "unat b = lo div st * st"
    and half: "hi \<le> 2 ^ 47 \<or> 2 ^ 64 - 2 ^ 47 \<le> lo" and top: "hi \<le> 2 ^ 64"
    and body: "\<And>i b s s'. st dvd unat b \<Longrightarrow> vs < unat b + st \<Longrightarrow> unat b < ve \<Longrightarrow> unat b + st \<le> 2 ^ 64 \<Longrightarrow>
        unat b + st \<le> 2 ^ 47 \<or> 2 ^ 64 - 2 ^ 47 \<le> unat b \<Longrightarrow> body i b s = Ok s' \<Longrightarrow>
        i = unat b div st mod 512 \<Longrightarrow> lo div st * st \<le> unat b \<Longrightarrow> unat b < hi \<Longrightarrow>
        covers found on_empty seen s (max vs (unat b)) (min ve (unat b + st)) s'"
  shows "covers found on_empty seen s (max vs (lo div st * st)) (min ve ((hi - 1) div st * st + st)) s'"
proof -
  let ?x = "lo div st" and ?y = "(hi - 1) div st"
  let ?n = "?y - ?x + 1"
  have st: "0 < st" by (simp add: st_def)
  have xy: "?x \<le> ?y" using lh(1) by (intro div_le_mono) simp
  have "?x div 512 = ?y div 512" using same by (simp add: div_mult2_eq mult.commute [of 512])
  then have idx: "?y mod 512 = ?x mod 512 + (?y - ?x)"
    using div_mult_mod_eq [of ?x 512] div_mult_mod_eq [of ?y 512] xy by linarith
  have list: "[?x mod 512..<Suc (?y mod 512)] = [?x mod 512..<?x mod 512 + ?n]" using idx by simp
  obtain d where d: "?y = ?x + d" using xy le_Suc_ex by blast
  have nst: "?x * st + ?n * st = ?y * st + st" and n1: "?x * st + (?n - 1) * st = ?y * st"
    unfolding d by (simp_all add: distrib_right)
  have exp: "12 + level * 9 \<le> 39" using level by simp
  have d47: "st dvd 2 ^ 47" "st dvd 2 ^ 64" "st dvd 2 ^ 64 - 2 ^ 47"
    unfolding st_def using exp by (intro le_imp_power_dvd dvd_diff_nat; simp)+
  note yb = div_block [OF st, of "hi - 1"] and xb = div_block [OF st, of lo]
  have le_mult: "?y * st + st \<le> m" if "st dvd m" "hi \<le> m" for m
  proof -
    have "?y * st < m" using yb that(2) lh(1) by linarith
    then show ?thesis using dvd_less_step [of st "?y * st" m] that(1) by simp
  qed
  have end64: "?y * st + st \<le> 2 ^ 64" by (rule le_mult [OF d47(2) top])
  have half': "?y * st + st \<le> 2 ^ 47 \<or> 2 ^ 64 - 2 ^ 47 \<le> ?x * st"
    using half
  proof
    assume "hi \<le> 2 ^ 47" then show ?thesis using le_mult [OF d47(1)] by blast
  next
    assume "2 ^ 64 - 2 ^ 47 \<le> lo"
    then have "(2 ^ 64 - 2 ^ 47) div st * st \<le> ?x * st" by (intro mult_le_mono1 div_le_mono)
    then show ?thesis using d47(3) by (metis dvd_div_mult_self)
  qed
  have "covers found on_empty seen s (max vs (?x * st)) (min ve (?x * st + ?n * st)) s'"
  proof (rule pt_loop_tiles [OF run [unfolded list]])
    show "unat b + ?n * st \<le> 2 ^ 64" using b nst end64 by linarith
    show "unat (push_bit (12 + level * 9) 1 :: u64) = st"
      using exp by (simp add: push_bit_eq_mult unat_pow2 st_def)
    show "0 < st" by (fact st)
    show "covers found on_empty seen s (max vs (unat b')) (min ve (unat b' + st)) s'"
      if k: "k < ?n" and b': "unat b' = ?x * st + k * st" and r: "body (?x mod 512 + k) b' s = Ok s'" for k b' s s'
    proof (rule body [OF _ _ _ _ _ r])
      show "st dvd unat b'" unfolding b' by simp
      show "vs < unat b' + st" unfolding b' using lh(3) xb by linarith
      have kn: "k * st \<le> (?n - 1) * st" using k by (intro mult_le_mono1) simp
      then have up: "unat b' \<le> ?y * st" unfolding b' using n1 by linarith
      then show "unat b' < ve" using yb lh by linarith
      show "unat b' + st \<le> 2 ^ 64" using up end64 by linarith
      show "unat b' + st \<le> 2 ^ 47 \<or> 2 ^ 64 - 2 ^ 47 \<le> unat b'"
        using half' up b' by linarith
      have "unat b' = (?x + k) * st" unfolding b' by (simp add: distrib_right)
      moreover have "?x mod 512 + k < 512" using k idx mod_less_divisor [of 512 ?y] by linarith
      then have "(?x + k) mod 512 = ?x mod 512 + k" by (metis mod_add_left_eq mod_less)
      ultimately show "?x mod 512 + k = unat b' div st mod 512" using st by simp
      show "?x * st \<le> unat b'" unfolding b' by simp
      show "unat b' < hi" using up yb lh(1) by linarith
    qed
    show "canonical x = x" if "unat x < unat b + ?n * st" "unat b < unat x" for x
    proof (rule canonical_id)
      show "canon (unat x)" using that half' b nst unfolding canon_def by linarith
    qed
    show "vs < ?x * st + st" using lh(3) xb by linarith
    show "?x * st + (?n - 1) * st < ve" using n1 yb lh by linarith
  qed (use b in auto)
  then show ?thesis unfolding nst .
qed

lemma start_round:
  fixes st :: nat
  assumes "0 < st" and "vs \<le> lo" and "lo = vs \<or> st dvd lo"
  shows "max vs (lo div st * st) = lo"
  using assms div_block [OF assms(1), of lo] by (auto simp: dvd_div_mult_self)

lemma end_round:
  fixes st :: nat
  assumes "0 < st" and "0 < hi" and "hi \<le> ve" and "hi = ve \<or> st dvd hi"
  shows "min ve ((hi - 1) div st * st + st) = hi"
proof -
  note b = div_block [OF assms(1), of "hi - 1"]
  have "(hi - 1) div st * st < hi" using b assms(2) by linarith
  then have "(hi - 1) div st * st + st \<le> hi" if "st dvd hi"
    using that by (intro dvd_less_step) auto
  then show ?thesis using b assms(2-4) by linarith
qed

definition never_false :: "'s empty_fn \<Rightarrow> bool" where
  "never_false on_empty \<longleftrightarrow> (\<forall>entry s s1. on_empty entry s \<noteq> Ok (False, s1))"

lemma fills:
  assumes "never_false on_empty" and "ensure_present on_empty entry s = Ok x"
  shows "\<exists>s1. x = (True, s1) \<and> ensure_present on_empty entry s = Ok (True, s1)"
  using assms by (cases s; cases x; cases "fst x") (auto simp: ensure_present_def never_false_def split: if_splits)

lemma unat_of_nat_mod: "unat (of_nat (x mod 512) :: u64) = x mod 512"
proof -
  have "x mod 512 < 2 ^ 64" by (rule less_trans [of _ 512]) simp_all
  then show ?thesis by (subst unat_of_nat) simp
qed

lemma index_sum: "l = q * 512 + i \<Longrightarrow> b = 512 * st * q \<Longrightarrow> l * st = b + i * st" for l q i b st :: nat
  by (simp add: algebra_simps)

lemma unat_times_minus_1:
  fixes w :: u64
  assumes "unat w = st" and "0 < 512 * st" and "512 * st < 2 ^ 64"
  shows "unat (w * 512 - 1) = 512 * st - 1"
proof -
  have "unat (w * 512) = 512 * st" using assms by (simp add: unat_word_ariths)
  moreover from this assms(2) have "1 \<le> w * 512" by (simp add: word_le_nat_alt)
  ultimately show ?thesis by (simp add: unat_sub_nowrap)
qed

text \<open>The body of the loop over a table, given the statement for the entries' level.\<close>

lemma slot_leads:
  fixes level :: nat
  assumes "leads seen (Suc level) a entry" and "(entry, raw) \<in> seen" and "i = unat b div 2 ^ (12 + level * 9) mod 512"
    and "2 ^ (12 + level * 9) dvd unat b" and "unat b \<le> unat a" and "unat a < unat b + 2 ^ (12 + level * 9)"
  shows "leads seen level a (Entry (pte_addr raw False + 8 * of_nat i))"
proof -
  obtain q where q: "unat b = 2 ^ (12 + level * 9) * q" using assms(4) by blast
  then have "unat a div 2 ^ (12 + level * 9) = q" using assms(5,6) by (intro div_nat_eqI) (simp_all add: mult.commute)
  then have "pt_index a level = i" using q by (simp add: assms(3) pt_index_div)
  then show ?thesis using leads_down [OF assms(1,2)] by simp
qed

lemma body_tiles:
  fixes level :: nat
  defines "st \<equiv> (2::nat) ^ (12 + level * 9)"
  assumes run: "(if level < num_page_sizes \<and> vs \<le> b \<and> ve \<ge> b + push_bit (12 + level * 9) 1
      then found slot b level else traverse_page_table level found on_empty vs ve slot b) s = Ok s'"
    and ve: "unat ve \<le> 2 ^ 64 - 2 ^ 21" and level: "level \<le> 3"
    and b: "st dvd unat b" "unat vs < unat b + st" "unat b < unat ve" "unat b + st \<le> 2 ^ 64"
    and sub: "traverse_page_table level found on_empty vs ve slot b s = Ok s' \<Longrightarrow>
      \<not> (level < num_page_sizes \<and> unat vs \<le> unat b \<and> unat b + st \<le> unat ve) \<Longrightarrow>
      covers found on_empty seen s (max (unat vs) (unat b)) (min (unat ve) (unat b + st)) s'"
    and lead: "leads seen level b slot"
  shows "covers found on_empty seen s (max (unat vs) (unat b)) (min (unat ve) (unat b + st)) s'"
proof -
  have step: "unat (push_bit (12 + level * 9) 1 :: u64) = st"
    using level by (simp add: push_bit_eq_mult unat_pow2 st_def)
  have cond: "level < num_page_sizes \<Longrightarrow> unat (b + push_bit (12 + level * 9) 1) = unat b + st"
  proof -
    assume "level < num_page_sizes"
    then have "level * 9 \<le> 9" by (simp add: num_page_sizes_def)
    then have "st dvd 2 ^ 64 - 2 ^ 21" unfolding st_def by (intro dvd_diff_nat le_imp_power_dvd) auto
    then have "unat b + st \<le> 2 ^ 64 - 2 ^ 21"
      using dvd_less_step [OF b(1), of "2 ^ 64 - 2 ^ 21"] b(3) ve by linarith
    then show ?thesis using step by (simp add: unat_add_nowrap)
  qed
  show ?thesis
  proof (cases "level < num_page_sizes \<and> unat vs \<le> unat b \<and> unat b + st \<le> unat ve")
    case True
    then have "found slot b level s = Ok s'" using run cond by (simp add: word_le_nat_alt)
    then have "covers found on_empty seen s (unat b) (unat b + st) s'"
      unfolding st_def using True b(1) lead by (intro covers_found) (simp_all add: st_def)
    then show ?thesis using True by simp
  next
    case False
    then have "traverse_page_table level found on_empty vs ve slot b s = Ok s'"
      using run cond by (auto simp: word_le_nat_alt split: if_splits)
    then show ?thesis by (rule sub) (fact False)
  qed
qed

text \<open>A table below the top level, reached through the entry for \<open>[bv, bv + size)\<close>.\<close>

lemma traverse_tiles_below:
  fixes level :: nat
  assumes "traverse_page_table level found on_empty vs ve entry bv s = Ok s'"
    and "never_false on_empty" and "level \<le> 3"
    and "4096 dvd unat vs" and "4096 dvd unat ve" and "unat ve \<le> 2 ^ 64 - 2 ^ 21"
    and "2 ^ (12 + level * 9) dvd unat bv" and "unat bv + 2 ^ (12 + level * 9) \<le> 2 ^ 64"
    and "unat bv + 2 ^ (12 + level * 9) \<le> 2 ^ 47 \<or> 2 ^ 64 - 2 ^ 47 \<le> unat bv"
    and "unat vs < unat bv + 2 ^ (12 + level * 9)" and "unat bv < unat ve" and "unat vs < unat ve"
    and "\<not> (level < num_page_sizes \<and> unat vs \<le> unat bv \<and> unat bv + 2 ^ (12 + level * 9) \<le> unat ve)"
    and "\<And>a. unat bv \<le> unat a \<Longrightarrow> unat a < unat bv + 2 ^ (12 + level * 9) \<Longrightarrow> leads seen level a entry"
  shows "covers found on_empty seen s (max (unat vs) (unat bv)) (min (unat ve) (unat bv + 2 ^ (12 + level * 9))) s'"
  using assms(1,3,7-11,13,14)
proof (induction level arbitrary: seen entry bv s s')
  case 0
  obtain k where k: "unat bv = 4096 * k" using 0(3) by auto
  obtain v where v: "unat vs = 4096 * v" using assms(4) by auto
  obtain w where w: "unat ve = 4096 * w" using assms(5) by auto
  have "v \<le> k" "k + 1 \<le> w" using 0(6,7) unfolding k v w by simp_all
  then have False using 0(8) unfolding k v w num_page_sizes_def by simp
  then show ?case ..
next
  case (Suc level)
  let ?st = "(2::nat) ^ (12 + level * 9)" and ?size = "(2::nat) ^ (12 + Suc level * 9)"
  have size: "?size = 512 * ?st" by (simp add: power_add)
  have st: "0 < ?st" by simp
  have lv: "level \<le> 3" using Suc.prems(2) by simp
  have small: "?size \<le> 2 ^ 39" using Suc.prems(2) by (intro power_increasing) auto
  obtain s1 where e: "ensure_present on_empty entry s = Ok (True, s1)"
    using Suc.prems(1) fills [OF assms(2)] unfolding traverse_page_table.simps bind_res_Ok_iff by blast
  let ?step = "push_bit (12 + level * 9) 1 :: u64"
  let ?lo = "max (unat vs) (unat bv)" and ?hi = "min (unat ve) (unat bv + ?size)"
  have lo: "unat (max vs bv) = ?lo" by (simp add: max_def word_le_nat_alt)
  have step: "unat ?step = ?st" using lv by (simp add: push_bit_eq_mult unat_pow2)
  \<comment> \<open>the last address of the table\<close>
  have end1: "unat (bv + ?step * 512 - 1) = unat bv + ?size - 1"
  proof -
    have "512 * ?st < 2 ^ 64" by (rule le_less_trans [OF small [unfolded size]]) simp
    then have "unat (?step * 512 - 1) = ?size - 1"
      using unat_times_minus_1 [OF step] st unfolding size by simp
    moreover have "unat bv + (?size - 1) < 2 ^ 64" using Suc.prems(4) st size by linarith
    ultimately have "unat (bv + (?step * 512 - 1)) = unat bv + (?size - 1)"
      by (simp add: unat_add_nowrap)
    then show ?thesis using st size by (simp add: add_diff_eq)
  qed
  have canon: "canon (unat bv + ?size - 1)"
    using Suc.prems(5) st size unfolding canon_def by linarith
  have "canonical (bv + ?step * 512 - 1) = bv + ?step * 512 - 1"
    by (rule canonical_id) (simp only: end1 canon)
  moreover have "unat (ve - 1) = unat ve - 1"
    using unat_sub_nowrap [of 1 ve] assms(12) by (simp add: word_le_nat_alt)
  ultimately have hi: "unat (min (ve - 1) (canonical (bv + ?step * 512 - 1))) = ?hi - 1"
    using end1 by (auto simp: min_def word_le_nat_alt)
  have lohi: "?lo < ?hi" using Suc.prems(6,7) assms(12) st size by auto
  \<comment> \<open>the first entry\<close>
  let ?i = "?lo div ?st mod 512"
  have dv: "512 * ?st dvd unat bv" using Suc.prems(3) size by simp
  then obtain q where q: "unat bv = 512 * ?st * q" by blast
  have blk: "x div (512 * ?st) = q" if "unat bv \<le> x" "x < unat bv + ?size" for x
    by (rule div_nat_eqI) (use that q size in \<open>simp_all add: mult.commute\<close>)
  have same: "?lo div (512 * ?st) = (?hi - 1) div (512 * ?st)"
  proof -
    have "unat bv \<le> ?hi - 1" "?hi - 1 < unat bv + ?size" "unat bv \<le> ?lo" "?lo < unat bv + ?size"
      using lohi by linarith+
    then show ?thesis by (simp only: blk)
  qed
  have first: "unat bv + ?i * ?st = ?lo div ?st * ?st"
  proof -
    have "?lo div ?st div 512 = q" using blk [of ?lo] lohi by (simp add: div_mult2_eq mult.commute [of 512])
    then have "?lo div ?st = q * 512 + ?i" using div_mult_mod_eq [of "?lo div ?st" 512] by simp
    then show ?thesis using q by (rule index_sum [symmetric])
  qed
  let ?x = "of_nat ?i * ?step"
  have lt: "?i * ?st < ?size" unfolding size using st by simp
  have "unat (of_nat ?i :: u64) = ?i" by (rule unat_of_nat_mod)
  moreover have "?i * ?st < 2 ^ 64" by (rule less_trans [OF lt le_less_trans [OF small]]) simp
  ultimately have x: "unat ?x = ?i * ?st" using step by (simp add: unat_word_ariths)
  have "canonical ?x = ?x"
    by (rule canonical_id) (use x lt small in \<open>simp add: canon_def\<close>)
  moreover have "unat (bv + ?x) = unat bv + ?i * ?st"
    using x lt Suc.prems(4) by (intro trans [OF unat_add_nowrap]) auto
  ultimately have b0: "unat (bv + canonical ?x) = ?lo div ?st * ?st" using first by simp
  have idx: "pt_index (max vs bv) level = ?i"
    "pt_index (min (ve - 1) (canonical (bv + ?step * 512 - 1))) level = (?hi - 1) div ?st mod 512"
    by (simp_all only: pt_index_div lo hi)
  let ?seen = "insert (entry, pte_at (snd s1) entry) seen"
  have ex: "covers found on_empty ?seen s1 (max (unat vs) (?lo div ?st * ?st)) (min (unat ve) ((?hi - 1) div ?st * ?st + ?st)) s'"
  proof (rule table_tiles [OF _ lv lohi _ _ same b0])
    show "pt_loop (\<lambda>i b. if level < num_page_sizes \<and> vs \<le> b \<and> ve \<ge> b + ?step
        then found (Entry (pte_addr (pte_at (snd s1) entry) False + 8 * of_nat i)) b level
        else traverse_page_table level found on_empty vs ve (Entry (pte_addr (pte_at (snd s1) entry) False + 8 * of_nat i)) b)
        ?step [?i..<Suc ((?hi - 1) div ?st mod 512)] (bv + canonical ?x) s1 = Ok s'"
      using Suc.prems(1)
      by (simp only: traverse_page_table.simps e bind_res.simps prod.case not_True_eq_False if_False Let_def walk_table_def
          pt_index_def [symmetric] idx)
    show "?hi \<le> unat ve" "unat vs \<le> ?lo" by simp_all
    show "?hi \<le> 2 ^ 47 \<or> 2 ^ 64 - 2 ^ 47 \<le> ?lo" using Suc.prems(5) by auto
    show "?hi \<le> 2 ^ 64" using Suc.prems(4) by simp
    fix i b s s'
    assume b: "?st dvd unat b" "unat vs < unat b + ?st" "unat b < unat ve" "unat b + ?st \<le> 2 ^ 64"
        "unat b + ?st \<le> 2 ^ 47 \<or> 2 ^ 64 - 2 ^ 47 \<le> unat b"
      and r: "(if level < num_page_sizes \<and> vs \<le> b \<and> ve \<ge> b + ?step
        then found (Entry (pte_addr (pte_at (snd s1) entry) False + 8 * of_nat i)) b level
        else traverse_page_table level found on_empty vs ve (Entry (pte_addr (pte_at (snd s1) entry) False + 8 * of_nat i)) b) s = Ok s'"
      and ib: "i = unat b div ?st mod 512" and bl: "?lo div ?st * ?st \<le> unat b" and bh: "unat b < ?hi"
    have "unat bv div ?st * ?st \<le> ?lo div ?st * ?st" by (intro mult_le_mono1 div_le_mono) simp
    moreover have sd: "?st dvd unat bv" using dv by (rule dvd_mult_right)
    ultimately have b1: "unat bv \<le> unat b" using bl by (simp add: dvd_div_mult_self)
    have "?st dvd unat bv + ?size" unfolding size using sd by (intro dvd_add dvd_triv_right)
    then have b2: "unat b + ?st \<le> unat bv + ?size" using bh by (intro dvd_less_step [OF b(1)]) auto
    have lead: "leads ?seen level a (Entry (pte_addr (pte_at (snd s1) entry) False + 8 * of_nat i))"
      if "unat b \<le> unat a" "unat a < unat b + ?st" for a
      by (rule slot_leads [OF leads_mono [OF Suc.prems(9)] _ ib b(1) that]) (use that b1 b2 in auto)
    show "covers found on_empty ?seen s (max (unat vs) (unat b)) (min (unat ve) (unat b + ?st)) s'"
    proof (rule body_tiles [OF _ assms(6) lv b(1-4)])
      show "(if level < num_page_sizes \<and> vs \<le> b \<and> ve \<ge> b + ?step
        then found (Entry (pte_addr (pte_at (snd s1) entry) False + 8 * of_nat i)) b level
        else traverse_page_table level found on_empty vs ve (Entry (pte_addr (pte_at (snd s1) entry) False + 8 * of_nat i)) b) s = Ok s'"
        using r by (auto split: if_splits)
    qed (rule Suc.IH [OF _ lv b(1,4,5,2,3)], (assumption | rule lead | simp)+)
  qed
  moreover have "max (unat vs) (?lo div ?st * ?st) = ?lo"
    using dv by (intro start_round [OF st]) (auto simp: max_def elim: dvd_mult_right)
  moreover have "min (unat ve) ((?hi - 1) div ?st * ?st + ?st) = ?hi"
    using dv lohi unfolding size by (intro end_round [OF st]) (auto simp: min_def elim: dvd_mult_right)
  ultimately have "covers found on_empty ?seen s1 ?lo ?hi s'" by metis
  then show ?case by (rule covers_table [OF e])
qed

text \<open>The whole traversal, from the top-level table.\<close>

lemma top_end: "canonical (0 + push_bit (12 + 3 * 9) 1 * 512 - 1) = - 1"
proof -
  have "unat (push_bit (12 + 3 * 9) 1 * 512 - 1 :: u64) mod 2 ^ 48 = unat (- 1 :: u64) mod 2 ^ 48"
    by (simp add: unsigned_minus_1_eq_mask mask_eq_exp_minus_1)
  from canonical_low_bits [OF this] show ?thesis
    using canonical_id [of "- 1"] by (simp add: canon_def unsigned_minus_1_eq_mask mask_eq_exp_minus_1)
qed

lemma top_begin:
  assumes "canon x" and "x < 2 ^ 64"
  shows "unat (0 + canonical (of_nat (x div 2 ^ 39 mod 512) * push_bit (12 + 3 * 9) 1)) = x div 2 ^ 39 * 2 ^ 39"
proof -
  let ?y = "of_nat (x div 2 ^ 39 * 2 ^ 39) :: u64" and ?i = "x div 2 ^ 39 mod 512"
  have le: "x div 2 ^ 39 * 2 ^ 39 \<le> x" by simp
  then have y: "unat ?y = x div 2 ^ 39 * 2 ^ 39"
    using assms(2) by (intro trans [OF unat_of_nat mod_less]) simp
  have i: "unat (of_nat ?i :: u64) = ?i" by (rule unat_of_nat_mod)
  have "?i < 512" by simp
  then have "?i * 2 ^ 39 < 2 ^ 48" by simp
  then have "unat (of_nat ?i * push_bit (12 + 3 * 9) 1 :: u64) = ?i * 2 ^ 39"
    using i by (simp add: unat_word_ariths)
  moreover have "?i * 2 ^ 39 = (x div 2 ^ 39 * 2 ^ 39) mod (512 * 2 ^ 39)"
    by (simp only: mod_mult_mult2)
  ultimately have "unat (of_nat ?i * push_bit (12 + 3 * 9) 1 :: u64) mod 2 ^ 48 = unat ?y mod 2 ^ 48"
    unfolding y by simp
  then have "canonical (of_nat ?i * push_bit (12 + 3 * 9) 1) = canonical ?y" by (rule canonical_low_bits)
  moreover have "canonical ?y = ?y"
  proof (rule canonical_id, unfold y canon_def)
    show "x div 2 ^ 39 * 2 ^ 39 < 2 ^ 47 \<or> 2 ^ 64 - 2 ^ 47 \<le> x div 2 ^ 39 * 2 ^ 39"
      using assms(1) unfolding canon_def
    proof
      assume "2 ^ 64 - 2 ^ 47 \<le> x"
      then have "(2 ^ 64 - 2 ^ 47) div 2 ^ 39 * 2 ^ 39 \<le> x div 2 ^ 39 * 2 ^ 39"
        by (intro mult_le_mono1 div_le_mono)
      then show ?thesis by simp
    qed (use le in linarith)
  qed
  ultimately show ?thesis using y by simp
qed

lemma traverse_tiles:
  assumes "traverse_page_table 4 found on_empty vs ve Root 0 s = Ok s'" and "never_false on_empty"
    and "4096 dvd unat vs" and "4096 dvd unat ve" and "unat vs < unat ve"
    and "unat ve \<le> 2 ^ 47 \<or> 2 ^ 64 - 2 ^ 47 \<le> unat vs" and "unat ve \<le> 2 ^ 64 - 2 ^ 21"
  shows "covers found on_empty {} s (unat vs) (unat ve) s'"
proof -
  have four: "(4::nat) = Suc 3" by simp
  have st39: "(2::nat) ^ 39 = 2 ^ (12 + 3 * 9)" by simp
  obtain s1 where e: "ensure_present on_empty Root s = Ok (True, s1)"
    using assms(1) fills [OF assms(2)] unfolding four traverse_page_table.simps bind_res_Ok_iff by blast
  have canon: "canon (unat vs)" using assms(5,6) by (auto simp: canon_def)
  have mx: "max vs 0 = vs" by (simp add: max_def)
  have mn: "min (ve - 1) (- 1) = ve - 1" by (simp add: min_def)
  have ve1: "unat (ve - 1) = unat ve - 1"
    using unat_sub_nowrap [of 1 ve] assms(5) by (simp add: word_le_nat_alt)
  have same: "unat vs div (512 * 2 ^ (12 + 3 * 9)) = (unat ve - 1) div (512 * 2 ^ (12 + 3 * 9))"
    using assms(6)
  proof
    assume "unat ve \<le> 2 ^ 47"
    then show ?thesis using assms(5) by (intro trans [OF div_less div_less [symmetric]]) auto
  next
    assume "2 ^ 64 - 2 ^ 47 \<le> unat vs"
    then show ?thesis using assms(5) unat_lt_pow [of ve]
      by (intro trans [OF div_nat_eqI div_nat_eqI [of _ "2 ^ 16 - 1", symmetric]]) auto
  qed
  have b0: "unat (0 + canonical (of_nat (pt_index vs 3) * push_bit (12 + 3 * 9) 1)) = unat vs div 2 ^ (12 + 3 * 9) * 2 ^ (12 + 3 * 9)"
    using top_begin [OF canon] unat_lt_pow [of vs] by (simp add: pt_index_div)
  let ?seen = "{(Root, pte_at (snd s1) Root)}"
  have "covers found on_empty ?seen s1 (max (unat vs) (unat vs div 2 ^ (12 + 3 * 9) * 2 ^ (12 + 3 * 9)))
        (min (unat ve) ((unat ve - 1) div 2 ^ (12 + 3 * 9) * 2 ^ (12 + 3 * 9) + 2 ^ (12 + 3 * 9))) s'"
  proof (rule table_tiles [OF _ _ assms(5) _ _ same b0 assms(6)])
    let ?slot = "\<lambda>i. Entry (pte_addr (pte_at (snd s1) Root) False + 8 * of_nat i)"
    show "pt_loop (\<lambda>i b. if 3 < num_page_sizes \<and> vs \<le> b \<and> ve \<ge> b + push_bit (12 + 3 * 9) 1
        then found (?slot i) b 3 else traverse_page_table 3 found on_empty vs ve (?slot i) b)
        (push_bit (12 + 3 * 9) 1) [unat vs div 2 ^ (12 + 3 * 9) mod 512..<Suc ((unat ve - 1) div 2 ^ (12 + 3 * 9) mod 512)]
        (0 + canonical (of_nat (pt_index vs 3) * push_bit (12 + 3 * 9) 1)) s1 = Ok s'"
      using assms(1) unfolding four
      by (simp only: traverse_page_table.simps e bind_res.simps prod.case not_True_eq_False if_False Let_def walk_table_def
          pt_index_def [symmetric] top_end mx mn pt_index_div ve1)
    show "unat ve \<le> unat ve" "unat vs \<le> unat vs" "(3::nat) \<le> 3" by simp_all
    show "unat ve \<le> 2 ^ 64" using unat_lt_pow [of ve] by simp
    fix i b s s'
    assume b: "2 ^ (12 + 3 * 9) dvd unat b" "unat vs < unat b + 2 ^ (12 + 3 * 9)" "unat b < unat ve"
        "unat b + 2 ^ (12 + 3 * 9) \<le> 2 ^ 64"
        "unat b + 2 ^ (12 + 3 * 9) \<le> 2 ^ 47 \<or> 2 ^ 64 - 2 ^ 47 \<le> unat b"
      and r: "(if 3 < num_page_sizes \<and> vs \<le> b \<and> ve \<ge> b + push_bit (12 + 3 * 9) 1
        then found (?slot i) b 3 else traverse_page_table 3 found on_empty vs ve (?slot i) b) s = Ok s'"
      and ib: "i = unat b div 2 ^ (12 + 3 * 9) mod 512"
    have lead: "leads ?seen 3 a (?slot i)" if "unat b \<le> unat a" "unat a < unat b + 2 ^ (12 + 3 * 9)" for a
      by (rule slot_leads [OF _ _ ib b(1) that, of _ Root]) (simp_all only: four [symmetric] leads_root insertI1)
    show "covers found on_empty ?seen s (max (unat vs) (unat b)) (min (unat ve) (unat b + 2 ^ (12 + 3 * 9))) s'"
    proof (rule body_tiles [OF _ assms(7) _ b(1-4)])
      show "(if 3 < num_page_sizes \<and> vs \<le> b \<and> ve \<ge> b + push_bit (12 + 3 * 9) 1
        then found (?slot i) b 3 else traverse_page_table 3 found on_empty vs ve (?slot i) b) s = Ok s'"
        using r by (simp only: if_distribR)
      show "(3::nat) \<le> 3" by simp
    qed (rule traverse_tiles_below [OF _ assms(2) _ assms(3,4,7) b(1,4,5,2,3) assms(5)], (assumption | rule lead | simp)+)
  qed
  moreover have "max (unat vs) (unat vs div 2 ^ (12 + 3 * 9) * 2 ^ (12 + 3 * 9)) = unat vs"
    by (rule start_round) auto
  moreover have "min (unat ve) ((unat ve - 1) div 2 ^ (12 + 3 * 9) * 2 ^ (12 + 3 * 9) + 2 ^ (12 + 3 * 9)) = unat ve"
    using assms(5) by (intro end_round) auto
  ultimately have "covers found on_empty ?seen s1 (unat vs) (unat ve) s'" by metis
  then show ?thesis by (rule covers_table [OF e])
qed

subsection \<open>Properties\<close>

lemma pt_loop_visits:
  assumes "pt_loop body step is b s = Ok s'"
    and "\<And>i b s s'. body i b s = Ok s' \<Longrightarrow> \<exists>log. visits found on_empty s log s'"
  shows "\<exists>log. visits found on_empty s log s'"
  using assms(1)
proof (induction "is" arbitrary: b s)
  case Nil
  then show ?case by (auto intro: visits_nil)
next
  case (Cons i "is")
  then obtain s1 where "body i b s = Ok s1" "pt_loop body step is (canonical (b + step)) s1 = Ok s'"
    by (auto simp: bind_res_Ok_iff)
  then show ?case using assms(2) Cons.IH visits_append by blast
qed

text \<open>Whatever the addresses, a successful traversal is a sequence of successful callbacks.\<close>

lemma traverse_visits:
  assumes "traverse_page_table level found on_empty vs ve entry b s = Ok s'" and "never_false on_empty"
  shows "\<exists>log. visits found on_empty s log s'"
  using assms(1)
proof (induction level arbitrary: entry b s s')
  case 0
  obtain s1 where e: "ensure_present on_empty entry s = Ok (True, s1)"
    using 0 fills [OF assms(2)] unfolding traverse_page_table.simps bind_res_Ok_iff by blast
  have "\<exists>log. visits found on_empty s1 log s'"
    using 0 unfolding traverse_page_table.simps e bind_res.simps prod.case Let_def walk_table_def
    by (simp only: not_True_eq_False if_False, elim pt_loop_visits)
      (use fills [OF assms(2)] in \<open>fastforce simp: bind_res_Ok_iff\<close>)
  then show ?case using e by (auto simp: ensure_present_def split: if_splits intro: visits_fill)
next
  case (Suc level)
  obtain s1 where e: "ensure_present on_empty entry s = Ok (True, s1)"
    using Suc.prems fills [OF assms(2)] unfolding traverse_page_table.simps bind_res_Ok_iff by blast
  have "\<exists>log. visits found on_empty s1 log s'"
    using Suc.prems unfolding traverse_page_table.simps e bind_res.simps prod.case Let_def walk_table_def
    by (simp only: not_True_eq_False if_False, elim pt_loop_visits)
      (auto split: if_splits intro: Suc.IH visits_found [OF _ visits_nil])
  then show ?case using e by (auto simp: ensure_present_def split: if_splits intro: visits_fill)
qed

lemma visits_preserve:
  assumes "visits found on_empty s log s'" and "\<And>s. R s s" and "\<And>a b c. R a b \<Longrightarrow> R b c \<Longrightarrow> R a c"
    and "\<And>entry s s1. on_empty entry s = Ok (True, s1) \<Longrightarrow> R s s1"
    and "\<And>entry b l s s1. found entry b l s = Ok s1 \<Longrightarrow> R s s1"
  shows "R s s'"
  using assms(1) by (induction rule: visits.induct) (use assms(2-) in blast)+

lemma never_false_new_table: "never_false (new_table get)"
  by (auto simp: never_false_def new_table_def res_Ok_iff Let_def)

text \<open>C14: A traversal of a page-aligned interval in one half of the canonical address space calls
  \<open>found\<close> from left to right on pages that cover exactly the interval, each once and each
  aligned to its size, 4 kB or 2 MB; and each call gets the entry of its page: the one that the
  processor's own walk for the page's address reaches at that level, from the root through the values
  the traversal read on its way down, with nine bits of the address as the index into each table.
  This holds whatever the callbacks do and whatever the tables hold.\<close>

theorem traverse_covers:
  assumes "traverse_page_table 4 found on_empty virt_start virt_end Root 0 s = Ok s'"
    and "never_false on_empty" and "4096 dvd unat virt_start" and "4096 dvd unat virt_end"
    and "unat virt_start < unat virt_end" and "unat virt_end \<le> 2 ^ 64 - 2 ^ 21"
    and "unat virt_end \<le> 2 ^ 47 \<or> 2 ^ 64 - 2 ^ 47 \<le> unat virt_start"
  shows "\<exists>log. visits found on_empty s log s' \<and> tiles (unat virt_start) log (unat virt_end) \<and> walked {} log"
  using traverse_tiles [OF assms(1-5,7,6)] unfolding covers_def .

text \<open>Evaluating traversals: one level at a time, without entering the loop body early.\<close>

lemma pt_loop_weak_cong:
  "step = step' \<Longrightarrow> is = is' \<Longrightarrow> b = b' \<Longrightarrow> s = s' \<Longrightarrow> pt_loop body step is b s = pt_loop body step' is' b' s'"
  by simp

lemma traverse_numeral:
  "traverse_page_table (numeral k) = traverse_page_table (Suc (pred_numeral k))"
  by (simp add: numeral_eq_Suc)

lemmas run_traverse = traverse_page_table.simps(2) [of "pred_numeral k" for k, folded traverse_numeral]
  traverse_page_table.simps(2) [of 0, simplified] Let_def pt_index_div top_end [simplified]
  walk_table_def pt_index_shift_div canonical_id canon_def max_def min_def num_page_sizes_def upt_conv_Cons

lemmas run_pte = ensure_present_def pte_present_def new_table_def pfn_to_addr_def PAGE_SHIFT_def
  pte_set_normal_def pte_set_def pte_set_bit_def pte_set_addr_def pte_addr_def perm_all_def
  perm_read_def perm_write_def perm_exec_def clear_page_def PAGE_SIZE_eq early_map_entry_def
  unmap_entry_def aligned_extent_def align_up_def align_down_def

definition skip_found :: "unit found_fn" where "skip_found entry b level s = Ok s"
definition skip_empty :: "unit empty_fn" where "skip_empty entry s = Ok (True, s)"

theorem traverse_covers_witness:
  "\<forall>s. \<exists>log. visits skip_found skip_empty s log s \<and> tiles 0x1ff000 log 0x401000 \<and> walked {} log"
proof (rule allI)
  fix s
  have e: "ensure_present skip_empty entry s = Ok (True, s)" for entry
    by (simp add: ensure_present_def skip_empty_def)
  have "traverse_page_table 4 skip_found skip_empty 0x1ff000 0x401000 Root 0 s = Ok s"
    by (simp add: run_traverse e skip_found_def cong: pt_loop_weak_cong)
  moreover have "never_false skip_empty" by (simp add: never_false_def skip_empty_def)
  ultimately show "\<exists>log. visits skip_found skip_empty s log s \<and> tiles 0x1ff000 log 0x401000 \<and> walked {} log"
    using traverse_covers [of skip_found skip_empty "0x1ff000" "0x401000" s s] by simp
qed

text \<open>Mapping memory at boot keeps the early allocator's ranges well formed and only takes pages
  out of them: the law \<open>kmain\<close> relies on.\<close>

theorem early_map_memory_takes:
  assumes "early_map_memory addr len (rs, t) = Ok (rs', t')" and "ranges_ok 0 rs"
  shows "ranges_ok 0 rs' \<and> pages_of rs' \<subseteq> pages_of rs"
proof -
  let ?get = "early_allocate_page 1 ANY_NID"
  let ?R = "\<lambda>s s' :: page_range list vm. ranges_ok 0 (fst s) \<longrightarrow> ranges_ok 0 (fst s') \<and> pages_of (fst s') \<subseteq> pages_of (fst s)"
  obtain vs ve where "traverse_page_table 4 early_map_entry (new_table ?get) vs ve Root 0 (rs, t) = Ok (rs', t')"
    using assms(1) by (auto simp: early_map_memory_def split: prod.splits)
  from traverse_visits [OF this never_false_new_table] obtain log
    where "visits early_map_entry (new_table ?get) (rs, t) log (rs', t')" by blast
  then have "?R (rs, t) (rs', t')"
  proof (rule visits_preserve)
    show "?R s s1" if "new_table ?get entry s = Ok (True, s1)" for entry s s1
      using that early.get_page by (fastforce simp: new_table_def res_Ok_iff Let_def split: prod.splits)
    show "?R s s1" if "early_map_entry entry b l s = Ok s1" for entry b l s s1
      using that by (auto simp: early_map_entry_def res_Ok_iff split: prod.splits if_splits)
  qed auto
  then show ?thesis using assms(2) by simp
qed

theorem early_map_memory_takes_witness:
  "\<exists>t'. early_map_memory 0x200000 0x200000 ([\<lparr>pr_start = 0x100, pr_npages = 16, pr_nid = ANY_NID\<rparr>], \<lparr>pt_root = 0, pt_mem = \<lambda>_. 0\<rparr>)
      = Ok ([\<lparr>pr_start = 0x100, pr_npages = 13, pr_nid = ANY_NID\<rparr>], t')
    \<and> pages_of [\<lparr>pr_start = 0x100, pr_npages = 13, pr_nid = ANY_NID\<rparr>] \<subseteq> {0x100 ..< 0x110}"
proof -
  let ?rs = "[\<lparr>pr_start = 0x100, pr_npages = 16, pr_nid = ANY_NID\<rparr>]"
  obtain t' where r: "early_map_memory 0x200000 0x200000 (?rs, \<lparr>pt_root = 0, pt_mem = \<lambda>_. 0\<rparr>)
      = Ok ([\<lparr>pr_start = 0x100, pr_npages = 13, pr_nid = ANY_NID\<rparr>], t')"
    by (simp add: early_map_memory_def run_pte) (simp add: run_traverse run_pte pr_end_def cong: pt_loop_weak_cong)
  have "ranges_ok 0 ?rs" by (simp add: r_lo_def r_hi_def)
  from early_map_memory_takes [OF r this] r show ?thesis
    by (auto simp: pages_of_def range_pages_def r_lo_def r_hi_def)
qed

definition large_page_tables :: page_tables where
  "large_page_tables = \<lparr>pt_root = 0x10f003, pt_mem = (\<lambda>_. 0)(0x10f000 := 0x10e003, 0x10e000 := 0x10d003,
     0x10d008 := 0x200083, 0x200000 := 0x1234567)\<rparr>"

text \<open>The traversal never looks at the size flag of a present entry.  Unmapping 4 kB inside a
  region mapped with a 2 MB page takes the 2 MB page for a table: it succeeds, clears the lowest
  bit of a word of the mapped data, and leaves the mapping in place.\<close>

theorem unmap_inside_large_page:
  "early_unmap_memory 0x200000 0x1000 (s, large_page_tables)
     = Ok (s, large_page_tables\<lparr>pt_mem := (pt_mem large_page_tables)(0x200000 := 0x1234566)\<rparr>)
   \<and> pte_large (pt_mem large_page_tables 0x10d008) \<and> pte_addr (pt_mem large_page_tables 0x10d008) True = 0x200000"
  by (simp add: early_unmap_memory_def run_pte)
    (simp add: run_traverse run_pte large_page_tables_def pte_large_def cong: pt_loop_weak_cong)

end
