(* ===== verification/VMem_Allocator.thy ===== *)
theory VMem_Allocator
  imports VMem
begin

text \<open>
  \<open>sys/vmem_allocator.hpp\<close>, \<open>sys/vmem_allocator.cpp\<close>: the allocator of kernel virtual pages.  A
  \<open>std::map\<close> ordered by \<open>std::greater\<close> holds the regions by their first page; the model is the
  list of its entries in iteration order, highest region first.  A region is free when it has
  no page-fault handler; \<open>'h\<close> is the type of handlers.
\<close>

subsection \<open>State and operations\<close>

type_synonym 'h region = "pfn \<times> 'h option"   \<comment> \<open>\<open>end\<close> and \<open>page_fault_handler\<close>\<close>
type_synonym 'h regions = "(pfn \<times> 'h region) list"

text \<open>\<open>emplace\<close> does nothing when the key is there already.\<close>

fun region_emplace :: "pfn \<Rightarrow> 'h region \<Rightarrow> 'h regions \<Rightarrow> 'h regions" where
  "region_emplace k v [] = [(k, v)]"
| "region_emplace k v ((k', v') # rs) =
     (if k = k' then (k', v') # rs
      else if k > k' then (k, v) # (k', v') # rs
      else (k', v') # region_emplace k v rs)"

definition region_update :: "pfn \<Rightarrow> ('h region \<Rightarrow> 'h region) \<Rightarrow> 'h regions \<Rightarrow> 'h regions" where
  "region_update k f rs = map (\<lambda>(k', v). (k', if k' = k then f v else v)) rs"

definition vmem_allocator_init :: "'h regions" where
  "vmem_allocator_init =
     region_emplace (pfn_up 0xFFFF800000000000) (pfn_down LOCAL_TRANS_VMEM_START, None) []"

text \<open>The first region the loop of \<open>Alloc\<close> does not skip.\<close>

fun first_fit :: "u64 \<Rightarrow> 'h regions \<Rightarrow> (pfn \<times> pfn) option" where
  "first_fit npages [] = None"
| "first_fit npages ((b, e, h) # rs) =
     (if h \<noteq> None \<or> e - b < npages then first_fit npages rs else Some (b, e))"

definition vmem_alloc :: "u64 \<Rightarrow> 'h option \<Rightarrow> 'h regions \<Rightarrow> (pfn \<times> 'h regions) res" where
  "vmem_alloc npages pf_handler rs =
     (case first_fit npages rs of
        None \<Rightarrow> Fail Aborted
      | Some (b, e) \<Rightarrow>
          let ret = e - npages
          in if ret = b then Ok (ret, region_update b (\<lambda>(e, h). (e, pf_handler)) rs)
             else let rs1 = region_update b (\<lambda>(e, h). (e - npages, h)) rs;
                      rs2 = region_emplace ret (ret + npages, None) rs1
                  in Ok (ret, region_update ret (\<lambda>(e, h). (e, pf_handler)) rs2))"

text \<open>\<open>lower_bound\<close> in the descending order: the first region that starts at or below the page.\<close>

fun lower_bound :: "pfn \<Rightarrow> 'h regions \<Rightarrow> 'h region option" where
  "lower_bound p [] = None"
| "lower_bound p ((b, r) # rs) = (if b \<le> p then Some r else lower_bound p rs)"

text \<open>\<open>HandlePageFault\<close>, up to the call of the handler it finds.\<close>

definition handle_page_fault :: "u64 \<Rightarrow> 'h regions \<Rightarrow> 'h res" where
  "handle_page_fault fault_addr rs =
     (case lower_bound (pfn_down fault_addr) rs of
        None \<Rightarrow> Fail Bug_On
      | Some (e, h) \<Rightarrow>
          kbugon (e < pfn_up fault_addr)
            (case h of None \<Rightarrow> Fail Bug_On | Some handler \<Rightarrow> Ok handler))"

subsection \<open>Regions partition the virtual pages\<close>

fun partition :: "nat \<Rightarrow> 'h regions \<Rightarrow> nat \<Rightarrow> bool" where
  "partition hi [] lo \<longleftrightarrow> hi = lo"
| "partition hi ((b, e, h) # rs) lo \<longleftrightarrow> unat e = hi \<and> unat b < unat e \<and> partition (unat b) rs lo"

text \<open>Who handles faults of a page.\<close>

fun handler_at :: "'h regions \<Rightarrow> nat \<Rightarrow> 'h option" where
  "handler_at [] x = None"
| "handler_at ((b, e, h) # rs) x = (if unat b \<le> x \<and> x < unat e then h else handler_at rs x)"

lemma partition_le: "partition hi rs lo \<Longrightarrow> lo \<le> hi"
  by (induction hi rs lo rule: partition.induct) auto

lemma partition_keys: "partition hi rs lo \<Longrightarrow> (k, v) \<in> set rs \<Longrightarrow> unat k < hi"
  by (induction hi rs lo rule: partition.induct) (auto dest: order.strict_trans)

lemma handler_at_above: "partition hi rs lo \<Longrightarrow> hi \<le> x \<Longrightarrow> handler_at rs x = None"
  by (induction hi rs lo rule: partition.induct) auto

lemma partition_append: "partition hi (xs @ ys) lo \<longleftrightarrow> (\<exists>m. partition hi xs m \<and> partition m ys lo)"
  by (induction xs arbitrary: hi) auto

lemma partition_keys_above: "partition hi xs m \<Longrightarrow> (k, v) \<in> set xs \<Longrightarrow> m \<le> unat k"
proof (induction hi xs m rule: partition.induct)
  case (2 hi b e h rs lo)
  then show ?case using partition_le [of "unat b" rs lo] by auto
qed simp

lemma handler_at_append:
  "partition hi xs m \<Longrightarrow> handler_at (xs @ ys) x = (if m \<le> x \<and> x < hi then handler_at xs x else handler_at ys x)"
proof (induction hi xs m rule: partition.induct)
  case (2 hi b e h rs lo)
  then show ?case using partition_le [of "unat b" rs lo] by auto
qed auto

lemma region_update_split:
  assumes "k \<notin> fst ` set xs" and "k \<notin> fst ` set ys"
  shows "region_update k f (xs @ (k, v) # ys) = xs @ (k, f v) # ys"
  using assms by (force simp: region_update_def intro!: map_idI)

lemma region_emplace_split:
  assumes "\<And>k' v'. (k', v') \<in> set xs \<Longrightarrow> k < k'" and "b < k"
  shows "region_emplace k v (xs @ (b, w) # ys) = xs @ (k, v) # (b, w) # ys"
  using assms by (induction xs) (force simp: order.strict_iff_not)+

lemma first_fit_split:
  "first_fit n rs = Some (b, e) \<Longrightarrow> \<exists>xs ys. rs = xs @ (b, e, None) # ys \<and> n \<le> e - b \<and> first_fit n xs = None"
proof (induction n rs rule: first_fit.induct)
  case (2 n b' e' h' rs)
  show ?case
  proof (cases "h' \<noteq> None \<or> e' - b' < n")
    case True
    then obtain xs ys where "rs = xs @ (b, e, None) # ys" "n \<le> e - b" "first_fit n xs = None"
      using 2 by auto
    then show ?thesis using True by (intro exI [of _ "(b', e', h') # xs"] exI [of _ ys]) auto
  next
    case False
    then show ?thesis using 2(2) by (intro exI [of _ "[]"] exI [of _ rs]) auto
  qed
qed simp

text \<open>The effect of an allocation: the lowest region found free, with handler or split.\<close>

lemma vmem_alloc_split:
  assumes "partition hi rs lo" and "vmem_alloc n g rs = Ok (p, rs')" and "0 < n"
  obtains xs ys b e where "rs = xs @ (b, e, None) # ys" and "first_fit n xs = None" and "n \<le> e - b"
    and "p = e - n" and "unat p + unat n = unat e" and "b \<le> p"
    and "partition hi xs (unat e)" and "unat b < unat e" and "partition (unat b) ys lo"
    and "rs' = xs @ (if p = b then [(b, e, g)] else [(p, e, g), (b, p, None)]) @ ys"
proof -
  obtain b e where ff: "first_fit n rs = Some (b, e)"
    using assms(2) by (auto simp: vmem_alloc_def split: option.splits)
  from first_fit_split [OF ff] obtain xs ys
    where rs: "rs = xs @ (b, e, None) # ys" and n: "n \<le> e - b" and ffx: "first_fit n xs = None" by blast
  have px: "partition hi xs (unat e)" and be: "unat b < unat e" and py: "partition (unat b) ys lo"
    using assms(1) by (auto simp: rs partition_append)
  have eb: "unat (e - b) = unat e - unat b" using be by (intro unat_sub_nowrap) (simp add: word_le_nat_alt)
  have ne: "unat n \<le> unat e - unat b" using n eb by (simp add: word_le_nat_alt)
  then have p: "unat (e - n) = unat e - unat n" by (intro unat_sub_nowrap) (simp add: word_le_nat_alt)
  have n0: "0 < unat n" using assms(3) by (simp add: word_less_nat_alt)
  have keys: "b \<notin> fst ` set xs" "b \<notin> fst ` set ys" "e - n \<notin> fst ` set xs" "e - n \<notin> fst ` set ys"
    using partition_keys_above [OF px] partition_keys [OF py] be p ne n0 by fastforce+
  have ab: "k < k'" if "(k', v') \<in> set xs" "k = e - n" for k k' v'
    using partition_keys_above [OF px that(1)] p that(2) n0 be ne by (simp add: word_less_nat_alt)
  have run: "vmem_alloc n g rs = Ok (e - n, xs @ (if e - n = b then [(b, e, g)] else [(e - n, e, g), (b, e - n, None)]) @ ys)"
  proof (cases "e - n = b")
    case True
    then show ?thesis using ff keys by (simp add: vmem_alloc_def rs region_update_split)
  next
    case False
    then have "unat (e - n) \<noteq> unat b" by (metis word_eq_unat)
    then have lt: "b < e - n" using p ne be unfolding word_less_nat_alt by linarith
    have "region_update b (\<lambda>(e, h). (e - n, h)) rs = xs @ (b, e - n, None) # ys"
      using keys by (simp add: rs region_update_split)
    moreover have "region_emplace (e - n) (e - n + n, None) (xs @ (b, e - n, None) # ys)
        = xs @ (e - n, e, None) # (b, e - n, None) # ys"
      by (simp, rule region_emplace_split [OF _ lt]) (use ab in blast)
    moreover have "region_update (e - n) (\<lambda>(e, h). (e, g)) (xs @ (e - n, e, None) # (b, e - n, None) # ys)
        = xs @ (e - n, e, g) # (b, e - n, None) # ys"
      using keys False by (subst region_update_split) auto
    ultimately show ?thesis using False ff by (simp add: vmem_alloc_def Let_def)
  qed
  show ?thesis
  proof (rule that [OF rs ffx n _ _ _ px be py])
    show "p = e - n" using run assms(2) by simp
    then show "unat p + unat n = unat e" "b \<le> p" using p ne be by (auto simp: word_le_nat_alt)
    show "rs' = xs @ (if p = b then [(b, e, g)] else [(p, e, g), (b, p, None)]) @ ys"
      using run assms(2) by simp
  qed
qed

lemma init_partition:
  "partition 0xFFFFFFFF00000 vmem_allocator_init 0xFFFF800000000"
  by (simp add: vmem_allocator_init_def pfn_up_def pfn_down_def PAGE_SIZE_eq PAGE_SHIFT_def LOCAL_TRANS_VMEM_START_def)

subsection \<open>Properties\<close>

lemma vmem_alloc_ok:
  assumes "partition hi rs lo" and "0 < npages" and "vmem_alloc npages (Some h) rs = Ok (p, rs')"
  shows "partition hi rs' lo \<and> lo \<le> unat p \<and> unat p + unat npages \<le> hi
    \<and> (\<forall>x. unat p \<le> x \<and> x < unat p + unat npages \<longrightarrow> handler_at rs x = None)
    \<and> (\<forall>x. handler_at rs' x = (if unat p \<le> x \<and> x < unat p + unat npages then Some h else handler_at rs x))"
proof -
  obtain xs ys b e where s: "rs = xs @ (b, e, None) # ys" "unat p + unat npages = unat e" "b \<le> p"
    "partition hi xs (unat e)" "unat b < unat e" "partition (unat b) ys lo"
    "rs' = xs @ (if p = b then [(b, e, Some h)] else [(p, e, Some h), (b, p, None)]) @ ys"
    using vmem_alloc_split [OF assms(1,3,2)] by metis
  have n0: "0 < unat npages" using assms(2) by (simp add: word_less_nat_alt)
  have bp: "unat b \<le> unat p" using s(3) by (simp add: word_le_nat_alt)
  note le = partition_le [OF s(4)] partition_le [OF s(6)]
  have "partition hi rs' lo"
    using s n0 bp by (auto simp: partition_append word_eq_unat)
  moreover have "handler_at rs x = None" if "unat p \<le> x" "x < unat p + unat npages" for x
    using that s(2) bp unfolding s(1) handler_at_append [OF s(4)] by simp
  moreover have "handler_at rs' x = (if unat p \<le> x \<and> x < unat p + unat npages then Some h else handler_at rs x)" for x
    using s(2,5) bp handler_at_above [OF s(6), of x]
    unfolding s(1,7) handler_at_append [OF s(4)] by (auto simp: word_eq_unat)
  ultimately show ?thesis using le bp s(2) by auto
qed

text \<open>C21: Allocating with a handler takes \<open>npages\<close> pages out of a free region, gives exactly those
  pages the handler, changes no other page, and keeps the regions a partition of the range.\<close>

theorem vmem_alloc_correct:
  assumes "partition hi rs lo" and "0 < npages" and "vmem_alloc npages (Some h) rs = Ok (p, rs')"
  shows "partition hi rs' lo \<and> lo \<le> unat p \<and> unat p + unat npages \<le> hi
    \<and> (\<forall>x. unat p \<le> x \<and> x < unat p + unat npages \<longrightarrow> handler_at rs x = None)
    \<and> (\<forall>x. handler_at rs' x = (if unat p \<le> x \<and> x < unat p + unat npages then Some h else handler_at rs x))"
  using vmem_alloc_ok [OF assms] .

lemma init_alloc:
  "vmem_alloc 2048 g vmem_allocator_init = Ok (0xFFFFFFFEFF800,
     [(0xFFFFFFFEFF800, 0xFFFFFFFF00000, g), (0xFFFF800000000, 0xFFFFFFFEFF800, None)])"
  by (simp add: vmem_alloc_def vmem_allocator_init_def pfn_up_def pfn_down_def PAGE_SIZE_eq PAGE_SHIFT_def
      LOCAL_TRANS_VMEM_START_def region_update_def)

theorem vmem_alloc_correct_witness:
  "\<exists>rs'. vmem_alloc 2048 (Some ()) vmem_allocator_init = Ok (0xFFFFFFFEFF800, rs')
     \<and> handler_at rs' 0xFFFFFFFEFFFFF = Some () \<and> partition 0xFFFFFFFF00000 rs' 0xFFFF800000000"
proof -
  have "(0 :: u64) < 2048" by simp
  from vmem_alloc_correct [OF init_partition this init_alloc, of "()"] show ?thesis
    unfolding init_alloc by simp
qed

text \<open>Allocating without a handler, the default argument and what the PCI code does for a
  device register, leaves the pages free: the next allocation of the same size returns the same pages.\<close>

theorem vmem_alloc_null_handler_reused:
  assumes "partition hi rs lo" and "0 < npages" and "vmem_alloc npages None rs = Ok (p, rs')"
  shows "(\<forall>x. handler_at rs' x = handler_at rs x) \<and> (\<exists>rs''. vmem_alloc npages g rs' = Ok (p, rs''))"
proof -
  obtain xs ys b e where s: "rs = xs @ (b, e, None) # ys" "first_fit npages xs = None" "p = e - npages"
    "unat p + unat npages = unat e" "b \<le> p" "partition hi xs (unat e)" "unat b < unat e" "partition (unat b) ys lo"
    "rs' = xs @ (if p = b then [(b, e, None)] else [(p, e, None), (b, p, None)]) @ ys"
    using vmem_alloc_split [OF assms(1,3,2)] by metis
  have bp: "unat b \<le> unat p" using s(5) by (simp add: word_le_nat_alt)
  have "handler_at rs' x = handler_at rs x" for x
    using s(4,7) bp handler_at_above [OF s(8), of x]
    unfolding s(1,9) handler_at_append [OF s(6)] by (auto simp: word_eq_unat)
  moreover have "first_fit npages (xs @ (p, e, None) # zs) = Some (p, e)" for zs
    using s(2,3) by (induction xs) (auto split: if_splits)
  then have "\<exists>rs''. vmem_alloc npages g rs' = Ok (p, rs'')"
    using s(3) unfolding s(9) by (cases "p = b") (auto simp: vmem_alloc_def Let_def)
  ultimately show ?thesis by blast
qed

theorem vmem_alloc_null_handler_reused_witness:
  "\<exists>rs' rs''. vmem_alloc 2048 None vmem_allocator_init = Ok (0xFFFFFFFEFF800, rs')
     \<and> vmem_alloc 2048 (Some ()) rs' = Ok (0xFFFFFFFEFF800, rs'')"
proof -
  have "(0 :: u64) < 2048" by simp
  from vmem_alloc_null_handler_reused [OF init_partition this init_alloc, of "Some ()"]
  show ?thesis unfolding init_alloc by blast
qed

text \<open>A fault on an address of an allocated page runs that page's handler; a fault on a free page
  inside the range is a bug.\<close>

theorem handle_page_fault_dispatch:
  assumes "partition hi rs lo" and "lo \<le> unat (pfn_down a)" and "unat (pfn_down a) < hi" and "hi < 2 ^ 52"
  shows "handle_page_fault a rs =
    (case handler_at rs (unat (pfn_down a)) of None \<Rightarrow> Fail Bug_On | Some h \<Rightarrow> Ok h)"
proof -
  let ?p = "pfn_down a"
  have up: "unat (pfn_up a) \<le> unat ?p + 1"
  proof -
    have "unat a div 4096 < 2 ^ 52 - 1" using assms(3,4) by (simp add: unat_pfn_down)
    then have "unat a + 4096 \<le> 2 ^ 64" using div_mult_mod_eq [of "unat a" 4096] by simp
    then show ?thesis by (simp add: unat_pfn_up unat_pfn_down)
  qed
  have "\<exists>e. lower_bound ?p rs = Some (e, handler_at rs (unat ?p)) \<and> unat ?p < unat e"
    using assms(1-3)
    by (induction hi rs lo rule: partition.induct) (auto simp: word_le_nat_alt)
  then obtain e where e: "lower_bound ?p rs = Some (e, handler_at rs (unat ?p))" "unat ?p < unat e" by blast
  then have "\<not> e < pfn_up a" using up by (simp add: word_less_nat_alt)
  then show ?thesis using e by (simp add: handle_page_fault_def split: option.splits)
qed

theorem handle_page_fault_dispatch_witness:
  "handle_page_fault 0xFFFFFFFEFF801234 [(0xFFFFFFFEFF800, 0xFFFFFFFF00000, Some ()), (0xFFFF800000000, 0xFFFFFFFEFF800, None)]
     = Ok ()"
proof -
  have "partition 0xFFFFFFFF00000 [(0xFFFFFFFEFF800, 0xFFFFFFFF00000, Some ()), (0xFFFF800000000, 0xFFFFFFFEFF800, None)] 0xFFFF800000000"
    by simp
  from handle_page_fault_dispatch [OF this, of "0xFFFFFFFEFF801234"] show ?thesis by (simp add: unat_pfn_down)
qed

text \<open>The bound test compares \<open>end\<close> with \<open>pfn_up\<close> of the address, which for a page-aligned address is
  its own page: a fault on the first page past the top region is given to that region's handler.\<close>

lemma page_fault_past_end:
  "handle_page_fault 0xFFFFFFFF00000000 [(0xFFFFFFFEFF800, 0xFFFFFFFF00000, Some ()), (0xFFFF800000000, 0xFFFFFFFEFF800, None)]
     = Ok ()"
  by (simp add: handle_page_fault_def pfn_down_def pfn_up_def PAGE_SHIFT_def PAGE_SIZE_eq)

end
