(* ===== verification/Ebb.thy ===== *)
theory Ebb
  imports VMem_Allocator
begin

text \<open>
  \<open>sys/trans.hpp\<close>, \<open>sys/ebb_allocator.*\<close>, \<open>sys/local_id_map.*\<close>, \<open>sys/multicore_ebb_static.hpp\<close> and the
  \<open>HandleFault\<close> functions of the Ebbs: references to Ebbs through a per-processor translation
  table, the allocation of ids, and the construction of representatives on the first access.
\<close>

subsection \<open>References and the translation table\<close>

type_synonym ebb_id = u32
type_synonym trans_table = "u64 \<Rightarrow> u64"   \<comment> \<open>address of a \<open>LocalEntry\<close> to the pointer in it\<close>

definition page_allocator_id :: ebb_id where "page_allocator_id = 0"
definition gp_allocator_id :: ebb_id where "gp_allocator_id = 1"
definition local_id_map_id :: ebb_id where "local_id_map_id = 2"
definition ebb_allocator_id :: ebb_id where "ebb_allocator_id = 3"
definition event_manager_id :: ebb_id where "event_manager_id = 4"
definition vmem_allocator_id :: ebb_id where "vmem_allocator_id = 5"
definition apic_timer_id :: ebb_id where "apic_timer_id = 6"
definition network_manager_id :: ebb_id where "network_manager_id = 7"
definition FIRST_FREE_ID :: ebb_id where "FIRST_FREE_ID = 8"

definition ebb_ref :: "ebb_id \<Rightarrow> u64" where
  "ebb_ref eid = LOCAL_TRANS_VMEM_START + 8 * ucast eid"

definition ebb_ref_id :: "u64 \<Rightarrow> ebb_id" where
  "ebb_ref_id ref = ucast ((ref - LOCAL_TRANS_VMEM_START) div 8)"

definition cache_ref :: "ebb_id \<Rightarrow> u64 \<Rightarrow> trans_table \<Rightarrow> trans_table" where
  "cache_ref eid ref table = table(LOCAL_TRANS_VMEM_START + 8 * ucast eid := ref)"

text \<open>\<open>operator->\<close>: the cached pointer, or what \<open>HandleFault\<close> returns; \<open>'s\<close> is the rest of the state.\<close>

definition ebb_deref :: "(ebb_id \<Rightarrow> trans_table \<times> 's \<Rightarrow> (u64 \<times> trans_table \<times> 's) res) \<Rightarrow> u64 \<Rightarrow> trans_table \<times> 's
    \<Rightarrow> (u64 \<times> trans_table \<times> 's) res" where
  "ebb_deref HandleFault ref s =
     (if fst s ref = 0 then HandleFault (ebb_ref_id ref) s else Ok (fst s ref, s))"

subsection \<open>The map from ids to values\<close>

text \<open>\<open>LocalIdMap\<close> wraps a concurrent hash map; \<open>insert\<close> keeps an existing value and says so.\<close>

type_synonym 'v local_id_map = "ebb_id \<Rightarrow> 'v option"

definition lim_insert :: "ebb_id \<times> 'v \<Rightarrow> 'v local_id_map \<Rightarrow> bool \<times> 'v local_id_map" where
  "lim_insert kv m = (case kv of (k, v) \<Rightarrow> if m k = None then (True, m(k \<mapsto> v)) else (False, m))"

definition lim_find :: "ebb_id \<Rightarrow> 'v local_id_map \<Rightarrow> 'v option" where
  "lim_find k m = m k"

subsection \<open>Representatives per processor\<close>

text \<open>The values in the map are copied out by \<open>boost::any_cast<rep_map_t>\<close>: a table from processors to
  representatives.\<close>

type_synonym rep_map = "nat \<Rightarrow> u64 option"

definition multicore_init :: "ebb_id \<Rightarrow> rep_map local_id_map \<Rightarrow> rep_map local_id_map" where
  "multicore_init static_id m = snd (lim_insert (static_id, \<lambda>_. None) m)"

definition multicore_HandleFault :: "bool \<Rightarrow> ('h \<Rightarrow> (u64 \<times> 'h) res) \<Rightarrow> ebb_id \<Rightarrow> nat \<Rightarrow> ebb_id
    \<Rightarrow> trans_table \<times> rep_map local_id_map \<times> 'h \<Rightarrow> (u64 \<times> trans_table \<times> rep_map local_id_map \<times> 'h) res" where
  "multicore_HandleFault cache_found new_rep static_id my_cpu eid s = (case s of (table, m, heap) \<Rightarrow>
     kassert (eid = static_id)
       (case lim_find eid m of
          None \<Rightarrow> Fail Assert_Failed
        | Some rep_map \<Rightarrow>
            (case rep_map my_cpu of
               Some rep \<Rightarrow> Ok (rep, (if cache_found then cache_ref eid rep table else table), m, heap)
             | None \<Rightarrow>
                 bind_res (new_rep heap) (\<lambda>(rep, heap').
                   case lim_find eid m of
                     None \<Rightarrow> Fail Assert_Failed
                   | Some rep_map \<Rightarrow>
                       let rep_map' = rep_map(my_cpu \<mapsto> rep)   \<comment> \<open>the local copy\<close>
                       in Ok (rep, cache_ref eid rep table, m, heap')))))"

text \<open>The template caches a representative it finds; \<open>EventManager::HandleFault\<close>, written out by hand,
  does not.\<close>

definition multicore_static_HandleFault where
  "multicore_static_HandleFault = multicore_HandleFault True"

definition event_manager_HandleFault where
  "event_manager_HandleFault new_rep = multicore_HandleFault False new_rep event_manager_id"

text \<open>Ebbs with a single, preconstructed representative: \<open>EbbAllocator\<close>, \<open>LocalIdMap\<close>.\<close>

definition single_HandleFault :: "ebb_id \<Rightarrow> u64 \<Rightarrow> ebb_id \<Rightarrow> trans_table \<times> 's \<Rightarrow> (u64 \<times> trans_table \<times> 's) res" where
  "single_HandleFault own_id ref eid s =
     kassert (eid = own_id) (Ok (ref, cache_ref eid ref (fst s), snd s))"

text \<open>\<open>VMemAllocator\<close>: a reference stored in the id map; \<open>PageAllocator\<close>: the node's element of a vector.\<close>

definition vmem_allocator_HandleFault :: "ebb_id \<Rightarrow> trans_table \<times> u64 local_id_map \<Rightarrow> (u64 \<times> trans_table \<times> u64 local_id_map) res" where
  "vmem_allocator_HandleFault eid s =
     kassert (eid = vmem_allocator_id)
       (case lim_find eid (snd s) of
          None \<Rightarrow> Fail Assert_Failed
        | Some ref \<Rightarrow> Ok (ref, cache_ref eid ref (fst s), snd s))"

definition page_allocator_HandleFault :: "u64 list \<Rightarrow> nid \<Rightarrow> ebb_id \<Rightarrow> trans_table \<times> 's \<Rightarrow> (u64 \<times> trans_table \<times> 's) res" where
  "page_allocator_HandleFault reps my_node eid s =
     kassert (eid = page_allocator_id)
       (defined (0 \<le> my_node \<and> nat my_node < length reps)
          (let allocator = reps ! nat my_node
           in Ok (allocator, cache_ref eid allocator (fst s), snd s)))"

subsection \<open>Allocating ids\<close>

text \<open>The free ids are a \<open>boost::icl::interval_set\<close>, which is a parameter: its operations \<open>is_empty\<close>,
  \<open>first\<close> and \<open>erase\<close> of one element, the empty set \<open>none\<close> and the insertion \<open>put\<close> of an interval \<open>[lo, hi)\<close>.\<close>

definition ebb_allocator_ids :: "'i \<Rightarrow> (ebb_id \<times> ebb_id \<Rightarrow> 'i \<Rightarrow> 'i) \<Rightarrow> 'i" where
  "ebb_allocator_ids none put = put (FIRST_FREE_ID, push_bit 16 1 - 1) none"

definition AllocateLocal :: "('i \<Rightarrow> bool) \<Rightarrow> ('i \<Rightarrow> ebb_id) \<Rightarrow> (ebb_id \<Rightarrow> 'i \<Rightarrow> 'i) \<Rightarrow> 'i \<Rightarrow> (ebb_id \<times> 'i) res" where
  "AllocateLocal is_empty first erase free_ids =
     kbugon (is_empty free_ids) (let ret = first free_ids in Ok (ret, erase ret free_ids))"

fun allocate_ids :: "('i \<Rightarrow> bool) \<Rightarrow> ('i \<Rightarrow> ebb_id) \<Rightarrow> (ebb_id \<Rightarrow> 'i \<Rightarrow> 'i) \<Rightarrow> nat \<Rightarrow> 'i \<Rightarrow> (ebb_id list \<times> 'i) res" where
  "allocate_ids e f r 0 s = Ok ([], s)"
| "allocate_ids e f r (Suc n) s = bind_res (AllocateLocal e f r s) (\<lambda>(x, s1).
     bind_res (allocate_ids e f r n s1) (\<lambda>(xs, s2). Ok (x # xs, s2)))"

text \<open>What \<open>boost::icl\<close> documents for an interval set, read as the set \<open>elems\<close> of its elements.\<close>

locale id_set =
  fixes elems :: "'i \<Rightarrow> ebb_id set"
    and none :: 'i and put :: "ebb_id \<times> ebb_id \<Rightarrow> 'i \<Rightarrow> 'i"
    and is_empty :: "'i \<Rightarrow> bool" and first :: "'i \<Rightarrow> ebb_id" and erase :: "ebb_id \<Rightarrow> 'i \<Rightarrow> 'i"
  assumes none: "elems none = {}"
    and put: "elems (put (l, h) s) = elems s \<union> {l ..< h}"
    and is_empty: "is_empty s \<longleftrightarrow> elems s = {}"
    and first: "elems s \<noteq> {} \<Longrightarrow> first s \<in> elems s"
    and first_le: "x \<in> elems s \<Longrightarrow> first s \<le> x"
    and erase: "elems (erase x s) = elems s - {x}"
begin

lemma elems_start: "elems (ebb_allocator_ids none put) = {FIRST_FREE_ID ..< 65535}"
  by (simp add: ebb_allocator_ids_def put none)

lemma first_least: "elems s = {l ..< h} \<Longrightarrow> l < h \<Longrightarrow> first s = l"
  using first [of s] first_le [of l s] by (auto intro: antisym)

lemma AllocateLocal_least:
  assumes "elems s = {l ..< h}" "l < h"
  shows "\<exists>s'. AllocateLocal is_empty first erase s = Ok (l, s') \<and> elems s' = {l + 1 ..< h}"
proof -
  have "unat l + 1 < 2 ^ 32" using assms(2) unat_lt_pow [of h] by (simp add: word_less_nat_alt)
  then have "unat (l + 1) = unat l + 1" using unat_add_nowrap [of l 1] by simp
  then have "{l ..< h} - {l} = {l + 1 ..< h}"
    by (auto simp: word_le_nat_alt word_less_nat_alt word_eq_unat)
  then have "elems (erase l s) = {l + 1 ..< h}" using assms(1) by (simp add: erase)
  moreover have "\<not> is_empty s" using assms by (auto simp: is_empty)
  ultimately show ?thesis using first_least [OF assms] by (simp add: AllocateLocal_def Let_def)
qed

lemma AllocateLocal_none: "elems s = {} \<Longrightarrow> AllocateLocal is_empty first erase s = Fail Bug_On"
  by (simp add: AllocateLocal_def is_empty)

text \<open>Ids come in increasing order, and the kernel stops when none is left.\<close>

lemma allocate_ids_run:
  assumes "elems s = {l ..< h}" "l \<le> h"
  shows "if n \<le> unat h - unat l
    then \<exists>s'. allocate_ids is_empty first erase n s = Ok (map (\<lambda>i. l + of_nat i) [0 ..< n], s')
    else allocate_ids is_empty first erase n s = Fail Bug_On"
  using assms
proof (induction n arbitrary: s l)
  case (Suc n)
  show ?case
  proof (cases "l = h")
    case True
    then show ?thesis using Suc.prems(1) by (simp add: AllocateLocal_none)
  next
    case False
    with Suc.prems(2) have lh: "l < h" by simp
    obtain s1 where s1: "AllocateLocal is_empty first erase s = Ok (l, s1)" "elems s1 = {l + 1 ..< h}"
      using AllocateLocal_least [OF Suc.prems(1) lh] by blast
    have "unat l + 1 < 2 ^ 32" using lh unat_lt_pow [of h] by (simp add: word_less_nat_alt)
    then have u: "unat (l + 1) = unat l + 1" using unat_add_nowrap [of l 1] by simp
    then have "l + 1 \<le> h" "(n \<le> unat h - unat (l + 1)) = (Suc n \<le> unat h - unat l)"
      using lh by (auto simp: word_le_nat_alt word_less_nat_alt)
    moreover have "map (\<lambda>i. l + of_nat i) [0 ..< Suc n] = l # map (\<lambda>i. l + 1 + of_nat i) [0 ..< n]"
      by (simp add: upt_conv_Cons map_Suc_upt [symmetric] comp_def add.assoc del: upt_Suc)
    ultimately show ?thesis using Suc.IH [OF s1(2)] s1(1) by (auto split: if_splits)
  qed
qed simp

end

text \<open>The laws hold for sets of ids themselves.\<close>

interpretation ids: id_set "\<lambda>s. s" "{}" "\<lambda>(l, h) s. s \<union> {l ..< h}" "\<lambda>s. s = {}" Min "\<lambda>x s. s - {x}"
  by unfold_locales auto

subsection \<open>Properties\<close>

text \<open>C40: Whatever the interval set, as long as it has the laws of \<open>boost::icl\<close>: the ids handed out are
  8, 9, and so on up to 65534, each once, so never one of the static ids; the next allocation stops the
  kernel.\<close>

theorem allocate_ids_fresh:
  assumes "id_set elems none put is_empty first erase"
  shows "if n \<le> 65527
    then \<exists>ids s'. allocate_ids is_empty first erase n (ebb_allocator_ids none put) = Ok (ids, s')
      \<and> ids = map (\<lambda>i. FIRST_FREE_ID + of_nat i) [0 ..< n] \<and> distinct ids
      \<and> (\<forall>i\<in>set ids. FIRST_FREE_ID \<le> i \<and> i < 65535)
    else allocate_ids is_empty first erase n (ebb_allocator_ids none put) = Fail Bug_On"
proof -
  have u: "unat (FIRST_FREE_ID + of_nat i) = 8 + i" if "i < 65527" for i
    using that by (simp add: FIRST_FREE_ID_def unat_word_ariths take_bit_nat_eq_self unat_of_nat)
  have "distinct (map (\<lambda>i. FIRST_FREE_ID + of_nat i) [0 ..< n])
    \<and> (\<forall>i<n. FIRST_FREE_ID \<le> FIRST_FREE_ID + of_nat i \<and> FIRST_FREE_ID + of_nat i < (65535 :: ebb_id))" if "n \<le> 65527"
    using that u by (auto simp: distinct_map inj_on_def word_le_nat_alt word_less_nat_alt word_eq_unat)
      (simp_all add: FIRST_FREE_ID_def)
  then show ?thesis
    using id_set.allocate_ids_run [OF assms id_set.elems_start [OF assms], of n]
    by (auto simp: FIRST_FREE_ID_def)
qed

theorem allocate_ids_fresh_witness:
  "\<exists>s'. allocate_ids (\<lambda>s. s = {}) Min (\<lambda>x s. s - {x}) (Suc (Suc 0))
    (ebb_allocator_ids {} (\<lambda>(l, h) s. s \<union> {l ..< h})) = Ok ([8, 9], s')"
  using allocate_ids_fresh [OF ids.id_set_axioms, of "Suc (Suc 0)"] by (simp add: FIRST_FREE_ID_def)

lemma ebb_offset: "unat (8 * ucast i :: u64) = 8 * unat i" for i :: ebb_id
proof -
  have "8 * unat i < 2 ^ 64" using unat_lt_pow [of i] by simp
  then show ?thesis by (simp add: unat_word_ariths unat_ucast_up)
qed

text \<open>A reference determines its id, so \<open>HandleFault\<close> is called with the id the reference was made
  from, and caching one Ebb's representative changes no other Ebb's entry.\<close>

theorem ebb_ref_roundtrip:
  "ebb_ref_id (ebb_ref i) = i \<and> cache_ref i r table (ebb_ref j) = (if i = j then r else table (ebb_ref j))"
proof -
  have "unat (8 * ucast i div 8 :: u64) = unat i" by (simp add: unat_div ebb_offset)
  then have "ebb_ref_id (ebb_ref i) = i"
    using unat_lt_pow [of i]
    by (simp add: ebb_ref_id_def ebb_ref_def word_eq_unat unsigned_ucast_eq take_bit_nat_eq_self_iff)
  moreover have "i = j" if "ebb_ref i = ebb_ref j"
  proof -
    have "(8 * ucast i :: u64) = 8 * ucast j" using that by (simp add: ebb_ref_def)
    then have "8 * unat i = 8 * unat j" using ebb_offset [of i] ebb_offset [of j] by simp
    then show ?thesis by (simp add: word_eq_unat)
  qed
  ultimately show ?thesis by (auto simp: cache_ref_def ebb_ref_def)
qed

text \<open>The allocator gives out ids up to 65534, but only the first page of the translation region
  is mapped: a reference to an id from 512 on faults on an address no region covers, and the
  page-fault handler stops the kernel.\<close>

theorem ebb_ref_beyond_first_page:
  assumes "partition 0xFFFFFFFF00000 rs 0xFFFF800000000" and "rs \<noteq> []" and "512 \<le> i" and "i < 65535"
  shows "handle_page_fault (ebb_ref i) rs = Fail Bug_On"
proof -
  obtain b e h rs' where rs: "rs = (b, e, h) # rs'" using assms(2) by (cases rs) auto
  then have e: "unat e = 0xFFFFFFFF00000" and b: "unat b < unat e" using assms(1) by auto
  have i: "512 \<le> unat i" "unat i < 65535" using assms(3,4) by (simp_all add: word_le_nat_alt word_less_nat_alt)
  have "unat (ebb_ref i) = 0xFFFFFFFF00000000 + 8 * unat i"
    unfolding ebb_ref_def using ebb_offset [of i] i
    by (subst unat_add_nowrap) (simp_all add: LOCAL_TRANS_VMEM_START_def)
  then have r: "unat (ebb_ref i) div 4096 = 0xFFFFFFFF00000 + 8 * unat i div 4096"
    and r4: "unat (ebb_ref i) + 4096 \<le> 2 ^ 64" using i by simp_all
  have "unat (pfn_down (ebb_ref i)) = 0xFFFFFFFF00000 + 8 * unat i div 4096"
    by (simp only: unat_pfn_down r)
  then have "b \<le> pfn_down (ebb_ref i)" using b e by (simp add: word_le_nat_alt)
  moreover have "unat (ebb_ref i) div 4096 \<le> (unat (ebb_ref i) + 4095) div 4096" by (intro div_le_mono) simp
  then have "unat e < unat (pfn_up (ebb_ref i))"
    using r e i by (simp add: unat_pfn_up [OF r4])
  ultimately show ?thesis by (simp add: handle_page_fault_def rs word_less_nat_alt)
qed

theorem ebb_ref_beyond_first_page_witness:
  "handle_page_fault (ebb_ref 600) [(0xFFFF800000000, 0xFFFFFFFF00000, None :: unit option)] = Fail Bug_On"
  by (rule ebb_ref_beyond_first_page) simp_all

text \<open>The table of representatives is copied out of the map and the copy updated, so a fault never
  records its representative: the map is unchanged, and whenever a fault constructed one, the next
  fault of the same processor and id constructs another.\<close>

theorem multicore_rep_not_recorded:
  assumes "multicore_HandleFault c new_rep static_id cpu i (table, m, heap) = Ok (rep, table', m', heap')"
  shows "m' = m \<and> (\<forall>rep_map. m i = Some rep_map \<and> rep_map cpu = None \<longrightarrow>
    (\<forall>rep2 heap2 table2. new_rep heap' = Ok (rep2, heap2) \<longrightarrow>
       multicore_HandleFault c new_rep static_id cpu i (table2, m', heap')
         = Ok (rep2, cache_ref i rep2 table2, m', heap2)))"
  using assms by (auto simp: multicore_HandleFault_def lim_find_def res_Ok_iff Let_def split: option.splits)

theorem multicore_rep_not_recorded_witness:
  "event_manager_HandleFault (\<lambda>h :: u64. Ok (h, h + 64)) 0 event_manager_id
      (\<lambda>_. 0, (\<lambda>_. None)(event_manager_id \<mapsto> \<lambda>_. None), 0x1000)
    = Ok (0x1000, cache_ref event_manager_id 0x1000 (\<lambda>_. 0), (\<lambda>_. None)(event_manager_id \<mapsto> \<lambda>_. None), 0x1040)
   \<and> event_manager_HandleFault (\<lambda>h :: u64. Ok (h, h + 64)) 0 event_manager_id
      (\<lambda>_. 0, (\<lambda>_. None)(event_manager_id \<mapsto> \<lambda>_. None), 0x1040)
    = Ok (0x1040, cache_ref event_manager_id 0x1040 (\<lambda>_. 0), (\<lambda>_. None)(event_manager_id \<mapsto> \<lambda>_. None), 0x1080)"
proof -
  let ?m = "(\<lambda>_. None)(event_manager_id \<mapsto> (\<lambda>_. None :: u64 option))"
  have r: "multicore_HandleFault False (\<lambda>h :: u64. Ok (h, h + 64)) event_manager_id 0 event_manager_id (\<lambda>_. 0, ?m, 0x1000)
    = Ok (0x1000, cache_ref event_manager_id 0x1000 (\<lambda>_. 0), ?m, 0x1040)"
    by (simp add: multicore_HandleFault_def lim_find_def Let_def)
  then show ?thesis
    using multicore_rep_not_recorded [OF r] by (simp add: event_manager_HandleFault_def)
qed

end
