(* ===== verification/Event_Manager.thy ===== *)
theory Event_Manager
  imports Ebb "HOL-Library.Multiset"
begin

text \<open>
  \<open>sys/event_manager.hpp\<close>, \<open>sys/event_manager.cpp\<close>: the per-processor event loop.  Tasks are a
  last-in first-out stack; each running or suspended event owns an 8 MB stack in virtual memory;
  interrupt vectors are handed out by an atomic 8-bit counter.  A task is a client function or
  the continuation that \<open>ActivateContext\<close> spawns; registers saved in a context are not modelled,
  only its stack.
\<close>

subsection \<open>State\<close>

definition STACK_NPAGES :: u64 where "STACK_NPAGES = 2048"

datatype 'f task = Func 'f | Resume pfn

record 'f event_manager =
  em_stack :: pfn
  free_stacks :: "pfn list"
  tasks :: "'f task list"
  vector_map :: "u8 \<Rightarrow> 'f option"
  vector_idx :: u8
  event_stack :: u64            \<comment> \<open>entry 2 of the interrupt stack table\<close>

subsection \<open>Stacks\<close>

text \<open>A new stack gets its own fault handler, named by a number here.\<close>

type_synonym virt = "nat regions \<times> nat"

definition AllocateStack :: "pfn list \<Rightarrow> virt \<Rightarrow> (pfn \<times> pfn list \<times> virt) res" where
  "AllocateStack free v =
     (case free of
        ret # free' \<Rightarrow> Ok (ret, free', v)
      | [] \<Rightarrow> (case v of (regions, next_handler) \<Rightarrow>
          bind_res (vmem_alloc STACK_NPAGES (Some next_handler) regions)
            (\<lambda>(ret, regions'). Ok (ret, [], regions', Suc next_handler))))"

definition stack_top :: "pfn \<Rightarrow> u64" where
  "stack_top stack = pfn_to_addr (stack + STACK_NPAGES)"

text \<open>The fault handler of a stack: its mapped pages, and the page tables and page allocator.\<close>

type_synonym stack_mappings = "(pfn \<times> pfn) list"

definition stack_handle_fault :: "u64 \<Rightarrow> u64 \<Rightarrow> stack_mappings \<times> buddy vm \<Rightarrow> (stack_mappings \<times> buddy vm) res" where
  "stack_handle_fault cr3 faulted_address s = (case s of (mappings, vm) \<Rightarrow>
     let page = pfn_down faulted_address
     in case map_of mappings page of
          None \<Rightarrow>
            kbugon (length mappings + 1 \<ge> unat STACK_NPAGES)
              (bind_res (AllocLocal 0 (fst vm)) (\<lambda>(backing_page, a).
                 kbugon (backing_page = 0)
                   (bind_res (map_memory cr3 page backing_page PAGE_SIZE (a, snd vm)) (\<lambda>vm'.
                      Ok ((page, backing_page) # mappings, vm')))))
        | Some backing_page \<Rightarrow>
            bind_res (map_memory cr3 page backing_page PAGE_SIZE vm) (\<lambda>vm'. Ok (mappings, vm')))"

subsection \<open>Operations\<close>

definition event_manager_new :: "virt \<Rightarrow> ('f event_manager \<times> virt) res" where
  "event_manager_new v =
     bind_res (AllocateStack [] v) (\<lambda>(stack, free, v').
       Ok (\<lparr>em_stack = stack, free_stacks = free, tasks = [], vector_map = \<lambda>_. None,
            vector_idx = 32, event_stack = 0\<rparr>, v'))"

definition StartProcessingEvents :: "'f event_manager \<Rightarrow> 'f event_manager" where
  "StartProcessingEvents m = m\<lparr>event_stack := stack_top (em_stack m)\<rparr>"

definition SpawnLocal :: "'f \<Rightarrow> 'f event_manager \<Rightarrow> 'f event_manager" where
  "SpawnLocal f m = m\<lparr>tasks := Func f # tasks m\<rparr>"

text \<open>\<open>SaveContext\<close> puts the running stack into the context and moves to another one.\<close>

definition SaveContext :: "'f event_manager \<times> virt \<Rightarrow> (pfn \<times> 'f event_manager \<times> virt) res" where
  "SaveContext s = (case s of (m, v) \<Rightarrow>
     let context_stack = em_stack m
     in bind_res (AllocateStack (free_stacks m) v) (\<lambda>(stack, free, v').
          Ok (context_stack, m\<lparr>em_stack := stack, free_stacks := free, event_stack := stack_top stack\<rparr>, v')))"

definition ActivateContext :: "pfn \<Rightarrow> 'f event_manager \<Rightarrow> 'f event_manager" where
  "ActivateContext context_stack m = m\<lparr>tasks := Resume context_stack # tasks m\<rparr>"

definition resume_context :: "pfn \<Rightarrow> 'f event_manager \<Rightarrow> 'f event_manager" where
  "resume_context context_stack m =
     m\<lparr>free_stacks := em_stack m # free_stacks m, em_stack := context_stack,
       event_stack := stack_top context_stack\<rparr>"

definition AllocateVector :: "'f \<Rightarrow> 'f event_manager \<Rightarrow> u8 \<times> 'f event_manager" where
  "AllocateVector f m =
     (let vec = vector_idx m;
          m = m\<lparr>vector_idx := vec + 1\<rparr>
      in (vec, m\<lparr>vector_map := (if vector_map m vec = None then (vector_map m)(vec \<mapsto> f) else vector_map m)\<rparr>))"

text \<open>What the loop \<open>Process\<close> and the interrupt entry do next: run a function, resume a context or halt.\<close>

datatype 'f outcome = Run 'f | Resumed | Halt

definition Process :: "'f event_manager \<Rightarrow> 'f outcome \<times> 'f event_manager" where
  "Process m =
     (case tasks m of
        [] \<Rightarrow> (Halt, m)
      | Func f # ts \<Rightarrow> (Run f, m\<lparr>tasks := ts\<rparr>)
      | Resume c # ts \<Rightarrow> (Resumed, resume_context c (m\<lparr>tasks := ts\<rparr>)))"

definition ProcessInterrupt :: "u32 \<Rightarrow> 'f event_manager \<Rightarrow> 'f outcome \<times> 'f event_manager" where
  "ProcessInterrupt num m =
     (case vector_map m (ucast num) of Some f \<Rightarrow> (Run f, m) | None \<Rightarrow> Process m)"

subsection \<open>The event system as a transition system\<close>

text \<open>The functions run by the loop may spawn, save and activate at will; a saved context is passed to
  \<open>ActivateContext\<close> at most once.  \<open>saved\<close> holds the contexts not activated yet.\<close>

record 'f event_system =
  mgr :: "'f event_manager"
  virt :: virt
  saved :: "pfn list"

inductive em_step :: "'f event_system \<Rightarrow> 'f event_system \<Rightarrow> bool" where
  step_spawn: "em_step s (s\<lparr>mgr := SpawnLocal f (mgr s)\<rparr>)"
| step_save: "SaveContext (mgr s, virt s) = Ok (c, m, v) \<Longrightarrow> em_step s (s\<lparr>mgr := m, virt := v, saved := c # saved s\<rparr>)"
| step_activate: "c \<in> set (saved s) \<Longrightarrow>
    em_step s (s\<lparr>mgr := ActivateContext c (mgr s), saved := remove1 c (saved s)\<rparr>)"
| step_process: "Process (mgr s) = (n, m) \<Longrightarrow> em_step s (s\<lparr>mgr := m\<rparr>)"
| step_interrupt: "ProcessInterrupt num (mgr s) = (n, m) \<Longrightarrow> em_step s (s\<lparr>mgr := m\<rparr>)"
| step_vector: "AllocateVector f (mgr s) = (vec, m) \<Longrightarrow> em_step s (s\<lparr>mgr := m\<rparr>)"

inductive_cases em_stepE: "em_step s s'"

inductive em_reachable :: "'f event_system \<Rightarrow> bool" where
  reach_init: "partition hi rs lo \<Longrightarrow> event_manager_new (rs, n) = Ok (m, v) \<Longrightarrow>
     em_reachable \<lparr>mgr = StartProcessingEvents m, virt = v, saved = []\<rparr>"
| reach_step: "em_reachable s \<Longrightarrow> em_step s s' \<Longrightarrow> em_reachable s'"

fun resume_stacks :: "'f task list \<Rightarrow> pfn list" where
  "resume_stacks [] = []"
| "resume_stacks (Func f # ts) = resume_stacks ts"
| "resume_stacks (Resume c # ts) = c # resume_stacks ts"

text \<open>Every stack in existence, by its owner: the running event, the free list, a suspended event, a
  continuation waiting to run.\<close>

definition owned_stacks :: "'f event_system \<Rightarrow> pfn list" where
  "owned_stacks s = em_stack (mgr s) # free_stacks (mgr s) @ saved s @ resume_stacks (tasks (mgr s))"

definition stack_pages :: "pfn \<Rightarrow> nat set" where
  "stack_pages p = {unat p ..< unat p + 2048}"

definition em_inv :: "'f event_system \<Rightarrow> bool" where
  "em_inv s \<longleftrightarrow> (\<exists>hi lo. partition hi (fst (virt s)) lo) \<and> distinct (owned_stacks s)
     \<and> (\<forall>p\<in>set (owned_stacks s). \<forall>x\<in>stack_pages p. handler_at (fst (virt s)) x \<noteq> None)
     \<and> (\<forall>p\<in>set (owned_stacks s). \<forall>q\<in>set (owned_stacks s). p \<noteq> q \<longrightarrow> stack_pages p \<inter> stack_pages q = {})
     \<and> event_stack (mgr s) = stack_top (em_stack (mgr s))"

subsection \<open>Stack ownership\<close>

lemma em_inv_permute:
  assumes "em_inv s" and "mset (owned_stacks s') = mset (owned_stacks s)" and "virt s' = virt s"
    and "event_stack (mgr s') = stack_top (em_stack (mgr s'))"
  shows "em_inv s'"
  using assms(1) mset_eq_imp_distinct_iff [OF assms(2)] mset_eq_setD [OF assms(2)] assms(3,4)
  by (simp add: em_inv_def)

text \<open>A stack fresh from the virtual allocator is disjoint from every stack in existence.\<close>

lemma fresh_stack:
  assumes "partition hi rs lo" and "vmem_alloc STACK_NPAGES (Some h) rs = Ok (p, rs')"
  shows "partition hi rs' lo" and "\<And>x. x \<in> stack_pages p \<Longrightarrow> handler_at rs x = None \<and> handler_at rs' x = Some h"
    and "\<And>x. handler_at rs x \<noteq> None \<Longrightarrow> handler_at rs' x \<noteq> None"
proof -
  have n: "unat STACK_NPAGES = 2048" "0 < STACK_NPAGES" by (simp_all add: STACK_NPAGES_def)
  note c = vmem_alloc_ok [OF assms(1) n(2) assms(2), unfolded n(1)]
  show "partition hi rs' lo" using c by blast
  show "handler_at rs x = None \<and> handler_at rs' x = Some h" if "x \<in> stack_pages p" for x
    using c that by (simp add: stack_pages_def)
  show "handler_at rs' x \<noteq> None" if "handler_at rs x \<noteq> None" for x using c that by simp
qed

lemma em_inv_new_stack:
  assumes "em_inv s" and "vmem_alloc STACK_NPAGES (Some h) (fst (virt s)) = Ok (p, rs')"
    and "mset (owned_stacks s') = mset (p # owned_stacks s)" and "fst (virt s') = rs'"
    and "event_stack (mgr s') = stack_top (em_stack (mgr s'))"
  shows "em_inv s'"
proof -
  obtain hi lo where part: "partition hi (fst (virt s)) lo" using assms(1) by (auto simp: em_inv_def)
  note f = fresh_stack [OF part assms(2)]
  have own: "\<forall>q\<in>set (owned_stacks s). \<forall>x\<in>stack_pages q. handler_at (fst (virt s)) x \<noteq> None"
    and dis: "distinct (owned_stacks s)" using assms(1) by (auto simp: em_inv_def)
  have sep: "stack_pages p \<inter> stack_pages q = {}" if "q \<in> set (owned_stacks s)" for q
    using own f(2) that by blast
  have "unat p \<in> stack_pages p" by (simp add: stack_pages_def)
  then have "p \<notin> set (owned_stacks s)" using sep by blast
  moreover have "set (owned_stacks s') = insert p (set (owned_stacks s))"
    using mset_eq_setD [OF assms(3)] by simp
  moreover have "distinct (owned_stacks s') = distinct (p # owned_stacks s)"
    by (rule mset_eq_imp_distinct_iff [OF assms(3)])
  ultimately show ?thesis
    using assms(1,4,5) f sep dis unfolding em_inv_def by (auto simp: Int_commute)
qed

lemma Process_owned:
  assumes "Process m = (n, m')" and "event_stack m = stack_top (em_stack m)"
  shows "mset (em_stack m' # free_stacks m' @ S @ resume_stacks (tasks m'))
      = mset (em_stack m # free_stacks m @ S @ resume_stacks (tasks m))
    \<and> event_stack m' = stack_top (em_stack m')"
  using assms by (auto simp: Process_def resume_context_def split: list.splits task.splits)

lemma em_inv_step:
  assumes "em_step s s'" and "em_inv s"
  shows "em_inv s'"
  using assms
proof (induction rule: em_step.induct)
  case (step_spawn s f)
  then show ?case
    by (intro em_inv_permute [OF step_spawn]) (simp_all add: owned_stacks_def SpawnLocal_def em_inv_def)
next
  case (step_save s c m v)
  show ?case
  proof (cases "free_stacks (mgr s)")
    case Nil
    then obtain h where a: "vmem_alloc STACK_NPAGES (Some h) (fst (virt s)) = Ok (em_stack m, fst v)"
      and m: "m = (mgr s)\<lparr>em_stack := em_stack m, free_stacks := [], event_stack := stack_top (em_stack m)\<rparr>"
      and c: "c = em_stack (mgr s)"
      using step_save(1) by (auto simp: SaveContext_def AllocateStack_def res_Ok_iff split: prod.splits)
    have st: "free_stacks m = []" "event_stack m = stack_top (em_stack m)" "tasks m = tasks (mgr s)"
      by (subst m, simp)+
    show ?thesis
      by (rule em_inv_new_stack [OF step_save(2) a]) (simp_all add: owned_stacks_def c Nil st)
  next
    case (Cons f fs)
    then have m: "m = (mgr s)\<lparr>em_stack := f, free_stacks := fs, event_stack := stack_top f\<rparr>"
      and c: "c = em_stack (mgr s)" "v = virt s"
      using step_save(1) by (auto simp: SaveContext_def AllocateStack_def res_Ok_iff)
    show ?thesis
      by (rule em_inv_permute [OF step_save(2)]) (simp_all add: m c Cons owned_stacks_def)
  qed
next
  case (step_activate c s)
  have "mset (c # remove1 c (saved s)) = mset (saved s)"
    using step_activate(1) by simp
  then show ?case
    using step_activate(2)
    by (intro em_inv_permute [OF step_activate(2)]) (simp_all add: owned_stacks_def ActivateContext_def em_inv_def)
next
  case (step_process s n m)
  have "event_stack (mgr s) = stack_top (em_stack (mgr s))" using step_process(2) by (simp add: em_inv_def)
  from Process_owned [OF step_process(1) this] show ?case
    by (intro em_inv_permute [OF step_process(2)]) (simp_all add: owned_stacks_def)
next
  case (step_interrupt num s n m)
  have ev: "event_stack (mgr s) = stack_top (em_stack (mgr s))" using step_interrupt(2) by (simp add: em_inv_def)
  show ?case
  proof (cases "vector_map (mgr s) (ucast num)")
    case None
    then have "Process (mgr s) = (n, m)" using step_interrupt(1) by (simp add: ProcessInterrupt_def)
    from Process_owned [OF this ev] show ?thesis
      by (intro em_inv_permute [OF step_interrupt(2)]) (simp_all add: owned_stacks_def)
  next
    case (Some f)
    then have "m = mgr s" using step_interrupt(1) by (simp add: ProcessInterrupt_def)
    then show ?thesis using step_interrupt(2) by simp
  qed
next
  case (step_vector f s vec m)
  then have "m = snd (AllocateVector f (mgr s))" by simp
  then show ?case using step_vector(2)
    by (intro em_inv_permute [OF step_vector(2)]) (simp_all add: owned_stacks_def AllocateVector_def Let_def em_inv_def)
qed

text \<open>C19: However functions, interrupts, saved and activated contexts interleave, every stack has one
  owner: the stack the event loop runs on, the free stacks, the stacks of suspended events and of
  continuations waiting to run are pairwise different and disjoint in virtual memory, each page has a
  fault handler, and the interrupt stack table names the top of the running stack.\<close>

theorem event_stacks_disjoint:
  assumes "em_reachable s"
  shows "em_inv s"
  using assms
proof (induction rule: em_reachable.induct)
  case (reach_init hi rs lo n m v)
  then obtain p rs' where a: "vmem_alloc STACK_NPAGES (Some n) rs = Ok (p, rs')"
    and m: "m = \<lparr>em_stack = p, free_stacks = [], tasks = [], vector_map = \<lambda>_. None, vector_idx = 32, event_stack = 0\<rparr>"
    and v: "v = (rs', Suc n)"
    by (auto simp: event_manager_new_def AllocateStack_def res_Ok_iff)
  show ?case
    using fresh_stack [OF reach_init(1) a]
    by (auto simp: em_inv_def owned_stacks_def m v StartProcessingEvents_def)
next
  case (reach_step s s')
  then show ?case by (blast intro: em_inv_step)
qed

theorem event_stacks_disjoint_witness:
  "\<exists>m v. event_manager_new (vmem_allocator_init, 0) = Ok (m :: unit event_manager, v)
     \<and> em_inv \<lparr>mgr = StartProcessingEvents m, virt = v, saved = []\<rparr>"
proof -
  obtain m :: "unit event_manager" and v where n: "event_manager_new (vmem_allocator_init, 0) = Ok (m, v)"
    by (simp add: event_manager_new_def AllocateStack_def STACK_NPAGES_def init_alloc)
  from event_stacks_disjoint [OF reach_init [OF init_partition n]] n show ?thesis by blast
qed

subsection \<open>Interrupt vectors\<close>

fun allocate_vectors :: "'f list \<Rightarrow> 'f event_manager \<Rightarrow> u8 list \<times> 'f event_manager" where
  "allocate_vectors [] m = ([], m)"
| "allocate_vectors (f # fs) m =
     (case AllocateVector f m of (v, m1) \<Rightarrow> case allocate_vectors fs m1 of (vs, m2) \<Rightarrow> (v # vs, m2))"

lemma vec_inj: "i < 256 \<Longrightarrow> 0 < i \<Longrightarrow> (of_nat (k + i) :: u8) \<noteq> of_nat k"
proof
  assume i: "i < 256" "0 < i" and "(of_nat (k + i) :: u8) = of_nat k"
  then have "(of_nat i :: u8) = 0" by simp
  then have "i mod 256 = 0" by (simp add: word_eq_unat unat_of_nat)
  then show False using i by simp
qed

lemma allocate_vectors_ok:
  assumes "vector_idx m = of_nat k" and "length fs \<le> 256"
    and "\<forall>i<length fs. vector_map m (of_nat (k + i)) = None"
  shows "fst (allocate_vectors fs m) = map (\<lambda>i. of_nat (k + i)) [0..<length fs]
    \<and> vector_idx (snd (allocate_vectors fs m)) = of_nat (k + length fs)
    \<and> (\<forall>i<length fs. vector_map (snd (allocate_vectors fs m)) (of_nat (k + i)) = Some (fs ! i))
    \<and> (\<forall>v. vector_map m v \<noteq> None \<longrightarrow> vector_map (snd (allocate_vectors fs m)) v = vector_map m v)"
  using assms
proof (induction fs arbitrary: m k)
  case (Cons f fs)
  let ?m1 = "snd (AllocateVector f m)"
  have none: "vector_map m (of_nat k) = None" using Cons.prems(3) by force
  have v: "fst (AllocateVector f m) = of_nat k" using Cons.prems(1) by (simp add: AllocateVector_def Let_def)
  have map1: "vector_map ?m1 = (vector_map m)(of_nat k \<mapsto> f)"
    using none Cons.prems(1) by (simp add: AllocateVector_def Let_def)
  have idx: "vector_idx ?m1 = of_nat (Suc k)"
    using Cons.prems(1) by (simp add: AllocateVector_def Let_def)
  have "vector_map ?m1 (of_nat (Suc k + i)) = None" if i: "i < length fs" for i
  proof -
    have "vector_map m (of_nat (k + Suc i)) = None" using Cons.prems(3) i by (metis length_Cons Suc_less_eq)
    moreover have "(of_nat (k + Suc i) :: u8) \<noteq> of_nat k" using i Cons.prems(2) by (intro vec_inj) auto
    ultimately show ?thesis unfolding map1 by (simp only: fun_upd_apply if_False add_Suc_shift add_Suc_right)
  qed
  then have IH: "fst (allocate_vectors fs ?m1) = map (\<lambda>i. of_nat (Suc k + i)) [0..<length fs]"
    "vector_idx (snd (allocate_vectors fs ?m1)) = of_nat (Suc k + length fs)"
    "\<forall>i<length fs. vector_map (snd (allocate_vectors fs ?m1)) (of_nat (Suc k + i)) = Some (fs ! i)"
    "\<forall>v. vector_map ?m1 v \<noteq> None \<longrightarrow> vector_map (snd (allocate_vectors fs ?m1)) v = vector_map ?m1 v"
    using Cons.IH [OF idx] Cons.prems(2) by auto
  have run: "allocate_vectors (f # fs) m = (of_nat k # fst (allocate_vectors fs ?m1), snd (allocate_vectors fs ?m1))"
    using v by (simp add: case_prod_beta)
  have "map (\<lambda>i. of_nat (k + i)) [0..<length (f # fs)] = of_nat k # map (\<lambda>i. of_nat (Suc k + i) :: u8) [0..<length fs]"
    by (simp add: upt_conv_Cons map_Suc_upt [symmetric] comp_def del: upt_Suc)
  moreover have "vector_map (snd (allocate_vectors fs ?m1)) (of_nat (k + i)) = Some ((f # fs) ! i)"
    if "i < length (f # fs)" for i
  proof (cases i)
    case 0
    then show ?thesis using IH(4) by (auto simp: map1)
  next
    case (Suc j)
    then show ?thesis using IH(3) that by auto
  qed
  moreover have "vector_map (snd (allocate_vectors fs ?m1)) v = vector_map m v" if "vector_map m v \<noteq> None" for v
    using IH(4) that none by (auto simp: map1 split: if_splits)
  ultimately show ?case unfolding run using IH(1,2) by simp
qed simp

text \<open>The first 224 vectors handed out are 32 to 255 in order, each runs the function it was
  allocated for.  The counter then wraps: the next 32 are the vectors of processor exceptions,
  starting with 0, and the 257th is 32 again, which keeps the function it has.\<close>

theorem AllocateVector_wraps:
  assumes "length fs = 256"
  shows "(let (vs, m) = allocate_vectors fs \<lparr>em_stack = p, free_stacks = [], tasks = [], vector_map = \<lambda>_. None, vector_idx = 32, event_stack = e\<rparr>
    in (\<forall>i<224. unat (vs ! i) = 32 + i) \<and> (\<forall>i<32. unat (vs ! (224 + i)) = i)
     \<and> (\<forall>i<256. vector_map m (vs ! i) = Some (fs ! i))
     \<and> fst (AllocateVector g m) = 32 \<and> vector_map (snd (AllocateVector g m)) 32 = Some (fs ! 0))"
proof -
  let ?m0 = "\<lparr>em_stack = p, free_stacks = [], tasks = [], vector_map = \<lambda>_. None, vector_idx = 32, event_stack = e\<rparr>"
  have k: "vector_idx ?m0 = of_nat 32" by simp
  obtain vs m where r: "allocate_vectors fs ?m0 = (vs, m)" by fastforce
  have h: "vs = map (\<lambda>i. of_nat (32 + i)) [0..<256]" "vector_idx m = of_nat (32 + 256)"
    "\<forall>i<256. vector_map m (of_nat (32 + i)) = Some (fs ! i)"
    using allocate_vectors_ok [OF k, of fs] assms by (simp_all add: r)
  have vs: "vs ! i = of_nat (32 + i)" if "i < 256" for i using that by (simp add: h(1))
  have u: "unat (of_nat x :: u8) = x mod 256" for x by (simp add: unat_of_nat)
  have "unat (vs ! i) = 32 + i" if "i < 224" for i
    using vs [of i] that u [of "32 + i"] by simp
  moreover have "unat (vs ! (224 + i)) = i" if "i < 32" for i
    using vs [of "224 + i"] that u [of "32 + (224 + i)"] by simp
  moreover have "vector_map m (vs ! i) = Some (fs ! i)" if "i < 256" for i
    using h(3) vs that by simp
  moreover have idx: "vector_idx m = 32" using h(2) by simp
  moreover have "vector_map m 32 = Some (fs ! 0)" using h(3) by (auto dest: spec [of _ 0])
  ultimately show ?thesis by (simp add: r AllocateVector_def Let_def)
qed

theorem AllocateVector_wraps_witness:
  "let (vs, m) = allocate_vectors [0..<256] \<lparr>em_stack = 0, free_stacks = [], tasks = [], vector_map = \<lambda>_. None, vector_idx = 32, event_stack = 0\<rparr>
    in unat (vs ! 224) = 0 \<and> vector_map (snd (AllocateVector 1000 m)) 32 = Some 0"
  using AllocateVector_wraps [of "[0..<256]" 0 0 1000]
  by (force simp: Let_def split: prod.splits)

end
