(* ===== verification/Bit_Fields.thy ===== *)
theory Bit_Fields
  imports Prelude
begin

text \<open>
  Bit-fields of a packed structure: the field of \<open>width\<close> bits that starts at bit \<open>pos\<close>, counted
  from the least significant bit as the x86-64 ABI lays them out.
\<close>

definition set_field :: "nat \<Rightarrow> nat \<Rightarrow> 'a::len word \<Rightarrow> 'a word \<Rightarrow> 'a word" where
  "set_field pos width v w = (w AND NOT (push_bit pos (mask width))) OR push_bit pos (take_bit width v)"

definition get_field :: "nat \<Rightarrow> nat \<Rightarrow> 'a::len word \<Rightarrow> 'a word" where
  "get_field pos width w = take_bit width (drop_bit pos w)"

named_theorems fields \<open>reading fields that were set\<close>

lemma bit_set_field:
  "bit (set_field pos width v w) n \<longleftrightarrow>
     (if pos \<le> n \<and> n < pos + width then n < LENGTH('a) \<and> bit v (n - pos) else bit w n)"
  for v w :: "'a::len word"
  by (auto simp: set_field_def bit_simps dest: bit_imp_le_length)

lemma bit_get_field: "bit (get_field pos width w) n \<longleftrightarrow> n < width \<and> bit w (pos + n)"
  for w :: "'a::len word"
  by (auto simp: get_field_def bit_simps)

lemma get_set_same [fields]:
  fixes w :: "'a::len word"
  assumes "pos + width \<le> LENGTH('a)"
  shows "get_field pos width (set_field pos width v w) = take_bit width v"
  by (rule bit_word_eqI) (use assms in \<open>auto simp: bit_get_field bit_set_field bit_take_bit_iff\<close>)

lemma get_set_other [fields]:
  fixes w :: "'a::len word"
  assumes "pos + width \<le> pos' \<or> pos' + width' \<le> pos"
  shows "get_field pos width (set_field pos' width' v w) = get_field pos width w"
  by (rule bit_word_eqI) (use assms in \<open>auto simp: bit_get_field bit_set_field\<close>)

lemma get_field_0 [fields, simp]: "get_field pos width 0 = 0"
  by (simp add: get_field_def)

end
