(* ===== verification/Cpu.thy ===== *)
theory Cpu
  imports Event_Manager Bit_Fields
begin

text \<open>
  \<open>sys/cpu.hpp\<close>, \<open>sys/cpu.cpp\<close>, \<open>sys/idt.cpp\<close>, \<open>sys/apic.cpp\<close>, \<open>sys/cpuid.cpp\<close>: the descriptor
  tables of a processor, the interrupt descriptor table, model-specific registers and interrupts
  between processors, and the feature bits.  Instructions that only load a register from memory
  (\<open>lgdt\<close>, \<open>ltr\<close>, \<open>lidt\<close>) appear through the operand they load.
\<close>

subsection \<open>Segment descriptors\<close>

definition segdesc_set :: "u8 \<Rightarrow> bool \<Rightarrow> u64 \<Rightarrow> u64" where
  "segdesc_set type longmode raw =
     set_field 47 1 1 (set_field 44 1 1 (set_field 53 1 (of_bool longmode) (set_field 40 4 (ucast type) raw)))"

definition segdesc_set_code :: "u64 \<Rightarrow> u64" where "segdesc_set_code = segdesc_set 8 True"
definition segdesc_set_data :: "u64 \<Rightarrow> u64" where "segdesc_set_data = segdesc_set 0 False"

definition tssdesc_set :: "u64 \<Rightarrow> 128 word \<Rightarrow> 128 word" where
  "tssdesc_set addr raw =
     set_field 40 4 9 (set_field 47 1 1
       (set_field 56 40 (ucast (drop_bit 24 addr)) (set_field 16 24 (ucast addr) (set_field 0 16 103 raw))))"

record task_state_segment =
  tss_rsp :: "u64 list"
  tss_ist :: "u64 list"
  tss_io_map_base :: u16

definition tss_new :: task_state_segment where
  "tss_new = \<lparr>tss_rsp = replicate 3 0, tss_ist = replicate 7 0, tss_io_map_base = 0\<rparr>"

text \<open>Entry 0 wraps to a huge index; the array has seven elements.\<close>

definition set_ist_entry :: "nat \<Rightarrow> u64 \<Rightarrow> task_state_segment \<Rightarrow> task_state_segment res" where
  "set_ist_entry entry addr t =
     defined (1 \<le> entry \<and> entry \<le> length (tss_ist t)) (Ok (t\<lparr>tss_ist := (tss_ist t)[entry - 1 := addr]\<rparr>))"

record gdt =
  gdt_null :: u64
  gdt_cs :: u64
  gdt_ds :: u64
  gdt_tss :: "128 word"

definition gdt_new :: gdt where
  "gdt_new = \<lparr>gdt_null = 0, gdt_cs = segdesc_set_code 0, gdt_ds = segdesc_set_data 0, gdt_tss = 0\<rparr>"

definition set_tss_addr :: "u64 \<Rightarrow> gdt \<Rightarrow> gdt" where
  "set_tss_addr tss_addr g = g\<lparr>gdt_tss := tssdesc_set tss_addr (gdt_tss g)\<rparr>"

text \<open>What \<open>gdt::load\<close> gives \<open>lgdt\<close> and \<open>ltr\<close>: the limit and the offset of the TSS descriptor.\<close>

definition gdt_load :: "u64 \<Rightarrow> (u16 \<times> u64) \<times> u16" where
  "gdt_load this = ((8 + 8 + 8 + 16 - 1, this), 8 + 8 + 8)"

subsection \<open>Processors\<close>

text \<open>A processor; the constructor leaves the node \<open>nid_\<close> without a value.\<close>

record cpu =
  cpu_tss :: task_state_segment
  cpu_gdt :: gdt
  cpu_index :: nat
  cpu_acpi_id :: u8
  cpu_apic_id :: u8
  cpu_nid :: "nid option"

definition MAX_NUM_CPUS :: nat where "MAX_NUM_CPUS = 256"

definition cpu_new :: "nat \<Rightarrow> u8 \<Rightarrow> u8 \<Rightarrow> cpu" where
  "cpu_new index acpi_id apic_id =
     \<lparr>cpu_tss = tss_new, cpu_gdt = gdt_new, cpu_index = index, cpu_acpi_id = acpi_id,
      cpu_apic_id = apic_id, cpu_nid = None\<rparr>"

definition cpu_init :: "u64 \<Rightarrow> u64 \<Rightarrow> cpu \<times> buddy \<Rightarrow> (cpu \<times> buddy) res" where
  "cpu_init tss_addr boot_interrupt_stack s = (case s of (c, pages) \<Rightarrow>
     let c = c\<lparr>cpu_gdt := set_tss_addr tss_addr (cpu_gdt c)\<rparr>
     in bind_res
          (if cpu_index c = 0 then Ok (boot_interrupt_stack + PAGE_SIZE, pages)
           else bind_res (AllocLocal 0 pages) (\<lambda>(page, pages').
                  kbugon (page = 0) (Ok (pfn_to_addr page + PAGE_SIZE, pages'))))
          (\<lambda>(interrupt_stack, pages'). bind_res (set_ist_entry 1 interrupt_stack (cpu_tss c))
             (\<lambda>t. Ok (c\<lparr>cpu_tss := t\<rparr>, pages'))))"

definition set_event_stack :: "u64 \<Rightarrow> cpu \<Rightarrow> cpu res" where
  "set_event_stack top_of_stack c =
     bind_res (set_ist_entry 2 top_of_stack (cpu_tss c)) (\<lambda>t. Ok (c\<lparr>cpu_tss := t\<rparr>))"

text \<open>\<open>my_node\<close> indexes the vector of processors with the running one's index; a node that was never set has no
  value.\<close>

definition my_node :: "cpu list \<Rightarrow> nat \<Rightarrow> nid res" where
  "my_node cpus my_cpu = defined (my_cpu < length cpus)
     (case cpu_nid (cpus ! my_cpu) of None \<Rightarrow> Fail Undefined | Some nid \<Rightarrow> Ok nid)"

subsection \<open>Model-specific registers and interprocessor interrupts\<close>

definition wrmsr_operands :: "u64 \<Rightarrow> u32 \<times> u32" where
  "wrmsr_operands data = (ucast data, ucast (drop_bit 32 data))"

definition rdmsr_result :: "u32 \<times> u32 \<Rightarrow> u64" where
  "rdmsr_result lh = (case lh of (low, high) \<Rightarrow> ucast low OR push_bit 32 (ucast high))"

definition DELIVERY_FIXED :: u8 where "DELIVERY_FIXED = 0"
definition DELIVERY_INIT :: u8 where "DELIVERY_INIT = 5"
definition DELIVERY_STARTUP :: u8 where "DELIVERY_STARTUP = 6"

definition MSR_IA32_APIC_BASE :: u32 where "MSR_IA32_APIC_BASE = 0x1b"
definition MSR_IA32_FS_BASE :: u32 where "MSR_IA32_FS_BASE = 0xC0000100"
definition MSR_X2APIC_IDR :: u32 where "MSR_X2APIC_IDR = 0x802"
definition MSR_X2APIC_EOI :: u32 where "MSR_X2APIC_EOI = 0x80b"
definition MSR_X2APIC_SVR :: u32 where "MSR_X2APIC_SVR = 0x80f"
definition MSR_X2APIC_ICR :: u32 where "MSR_X2APIC_ICR = 0x830"

text \<open>Registers written, in order, as pairs of index and value.\<close>

type_synonym msr_write = "u32 \<times> u64"

definition apic_init :: "u64 \<Rightarrow> msr_write list" where
  "apic_init apic_base = [(MSR_IA32_APIC_BASE, apic_base OR 0xc00), (MSR_X2APIC_SVR, 0x100)]"

definition apic_ipi :: "u8 \<Rightarrow> u8 \<Rightarrow> bool \<Rightarrow> u8 \<Rightarrow> msr_write list" where
  "apic_ipi apic_id vector level delivery_mode =
     [(MSR_X2APIC_ICR, push_bit 32 (ucast apic_id) OR push_bit 14 (of_bool level)
         OR push_bit 8 (ucast delivery_mode) OR ucast vector)]"

definition apic_get_id :: "u64 \<Rightarrow> u32" where "apic_get_id idr = ucast idr"

definition apic_eoi :: "msr_write list" where "apic_eoi = [(MSR_X2APIC_EOI, 0)]"

subsection \<open>The interrupt descriptor table\<close>

definition TYPE_INTERRUPT :: u64 where "TYPE_INTERRUPT = 0xe"

definition entry_set :: "u16 \<Rightarrow> u64 \<Rightarrow> u64 \<Rightarrow> u64 \<Rightarrow> u64 \<Rightarrow> 128 word \<Rightarrow> 128 word" where
  "entry_set selector handler type pl ist raw =
     set_field 47 1 1 (set_field 45 2 (ucast pl) (set_field 40 4 (ucast type) (set_field 32 3 (ucast ist)
       (set_field 48 48 (ucast (drop_bit 16 handler)) (set_field 0 16 (ucast (handler AND 0xFFFF))
         (set_field 16 16 (ucast selector) raw))))))"

text \<open>\<open>int_de\<close> to \<open>int_xm\<close> are the assembly entry points of the exceptions; \<open>event_entry\<close> is an array
  of 16-byte stubs.\<close>

definition exception_vectors :: "nat list" where
  "exception_vectors = [0, 1, 2, 3, 4, 5, 6, 7, 8, 10, 11, 12, 13, 14, 16, 17, 18, 19]"

definition idt_init :: "u16 \<Rightarrow> (nat \<Rightarrow> u64) \<Rightarrow> u64 \<Rightarrow> 128 word list" where
  "idt_init cs int_entry event_entry =
     (let idt = fold (\<lambda>i idt. idt[i := entry_set cs (int_entry i) TYPE_INTERRUPT 0 1 (idt ! i)])
                  exception_vectors (replicate 256 0)
      in fold (\<lambda>i idt. idt[i := entry_set cs (event_entry + (of_nat i - 32) * 16) TYPE_INTERRUPT 0 2 (idt ! i)])
           [32..<256] idt)"

text \<open>The pseudo-descriptor that \<open>idt_load\<close> loads.\<close>

definition idt_load :: "u64 \<Rightarrow> u16 \<times> u64" where "idt_load idt = (256 * 16 - 1, idt)"

text \<open>The processor's reading of a gate: present, offset, selector, stack entry, type, privilege.\<close>

definition gate_offset :: "128 word \<Rightarrow> u64" where
  "gate_offset g = ucast (get_field 0 16 g) OR push_bit 16 (ucast (get_field 48 16 g)) OR push_bit 32 (ucast (get_field 64 32 g))"

definition gate :: "128 word \<Rightarrow> bool \<times> u64 \<times> u16 \<times> nat \<times> nat \<times> nat" where
  "gate g = (bit g 47, gate_offset g, ucast (get_field 16 16 g), unat (get_field 32 3 g),
     unat (get_field 40 4 g), unat (get_field 45 2 g))"

subsection \<open>Processor features\<close>

record cpuid_result =
  r_eax :: u32
  r_ebx :: u32
  r_ecx :: u32
  r_edx :: u32

record cpuid_features =
  x2apic :: bool
  kvm_pv_eoi :: bool
  kvm_clocksource2 :: bool

datatype feature = X2apic | Kvm_pv_eoi | Kvm_clocksource2

fun set_feature :: "feature \<Rightarrow> bool \<Rightarrow> cpuid_features \<Rightarrow> cpuid_features" where
  "set_feature X2apic b f = f\<lparr>x2apic := b\<rparr>"
| "set_feature Kvm_pv_eoi b f = f\<lparr>kvm_pv_eoi := b\<rparr>"
| "set_feature Kvm_clocksource2 b f = f\<lparr>kvm_clocksource2 := b\<rparr>"

type_synonym vendor_id = "u32 \<times> u32 \<times> u32"   \<comment> \<open>\<open>ebx\<close>, \<open>ecx\<close>, \<open>edx\<close>\<close>

definition kvm_vendor_id :: vendor_id where "kvm_vendor_id = (0x4b4d564b, 0x564b4d56, 0x4d)"

record cpuid_bit =
  cb_leaf :: u32
  cb_reg :: nat
  cb_bit :: nat
  cb_flag :: feature
  cb_vendor :: "vendor_id option"

definition cpuid_bits :: "cpuid_bit list" where
  "cpuid_bits =
     [\<lparr>cb_leaf = 1, cb_reg = 2, cb_bit = 21, cb_flag = X2apic, cb_vendor = None\<rparr>,
      \<lparr>cb_leaf = 0x40000001, cb_reg = 0, cb_bit = 6, cb_flag = Kvm_pv_eoi, cb_vendor = Some kvm_vendor_id\<rparr>,
      \<lparr>cb_leaf = 0x40000001, cb_reg = 0, cb_bit = 3, cb_flag = Kvm_clocksource2, cb_vendor = Some kvm_vendor_id\<rparr>]"

definition cpuid_step :: "(u32 \<Rightarrow> cpuid_result) \<Rightarrow> cpuid_bit \<Rightarrow> cpuid_features \<Rightarrow> cpuid_features" where
  "cpuid_step cpuid b features =
     (let vals = cpuid (cb_leaf b AND 0xf0000000)
      in if (case cb_vendor b of None \<Rightarrow> False | Some v \<Rightarrow> (r_ebx vals, r_ecx vals, r_edx vals) \<noteq> v) then features
         else let eax = (if cb_leaf b AND 0xf0000000 = 0x40000000 \<and> cb_vendor b = Some kvm_vendor_id \<and> r_eax vals = 0
                         then 0x40000001 else r_eax vals)
              in if cb_leaf b > eax then features
                 else let res = cpuid (cb_leaf b);
                          val = [r_eax res, r_ebx res, r_ecx res, r_edx res] ! cb_reg b
                      in set_feature (cb_flag b) (drop_bit (cb_bit b) val AND 1 \<noteq> 0) features)"

definition cpuid_init :: "(u32 \<Rightarrow> cpuid_result) \<Rightarrow> cpuid_features \<Rightarrow> cpuid_features" where
  "cpuid_init cpuid features = fold (cpuid_step cpuid) cpuid_bits features"

text \<open>\<open>disable_pic\<close>: the ports written, or the abort without x2APIC.\<close>

definition disable_pic :: "cpuid_features \<Rightarrow> (u16 \<times> u8) list res" where
  "disable_pic features = (if \<not> x2apic features then Fail Aborted else Ok [(0x21, 0xff), (0xa1, 0xff)])"


subsection \<open>Lemmas\<close>

lemma nth_fold_update:
  assumes "distinct is" and "n < length xs"
  shows "fold (\<lambda>i l. l[i := g i (l ! i)]) is xs ! n = (if n \<in> set is then g n (xs ! n) else xs ! n)
    \<and> length (fold (\<lambda>i l. l[i := g i (l ! i)]) is xs) = length xs"
  using assms
proof (induction "is" arbitrary: xs)
  case (Cons i "is")
  then show ?case by (cases "n = i") (auto simp: nth_list_update)
qed simp

lemma word_low16: "(0xFFFF :: u64) = mask 16"
  by (simp add: mask_eq_exp_minus_1)

lemma gate_offset_entry_set: "gate_offset (entry_set cs h t pl ist 0) = h"
  unfolding gate_offset_def entry_set_def word_low16
  by (rule bit_word_eqI)
    (auto simp: bit_simps bit_mask_iff bit_get_field bit_set_field simp del: mask_numeral dest: bit_imp_le_length)

lemma gate_entry_set:
  "gate (entry_set cs h t pl ist 0) =
     (True, h, cs, unat (take_bit 3 ist), unat (take_bit 4 t), unat (take_bit 2 pl))"
proof -
  have "unat (take_bit k (ucast v :: 128 word)) = unat (take_bit k v)" if "k \<le> 64" for k and v :: u64
    using that by (simp add: unsigned_take_bit_eq unsigned_ucast_eq take_bit_nat_eq_self min_absorb1)
  moreover have "ucast (take_bit 16 (ucast cs :: 128 word)) = cs"
    by (rule bit_word_eqI) (auto simp: bit_simps dest: bit_imp_le_length)
  ultimately show ?thesis
    by (simp add: gate_def gate_offset_entry_set)
      (simp add: entry_set_def fields bit_set_field)
qed

lemma exception_vectors_small: "n \<in> set exception_vectors \<Longrightarrow> n < 32"
  by (auto simp: exception_vectors_def)

lemma idt_init_nth:
  assumes "n < 256"
  shows "idt_init cs ie ee ! n =
    (if n \<in> set exception_vectors then entry_set cs (ie n) TYPE_INTERRUPT 0 1 0
     else if 32 \<le> n then entry_set cs (ee + (of_nat n - 32) * 16) TYPE_INTERRUPT 0 2 0 else 0)"
proof -
  let ?g1 = "\<lambda>i w. entry_set cs (ie i) TYPE_INTERRUPT 0 1 w"
  let ?g2 = "\<lambda>i w. entry_set cs (ee + (of_nat i - 32) * 16) TYPE_INTERRUPT 0 2 w"
  let ?f1 = "fold (\<lambda>i idt. idt[i := ?g1 i (idt ! i)]) exception_vectors (replicate 256 0)"
  have d: "distinct exception_vectors" by (simp add: exception_vectors_def)
  have l: "n < length (replicate 256 (0 :: 128 word))" using assms by (simp only: length_replicate)
  note f1 = nth_fold_update [OF d l, of ?g1]
  then have l1: "n < length ?f1" using l by linarith
  note f2 = nth_fold_update [OF distinct_upt l1, of ?g2 32 256]
  have "idt_init cs ie ee ! n =
      (if n \<in> set [32..<256] then ?g2 n (?f1 ! n) else ?f1 ! n)"
    unfolding idt_init_def Let_def by (rule conjunct1 [OF f2])
  also have "?f1 ! n = (if n \<in> set exception_vectors then ?g1 n 0 else 0)"
    using conjunct1 [OF f1] assms by (simp only: nth_replicate)
  also have "n \<in> set [32..<256] \<longleftrightarrow> 32 \<le> n"
    using assms by (simp only: set_upt atLeastLessThan_iff simp_thms)
  finally show ?thesis using exception_vectors_small [of n] by auto
qed

lemma rdmsr_wrmsr: "rdmsr_result (wrmsr_operands v) = v"
  unfolding rdmsr_result_def wrmsr_operands_def prod.case
  by (rule bit_word_eqI) (auto simp: bit_simps dest: bit_imp_le_length)

lemma set_feature_sel:
  "x2apic (set_feature X2apic b f) = b" "x2apic (set_feature Kvm_pv_eoi b f) = x2apic f"
  "x2apic (set_feature Kvm_clocksource2 b f) = x2apic f" "kvm_clocksource2 (set_feature X2apic b f) = kvm_clocksource2 f"
  "kvm_clocksource2 (set_feature Kvm_pv_eoi b f) = kvm_clocksource2 f"
  "kvm_clocksource2 (set_feature Kvm_clocksource2 b f) = b" "kvm_pv_eoi (set_feature X2apic b f) = kvm_pv_eoi f"
  "kvm_pv_eoi (set_feature Kvm_pv_eoi b f) = b" "kvm_pv_eoi (set_feature Kvm_clocksource2 b f) = kvm_pv_eoi f"
  by simp_all

subsection \<open>Properties\<close>

text \<open>Every gate of the interrupt descriptor table, read the way the processor reads it, is as
  intended: exception vectors go to their entry point on interrupt stack 1, vectors 32 to 255 to
  their 16-byte stub on interrupt stack 2, all others are not present.\<close>

theorem idt_gates:
  assumes "n < 256"
  shows "gate (idt_init cs int_entry event_entry ! n) =
    (if n \<in> set exception_vectors then (True, int_entry n, cs, 1, 14, 0)
     else if 32 \<le> n then (True, event_entry + (of_nat n - 32) * 16, cs, 2, 14, 0)
     else (False, 0, 0, 0, 0, 0))"
proof -
  have "gate 0 = (False, 0, 0, 0, 0, 0)" by (simp add: gate_def gate_offset_def)
  moreover have "unat (take_bit 3 1 :: u64) = 1" "unat (take_bit 3 2 :: u64) = 2"
    "unat (take_bit 4 TYPE_INTERRUPT) = 14" by (simp_all add: TYPE_INTERRUPT_def)
  ultimately show ?thesis
    unfolding idt_init_nth [OF assms] by (simp add: gate_entry_set)
qed

theorem idt_gates_witness:
  "gate (idt_init 8 (\<lambda>n. of_nat n) 0x100000 ! 33) = (True, 0x100010, 8, 2, 14, 0)"
proof -
  have "(33::nat) < 256" "33 \<notin> set exception_vectors" "(32::nat) \<le> 33"
    using exception_vectors_small [of 33] by auto
  with idt_gates [of 33 8 "\<lambda>n. of_nat n" "0x100000"] show ?thesis by simp
qed

text \<open>Initialising a processor other than the first takes a page for its exception stack and
  points entry 1 of its interrupt stack table to the page's end; when the node has no free page
  the check \<open>page == 0\<close> does not see the failure value \<open>NO_PFN\<close>, and the processor runs with the
  exception stack pointer 0.\<close>

theorem cpu_init_interrupt_stack:
  assumes "buddy_inv {} A pages" and "0 \<notin> free_frames (fst pages)"
    and "cpu_index c \<noteq> 0" and "length (tss_ist (cpu_tss c)) = 7"
  shows "\<exists>c' pages'. cpu_init tss_addr boot (c, pages) = Ok (c', pages') \<and>
    ((\<exists>p. p \<noteq> NO_PFN \<and> AllocLocal 0 pages = Ok (p, pages') \<and> unat p \<in> free_frames (fst pages) \<and>
          buddy_inv {} (insert (p, 0) A) pages' \<and> tss_ist (cpu_tss c') ! 0 = pfn_to_addr p + PAGE_SIZE)
     \<or> (\<forall>k\<le>MAX_ORDER. fst pages k = []) \<and> pages' = pages \<and> tss_ist (cpu_tss c') ! 0 = 0)"
  using AllocLocal_ok [OF assms(1), of 0]
proof (elim disjE exE conjE)
  assume "AllocLocal 0 pages = Ok (NO_PFN, pages)" "\<forall>k. 0 \<le> k \<and> k \<le> MAX_ORDER \<longrightarrow> fst pages k = []"
  moreover have "pfn_to_addr NO_PFN + PAGE_SIZE = 0" "NO_PFN \<noteq> 0"
    by (simp_all add: NO_PFN_def pfn_to_addr_def PAGE_SIZE_def PAGE_SHIFT_def mask_eq_exp_minus_1)
  ultimately show ?thesis using assms(3,4) by (simp add: cpu_init_def set_ist_entry_def)
next
  fix p s' assume a: "AllocLocal 0 pages = Ok (p, s')" "p \<noteq> NO_PFN" "buddy_inv {} (insert (p, 0) A) s'"
    "block (p, 0) \<subseteq> free_frames (fst pages)"
  moreover from a(4) have "unat p \<in> free_frames (fst pages)" by (simp add: block_def)
  moreover from this have "p \<noteq> 0" using assms(2) by auto
  ultimately show ?thesis using assms(3,4) by (simp add: cpu_init_def set_ist_entry_def)
qed

theorem cpu_init_interrupt_stack_witness:
  "\<exists>c' pages'. cpu_init 0x200000 0x300000 (cpu_new 1 1 1, small_node) = Ok (c', pages')
     \<and> buddy_inv {} {(4, 0)} pages' \<and> tss_ist (cpu_tss c') ! 0 = 0x5000"
proof -
  have "0 \<notin> free_frames (fst small_node)"
    by (auto simp: small_node_def free_frames_def free_blocks_def block_def split: if_splits)
  moreover have "pfn_to_addr 4 + PAGE_SIZE = 0x5000" by (simp add: pfn_to_addr_def PAGE_SIZE_def PAGE_SHIFT_def)
  moreover have "\<not> (\<forall>k\<le>MAX_ORDER. fst small_node k = [])"
    by (auto simp: small_node_def MAX_ORDER_def intro!: exI [of _ 2])
  ultimately show ?thesis
    using cpu_init_interrupt_stack [OF small_inv, of "cpu_new 1 1 1" "0x200000" "0x300000"]
    by (auto simp: small_alloc NO_PFN_def cpu_new_def tss_new_def)
qed

text \<open>The feature bits come from the processor: x2APIC always from leaf 1, the two KVM bits only
  when the hypervisor's signature is KVM's, where the leaf limit 0 of old versions of KVM counts as
  leaf 1 of the range; \<open>disable_pic\<close> aborts exactly when x2APIC is absent.\<close>

theorem cpuid_features_correct:
  "let f = cpuid_init cpuid \<lparr>x2apic = False, kvm_pv_eoi = False, kvm_clocksource2 = False\<rparr>;
       v = cpuid 0x40000000;
       kvm = (r_ebx v, r_ecx v, r_edx v) = kvm_vendor_id \<and> (r_eax v = 0 \<or> 0x40000001 \<le> r_eax v)
   in x2apic f = (r_eax (cpuid 0) \<noteq> 0 \<and> bit (r_ecx (cpuid 1)) 21)
     \<and> kvm_pv_eoi f = (kvm \<and> bit (r_eax (cpuid 0x40000001)) 6)
     \<and> kvm_clocksource2 f = (kvm \<and> bit (r_eax (cpuid 0x40000001)) 3)
     \<and> (disable_pic f = Fail Aborted) = (\<not> x2apic f)"
proof -
  have b: "drop_bit n w AND 1 \<noteq> 0 \<longleftrightarrow> bit w n" for n and w :: u32
    by (simp add: and_one_eq bit_iff_odd_drop_bit odd_iff_mod_2_eq_one)
  show ?thesis
    unfolding cpuid_init_def cpuid_bits_def Let_def
    by (auto simp: cpuid_step_def b set_feature_sel Let_def disable_pic_def linorder_not_less)
qed

end
