(* ===== verification/Slab.thy ===== *)
theory Slab
  imports Page_Allocator
begin

text \<open>
  \<open>sys/slab_allocator.hpp\<close>, \<open>sys/slab_allocator.cpp\<close>: the slab allocator.  The state is that of one
  \<open>SlabAllocatorRoot\<close>: its caches (one per processor and one per node), the slab data of the page
  structures, and the page allocators.  A \<open>SlabCache\<close> pointer is the cache's identity, an object is
  its address, and the null pointer is 0.  The locks make each operation one step.  Memory for
  allocators created on demand comes from other roots; whether that allocation succeeds is
  part of the environment.  \<open>SlabCache::Alloc\<close> loops, and not returning is the value \<open>None\<close>.
\<close>

subsection \<open>Slab sizes\<close>

function slab_order_loop :: "u64 \<Rightarrow> nat \<Rightarrow> u64 \<Rightarrow> nat \<Rightarrow> nat" where
  "slab_order_loop sz max_order frac order =
     (if order \<le> max_order
      then let slab_size = push_bit order PAGE_SIZE;
               objects = slab_size div sz;
               waste = slab_size - objects * sz
           in if waste * frac \<le> slab_size then order
              else slab_order_loop sz max_order frac (Suc order)
      else order)"
  by pat_completeness auto
termination by (relation "measure (\<lambda>(s, m, f, k). Suc m - k)") auto

declare slab_order_loop.simps [simp del]

definition slab_order :: "u64 \<Rightarrow> nat \<Rightarrow> u64 \<Rightarrow> nat res" where
  "slab_order sz max_order frac =
     bind_res (fls (sz - 1)) (\<lambda>f.
       let order = (if f < PAGE_SHIFT then 0 else f - PAGE_SHIFT + 1)
       in Ok (slab_order_loop sz max_order frac order))"

definition calculate_order :: "u64 \<Rightarrow> nat res" where
  "calculate_order sz =
     bind_res (slab_order sz 1 4) (\<lambda>order.
       if order \<le> 1 then Ok order
       else bind_res (slab_order sz MAX_ORDER 0) (\<lambda>order. kbugon (order > MAX_ORDER) (Ok order)))"

definition calculate_freebatch :: "u64 \<Rightarrow> u64" where
  "calculate_freebatch sz = max (4 * PAGE_SIZE div sz) (min 256 (64 * PAGE_SIZE div sz))"

definition addr_to_slab_pfn :: "u64 \<Rightarrow> nat \<Rightarrow> pfn" where
  "addr_to_slab_pfn addr order = align_down (pfn_down addr) (push_bit order 1)"

record slab_root =
  sr_align :: u64
  sr_size :: u64
  sr_order :: nat
  sr_free_batch :: u64
  sr_hiwater :: u64

definition SlabAllocatorRoot :: "u64 \<Rightarrow> u64 \<Rightarrow> slab_root res" where
  "SlabAllocatorRoot size_in align_in =
     (let align = align_up (max align_in 8) 8;
          sz = align_up (max size_in 8) align
      in bind_res (calculate_order sz) (\<lambda>order.
           let free_batch = calculate_freebatch sz
           in Ok \<lparr>sr_align = align, sr_size = sz, sr_order = order, sr_free_batch = free_batch,
                 sr_hiwater = free_batch * 4\<rparr>))"

definition num_objects_per_slab :: "slab_root \<Rightarrow> u64" where
  "num_objects_per_slab r = push_bit (sr_order r) PAGE_SIZE div sr_size r"

definition MAX_SLAB_SIZE :: u64 where "MAX_SLAB_SIZE = push_bit (PAGE_SHIFT + MAX_ORDER) 1"

subsection \<open>State\<close>

datatype cache_id = Cpu_Cache nat | Node_Cache nat

record slab_cache =
  object_list :: "u64 list"
  partial_page_list :: "pfn list"
  remote_objects :: "u64 list"
  remote_check :: bool

text \<open>A pointer to a cache is the number of its root with the cache's identity in that root; the
  operations of one root compare only the latter.\<close>

record slab_data =
  sd_list :: "u64 list"
  sd_cache :: "cache_id option"
  sd_root :: nat
  sd_used :: nat

record slab_allocator =
  sa_remote_list :: "u64 list"
  sa_remote_cache :: "cache_id option"

record slab =
  slab_number :: nat
  caches :: "cache_id \<Rightarrow> slab_cache"
  cpu_allocators :: "nat \<Rightarrow> slab_allocator option"
  node_allocators :: "nat \<Rightarrow> bool"
  slab_pages :: "pfn \<Rightarrow> slab_data"
  frames :: page_allocators

record env =
  my_cpu :: nat
  my_nid :: nid
  new_ok :: bool   \<comment> \<open>\<open>operator new\<close> of an allocator finds memory\<close>

definition SlabCache_new :: slab_cache where
  "SlabCache_new = \<lparr>object_list = [], partial_page_list = [], remote_objects = [], remote_check = False\<rparr>"

definition SlabAllocator_new :: slab_allocator where
  "SlabAllocator_new = \<lparr>sa_remote_list = [], sa_remote_cache = None\<rparr>"

definition set_cache :: "cache_id \<Rightarrow> slab_cache \<Rightarrow> slab \<Rightarrow> slab" where
  "set_cache c v s = s\<lparr>caches := (caches s)(c := v)\<rparr>"

definition set_allocator :: "nat \<Rightarrow> slab_allocator \<Rightarrow> slab \<Rightarrow> slab" where
  "set_allocator i v s = s\<lparr>cpu_allocators := (cpu_allocators s)(i \<mapsto> v)\<rparr>"

definition set_data :: "pfn \<Rightarrow> slab_data \<Rightarrow> slab \<Rightarrow> slab" where
  "set_data p v s = s\<lparr>slab_pages := (slab_pages s)(p := v)\<rparr>"

text \<open>\<open>pfn_to_page\<close> followed by the assertion that the result is not null.\<close>

definition require_page :: "pfn \<Rightarrow> slab \<Rightarrow> 'a res \<Rightarrow> 'a res" where
  "require_page pfn s k = bind_res (page_at (page_map (frames s)) pfn) (\<lambda>page. kassert (page \<noteq> None) k)"

subsection \<open>Allocators created on demand\<close>

definition get_cpu_allocator :: "env \<Rightarrow> nat \<Rightarrow> slab \<Rightarrow> slab res" where
  "get_cpu_allocator e i s =
     (case cpu_allocators s i of
        Some _ \<Rightarrow> Ok s
      | None \<Rightarrow> if new_ok e then Ok (set_cache (Cpu_Cache i) SlabCache_new (set_allocator i SlabAllocator_new s))
                else Fail Thrown)"

text \<open>The pointers of \<open>get_node_allocator\<close>: the value loaded first, the allocator constructed when
  that is null, and the value that the compare-and-exchange finds and stores back into
  \<open>allocator\<close> when it fails.  The result is the allocator returned and the one deleted.\<close>

definition get_node_allocator_ptr :: "'p option \<Rightarrow> 'p \<Rightarrow> 'p option \<Rightarrow> 'p option \<times> 'p option" where
  "get_node_allocator_ptr loaded new_allocator at_exchange =
     (case loaded of
        Some a \<Rightarrow> (Some a, None)
      | None \<Rightarrow> (case at_exchange of
                    None \<Rightarrow> (Some new_allocator, None)
                  | Some allocator \<Rightarrow> (Some allocator, Some allocator)))"

text \<open>Without another processor in between, the exchange succeeds.\<close>

definition get_node_allocator :: "env \<Rightarrow> nat \<Rightarrow> slab \<Rightarrow> slab res" where
  "get_node_allocator e n s =
     (if node_allocators s n then Ok s
      else if new_ok e
      then Ok (set_cache (Node_Cache n) SlabCache_new (s\<lparr>node_allocators := (node_allocators s)(n := True)\<rparr>))
      else Fail Thrown)"

subsection \<open>Objects freed on another node or processor\<close>

definition FlushRemoteList :: "slab_root \<Rightarrow> nat \<Rightarrow> slab \<Rightarrow> slab res" where
  "FlushRemoteList r i s =
     (case cpu_allocators s i of
        None \<Rightarrow> Fail Undefined
      | Some a \<Rightarrow> (case sa_remote_cache a of
          None \<Rightarrow> Ok s
        | Some c \<Rightarrow>
            let rc = caches s c;
                list = remote_objects rc;
                list' = (case list of [] \<Rightarrow> sa_remote_list a | x # xs \<Rightarrow> x # sa_remote_list a @ xs);
                flush_watermark = unat (sr_free_batch r);
                check = (if length list < flush_watermark \<and> length list' \<ge> flush_watermark then True else remote_check rc)
            in Ok (set_allocator i (a\<lparr>sa_remote_list := []\<rparr>)
                    (set_cache c (rc\<lparr>remote_objects := list', remote_check := check\<rparr>) s))))"

definition push_remote :: "slab_root \<Rightarrow> nat \<Rightarrow> u64 \<Rightarrow> slab \<Rightarrow> slab res" where
  "push_remote r i p s =
     (case cpu_allocators s i of
        None \<Rightarrow> Fail Undefined
      | Some a \<Rightarrow>
          let l = p # sa_remote_list a;
              s' = set_allocator i (a\<lparr>sa_remote_list := l\<rparr>) s
          in if length l > unat (sr_free_batch r) then FlushRemoteList r i s' else Ok s')"

definition FreeRemote :: "slab_root \<Rightarrow> nat \<Rightarrow> u64 \<Rightarrow> slab \<Rightarrow> slab res" where
  "FreeRemote r i p s =
     require_page (pfn_down p) s
       (case cpu_allocators s i of
          None \<Rightarrow> Fail Undefined
        | Some a \<Rightarrow>
            let c = sd_cache (slab_pages s (pfn_down p))
            in bind_res
                 (if c \<noteq> sa_remote_cache a
                  then bind_res (FlushRemoteList r i s) (\<lambda>s1. case cpu_allocators s1 i of
                         None \<Rightarrow> Fail Undefined
                       | Some a1 \<Rightarrow> Ok (set_allocator i (a1\<lparr>sa_remote_cache := c\<rparr>) s1))
                  else Ok s)
                 (push_remote r i p))"

subsection \<open>Caches\<close>

definition erase_partial :: "pfn \<Rightarrow> cache_id \<Rightarrow> slab \<Rightarrow> slab res" where
  "erase_partial pfn c s =
     defined (pfn \<in> set (partial_page_list (caches s c)))
       (Ok (set_cache c ((caches s c)\<lparr>partial_page_list := remove1 pfn (partial_page_list (caches s c))\<rparr>) s))"

definition push_partial :: "pfn \<Rightarrow> cache_id \<Rightarrow> slab \<Rightarrow> slab res" where
  "push_partial pfn c s =
     defined (pfn \<notin> set (partial_page_list (caches s c)))
       (Ok (set_cache c ((caches s c)\<lparr>partial_page_list := pfn # partial_page_list (caches s c)\<rparr>) s))"

text \<open>\<open>page_allocator->Free\<close> acts on the allocator of the running processor's node.\<close>

definition free_slab :: "env \<Rightarrow> pfn \<Rightarrow> nat \<Rightarrow> slab \<Rightarrow> slab res" where
  "free_slab e pfn order s =
     bind_res (on_allocator (\<lambda>b. bind_res (Free pfn order b) (\<lambda>b'. Ok ((), b'))) (my_nid e) (frames s))
       (\<lambda>(_, fs). Ok (s\<lparr>frames := fs\<rparr>))"

text \<open>The branch of \<open>FlushFreeList\<close> for an object of the cache's own slab.\<close>

definition return_to_slab :: "env \<Rightarrow> slab_root \<Rightarrow> cache_id \<Rightarrow> u64 \<Rightarrow> pfn \<Rightarrow> slab \<Rightarrow> slab res" where
  "return_to_slab e r c obj pfn s =
     (let d = slab_pages s pfn;
          used = (if sd_used d = 0 then 2 ^ 64 - 1 else sd_used d - 1);
          s1 = set_data pfn (d\<lparr>sd_list := obj # sd_list d, sd_used := used\<rparr>) s
      in if used = 0 then
           bind_res (if num_objects_per_slab r > 1 then erase_partial pfn c s1 else Ok s1)
             (free_slab e pfn (sr_order r))
         else if used + 1 = unat (num_objects_per_slab r) then push_partial pfn c s1
         else Ok s1)"

definition flush_object :: "env \<Rightarrow> slab_root \<Rightarrow> cache_id \<Rightarrow> u64 \<Rightarrow> slab \<Rightarrow> slab res" where
  "flush_object e r c obj s =
     (let pfn = addr_to_slab_pfn obj (sr_order r)
      in require_page pfn s
           (if sd_cache (slab_pages s pfn) \<noteq> Some c
            then bind_res (get_cpu_allocator e (my_cpu e) s) (FreeRemote r (my_cpu e) obj)
            else return_to_slab e r c obj pfn s))"

primrec FlushFreeList :: "env \<Rightarrow> slab_root \<Rightarrow> cache_id \<Rightarrow> nat \<Rightarrow> slab \<Rightarrow> slab res" where
  "FlushFreeList e r c 0 s = Ok s"
| "FlushFreeList e r c (Suc n) s =
     (case object_list (caches s c) of
        [] \<Rightarrow> Ok s
      | obj # rest \<Rightarrow>
          bind_res (flush_object e r c obj (set_cache c ((caches s c)\<lparr>object_list := rest\<rparr>) s))
            (FlushFreeList e r c n))"

definition FlushFreeListAll :: "env \<Rightarrow> slab_root \<Rightarrow> cache_id \<Rightarrow> slab \<Rightarrow> slab res" where
  "FlushFreeListAll e r c s = FlushFreeList e r c (2 ^ 64 - 1) s"

text \<open>Splicing after \<open>end()\<close> is not a position the list's contract allows.\<close>

definition ClaimRemoteFreeList :: "cache_id \<Rightarrow> slab \<Rightarrow> slab res" where
  "ClaimRemoteFreeList c s =
     (let ch = caches s c
      in if object_list ch = []
         then Ok (set_cache c (ch\<lparr>object_list := remote_objects ch, remote_objects := []\<rparr>) s)
         else Fail Undefined)"

definition alloc_from_partial :: "slab_root \<Rightarrow> cache_id \<Rightarrow> slab \<Rightarrow> (u64 \<times> slab) res" where
  "alloc_from_partial r c s =
     (let ch = caches s c
      in case partial_page_list ch of
           [] \<Rightarrow> Ok (0, s)
         | page # pages \<Rightarrow>
             let d = slab_pages s page
             in kassert (sd_used d < unat (num_objects_per_slab r))
                  (let s1 = (if sd_used d + 1 = unat (num_objects_per_slab r)
                             then set_cache c (ch\<lparr>partial_page_list := pages\<rparr>) s else s)
                   in kassert (sd_list d \<noteq> [])
                        (Ok (hd (sd_list d),
                             set_data page (d\<lparr>sd_used := sd_used d + 1, sd_list := tl (sd_list d)\<rparr>) s1))))"

text \<open>The loop that flushes a claimed list down to the high-water mark.\<close>

partial_function (option) trim_free_list :: "env \<Rightarrow> slab_root \<Rightarrow> cache_id \<Rightarrow> slab \<Rightarrow> slab res option" where
  "trim_free_list e r c s =
     (if length (object_list (caches s c)) > unat (sr_hiwater r)
      then (case FlushFreeList e r c (unat (sr_free_batch r)) s of
              Fail x \<Rightarrow> Some (Fail x)
            | Ok s1 \<Rightarrow> trim_free_list e r c s1)
      else Some (Ok s))"

partial_function (option) SlabCache_Alloc :: "env \<Rightarrow> slab_root \<Rightarrow> cache_id \<Rightarrow> slab \<Rightarrow> (u64 \<times> slab) res option" where
  "SlabCache_Alloc e r c s =
     (case object_list (caches s c) of
        ret # rest \<Rightarrow> Some (Ok (ret, set_cache c ((caches s c)\<lparr>object_list := rest\<rparr>) s))
      | [] \<Rightarrow>
          if remote_check (caches s c)
          then (case ClaimRemoteFreeList c s of
                  Fail x \<Rightarrow> Some (Fail x)
                | Ok s1 \<Rightarrow> Option.bind (trim_free_list e r c s1) (\<lambda>t. case t of
                    Fail x \<Rightarrow> Some (Fail x)
                  | Ok s2 \<Rightarrow> SlabCache_Alloc e r c s2))
          else Some (alloc_from_partial r c s))"

definition SlabCache_Free :: "env \<Rightarrow> slab_root \<Rightarrow> cache_id \<Rightarrow> u64 \<Rightarrow> slab \<Rightarrow> slab res" where
  "SlabCache_Free e r c p s =
     (let s1 = set_cache c ((caches s c)\<lparr>object_list := p # object_list (caches s c)\<rparr>) s
      in if length (object_list (caches s1 c)) > unat (sr_hiwater r)
         then FlushFreeList e r c (unat (sr_free_batch r)) s1 else Ok s1)"

text \<open>The loop of \<open>AddSlab\<close>: \<open>n\<close> is the number of objects left before \<open>end\<close>.\<close>

primrec add_objects :: "slab_root \<Rightarrow> cache_id \<Rightarrow> pfn \<Rightarrow> nat \<Rightarrow> u64 \<Rightarrow> slab \<Rightarrow> slab res" where
  "add_objects r c pfn 0 addr s = Ok s"
| "add_objects r c pfn (Suc n) addr s =
     (let d = slab_pages s pfn;
          s1 = set_data pfn (d\<lparr>sd_list := addr # sd_list d\<rparr>) s
      in require_page (pfn_down addr) s1
           (add_objects r c pfn n (addr + sr_size r)
              (set_data (pfn_down addr) ((slab_pages s1 (pfn_down addr))\<lparr>sd_cache := Some c, sd_root := slab_number s\<rparr>) s1)))"

definition AddSlab :: "slab_root \<Rightarrow> cache_id \<Rightarrow> pfn \<Rightarrow> slab \<Rightarrow> slab res" where
  "AddSlab r c pfn s =
     bind_res (page_at (page_map (frames s)) pfn) (\<lambda>page.
       case page of
         None \<Rightarrow> Fail Assert_Failed
       | Some m \<Rightarrow>
           let s1 = s\<lparr>frames := (frames s)\<lparr>page_map := (page_map (frames s))(pfn \<mapsto> m\<lparr>pg_usage := SLAB_ALLOCATOR\<rparr>)\<rparr>\<rparr>;
               s2 = set_data pfn ((slab_pages s1 pfn)\<lparr>sd_list := [], sd_used := 0\<rparr>) s1
           in bind_res (add_objects r c pfn (unat (num_objects_per_slab r)) (pfn_to_addr pfn) s2)
                (push_partial pfn c))"

subsection \<open>Allocators\<close>

text \<open>The part that \<open>SlabAllocator::Alloc\<close> and \<open>SlabAllocatorNode::Alloc\<close> share: the cache, then a
  new slab from node \<open>nid\<close>.\<close>

definition alloc_or_grow :: "env \<Rightarrow> slab_root \<Rightarrow> cache_id \<Rightarrow> nid \<Rightarrow> slab \<Rightarrow> (u64 \<times> slab) res option" where
  "alloc_or_grow e r c nid s =
     Option.bind (SlabCache_Alloc e r c s) (\<lambda>t. case t of
       Fail x \<Rightarrow> Some (Fail x)
     | Ok (ret, s1) \<Rightarrow>
         if ret \<noteq> 0 then Some (Ok (ret, s1))
         else (case Alloc (sr_order r) nid (frames s1) of
                 Fail x \<Rightarrow> Some (Fail x)
               | Ok (pfn, fs) \<Rightarrow>
                   let s2 = s1\<lparr>frames := fs\<rparr>
                   in if pfn = NO_PFN then Some (Ok (0, s2))
                      else (case AddSlab r c pfn s2 of
                              Fail x \<Rightarrow> Some (Fail x)
                            | Ok s3 \<Rightarrow> Option.bind (SlabCache_Alloc e r c s3) (\<lambda>t. case t of
                                Fail x \<Rightarrow> Some (Fail x)
                              | Ok (ret, s4) \<Rightarrow> Some (kassert (ret \<noteq> 0) (Ok (ret, s4)))))))"

definition SlabAllocatorNode_Alloc :: "env \<Rightarrow> slab_root \<Rightarrow> nat \<Rightarrow> slab \<Rightarrow> (u64 \<times> slab) res option" where
  "SlabAllocatorNode_Alloc e r n s = alloc_or_grow e r (Node_Cache n) (int n) s"

text \<open>A negative node id converts to an index past the array.\<close>

definition SlabAllocator_Alloc :: "env \<Rightarrow> slab_root \<Rightarrow> nat \<Rightarrow> nid \<Rightarrow> slab \<Rightarrow> (u64 \<times> slab) res option" where
  "SlabAllocator_Alloc e r i nid s =
     (if nid = my_nid e then alloc_or_grow e r (Cpu_Cache i) nid s
      else case defined (0 \<le> nid \<and> nat nid < MAX_NUMA_NODES) (get_node_allocator e (nat nid) s) of
             Fail x \<Rightarrow> Some (Fail x)
           | Ok s1 \<Rightarrow> SlabAllocatorNode_Alloc e r (nat nid) s1)"

definition SlabAllocator_Free :: "env \<Rightarrow> slab_root \<Rightarrow> nat \<Rightarrow> u64 \<Rightarrow> slab \<Rightarrow> slab res" where
  "SlabAllocator_Free e r i p s =
     bind_res (page_at (page_map (frames s)) (pfn_down p)) (\<lambda>page.
       case page of
         None \<Rightarrow> Fail Assert_Failed
       | Some m \<Rightarrow> if uint (pg_nid m) = my_nid e then SlabCache_Free e r (Cpu_Cache i) p s
                   else FreeRemote r i p s)"

text \<open>\<open>operator new\<close> of \<open>SlabAllocator\<close> and \<open>SlabAllocatorNode\<close>, and of \<open>SlabAllocatorRoot\<close> with
  \<open>nid = my_nid e\<close>, on the root that holds such allocators: null becomes an exception.\<close>

definition slab_operator_new :: "env \<Rightarrow> slab_root \<Rightarrow> nid \<Rightarrow> slab \<Rightarrow> (u64 \<times> slab) res option" where
  "slab_operator_new e r nid s =
     Option.bind
       (if nid = my_nid e
        then (case get_cpu_allocator e (my_cpu e) s of
                Fail x \<Rightarrow> Some (Fail x) | Ok s1 \<Rightarrow> SlabAllocator_Alloc e r (my_cpu e) (my_nid e) s1)
        else (case defined (0 \<le> nid \<and> nat nid < MAX_NUMA_NODES) (get_node_allocator e (nat nid) s) of
                Fail x \<Rightarrow> Some (Fail x) | Ok s1 \<Rightarrow> SlabAllocatorNode_Alloc e r (nat nid) s1))
       (\<lambda>t. Some (bind_res t (\<lambda>(ret, s'). if ret = 0 then Fail Thrown else Ok (ret, s'))))"

definition slab_operator_delete :: "env \<Rightarrow> slab_root \<Rightarrow> u64 \<Rightarrow> slab \<Rightarrow> slab res" where
  "slab_operator_delete e r p s =
     bind_res (get_cpu_allocator e (my_cpu e) s) (SlabAllocator_Free e r (my_cpu e) p)"

text \<open>\<open>slab_init\<close>: the state of each static root, and the root that the constructors of its node and
  processor allocators receive.\<close>

datatype static_root = Root_Allocator | Node_Allocator | Cpu_Allocator

definition slab_init :: "(static_root \<Rightarrow> nat) \<Rightarrow> nat \<Rightarrow> nat \<Rightarrow> (pfn \<Rightarrow> slab_data) \<Rightarrow> page_allocators \<Rightarrow> static_root \<Rightarrow> slab \<times> static_root \<times> static_root" where
  "slab_init number n_nodes n_cpus data fs root =
     (\<lparr>slab_number = number root, caches = (\<lambda>_. SlabCache_new), cpu_allocators = (\<lambda>i. if i < n_cpus then Some SlabAllocator_new else None),
       node_allocators = (\<lambda>n. n < n_nodes), slab_pages = data, frames = fs\<rparr>,
      root, case root of Root_Allocator \<Rightarrow> Root_Allocator | Node_Allocator \<Rightarrow> Cpu_Allocator | Cpu_Allocator \<Rightarrow> Cpu_Allocator)"

text \<open>The loops of the destructor over the arrays of allocators.\<close>

primrec for_present :: "(slab \<Rightarrow> nat \<Rightarrow> bool) \<Rightarrow> (nat \<Rightarrow> slab \<Rightarrow> slab res) \<Rightarrow> nat list \<Rightarrow> slab \<Rightarrow> slab res" where
  "for_present exists_at f [] s = Ok s"
| "for_present exists_at f (i # is) s =
     (if exists_at s i then bind_res (f i s) (for_present exists_at f is) else for_present exists_at f is s)"

text \<open>The memory of a deleted allocator goes back to another root; here it only disappears.\<close>

definition SlabAllocatorRoot_destroy :: "env \<Rightarrow> slab_root \<Rightarrow> nat \<Rightarrow> slab \<Rightarrow> slab res" where
  "SlabAllocatorRoot_destroy e r n_cpus s =
     (let cpu = (\<lambda>s i. cpu_allocators s i \<noteq> None)
      in bind_res (for_present cpu
             (\<lambda>i s. bind_res (FlushFreeListAll e r (Cpu_Cache i) s) (FlushRemoteList r i)) [0..<n_cpus] s) (\<lambda>s1.
         bind_res (for_present cpu
             (\<lambda>i s. bind_res (ClaimRemoteFreeList (Cpu_Cache i) s) (FlushFreeListAll e r (Cpu_Cache i))) [0..<n_cpus] s1) (\<lambda>s2.
         for_present node_allocators
             (\<lambda>n s. bind_res (ClaimRemoteFreeList (Node_Cache n) s) (\<lambda>s'.
                bind_res (FlushFreeListAll e r (Node_Cache n) s') (\<lambda>s''.
                  Ok (s''\<lparr>node_allocators := (node_allocators s'')(n := False)\<rparr>))))
             [0..<MAX_NUMA_NODES] s2)))"

end
