(* ===== verification/Slab_Sizes.thy ===== *)
theory Slab_Sizes
  imports Slab
begin

text \<open>
  The sizes a slab root computes: the order of its slabs, the number of objects and the waste, the
  batch and high-water sizes, and the size classes of the general purpose allocator
  (\<open>sys/general_purpose_allocator.hpp\<close>).
\<close>

subsection \<open>Orders\<close>

lemma unat_slab_bytes: "order \<le> 40 \<Longrightarrow> unat (push_bit order PAGE_SIZE) = 2 ^ (12 + order)"
proof -
  assume "order \<le> 40"
  then have "(2::nat) ^ (12 + order) < 2 ^ 64" by (intro power_strict_increasing) auto
  moreover have "push_bit order PAGE_SIZE = 2 ^ (12 + order)"
    by (simp add: PAGE_SIZE_def PAGE_SHIFT_def push_bit_eq_mult power_add mult.commute)
  ultimately show ?thesis using \<open>order \<le> 40\<close> by (simp only: unat_pow2) (simp add: unat_pow2)
qed

text \<open>The first order tried is the least that holds one object.\<close>

definition least_order :: "nat \<Rightarrow> nat" where
  "least_order n = (LEAST k. n \<le> 2 ^ (12 + k))"

lemma least_order_le: "n \<le> 2 ^ (12 + k) \<longleftrightarrow> least_order n \<le> k"
proof
  assume "n \<le> 2 ^ (12 + k)"
  then show "least_order n \<le> k" unfolding least_order_def by (rule Least_le)
next
  have "n \<le> 2 ^ (12 + n)"
    using less_exp [of n] power_increasing [of n "12 + n" "2::nat"] by linarith
  then have "n \<le> 2 ^ (12 + least_order n)" unfolding least_order_def by (rule LeastI)
  moreover assume "least_order n \<le> k"
  then have "(2::nat) ^ (12 + least_order n) \<le> 2 ^ (12 + k)" by (intro power_increasing) auto
  ultimately show "n \<le> 2 ^ (12 + k)" by linarith
qed

lemma least_order_unique:
  assumes "n \<le> 2 ^ (12 + k)" and "k = 0 \<or> 2 ^ (12 + (k - 1)) < n"
  shows "least_order n = k"
  using assms least_order_le [of n k] least_order_le [of n "k - 1"] by auto

lemma slab_order_start:
  assumes "2 \<le> unat sz"
  shows "slab_order sz m frac = Ok (slab_order_loop sz m frac (least_order (unat sz)))"
proof -
  have one: "unat (sz - 1) = unat sz - 1" using assms by (simp add: unat_sub_nowrap word_le_nat_alt)
  then have nz: "sz - 1 \<noteq> 0" using assms by (auto simp: word_eq_unat)
  obtain f where f: "fls (sz - 1) = Ok f" using fls_Ok [OF nz] by blast
  note log = fls_log [OF f]
  have "least_order (unat sz) = (if f < 12 then 0 else f - 11)"
  proof (cases "f < 12")
    case True
    then have "(2::nat) ^ Suc f \<le> 2 ^ 12" by (intro power_increasing) auto
    then have "unat sz \<le> 2 ^ (12 + 0)" using log one assms by (simp only: add_0_right) linarith
    then show ?thesis using True by (intro least_order_unique) auto
  next
    case False
    then have "12 + (f - 11) = Suc f" "12 + (f - 11 - 1) = f" by auto
    then show ?thesis using False log one by (intro least_order_unique) auto
  qed
  moreover have "f - 12 + 1 = f - 11" if "\<not> f < 12" using that by simp
  ultimately show ?thesis
    by (auto simp only: slab_order_def f PAGE_SHIFT_def Let_def bind_res.simps if_False if_True split: if_split)
qed

lemma slab_order_loop_frac0: "slab_order_loop sz m 0 k = k"
  by (subst slab_order_loop.simps) (simp add: Let_def)

definition little_waste :: "u64 \<Rightarrow> nat \<Rightarrow> bool" where
  "little_waste sz k \<longleftrightarrow> 2 ^ (12 + k) mod unat sz * 4 \<le> 2 ^ (12 + k)"

lemma slab_order_loop_4:
  "slab_order_loop sz 1 4 k =
    (if k = 0 \<and> little_waste sz 0 then 0 else if k \<le> 1 \<and> little_waste sz 1 then 1 else max k 2)"
proof -
  have step: "push_bit j PAGE_SIZE - push_bit j PAGE_SIZE div sz * sz = push_bit j PAGE_SIZE mod sz" for j
    by (rule minus_div_mult_eq_mod)
  have bytes: "unat (push_bit j PAGE_SIZE) = 2 ^ (12 + j)" if "j \<le> 1" for j
    using that by (intro unat_slab_bytes) simp
  have waste: "(push_bit j PAGE_SIZE mod sz) * 4 \<le> push_bit j PAGE_SIZE \<longleftrightarrow> little_waste sz j" if "j \<le> 1" for j
  proof -
    have le: "2 ^ (12 + j) mod unat sz \<le> 2 ^ (12 + j)" by (rule mod_less_eq_dividend)
    also have "(2::nat) ^ (12 + j) \<le> 2 ^ 13" using that by (intro power_increasing) auto
    finally have small: "2 ^ (12 + j) mod unat sz * 4 < 2 ^ 64" by simp
    have m: "unat (push_bit j PAGE_SIZE mod sz) = 2 ^ (12 + j) mod unat sz"
      using that by (simp only: unat_mod_distrib bytes)
    have "unat (w * 4) = unat w * 4" if "unat w * 4 < 2 ^ 64" for w :: u64
      using that by (simp add: unat_word_ariths)
    from this [of "push_bit j PAGE_SIZE mod sz"] small
    have "unat (push_bit j PAGE_SIZE mod sz * 4) = 2 ^ (12 + j) mod unat sz * 4" by (simp only: m)
    then show ?thesis using that by (simp only: word_le_nat_alt bytes little_waste_def)
  qed
  have two: "slab_order_loop sz 1 4 j = j" if "2 \<le> j" for j
    using that by (subst slab_order_loop.simps) simp
  have one: "slab_order_loop sz 1 4 1 = (if little_waste sz 1 then 1 else 2)"
    by (subst slab_order_loop.simps) (simp only: Let_def step waste [OF le_refl] le_refl if_True Suc_1 two)
  have zero: "slab_order_loop sz 1 4 0 = (if little_waste sz 0 then 0 else slab_order_loop sz 1 4 1)"
    by (subst slab_order_loop.simps)
      (simp only: Let_def step waste [OF zero_le_one] zero_le_one le0 if_True One_nat_def)
  consider "k = 0" | "k = 1" | "2 \<le> k" by linarith
  then show ?thesis by cases (use zero one two in auto)
qed

lemma calculate_order_ok:
  assumes "8 \<le> unat sz"
  shows "if unat sz \<le> 2 ^ 23
    then \<exists>k. calculate_order sz = Ok k \<and> unat sz \<le> 2 ^ (12 + k) \<and> k \<le> MAX_ORDER
      \<and> (little_waste sz k \<or> k = least_order (unat sz))
    else calculate_order sz = Fail Bug_On"
proof -
  let ?l = "least_order (unat sz)"
  have l: "unat sz \<le> 2 ^ (12 + j) \<longleftrightarrow> ?l \<le> j" for j by (rule least_order_le)
  have l23: "unat sz \<le> 2 ^ 23 \<longleftrightarrow> ?l \<le> 11" using l [of 11] by simp
  let ?k = "if ?l = 0 \<and> little_waste sz 0 then 0 else if ?l \<le> 1 \<and> little_waste sz 1 then 1 else max ?l 2"
  have s4: "slab_order sz 1 4 = Ok ?k"
    using assms by (simp only: slab_order_start slab_order_loop_4)
  have s0: "slab_order sz MAX_ORDER 0 = Ok ?l"
    using assms by (simp only: slab_order_start slab_order_loop_frac0)
  have c: "calculate_order sz = (if ?k \<le> 1 then Ok ?k else kbugon (?l > MAX_ORDER) (Ok ?l))"
    by (simp only: calculate_order_def s4 s0 bind_res.simps)
  show ?thesis
  proof (cases "?k \<le> 1")
    case True
    then have "?l \<le> 1" "?l \<le> ?k" "little_waste sz ?k" by (auto split: if_splits)
    then show ?thesis using True l23 l by (auto simp: c MAX_ORDER_def)
  next
    case False
    then show ?thesis using l23 l [of ?l] by (auto simp: c MAX_ORDER_def kbugon_def)
  qed
qed

subsection \<open>Roots\<close>

text \<open>What the rest of the allocator relies on.\<close>

definition root_ok :: "slab_root \<Rightarrow> bool" where
  "root_ok r \<longleftrightarrow> sr_order r \<le> MAX_ORDER \<and> 8 \<le> unat (sr_size r) \<and> unat (sr_size r) \<le> 2 ^ (12 + sr_order r)"

definition num_objects :: "slab_root \<Rightarrow> nat" where
  "num_objects r = unat (num_objects_per_slab r)"

lemma num_objects:
  assumes "root_ok r"
  shows "num_objects r = 2 ^ (12 + sr_order r) div unat (sr_size r)" and "0 < num_objects r"
    and "num_objects r * unat (sr_size r) \<le> 2 ^ (12 + sr_order r)"
proof -
  have "unat (push_bit (sr_order r) PAGE_SIZE) = 2 ^ (12 + sr_order r)"
    using assms by (intro unat_slab_bytes) (simp add: root_ok_def MAX_ORDER_def)
  then show n: "num_objects r = 2 ^ (12 + sr_order r) div unat (sr_size r)"
    by (simp only: num_objects_def num_objects_per_slab_def unat_div_distrib)
  show "0 < num_objects r" unfolding n using assms by (simp add: root_ok_def div_greater_zero_iff)
  show "num_objects r * unat (sr_size r) \<le> 2 ^ (12 + sr_order r)" unfolding n by simp
qed

lemma freebatch_zero:
  assumes "8 \<le> unat sz"
  shows "unat (calculate_freebatch sz) = max (16384 div unat sz) (min 256 (262144 div unat sz))"
    and "calculate_freebatch sz = 0 \<longleftrightarrow> 262144 < unat sz"
proof -
  have d: "unat (max a b) = max (unat a) (unat b)" "unat (min a b) = min (unat a) (unat b)" for a b :: u64
    by (simp_all add: max_def min_def word_le_nat_alt)
  show u: "unat (calculate_freebatch sz) = max (16384 div unat sz) (min 256 (262144 div unat sz))"
    by (simp add: calculate_freebatch_def d unat_div_distrib PAGE_SIZE_eq)
  have "16384 div unat sz \<le> 262144 div unat sz" by (rule div_le_mono) simp
  then have "unat (calculate_freebatch sz) = 0 \<longleftrightarrow> 262144 div unat sz = 0" unfolding u by auto
  then show "calculate_freebatch sz = 0 \<longleftrightarrow> 262144 < unat sz"
    using assms by (auto simp: word_eq_unat div_eq_0_iff)
qed

lemma freebatch_le:
  assumes "8 \<le> unat sz"
  shows "calculate_freebatch sz \<le> calculate_freebatch sz * 4"
proof -
  have "16384 div unat sz \<le> 16384 div 8" using assms by (rule div_le_mono2 [rotated]) simp
  then have "unat (calculate_freebatch sz) \<le> 2048" by (simp add: freebatch_zero(1) [OF assms])
  moreover from this have "unat (calculate_freebatch sz * 4) = unat (calculate_freebatch sz) * 4"
    by (simp add: unat_word_ariths)
  ultimately show ?thesis by (simp add: word_le_nat_alt)
qed

definition align_ok :: "u64 \<Rightarrow> bool" where
  "align_ok al \<longleftrightarrow> al \<le> 8 \<or> (\<exists>k\<le>12. al = 2 ^ k)"

lemma root_align:
  assumes "align_ok al"
  obtains a where "3 \<le> a" "a \<le> 12" "align_up (max al 8) 8 = 2 ^ a" "al \<le> 2 ^ a"
proof (cases "al \<le> 8")
  case True
  then have "max al 8 = 8" by (simp add: max_def)
  then have "align_up (max al 8) 8 = 2 ^ 3" by (simp add: align_up_def align_down_def)
  then show ?thesis using True that [of 3] by simp
next
  case False
  then obtain k where k: "k \<le> 12" "al = 2 ^ k" using assms by (auto simp: align_ok_def)
  have u: "unat (2 ^ k :: u64) = 2 ^ k" using k(1) by (simp add: unat_pow2)
  have "8 < (2::nat) ^ k" using False by (simp add: k(2) word_le_nat_alt u)
  then have k3: "3 < k" using power_increasing [of k 3 "2::nat"] by (cases "k \<le> 3") auto
  have le: "(2::nat) ^ k \<le> 2 ^ 12" using k(1) by (rule power_increasing) simp
  have "unat (align_up (2 ^ k) (2 ^ 3)) = (2 ^ k + 2 ^ 3 - 1) div 2 ^ 3 * 2 ^ 3"
    using le by (subst unat_align_up) (simp_all add: u)
  also have k8: "(2::nat) ^ k = 2 ^ (k - 3) * 2 ^ 3" using k3 by (simp only: flip: power_add) simp
  have "((2::nat) ^ k + 2 ^ 3 - 1) div 2 ^ 3 * 2 ^ 3 = 2 ^ k" unfolding k8 by simp
  finally have "align_up al 8 = 2 ^ k" by (simp add: word_eq_unat u k(2))
  moreover have "max al 8 = al" using False by (simp add: max_def)
  ultimately show ?thesis using k3 k that [of k] by simp
qed

lemma SlabAllocatorRoot_ok:
  assumes "align_ok al" and "unat sz \<le> 2 ^ 62"
  shows "if unat sz \<le> 2 ^ 23
    then \<exists>r. SlabAllocatorRoot sz al = Ok r \<and> root_ok r \<and> sz \<le> sr_size r \<and> al \<le> sr_align r
      \<and> unat (sr_align r) dvd unat (sr_size r)
      \<and> (little_waste (sr_size r) (sr_order r) \<or> sr_order r = least_order (unat (sr_size r)))
      \<and> sr_hiwater r = sr_free_batch r * 4 \<and> (sr_free_batch r = 0 \<longleftrightarrow> 262144 < unat (sr_size r))
      \<and> sr_free_batch r \<le> sr_hiwater r
    else SlabAllocatorRoot sz al = Fail Bug_On"
proof -
  obtain a where a: "3 \<le> a" "a \<le> 12" "align_up (max al 8) 8 = 2 ^ a" "al \<le> 2 ^ a"
    using root_align [OF assms(1)] by blast
  let ?n = "max (unat sz) 8"
  let ?z = "align_up (max sz 8) (2 ^ a)"
  have n: "unat (max sz 8) = ?n" by (simp add: max_def word_le_nat_alt)
  have ua: "unat (2 ^ a :: u64) = 2 ^ a" using a(2) by (simp add: unat_pow2)
  have a12: "(2::nat) ^ a \<le> 2 ^ 12" using a(2) by (rule power_increasing) simp
  have z: "unat ?z = (?n + 2 ^ a - 1) div 2 ^ a * 2 ^ a"
    using a(2) a12 assms(2) by (subst unat_align_up) (simp_all add: n)
  have ge: "?n \<le> unat ?z"
  proof -
    have "0 < (2::nat) ^ a" by simp
    then show ?thesis
      unfolding z using div_mult_mod_eq [of "?n + 2 ^ a - 1" "2 ^ a"] mod_less_divisor [of "2 ^ a" "?n + 2 ^ a - 1"]
      by linarith
  qed
  have z23: "unat ?z \<le> 2 ^ 23 \<longleftrightarrow> unat sz \<le> 2 ^ 23"
  proof
    assume le: "unat sz \<le> 2 ^ 23"
    have "(2::nat) ^ 23 = 2 ^ (23 - a) * 2 ^ a" using a(2) by (simp flip: power_add)
    moreover from this have "?n + 2 ^ a - 1 < (2 ^ (23 - a) + 1) * 2 ^ a"
      using le by simp
    then have "(?n + 2 ^ a - 1) div 2 ^ a < 2 ^ (23 - a) + 1" by (rule less_mult_imp_div_less)
    then have "(?n + 2 ^ a - 1) div 2 ^ a * 2 ^ a \<le> 2 ^ (23 - a) * 2 ^ a" by (intro mult_le_mono1) simp
    ultimately show "unat ?z \<le> 2 ^ 23" by (simp only: z)
  qed (use ge in simp)
  have z8: "8 \<le> unat ?z" using ge by simp
  have r: "SlabAllocatorRoot sz al = bind_res (calculate_order ?z) (\<lambda>order.
      Ok \<lparr>sr_align = 2 ^ a, sr_size = ?z, sr_order = order, sr_free_batch = calculate_freebatch ?z,
          sr_hiwater = calculate_freebatch ?z * 4\<rparr>)"
    by (simp only: SlabAllocatorRoot_def a(3) Let_def)
  have ok: "sz \<le> ?z" "al \<le> 2 ^ a" "unat (2 ^ a :: u64) dvd unat ?z"
    using ge a(4) by (simp_all add: word_le_nat_alt) (simp only: z ua dvd_triv_right)
  show ?thesis
  proof (cases "unat sz \<le> 2 ^ 23")
    case True
    then obtain k where "calculate_order ?z = Ok k" "unat ?z \<le> 2 ^ (12 + k)" "k \<le> MAX_ORDER"
      "little_waste ?z k \<or> k = least_order (unat ?z)"
      using calculate_order_ok [OF z8] by (auto simp only: z23 if_True)
    then show ?thesis using True z8 ok freebatch_zero(2) [OF z8] freebatch_le [OF z8] unfolding r by (simp add: root_ok_def)
  next
    case False
    then have "calculate_order ?z = Fail Bug_On" using calculate_order_ok [OF z8] by (simp only: z23 if_False)
    then show ?thesis using False unfolding r by simp
  qed
qed

end
