(* ===== verification/Slab_Inv.thy ===== *)
theory Slab_Inv
  imports Slab_Sizes
begin

text \<open>
  Ownership of slab objects: every object of every slab is in exactly one place (in its slab's
  list, in a cache's free list, in a cache's remote list, in a processor's outgoing list, or with a
  client), and every operation moves objects between places.
\<close>

subsection \<open>Objects of a slab\<close>

definition object :: "slab_root \<Rightarrow> pfn \<Rightarrow> nat \<Rightarrow> u64" where
  "object r p k = pfn_to_addr p + of_nat k * sr_size r"

definition objects :: "slab_root \<Rightarrow> pfn \<Rightarrow> u64 set" where
  "objects r p = object r p ` {..<num_objects r}"

definition slab_at :: "slab_root \<Rightarrow> pfn \<Rightarrow> bool" where
  "slab_at r p \<longleftrightarrow> 2 ^ sr_order r dvd unat p \<and> unat p + 2 ^ sr_order r \<le> 2 ^ 34"

lemma unat_object:
  assumes "root_ok r" and "slab_at r p" and "k \<le> num_objects r"
  shows "unat (object r p k) = unat p * 4096 + k * unat (sr_size r)"
    and "k * unat (sr_size r) \<le> 2 ^ (12 + sr_order r)"
proof -
  let ?z = "unat (sr_size r)"
  have o: "sr_order r \<le> 11" and z: "8 \<le> ?z" using assms(1) by (auto simp: root_ok_def MAX_ORDER_def)
  have "k * ?z \<le> num_objects r * ?z" using assms(3) by (rule mult_le_mono1)
  then show kz: "k * ?z \<le> 2 ^ (12 + sr_order r)" using num_objects(3) [OF assms(1)] by linarith
  have "(2::nat) ^ (12 + sr_order r) \<le> 2 ^ 23" using o by (intro power_increasing) auto
  then have kz23: "k * ?z \<le> 2 ^ 23" using kz by linarith
  then have "k \<le> 2 ^ 23" using z by (metis le_trans mult_le_mono2 mult_numeral_1_right nat_mult_1_right one_le_numeral order_trans)
  then have "unat (of_nat k :: u64) = k" by (simp add: unat_of_nat)
  then have m: "unat (of_nat k * sr_size r) = k * ?z" using kz23 by (simp add: unat_word_ariths)
  have "0 < (2::nat) ^ sr_order r" by simp
  then have "unat p < 2 ^ 34" using assms(2) unfolding slab_at_def by linarith
  then show "unat (object r p k) = unat p * 4096 + k * ?z"
    unfolding object_def using kz23 by (subst unat_add_nowrap) (simp_all add: m unat_pfn_to_addr)
qed

lemma object_frame:
  assumes "root_ok r" and "slab_at r p" and "x \<in> objects r p"
  shows "unat (pfn_down x) \<in> block (p, sr_order r)" and "addr_to_slab_pfn x (sr_order r) = p"
proof -
  let ?z = "unat (sr_size r)" let ?o = "2 ^ sr_order r :: nat"
  obtain k where k: "k < num_objects r" "x = object r p k" using assms(3) by (auto simp: objects_def)
  have "Suc k \<le> num_objects r" using k(1) by simp
  from unat_object(2) [OF assms(1,2) this] have "k * ?z + ?z \<le> 4096 * ?o" by (simp add: power_add)
  moreover have "8 \<le> ?z" using assms(1) by (simp add: root_ok_def)
  ultimately have "k * ?z div 4096 < ?o" by (intro less_mult_imp_div_less) simp
  moreover have f: "unat (pfn_down x) = unat p + k * ?z div 4096"
    using k(1) by (simp add: unat_pfn_down k(2) unat_object [OF assms(1,2)])
  ultimately show "unat (pfn_down x) \<in> block (p, sr_order r)" by (simp add: block_def)
  obtain c where c: "unat p = ?o * c" using assms(2) by (auto simp: slab_at_def)
  have "unat (addr_to_slab_pfn x (sr_order r)) = unat (pfn_down x) div ?o * ?o"
    by (simp add: addr_to_slab_pfn_def push_bit_eq_mult unat_align_down)
  also have "unat (pfn_down x) div ?o = c"
    unfolding f c using \<open>k * ?z div 4096 < ?o\<close> by simp
  finally show "addr_to_slab_pfn x (sr_order r) = p" by (simp add: word_eq_unat c mult.commute)
qed

lemma inj_object:
  assumes "root_ok r" and "slab_at r p"
  shows "inj_on (object r p) {..<num_objects r}"
proof (rule inj_onI)
  fix k j assume k: "k \<in> {..<num_objects r}" and j: "j \<in> {..<num_objects r}" and eq: "object r p k = object r p j"
  have "k \<le> num_objects r" "j \<le> num_objects r" using k j by auto
  from this [THEN unat_object(1) [OF assms]] have "k * unat (sr_size r) = j * unat (sr_size r)"
    unfolding eq by linarith
  moreover have "unat (sr_size r) \<noteq> 0" using assms(1) unfolding root_ok_def by linarith
  ultimately show "k = j" by simp
qed

lemma objects_card: "root_ok r \<Longrightarrow> slab_at r p \<Longrightarrow> card (objects r p) = num_objects r \<and> finite (objects r p)"
  by (simp add: objects_def card_image inj_object)

text \<open>The bytes of an object, and that those of different objects of a slab do not meet.\<close>

definition extent :: "slab_root \<Rightarrow> u64 \<Rightarrow> nat set" where
  "extent r x = {unat x ..< unat x + unat (sr_size r)}"

lemma extents_disjoint:
  assumes "root_ok r" and "slab_at r p" and "x \<in> objects r p" and "y \<in> objects r p" and "x \<noteq> y"
  shows "extent r x \<inter> extent r y = {}"
proof -
  let ?z = "unat (sr_size r)"
  obtain k j where k: "k < num_objects r" "x = object r p k" and j: "j < num_objects r" "y = object r p j"
    using assms(3,4) by (auto simp: objects_def)
  have "k \<noteq> j" using k j assms(5) by auto
  then have "k * ?z + ?z \<le> j * ?z \<or> j * ?z + ?z \<le> k * ?z"
    by (metis add.commute linorder_neqE_nat mult_Suc mult_le_mono1 Suc_leI)
  then show ?thesis
    using unat_object(1) [OF assms(1,2), of k] unat_object(1) [OF assms(1,2), of j] k j
    by (auto simp: extent_def)
qed

lemma extent_in_slab:
  assumes "root_ok r" and "slab_at r p" and "x \<in> objects r p"
  shows "extent r x \<subseteq> {unat p * 4096 ..< (unat p + 2 ^ sr_order r) * 4096}"
proof -
  obtain k where k: "k < num_objects r" "x = object r p k" using assms(3) by (auto simp: objects_def)
  then have "Suc k \<le> num_objects r" by simp
  from unat_object(2) [OF assms(1,2) this]
  have "k * unat (sr_size r) + unat (sr_size r) \<le> 4096 * 2 ^ sr_order r" by (simp add: power_add)
  then show ?thesis using unat_object(1) [OF assms(1,2), of k] k by (auto simp: extent_def)
qed

lemma objects_of_slabs:
  assumes "root_ok r" and "slab_at r p" and "slab_at r q" and "x \<in> objects r p" and "x \<in> objects r q"
  shows "p = q"
  using object_frame(2) [OF assms(1,2,4)] object_frame(2) [OF assms(1,3,5)] by simp

subsection \<open>The invariant\<close>

datatype place = In_Slab pfn | In_Cache cache_id | In_Remote cache_id | In_Outgoing nat | With_Client

definition outgoing :: "slab \<Rightarrow> nat \<Rightarrow> u64 list" where
  "outgoing s i = (case cpu_allocators s i of None \<Rightarrow> [] | Some a \<Rightarrow> sa_remote_list a)"

definition outgoing_cache :: "slab \<Rightarrow> nat \<Rightarrow> cache_id option" where
  "outgoing_cache s i = (case cpu_allocators s i of None \<Rightarrow> None | Some a \<Rightarrow> sa_remote_cache a)"

definition lists_ok :: "(u64 \<Rightarrow> place option) \<Rightarrow> (pfn \<Rightarrow> cache_id option) \<Rightarrow> slab \<Rightarrow> bool" where
  "lists_ok loc S s \<longleftrightarrow>
     (\<forall>c. distinct (object_list (caches s c)) \<and> set (object_list (caches s c)) = {x. loc x = Some (In_Cache c)}) \<and>
     (\<forall>c. distinct (remote_objects (caches s c)) \<and> set (remote_objects (caches s c)) = {x. loc x = Some (In_Remote c)}) \<and>
     (\<forall>i. distinct (outgoing s i) \<and> set (outgoing s i) = {x. loc x = Some (In_Outgoing i)}) \<and>
     (\<forall>p\<in>dom S. distinct (sd_list (slab_pages s p)) \<and> set (sd_list (slab_pages s p)) = {x. loc x = Some (In_Slab p)})"

definition places_ok :: "slab_root \<Rightarrow> (pfn \<Rightarrow> cache_id option) \<Rightarrow> (u64 \<Rightarrow> place option) \<Rightarrow> bool" where
  "places_ok r S loc \<longleftrightarrow>
     dom loc = (\<Union>p\<in>dom S. objects r p) \<and>
     (\<forall>x p. loc x = Some (In_Slab p) \<longrightarrow> p \<in> dom S \<and> x \<in> objects r p) \<and>
     (\<forall>x c. loc x = Some (In_Remote c) \<longrightarrow> S (addr_to_slab_pfn x (sr_order r)) = Some c)"

definition slabs_ok :: "slab_root \<Rightarrow> (pfn \<Rightarrow> cache_id option) \<Rightarrow> slab \<Rightarrow> bool" where
  "slabs_ok r S s \<longleftrightarrow>
     (\<forall>p c. S p = Some c \<longrightarrow> slab_at r p \<and> (\<forall>q. unat q \<in> block (p, sr_order r) \<longrightarrow> page_map (frames s) q \<noteq> None) \<and>
        (\<forall>x\<in>objects r p. sd_cache (slab_pages s (pfn_down x)) = Some c) \<and>
        sd_used (slab_pages s p) + length (sd_list (slab_pages s p)) = num_objects r) \<and>
     (\<forall>p\<in>dom S. \<forall>q\<in>dom S. p \<noteq> q \<longrightarrow> block (p, sr_order r) \<inter> block (q, sr_order r) = {})"

definition partial_ok :: "slab_root \<Rightarrow> (pfn \<Rightarrow> cache_id option) \<Rightarrow> slab \<Rightarrow> bool" where
  "partial_ok r S s \<longleftrightarrow> (\<forall>c. distinct (partial_page_list (caches s c)) \<and>
     set (partial_page_list (caches s c)) = {p. S p = Some c \<and> sd_list (slab_pages s p) \<noteq> []})"

definition outgoing_ok :: "slab_root \<Rightarrow> (pfn \<Rightarrow> cache_id option) \<Rightarrow> (u64 \<Rightarrow> place option) \<Rightarrow> slab \<Rightarrow> bool" where
  "outgoing_ok r S loc s \<longleftrightarrow> (\<forall>x i. loc x = Some (In_Outgoing i) \<longrightarrow>
     outgoing_cache s i \<noteq> None \<and> S (addr_to_slab_pfn x (sr_order r)) = outgoing_cache s i)"

definition slab_inv :: "slab_root \<Rightarrow> (pfn \<Rightarrow> cache_id option) \<Rightarrow> (u64 \<Rightarrow> place option) \<Rightarrow> slab \<Rightarrow> bool" where
  "slab_inv r S loc s \<longleftrightarrow>
     root_ok r \<and> slabs_ok r S s \<and> places_ok r S loc \<and> lists_ok loc S s \<and> partial_ok r S s \<and> outgoing_ok r S loc s"

lemmas slab_inv_defs = slab_inv_def slabs_ok_def places_ok_def lists_ok_def partial_ok_def outgoing_ok_def

lemmas state_updates = set_cache_def set_allocator_def set_data_def

lemma set_cache_sel [simp]:
  "caches (set_cache c v s) = (caches s)(c := v)" "cpu_allocators (set_cache c v s) = cpu_allocators s"
  "slab_pages (set_cache c v s) = slab_pages s" "frames (set_cache c v s) = frames s"
  "node_allocators (set_cache c v s) = node_allocators s" "slab_number (set_cache c v s) = slab_number s"
  by (simp_all add: set_cache_def)

lemma set_allocator_sel [simp]:
  "caches (set_allocator i a s) = caches s" "cpu_allocators (set_allocator i a s) = (cpu_allocators s)(i \<mapsto> a)"
  "slab_pages (set_allocator i a s) = slab_pages s" "frames (set_allocator i a s) = frames s"
  "node_allocators (set_allocator i a s) = node_allocators s" "slab_number (set_allocator i a s) = slab_number s"
  by (simp_all add: set_allocator_def)

lemma set_data_sel [simp]:
  "caches (set_data p d s) = caches s" "cpu_allocators (set_data p d s) = cpu_allocators s"
  "slab_pages (set_data p d s) = (slab_pages s)(p := d)" "frames (set_data p d s) = frames s"
  "node_allocators (set_data p d s) = node_allocators s" "slab_number (set_data p d s) = slab_number s"
  by (simp_all add: set_data_def)

lemma slabs_ok_lists [simp]:
  "slabs_ok r S (set_cache c v s) = slabs_ok r S s" "slabs_ok r S (set_allocator i a s) = slabs_ok r S s"
  by (simp_all add: slabs_ok_def)

lemma outgoing_lists [simp]:
  "outgoing (set_cache c v s) = outgoing s" "outgoing_cache (set_cache c v s) = outgoing_cache s"
  "outgoing (set_data p d s) = outgoing s" "outgoing_cache (set_data p d s) = outgoing_cache s"
  "outgoing (set_allocator i a s) = (outgoing s)(i := sa_remote_list a)"
  "outgoing_cache (set_allocator i a s) = (outgoing_cache s)(i := sa_remote_cache a)"
  by (auto simp: outgoing_def outgoing_cache_def fun_eq_iff)

subsection \<open>Moving one object\<close>

lemma places_move:
  assumes "places_ok r S loc" and "loc x \<noteq> None" and "Q = With_Client \<or> Q = In_Cache c \<or> Q = In_Outgoing i"
  shows "places_ok r S (loc(x \<mapsto> Q))"
proof -
  have "dom (loc(x \<mapsto> Q)) = dom loc" using assms(2) by auto
  then show ?thesis using assms(1,3) by (auto simp: places_ok_def)
qed

lemma places_into_slab:
  assumes "places_ok r S loc" and "loc x \<noteq> None" and "p \<in> dom S" and "x \<in> objects r p"
  shows "places_ok r S (loc(x \<mapsto> In_Slab p))"
proof -
  have "dom (loc(x \<mapsto> In_Slab p)) = dom loc" using assms(2) by auto
  then show ?thesis using assms by (auto simp: places_ok_def)
qed

lemma pop_object:
  assumes inv: "slab_inv r S loc s" and l: "object_list (caches s c) = x # xs"
  shows "loc x = Some (In_Cache c)"
    and "slab_inv r S (loc(x \<mapsto> With_Client)) (set_cache c ((caches s c)\<lparr>object_list := xs\<rparr>) s)"
proof -
  have set: "set (object_list (caches s c)) = {y. loc y = Some (In_Cache c)}"
    and d: "distinct (object_list (caches s c))"
    using inv by (auto simp: slab_inv_def lists_ok_def)
  have "x \<in> {y. loc y = Some (In_Cache c)}" unfolding set [symmetric] l by simp
  then show x: "loc x = Some (In_Cache c)" by simp
  have xs: "set xs = {y. loc y = Some (In_Cache c)} - {x}" "distinct xs" using d set unfolding l by auto
  have "lists_ok (loc(x \<mapsto> With_Client)) S (set_cache c ((caches s c)\<lparr>object_list := xs\<rparr>) s)"
    using inv x xs by (auto simp: slab_inv_def lists_ok_def)
  then show "slab_inv r S (loc(x \<mapsto> With_Client)) (set_cache c ((caches s c)\<lparr>object_list := xs\<rparr>) s)"
    using inv x places_move [of r S loc x With_Client]
    by (auto simp: slab_inv_def partial_ok_def outgoing_ok_def)
qed

lemma push_object:
  assumes inv: "slab_inv r S loc s" and x: "loc x = Some With_Client"
  shows "slab_inv r S (loc(x \<mapsto> In_Cache c))
    (set_cache c ((caches s c)\<lparr>object_list := x # object_list (caches s c)\<rparr>) s)" (is "slab_inv r S ?loc ?s")
proof -
  have "lists_ok ?loc S ?s" using inv x by (auto simp: slab_inv_def lists_ok_def)
  then show ?thesis
    using inv x places_move [of r S loc x "In_Cache c" c]
    by (auto simp: slab_inv_def partial_ok_def outgoing_ok_def)
qed

subsection \<open>Outgoing and remote lists\<close>

definition clients :: "(u64 \<Rightarrow> place option) \<Rightarrow> u64 set" where
  "clients loc = {x. loc x = Some With_Client}"

text \<open>What the operations on lists of other caches leave alone.\<close>

definition quiet :: "slab \<Rightarrow> slab \<Rightarrow> bool" where
  "quiet s s' \<longleftrightarrow> frames s' = frames s \<and> (\<forall>c. object_list (caches s' c) = object_list (caches s c)) \<and>
     dom (cpu_allocators s') = dom (cpu_allocators s)"

lemma quiet_refl [simp]: "quiet s s" by (simp add: quiet_def)

lemma quiet_trans: "quiet s s1 \<Longrightarrow> quiet s1 s2 \<Longrightarrow> quiet s s2" by (simp add: quiet_def)

lemma object_owner:
  assumes "slab_inv r S loc s" and "loc x \<noteq> None"
  obtains p c where "S p = Some c" "x \<in> objects r p" "addr_to_slab_pfn x (sr_order r) = p" "slab_at r p"
    "sd_cache (slab_pages s (pfn_down x)) = Some c" "unat (pfn_down x) \<in> block (p, sr_order r)"
proof -
  have "x \<in> dom loc" using assms(2) by blast
  then obtain p where p: "p \<in> dom S" "x \<in> objects r p"
    using assms(1) by (auto simp: slab_inv_def places_ok_def)
  then obtain c where c: "S p = Some c" by blast
  moreover have "slab_at r p" "sd_cache (slab_pages s (pfn_down x)) = Some c" "root_ok r"
    using assms(1) c p by (auto simp: slab_inv_def slabs_ok_def)
  ultimately show ?thesis using that p object_frame by blast
qed

lemma require_page_ok:
  assumes "slab_inv r S loc s" and "S p = Some c" and "unat q \<in> block (p, sr_order r)"
  shows "require_page q s k = k"
proof -
  have "slab_at r p" "page_map (frames s) q \<noteq> None"
    using assms by (auto simp: slab_inv_def slabs_ok_def)
  moreover from this assms(3) have "unat q < 2 ^ 34" by (auto simp: slab_at_def block_def)
  ultimately show ?thesis by (auto simp: require_page_def page_at_low)
qed

definition loc_flush :: "nat \<Rightarrow> cache_id \<Rightarrow> (u64 \<Rightarrow> place option) \<Rightarrow> u64 \<Rightarrow> place option" where
  "loc_flush i c loc = (\<lambda>x. if loc x = Some (In_Outgoing i) then Some (In_Remote c) else loc x)"

lemma clients_flush [simp]: "clients (loc_flush i c loc) = clients loc"
  by (auto simp: clients_def loc_flush_def)

lemma outgoing_list:
  assumes "slab_inv r S loc s"
  shows "distinct (outgoing s i)" and "set (outgoing s i) = {x. loc x = Some (In_Outgoing i)}"
  using assms by (simp_all add: slab_inv_def lists_ok_def)

lemma remote_list:
  assumes "slab_inv r S loc s"
  shows "distinct (remote_objects (caches s c))" and "set (remote_objects (caches s c)) = {x. loc x = Some (In_Remote c)}"
  using assms by (simp_all add: slab_inv_def lists_ok_def)

lemma cache_list:
  assumes "slab_inv r S loc s"
  shows "distinct (object_list (caches s c))" and "set (object_list (caches s c)) = {x. loc x = Some (In_Cache c)}"
  using assms by (simp_all add: slab_inv_def lists_ok_def)

lemma slab_list:
  assumes "slab_inv r S loc s" and "p \<in> dom S"
  shows "distinct (sd_list (slab_pages s p))" and "set (sd_list (slab_pages s p)) = {x. loc x = Some (In_Slab p)}"
  using assms by (simp_all add: slab_inv_def lists_ok_def)

lemma flush_remote:
  assumes inv: "slab_inv r S loc s" and a: "cpu_allocators s i = Some a"
  shows "\<exists>s' loc'. FlushRemoteList r i s = Ok s' \<and> slab_inv r S loc' s' \<and> clients loc' = clients loc \<and> quiet s s'
    \<and> cpu_allocators s' i = Some (a\<lparr>sa_remote_list := []\<rparr>) \<and> slab_pages s' = slab_pages s"
proof (cases "sa_remote_cache a")
  case None
  have "set (outgoing s i) = {x. loc x = Some (In_Outgoing i)}"
    using inv by (simp add: slab_inv_def lists_ok_def)
  moreover have "outgoing_cache s i = None" using None a by (simp add: outgoing_cache_def)
  then have "loc x \<noteq> Some (In_Outgoing i)" for x
    using inv unfolding slab_inv_def outgoing_ok_def by metis
  ultimately have "sa_remote_list a = []" using a by (simp add: outgoing_def)
  then have "cpu_allocators s i = Some (a\<lparr>sa_remote_list := []\<rparr>)" using a by simp
  moreover have "FlushRemoteList r i s = Ok s" using None a by (simp add: FlushRemoteList_def)
  ultimately show ?thesis using inv by (intro exI [of _ s] exI [of _ loc]) simp
next
  case (Some c)
  let ?rc = "caches s c"
  let ?l = "case remote_objects ?rc of [] \<Rightarrow> sa_remote_list a | x # xs \<Rightarrow> x # sa_remote_list a @ xs"
  obtain b where F: "FlushRemoteList r i s = Ok (set_allocator i (a\<lparr>sa_remote_list := []\<rparr>)
      (set_cache c (?rc\<lparr>remote_objects := ?l, remote_check := b\<rparr>) s))"
    using Some a by (simp add: FlushRemoteList_def Let_def)
  let ?s = "set_allocator i (a\<lparr>sa_remote_list := []\<rparr>) (set_cache c (?rc\<lparr>remote_objects := ?l, remote_check := b\<rparr>) s)"
  let ?loc = "loc_flush i c loc"
  have out: "outgoing s i = sa_remote_list a" "outgoing_cache s i = Some c"
    using a Some by (simp_all add: outgoing_def outgoing_cache_def)
  note o = outgoing_list [OF inv, of i, unfolded out(1)] and m = remote_list [OF inv, of c]
  have l: "distinct ?l" "set ?l = {x. ?loc x = Some (In_Remote c)}"
  proof -
    have disj: "set (sa_remote_list a) \<inter> set (remote_objects ?rc) = {}" unfolding o(2) m(2) by auto
    have "set ?l = set (sa_remote_list a) \<union> set (remote_objects ?rc)" by (auto split: list.splits)
    also have "\<dots> = {x. ?loc x = Some (In_Remote c)}" unfolding o(2) m(2) by (auto simp: loc_flush_def)
    finally show "set ?l = {x. ?loc x = Some (In_Remote c)}" .
    show "distinct ?l" using o(1) m(1) disj by (auto split: list.splits)
  qed
  have "lists_ok ?loc S ?s"
    using inv l unfolding slab_inv_def lists_ok_def by (auto simp: loc_flush_def)
  moreover have "dom ?loc = dom loc" by (auto simp: loc_flush_def split: if_splits)
  then have "places_ok r S ?loc"
    using inv out by (auto simp: slab_inv_def places_ok_def outgoing_ok_def loc_flush_def)
  moreover have "outgoing_ok r S ?loc ?s"
    using inv by (auto simp: slab_inv_def outgoing_ok_def loc_flush_def split: if_splits)
  moreover have "partial_ok r S ?s" using inv by (auto simp: slab_inv_def partial_ok_def)
  ultimately have "slab_inv r S ?loc ?s" using inv by (simp add: slab_inv_def)
  moreover have "quiet s ?s" using a by (auto simp: quiet_def)
  ultimately show ?thesis using F by auto
qed

lemma set_remote_cache:
  assumes inv: "slab_inv r S loc s" and a: "cpu_allocators s i = Some a" and "sa_remote_list a = []"
  shows "slab_inv r S loc (set_allocator i (a\<lparr>sa_remote_cache := c\<rparr>) s)"
proof -
  have o: "outgoing s i = []" using a assms(3) by (simp add: outgoing_def)
  have "set (outgoing s i) = {x. loc x = Some (In_Outgoing i)}"
    using inv by (simp add: slab_inv_def lists_ok_def)
  then have none: "loc x \<noteq> Some (In_Outgoing i)" for x unfolding o by auto
  have "(outgoing s)(i := []) = outgoing s" using o by auto
  then have "lists_ok loc S (set_allocator i (a\<lparr>sa_remote_cache := c\<rparr>) s)"
    using inv assms(3) by (simp add: slab_inv_def lists_ok_def)
  moreover have "outgoing_ok r S loc (set_allocator i (a\<lparr>sa_remote_cache := c\<rparr>) s)"
    using inv none by (auto simp: slab_inv_def outgoing_ok_def)
  ultimately show ?thesis using inv by (simp add: slab_inv_def partial_ok_def)
qed

lemma push_remote_ok:
  assumes inv: "slab_inv r S loc s" and a: "cpu_allocators s i = Some a" and x: "loc x = Some With_Client"
    and own: "S (addr_to_slab_pfn x (sr_order r)) = sa_remote_cache a" "sa_remote_cache a \<noteq> None"
  shows "\<exists>s' loc'. push_remote r i x s = Ok s' \<and> slab_inv r S loc' s' \<and> clients loc' = clients loc - {x} \<and> quiet s s'
    \<and> slab_pages s' = slab_pages s"
proof -
  let ?a = "a\<lparr>sa_remote_list := x # sa_remote_list a\<rparr>"
  let ?s = "set_allocator i ?a s" and ?loc = "loc(x \<mapsto> In_Outgoing i)"
  have out: "outgoing s i = sa_remote_list a" "outgoing_cache s i = sa_remote_cache a"
    using a by (simp_all add: outgoing_def outgoing_cache_def)
  have "lists_ok ?loc S ?s"
    using inv x out(1) [symmetric] by (auto simp: slab_inv_def lists_ok_def)
  moreover have "outgoing_ok r S ?loc ?s"
    using inv own out(2) by (auto simp: slab_inv_def outgoing_ok_def split: if_splits)
  moreover have "places_ok r S ?loc" using places_move [of r S loc x "In_Outgoing i" _ i] inv x by (simp add: slab_inv_def)
  ultimately have inv1: "slab_inv r S ?loc ?s" using inv by (simp add: slab_inv_def partial_ok_def)
  have cl: "clients ?loc = clients loc - {x}" by (auto simp: clients_def)
  have q: "quiet s ?s" using a by (auto simp: quiet_def)
  have "cpu_allocators ?s i = Some ?a" by simp
  from flush_remote [OF inv1 this] obtain s' loc' where
    "FlushRemoteList r i ?s = Ok s'" "slab_inv r S loc' s'" "clients loc' = clients ?loc" "quiet ?s s'"
    "slab_pages s' = slab_pages ?s" by blast
  moreover from this(4) have "quiet s s'" by (rule quiet_trans [OF q])
  ultimately show ?thesis
    using inv1 q cl by (cases "length (x # sa_remote_list a) > unat (sr_free_batch r)")
      (fastforce simp: push_remote_def a Let_def)+
qed

lemma free_remote:
  assumes inv: "slab_inv r S loc s" and a: "cpu_allocators s i \<noteq> None" and x: "loc x = Some With_Client"
  shows "\<exists>s' loc'. FreeRemote r i x s = Ok s' \<and> slab_inv r S loc' s' \<and> clients loc' = clients loc - {x} \<and> quiet s s'
    \<and> slab_pages s' = slab_pages s"
proof -
  obtain p c where p: "S p = Some c" "addr_to_slab_pfn x (sr_order r) = p"
    and d: "sd_cache (slab_pages s (pfn_down x)) = Some c" and f: "unat (pfn_down x) \<in> block (p, sr_order r)"
    using object_owner [OF inv] x by (metis option.distinct(1))
  obtain a where a: "cpu_allocators s i = Some a" using a by blast
  have req: "require_page (pfn_down x) s k = k" for k :: "slab res" by (rule require_page_ok [OF inv p(1) f])
  show ?thesis
  proof (cases "sa_remote_cache a = Some c")
    case True
    then have "FreeRemote r i x s = push_remote r i x s" by (simp add: FreeRemote_def req a d)
    then show ?thesis using push_remote_ok [OF inv a x] p True by simp
  next
    case False
    obtain s1 loc1 where s1: "FlushRemoteList r i s = Ok s1" "slab_inv r S loc1 s1" "clients loc1 = clients loc"
      "quiet s s1" "cpu_allocators s1 i = Some (a\<lparr>sa_remote_list := []\<rparr>)" "slab_pages s1 = slab_pages s"
      using flush_remote [OF inv a] by blast
    let ?a = "a\<lparr>sa_remote_list := [], sa_remote_cache := Some c\<rparr>"
    let ?s = "set_allocator i ?a s1"
    have F: "FreeRemote r i x s = push_remote r i x ?s"
      using False by (simp add: FreeRemote_def req a d s1)
    have inv2: "slab_inv r S loc1 ?s" using set_remote_cache [OF s1(2,5), of "Some c"] by simp
    have q: "quiet s ?s" using s1(4,5) by (auto simp: quiet_def)
    have x1: "loc1 x = Some With_Client" using s1(3) x by (auto simp: clients_def)
    have "cpu_allocators ?s i = Some ?a" by simp
    from push_remote_ok [OF inv2 this x1] p(1) s1(3,6) obtain s' loc' where
      "push_remote r i x ?s = Ok s'" "slab_inv r S loc' s'" "clients loc' = clients loc - {x}" "quiet ?s s'"
      "slab_pages s' = slab_pages s" unfolding p(2) by auto
    then show ?thesis using quiet_trans [OF q] unfolding F by blast
  qed
qed

subsection \<open>Pages\<close>

text \<open>The page allocator never makes a page structure appear or disappear.\<close>

definition same_pages :: "page_allocators \<Rightarrow> page_allocators \<Rightarrow> bool" where
  "same_pages f g \<longleftrightarrow> (\<forall>q. page_map g q = None \<longleftrightarrow> page_map f q = None)"

lemma FreePageNoCoalesce_present:
  "FreePageNoCoalesce p k s = Ok s' \<Longrightarrow> snd s' q = None \<longleftrightarrow> snd s q = None"
  by (cases s) (auto simp: FreePageNoCoalesce_Ok split: if_splits)

lemma free_loop_present: "free_loop p k s = Ok s' \<Longrightarrow> snd s' q = None \<longleftrightarrow> snd s q = None"
proof (induction p k s rule: free_loop.induct)
  case (1 p k fl pages)
  note eq = 1(2) [unfolded free_loop.simps [of p k fl pages] Let_def]
  show ?case
    using eq 1(1) FreePageNoCoalesce_present [of p k "(fl, pages)" s' q]
    by (auto simp: res_Ok_iff split: if_splits option.splits)
qed

lemma split_block_present: "split_block fp order k s = Ok s' \<Longrightarrow> snd s' q = None \<longleftrightarrow> snd s q = None"
  by (induction fp order k s rule: split_block.induct)
    (auto simp: res_Ok_iff FreePageNoCoalesce_present split: if_splits)

lemma AllocLocal_present:
  assumes "AllocLocal order s = Ok (p, s')"
  shows "snd s' q = None \<longleftrightarrow> snd s q = None"
proof (cases "find (\<lambda>o'. fst s o' \<noteq> []) [order..<Suc MAX_ORDER]")
  case None
  then show ?thesis using assms by (cases s) (simp add: AllocLocal_def del: upt_Suc)
next
  case (Some k)
  obtain fl pages where s: "s = (fl, pages)" by (cases s)
  obtain fl' pages' m where "split_block (hd (fl k)) order k (fl(k := tl (fl k)), pages) = Ok (fl', pages')"
    and "s' = (fl', pages'(p \<mapsto> m))" "pages' p \<noteq> None"
    using assms Some by (auto simp: AllocLocal_def s res_Ok_iff Let_def page_at_def simp del: upt_Suc split: option.splits)
  then show ?thesis using split_block_present [of "hd (fl k)" order k _ "(fl', pages')" q] by (auto simp: s)
qed

lemma on_allocator_present:
  assumes "on_allocator f nid fs = Ok (x, fs')"
    and "\<And>s y s'. f s = Ok (y, s') \<Longrightarrow> (\<forall>q. snd s' q = None \<longleftrightarrow> snd s q = None)"
  shows "same_pages fs fs'"
  using assms by (fastforce simp: on_allocator_Ok same_pages_def)

lemma inv_frames:
  "slab_inv r S loc s \<Longrightarrow> same_pages (frames s) f \<Longrightarrow> slab_inv r S loc (s\<lparr>frames := f\<rparr>)"
  by (simp add: slab_inv_def slabs_ok_def lists_ok_def partial_ok_def outgoing_ok_def outgoing_def
      outgoing_cache_def same_pages_def)

lemma free_slab_cases:
  assumes "slab_inv r S loc s"
  shows "(\<exists>f. free_slab e p k s = Ok (s\<lparr>frames := f\<rparr>) \<and> slab_inv r S loc (s\<lparr>frames := f\<rparr>))
    \<or> (\<exists>x. free_slab e p k s = Fail x)"
proof (cases "free_slab e p k s")
  case (Ok s')
  then obtain f where f: "s' = s\<lparr>frames := f\<rparr>"
    and o: "on_allocator (\<lambda>b. bind_res (Free p k b) (\<lambda>b'. Ok ((), b'))) (my_nid e) (frames s) = Ok ((), f)"
    by (auto simp: free_slab_def res_Ok_iff)
  have "same_pages (frames s) f"
    by (rule on_allocator_present [OF o]) (auto simp: res_Ok_iff Free_def dest: free_loop_present)
  then show ?thesis using Ok f inv_frames [OF assms] by blast
qed simp

subsection \<open>Returning an object to its slab\<close>

lemma partial_list:
  assumes "slab_inv r S loc s"
  shows "distinct (partial_page_list (caches s c))"
    and "set (partial_page_list (caches s c)) = {p. S p = Some c \<and> sd_list (slab_pages s p) \<noteq> []}"
  using assms by (simp_all add: slab_inv_def partial_ok_def)

lemma slab_count:
  assumes "slab_inv r S loc s" and "S p = Some c"
  shows "sd_used (slab_pages s p) + length (sd_list (slab_pages s p)) = num_objects r"
    and "set (sd_list (slab_pages s p)) \<subseteq> objects r p"
    and "length (sd_list (slab_pages s p)) = card (set (sd_list (slab_pages s p)))"
    and "card (objects r p) = num_objects r" and "finite (objects r p)" and "slab_at r p"
proof -
  have dom: "p \<in> dom S" using assms(2) by blast
  show "sd_used (slab_pages s p) + length (sd_list (slab_pages s p)) = num_objects r" and at: "slab_at r p"
    using assms by (auto simp: slab_inv_def slabs_ok_def)
  show "set (sd_list (slab_pages s p)) \<subseteq> objects r p"
    unfolding slab_list(2) [OF assms(1) dom] using assms(1) by (auto simp: slab_inv_def places_ok_def)
  show "length (sd_list (slab_pages s p)) = card (set (sd_list (slab_pages s p)))"
    using slab_list(1) [OF assms(1) dom] by (simp add: distinct_card)
  have "root_ok r" using assms(1) by (simp add: slab_inv_def)
  then show "card (objects r p) = num_objects r" "finite (objects r p)" using objects_card at by auto
qed

text \<open>Updating the list and count of a slab and its cache's list of partial pages.\<close>

definition update_slab :: "pfn \<Rightarrow> u64 list \<Rightarrow> nat \<Rightarrow> cache_id \<Rightarrow> pfn list \<Rightarrow> slab \<Rightarrow> slab" where
  "update_slab p l used c pl s =
     set_cache c ((caches s c)\<lparr>partial_page_list := pl\<rparr>)
       (set_data p ((slab_pages s p)\<lparr>sd_list := l, sd_used := used\<rparr>) s)"

lemma update_slab_inv:
  assumes inv: "slab_inv r S loc s" and p: "S p = Some c"
    and loc: "\<And>y Q. Q \<noteq> With_Client \<Longrightarrow> Q \<noteq> In_Slab p \<Longrightarrow> loc' y = Some Q \<longleftrightarrow> loc y = Some Q"
    and places: "places_ok r S loc'"
    and l: "distinct l" "set l = {y. loc' y = Some (In_Slab p)}" "used + length l = num_objects r"
    and pl: "distinct pl" "set pl = {q. S q = Some c \<and> (if q = p then l \<noteq> [] else sd_list (slab_pages s q) \<noteq> [])}"
  shows "slab_inv r S loc' (update_slab p l used c pl s)" (is "slab_inv r S loc' ?s")
proof -
  have pages: "slab_pages ?s q = (if q = p then (slab_pages s p)\<lparr>sd_list := l, sd_used := used\<rparr> else slab_pages s q)" for q
    by (simp add: update_slab_def)
  have "slabs_ok r S ?s"
    using inv p l(3) by (auto simp: slab_inv_def slabs_ok_def update_slab_def)
  moreover have "lists_ok loc' S ?s"
    using inv l(1,2) loc by (auto simp: slab_inv_def lists_ok_def update_slab_def)
  moreover have "partial_ok r S ?s"
  proof -
    have "S q = Some c' \<and> sd_list (slab_pages ?s q) \<noteq> [] \<longleftrightarrow> S q = Some c' \<and> sd_list (slab_pages s q) \<noteq> []"
      if "c' \<noteq> c" for q c' using that p by (auto simp: pages)
    moreover have "{q. S q = Some c \<and> sd_list (slab_pages ?s q) \<noteq> []} = set pl"
      unfolding pl(2) by (auto simp: pages split: if_splits)
    ultimately show ?thesis
      using inv pl(1) unfolding partial_ok_def slab_inv_def by (auto simp: update_slab_def)
  qed
  moreover have "outgoing_ok r S loc' ?s"
    using inv loc by (auto simp: slab_inv_def outgoing_ok_def update_slab_def)
  ultimately show ?thesis using inv places by (simp add: slab_inv_def)
qed

lemma put_back:
  assumes inv: "slab_inv r S loc s" and p: "S p = Some c" "x \<in> objects r p" and x: "loc x = Some With_Client"
    and pl: "distinct pl" "set pl = insert p (set (partial_page_list (caches s c)))"
  defines "d \<equiv> slab_pages s p"
  shows "0 < sd_used d"
    and "slab_inv r S (loc(x \<mapsto> In_Slab p)) (update_slab p (x # sd_list d) (sd_used d - 1) c pl s)"
proof -
  note sc = slab_count [OF inv p(1), folded d_def] and sl = slab_list [OF inv, of p, folded d_def]
  have xs: "x \<notin> set (sd_list d)" using sl(2) x domI [of S p c] p(1) by auto
  then have "set (sd_list d) \<subset> objects r p" using sc(2) p(2) by blast
  then have "length (sd_list d) < num_objects r" using psubset_card_mono [OF sc(5)] sc(3,4) by metis
  then show used: "0 < sd_used d" using sc(1) by linarith
  have "places_ok r S (loc(x \<mapsto> In_Slab p))"
    using inv p x by (intro places_into_slab) (auto simp: slab_inv_def)
  then show "slab_inv r S (loc(x \<mapsto> In_Slab p)) (update_slab p (x # sd_list d) (sd_used d - 1) c pl s)"
    using p xs sl x used sc(1) pl partial_list [OF inv, of c]
    by (intro update_slab_inv [OF inv p(1)]) (auto split: if_splits)
qed

text \<open>Forgetting a slab all of whose objects are in its list.\<close>

definition without :: "'a set \<Rightarrow> ('a \<Rightarrow> 'b option) \<Rightarrow> 'a \<Rightarrow> 'b option" where
  "without X m = (\<lambda>y. if y \<in> X then None else m y)"

lemma drop_slab:
  assumes inv: "slab_inv r S loc s" and p: "S p = Some c" and used: "sd_used (slab_pages s p) = 0"
  shows "slab_inv r (S(p := None)) (without (objects r p) loc)
      (set_cache c ((caches s c)\<lparr>partial_page_list := remove1 p (partial_page_list (caches s c))\<rparr>) s)" (is "slab_inv r ?S ?loc ?s")
    and "clients (without (objects r p) loc) = clients loc"
proof -
  note sc = slab_count [OF inv p] and sl = slab_list [OF inv, of p]
  have all: "set (sd_list (slab_pages s p)) = objects r p"
    using sc used by (intro card_subset_eq) auto
  then have inp: "loc y = Some (In_Slab p) \<longleftrightarrow> y \<in> objects r p" for y using sl(2) p by auto
  have eq: "?loc y = Some Q \<longleftrightarrow> loc y = Some Q \<and> Q \<noteq> In_Slab p" for y Q
    using inp [of y] by (auto simp: without_def)
  have root: "root_ok r" using inv by (simp add: slab_inv_def)
  have owner: "addr_to_slab_pfn y (sr_order r) \<noteq> p" if yq: "loc y = Some Q" "Q \<noteq> In_Slab p" for y Q
  proof -
    obtain q where "y \<in> objects r q" "addr_to_slab_pfn y (sr_order r) = q"
      by (rule object_owner [OF inv, of y]) (use yq(1) in auto)
    then show ?thesis using inp [of y] yq by auto
  qed
  have "objects r q \<inter> objects r p = {}" if "q \<in> dom S" "q \<noteq> p" for q
    using objects_of_slabs [OF root, of q p] sc(6) inv that by (auto simp: slab_inv_def slabs_ok_def)
  then have "(\<Union>q\<in>dom ?S. objects r q) = (\<Union>q\<in>dom S. objects r q) - objects r p" using p by auto
  moreover have "dom ?loc = dom loc - objects r p" by (auto simp: without_def dom_def)
  ultimately have "places_ok r ?S ?loc"
    using inv owner by (auto simp: slab_inv_def places_ok_def eq)
  moreover have "slabs_ok r ?S ?s" using inv by (auto simp: slab_inv_def slabs_ok_def)
  moreover have "lists_ok ?loc ?S ?s" using inv by (auto simp: slab_inv_def lists_ok_def eq)
  moreover have "outgoing_ok r ?S ?loc ?s" using inv owner by (auto simp: slab_inv_def outgoing_ok_def eq)
  moreover have "partial_ok r ?S ?s" using inv p by (auto simp: slab_inv_def partial_ok_def split: if_splits)
  ultimately show "slab_inv r ?S ?loc ?s" using root by (simp add: slab_inv_def)
  show "clients ?loc = clients loc" by (simp add: clients_def eq)
qed

subsection \<open>Flushing\<close>

text \<open>The outcome of flushing: objects leave the client's hands or not at all, other free lists stay,
  and slabs only disappear; the only failure is that of the page allocator on the frames of a slab
  that is no longer part of the well-formed rest.\<close>

definition flushed :: "env \<Rightarrow> slab_root \<Rightarrow> (pfn \<Rightarrow> cache_id option) \<Rightarrow> u64 set \<Rightarrow> slab \<Rightarrow> slab res \<Rightarrow> bool" where
  "flushed e r S held s res \<longleftrightarrow>
     (\<exists>s' S' loc'. res = Ok s' \<and> S' \<subseteq>\<^sub>m S \<and> slab_inv r S' loc' s' \<and> clients loc' = held
        \<and> (\<forall>c. object_list (caches s' c) = object_list (caches s c)) \<and> dom (cpu_allocators s') = dom (cpu_allocators s))
     \<or> (\<exists>p s1 S1 loc1 x. p \<in> dom S - dom S1 \<and> S1 \<subseteq>\<^sub>m S \<and> slab_inv r S1 loc1 s1 \<and> clients loc1 = held
        \<and> free_slab e p (sr_order r) s1 = Fail x \<and> res = Fail x)"

lemma flushed_Ok:
  assumes "slab_inv r S' loc' s'" and "S' \<subseteq>\<^sub>m S" and "clients loc' = held"
    and "\<forall>c. object_list (caches s' c) = object_list (caches s c)" and "dom (cpu_allocators s') = dom (cpu_allocators s)"
  shows "flushed e r S held s (Ok s')"
  unfolding flushed_def using assms
  by (intro disjI1 exI [of _ s'] exI [of _ S'] exI [of _ loc']) (simp only: simp_thms)

lemma flushed_Fail:
  assumes "p \<in> dom S - dom S1" and "S1 \<subseteq>\<^sub>m S" and "slab_inv r S1 loc1 s1" and "clients loc1 = held"
    and "free_slab e p (sr_order r) s1 = Fail x"
  shows "flushed e r S held s (Fail x)"
  unfolding flushed_def using assms
  by (intro disjI2 exI [of _ p] exI [of _ s1] exI [of _ S1] exI [of _ loc1] exI [of _ x]) (simp only: simp_thms)

lemma flushed_cases:
  assumes "flushed e r S held s res"
  obtains (Ok) s' S' loc' where "res = Ok s'" "S' \<subseteq>\<^sub>m S" "slab_inv r S' loc' s'" "clients loc' = held"
      "\<forall>c. object_list (caches s' c) = object_list (caches s c)" "dom (cpu_allocators s') = dom (cpu_allocators s)"
  | (Fail) p s1 S1 loc1 x where "res = Fail x" "p \<in> dom S - dom S1" "S1 \<subseteq>\<^sub>m S" "slab_inv r S1 loc1 s1"
      "clients loc1 = held" "free_slab e p (sr_order r) s1 = Fail x"
proof -
  note f = assms [unfolded flushed_def]
  show thesis
    by (rule disjE [OF f]; elim exE conjE)
      ((rule Ok; assumption), (rule Fail; assumption))
qed

lemma set_cache_same [simp]: "set_cache c ((caches s c)\<lparr>partial_page_list := partial_page_list (caches s c)\<rparr>) s = s"
  by (simp add: set_cache_def)

lemma set_cache_set_data: "set_cache c v (set_data p d s) = set_data p d (set_cache c v s)"
  by (simp add: set_cache_def set_data_def)

text \<open>An object goes back to a slab that has others in use.\<close>

definition with_object :: "pfn \<Rightarrow> u64 \<Rightarrow> cache_id \<Rightarrow> slab \<Rightarrow> slab" where
  "with_object p x c s = (let d = slab_pages s p; P = partial_page_list (caches s c)
     in update_slab p (x # sd_list d) (sd_used d - 1) c (if p \<in> set P then P else p # P) s)"

lemma return_to_slab_keeps:
  assumes inv: "slab_inv r S loc s" and p: "S p = Some c" "x \<in> objects r p" and x: "loc x = Some With_Client"
    and more: "1 < sd_used (slab_pages s p)"
  shows "return_to_slab e r c x p s = Ok (with_object p x c s)" and "slab_inv r S (loc(x \<mapsto> In_Slab p)) (with_object p x c s)"
proof -
  let ?d = "slab_pages s p" and ?P = "partial_page_list (caches s c)"
  let ?s1 = "set_data p (?d\<lparr>sd_list := x # sd_list ?d, sd_used := sd_used ?d - 1\<rparr>) s"
  note U = with_object_def [of p x c s, unfolded Let_def]
  have "distinct (if p \<in> set ?P then ?P else p # ?P)" "set (if p \<in> set ?P then ?P else p # ?P) = insert p (set ?P)"
    using partial_list [OF inv, of c] by auto
  from put_back(2) [OF inv p x this] show "slab_inv r S (loc(x \<mapsto> In_Slab p)) (with_object p x c s)" unfolding U .
  have P: "p \<in> set ?P \<longleftrightarrow> sd_list ?d \<noteq> []" using partial_list(2) [OF inv, of c] p(1) by auto
  note count = slab_count(1) [OF inv p(1)]
  have R: "return_to_slab e r c x p s = (if sd_used ?d = num_objects r then push_partial p c ?s1 else Ok ?s1)"
    using more by (simp add: return_to_slab_def Let_def num_objects_def)
  have U_eq: "with_object p x c s = set_cache c ((caches ?s1 c)\<lparr>partial_page_list := (if p \<in> set ?P then ?P else p # ?P)\<rparr>) ?s1"
    by (simp add: U update_slab_def)
  show "return_to_slab e r c x p s = Ok (with_object p x c s)"
  proof (cases "sd_used ?d = num_objects r")
    case True
    then have "p \<notin> set ?P" using count P by simp
    then show ?thesis using True U_eq by (simp add: R push_partial_def)
  next
    case False
    then have "p \<in> set ?P" using count P by auto
    then show ?thesis using False U_eq set_cache_same [of c ?s1] by (simp add: R)
  qed
qed

lemma return_to_slab_ok:
  assumes inv: "slab_inv r S loc s" and p: "S p = Some c" "x \<in> objects r p" and x: "loc x = Some With_Client"
  shows "flushed e r S (clients loc - {x}) s (return_to_slab e r c x p s)"
proof -
  let ?d = "slab_pages s p" and ?P = "partial_page_list (caches s c)"
  let ?pl = "if p \<in> set ?P then ?P else p # ?P"
  let ?s1 = "set_data p (?d\<lparr>sd_list := x # sd_list ?d, sd_used := sd_used ?d - 1\<rparr>) s"
  let ?U = "update_slab p (x # sd_list ?d) (sd_used ?d - 1) c ?pl s" and ?loc = "loc(x \<mapsto> In_Slab p)"
  have pl: "distinct ?pl" "set ?pl = insert p (set ?P)" using partial_list [OF inv, of c] by auto
  have used: "0 < sd_used ?d" and U: "slab_inv r S ?loc ?U" using put_back [OF inv p x pl] by auto
  have cl: "clients ?loc = clients loc - {x}" by (auto simp: clients_def)
  have P: "p \<in> set ?P \<longleftrightarrow> sd_list ?d \<noteq> []" using partial_list(2) [OF inv, of c] p(1) by auto
  note count = slab_count(1) [OF inv p(1)]
  have n: "unat (num_objects_per_slab r) = num_objects r" by (simp add: num_objects_def)
  have more: "num_objects_per_slab r > 1 \<longleftrightarrow> num_objects r > 1" by (simp add: word_less_nat_alt n)
  have R: "return_to_slab e r c x p s =
     (if sd_used ?d - 1 = 0 then bind_res (if num_objects r > 1 then erase_partial p c ?s1 else Ok ?s1) (free_slab e p (sr_order r))
      else if sd_used ?d - 1 + 1 = num_objects r then push_partial p c ?s1 else Ok ?s1)"
    using used by (simp only: return_to_slab_def Let_def n more) simp
  have U_eq: "?U = set_cache c ((caches ?s1 c)\<lparr>partial_page_list := ?pl\<rparr>) ?s1" by (simp add: update_slab_def)
  show ?thesis
  proof (cases "sd_used ?d = 1")
    case True
    let ?D = "set_cache c ((caches ?s1 c)\<lparr>partial_page_list := remove1 p ?P\<rparr>) ?s1"
    have D: "set_cache c ((caches ?U c)\<lparr>partial_page_list := remove1 p (partial_page_list (caches ?U c))\<rparr>) ?U = ?D"
      by (simp add: update_slab_def set_cache_def remove1_idem)
    have inv': "slab_inv r (S(p := None)) (without (objects r p) ?loc) ?D"
      and cl': "clients (without (objects r p) ?loc) = clients ?loc"
      using drop_slab [OF U p(1)] True unfolding D by (auto simp: update_slab_def)
    have "(if num_objects r > 1 then erase_partial p c ?s1 else Ok ?s1) = Ok ?D"
    proof (cases "num_objects r > 1")
      case False
      then have "p \<notin> set ?P" using count True P by (cases "sd_list ?d") auto
      then show ?thesis using False set_cache_same [of c ?s1] by (simp add: remove1_idem)
    next
      case True
      then have "p \<in> set ?P" using count \<open>sd_used ?d = 1\<close> P by (cases "sd_list ?d") auto
      then show ?thesis using True by (simp add: erase_partial_def)
    qed
    then have R': "return_to_slab e r c x p s = free_slab e p (sr_order r) ?D" using True by (simp add: R)
    have "S(p := None) \<subseteq>\<^sub>m S" by (auto simp: map_le_def)
    moreover have keep: "(\<forall>c'. object_list (caches ?D c') = object_list (caches s c')) \<and> cpu_allocators ?D = cpu_allocators s"
      by simp
    ultimately show ?thesis
      using free_slab_cases [OF inv', of e p "sr_order r"] p(1) cl' unfolding R' cl [symmetric]
    proof (elim disjE exE conjE)
      fix f assume a: "free_slab e p (sr_order r) ?D = Ok (?D\<lparr>frames := f\<rparr>)"
        "slab_inv r (S(p := None)) (without (objects r p) ?loc) (?D\<lparr>frames := f\<rparr>)" "S(p := None) \<subseteq>\<^sub>m S"
      show "flushed e r S (clients ?loc) s (free_slab e p (sr_order r) ?D)"
        unfolding a(1) using cl' keep by (intro flushed_Ok [OF a(2,3)]) simp_all
    next
      fix y assume f: "free_slab e p (sr_order r) ?D = Fail y" "S(p := None) \<subseteq>\<^sub>m S" "S p = Some c"
      have "p \<in> dom S - dom (S(p := None))" using f(3) by auto
      then show "flushed e r S (clients ?loc) s (free_slab e p (sr_order r) ?D)"
        unfolding f(1) by (rule flushed_Fail [OF _ f(2) inv' cl' f(1)])
    qed
  next
    case False
    then have "1 < sd_used ?d" using used by simp
    then have "return_to_slab e r c x p s = Ok ?U"
      using return_to_slab_keeps(1) [OF inv p x] by (simp add: with_object_def Let_def)
    moreover have "(\<forall>c'. object_list (caches ?U c') = object_list (caches s c')) \<and> cpu_allocators ?U = cpu_allocators s"
      by (simp add: update_slab_def)
    ultimately show ?thesis using cl by (simp only:) (rule flushed_Ok [OF U map_le_refl cl]; simp)
  qed
qed

lemma flushed_mono:
  assumes "flushed e r S' held t res" and "S' \<subseteq>\<^sub>m S"
    and "\<And>c. object_list (caches t c) = object_list (caches s c)" and "dom (cpu_allocators t) = dom (cpu_allocators s)"
  shows "flushed e r S held s res"
proof -
  have dom: "dom S' \<subseteq> dom S" using assms(2) by (rule map_le_implies_dom_le)
  have le: "S'' \<subseteq>\<^sub>m S" if "S'' \<subseteq>\<^sub>m S'" for S'' using map_le_trans [OF that assms(2)] .
  from assms(1) show ?thesis
  proof (cases rule: flushed_cases)
    case (Ok s' S'' loc')
    show ?thesis unfolding Ok(1)
      by (rule flushed_Ok [OF Ok(3) le [OF Ok(2)] Ok(4)]) (simp_all add: Ok(5,6) assms(3,4))
  next
    case (Fail p s1 S1 loc1 x)
    have "p \<in> dom S - dom S1" using Fail(2) dom by blast
    then show ?thesis unfolding Fail(1) by (rule flushed_Fail [OF _ le [OF Fail(3)] Fail(4-6)])
  qed
qed

lemma head_cache:
  assumes inv: "slab_inv r S loc s" and p: "S p = Some c"
  shows "sd_cache (slab_pages s p) = Some c" and "unat p \<in> block (p, sr_order r)"
proof -
  have root: "root_ok r" and at: "slab_at r p" and own: "\<forall>x\<in>objects r p. sd_cache (slab_pages s (pfn_down x)) = Some c"
    using inv p by (auto simp: slab_inv_def slabs_ok_def)
  have "object r p 0 \<in> objects r p" using num_objects(2) [OF root] by (auto simp: objects_def)
  moreover have "unat (pfn_down (object r p 0)) = unat p"
    using unat_object(1) [OF root at, of 0] by (simp add: unat_pfn_down)
  ultimately show "sd_cache (slab_pages s p) = Some c" using own by (metis word_eq_unat)
  show "unat p \<in> block (p, sr_order r)" by simp
qed

lemma flush_object_ok:
  assumes inv: "slab_inv r S loc s" and x: "loc x = Some With_Client" and me: "cpu_allocators s (my_cpu e) \<noteq> None"
  shows "flushed e r S (clients loc - {x}) s (flush_object e r c x s)"
proof -
  obtain p c' where p: "S p = Some c'" "x \<in> objects r p" "addr_to_slab_pfn x (sr_order r) = p"
    by (rule object_owner [OF inv, of x]) (use x in auto)
  have req: "require_page p s k = k" for k :: "slab res"
    using require_page_ok [OF inv p(1)] head_cache(2) [OF inv p(1)] by blast
  have d: "sd_cache (slab_pages s p) = Some c'" by (rule head_cache(1) [OF inv p(1)])
  show ?thesis
  proof (cases "c' = c")
    case True
    then have "flush_object e r c x s = return_to_slab e r c x p s" by (simp add: flush_object_def p(3) req d)
    then show ?thesis using return_to_slab_ok [OF inv _ p(2) x, of c e] p(1) True by simp
  next
    case False
    have "get_cpu_allocator e (my_cpu e) s = Ok s" using me by (auto simp: get_cpu_allocator_def)
    then have F: "flush_object e r c x s = FreeRemote r (my_cpu e) x s"
      using False by (simp add: flush_object_def p(3) req d)
    obtain s' loc' where s': "FreeRemote r (my_cpu e) x s = Ok s'" "slab_inv r S loc' s'" "clients loc' = clients loc - {x}" "quiet s s'"
      using free_remote [OF inv me x] by blast
    show ?thesis unfolding F s'(1)
      by (rule flushed_Ok [OF s'(2) map_le_refl s'(3)]) (use s'(4) in \<open>simp_all add: quiet_def\<close>)
  qed
qed

lemma flush_free_list_ok:
  assumes "slab_inv r S loc s" and "cpu_allocators s (my_cpu e) \<noteq> None"
  shows "flushed e r S (clients loc) (set_cache c ((caches s c)\<lparr>object_list := drop n (object_list (caches s c))\<rparr>) s)
    (FlushFreeList e r c n s)"
  using assms
proof (induction n arbitrary: S loc s)
  case 0
  then show ?case by (simp, intro flushed_Ok [OF _ map_le_refl]) simp_all
next
  case (Suc n)
  note inv = Suc.prems(1)
  show ?case
  proof (cases "object_list (caches s c)")
    case Nil
    then show ?thesis using inv by (simp, intro flushed_Ok [OF _ map_le_refl]) simp_all
  next
    case (Cons x xs)
    let ?s1 = "set_cache c ((caches s c)\<lparr>object_list := xs\<rparr>) s" and ?loc = "loc(x \<mapsto> With_Client)"
    note pop = pop_object [OF inv Cons]
    have "clients ?loc - {x} = clients loc" using pop(1) by (auto simp: clients_def)
    then have f: "flushed e r S (clients loc) ?s1 (flush_object e r c x ?s1)"
      using flush_object_ok [OF pop(2), of x e c] Suc.prems(2) by simp
    show ?thesis
    proof (cases "flush_object e r c x ?s1")
      case (Fail y)
      from f [unfolded Fail] show ?thesis
      proof (cases rule: flushed_cases)
        case (Fail p s1 S1 loc1 z)
        then show ?thesis
          using Cons \<open>flush_object e r c x ?s1 = Fail y\<close> flushed_Fail [OF Fail(2-6)] by simp
      qed simp
    next
      case (Ok s2)
      obtain S2 loc2 where s2: "S2 \<subseteq>\<^sub>m S" "slab_inv r S2 loc2 s2" "clients loc2 = clients loc"
        "\<And>c'. object_list (caches s2 c') = object_list (caches ?s1 c')" "dom (cpu_allocators s2) = dom (cpu_allocators s)"
        using f [unfolded Ok] by (cases rule: flushed_cases) auto
      have "cpu_allocators s2 (my_cpu e) \<noteq> None" using s2(5) Suc.prems(2) by blast
      from flushed_mono [OF Suc.IH [OF s2(2) this] s2(1)] s2(3-5) Cons
      show ?thesis by (simp add: Ok)
    qed
  qed
qed

subsection \<open>Taking objects\<close>

lemma take_from_slab:
  assumes inv: "slab_inv r S loc s"
  shows "(partial_page_list (caches s c) = [] \<and> alloc_from_partial r c s = Ok (0, s))
    \<or> (\<exists>x s'. alloc_from_partial r c s = Ok (x, s') \<and> loc x \<noteq> None \<and> loc x \<noteq> Some With_Client
        \<and> slab_inv r S (loc(x \<mapsto> With_Client)) s'
        \<and> (\<forall>c. object_list (caches s' c) = object_list (caches s c)) \<and> cpu_allocators s' = cpu_allocators s
        \<and> frames s' = frames s \<and> addr_to_slab_pfn x (sr_order r) \<in> set (partial_page_list (caches s c)))"
proof (cases "partial_page_list (caches s c)")
  case Nil
  then show ?thesis by (simp add: alloc_from_partial_def Let_def)
next
  case (Cons p ps)
  note pl = partial_list [OF inv, of c, unfolded Cons]
  let ?d = "slab_pages s p"
  have p: "S p = Some c" and ne: "sd_list ?d \<noteq> []" using pl(2) by auto
  have dom: "p \<in> dom S" using p by blast
  obtain x l where l: "sd_list ?d = x # l" using ne by (cases "sd_list ?d") auto
  note sc = slab_count [OF inv p] and sl = slab_list [OF inv dom]
  have locx: "loc x = Some (In_Slab p)" using sl(2) unfolding l by auto
  let ?pl = "if sd_used ?d + 1 = num_objects r then ps else p # ps"
  let ?U = "update_slab p l (sd_used ?d + 1) c ?pl s" and ?loc = "loc(x \<mapsto> With_Client)"
  have n: "unat (num_objects_per_slab r) = num_objects r" by (simp add: num_objects_def)
  have cnt: "sd_used ?d + 1 + length l = num_objects r" using sc(1) unfolding l by simp
  have "slab_inv r S ?loc ?U"
  proof (rule update_slab_inv [OF inv p])
    show "places_ok r S ?loc" using places_move [of r S loc x With_Client] inv locx by (simp add: slab_inv_def)
    show "distinct l" "set l = {y. ?loc y = Some (In_Slab p)}" using sl unfolding l by auto
    have "l = [] \<longleftrightarrow> sd_used ?d + 1 = num_objects r" using cnt by (cases l) auto
    then show "set ?pl = {q. S q = Some c \<and> (if q = p then l \<noteq> [] else sd_list (slab_pages s q) \<noteq> [])}"
      using pl p by auto
  qed (use locx cnt pl in auto)
  moreover have "alloc_from_partial r c s = Ok (x, ?U)"
  proof -
    have "caches s c\<lparr>partial_page_list := p # ps\<rparr> = caches s c" using Cons by (intro slab_cache.equality) simp_all
    then show ?thesis
      using cnt by (auto simp: alloc_from_partial_def Cons Let_def n l update_slab_def set_cache_def set_data_def
          intro!: slab.equality slab_data.equality ext)
  qed
  moreover have "addr_to_slab_pfn x (sr_order r) = p"
    using object_frame(2) [of r p x] inv sc(2,6) l by (auto simp: slab_inv_def)
  ultimately show ?thesis
    using locx Cons by (intro disjI2 exI [of _ x] exI [of _ ?U]) (simp add: update_slab_def)
qed

text \<open>Claiming the remotely freed objects when the cache's own list is empty.\<close>

definition loc_claim :: "cache_id \<Rightarrow> (u64 \<Rightarrow> place option) \<Rightarrow> u64 \<Rightarrow> place option" where
  "loc_claim c loc = (\<lambda>x. if loc x = Some (In_Remote c) then Some (In_Cache c) else loc x)"

lemma claim_ok:
  assumes inv: "slab_inv r S loc s" and empty: "object_list (caches s c) = []"
  defines "s' \<equiv> set_cache c ((caches s c)\<lparr>object_list := remote_objects (caches s c), remote_objects := []\<rparr>) s"
  shows "ClaimRemoteFreeList c s = Ok s'" and "slab_inv r S (loc_claim c loc) s'"
    and "clients (loc_claim c loc) = clients loc"
proof -
  show "ClaimRemoteFreeList c s = Ok s'" using empty by (simp add: ClaimRemoteFreeList_def s'_def Let_def)
  have none: "loc x \<noteq> Some (In_Cache c)" for x using cache_list(2) [OF inv, of c] unfolding empty by auto
  let ?loc = "loc_claim c loc"
  have eq: "?loc x = Some Q \<longleftrightarrow> (if Q = In_Cache c then loc x = Some (In_Remote c) else Q \<noteq> In_Remote c \<and> loc x = Some Q)" for x Q
    using none [of x] by (auto simp: loc_claim_def)
  have "dom ?loc = dom loc" by (auto simp: loc_claim_def split: if_splits)
  then have "places_ok r S ?loc" using inv by (auto simp: slab_inv_def places_ok_def eq)
  moreover have "lists_ok ?loc S s'" using inv by (auto simp: slab_inv_def lists_ok_def eq s'_def)
  moreover have "partial_ok r S s'" using inv by (auto simp: slab_inv_def partial_ok_def s'_def)
  moreover have "outgoing_ok r S ?loc s'" using inv by (auto simp: slab_inv_def outgoing_ok_def eq s'_def)
  ultimately show "slab_inv r S ?loc s'" using inv by (simp add: slab_inv_def s'_def)
  show "clients ?loc = clients loc" by (auto simp: clients_def eq)
qed

lemma trim_ok:
  assumes "slab_inv r S loc s" and "cpu_allocators s (my_cpu e) \<noteq> None"
    and b: "0 < sr_free_batch r" "sr_free_batch r \<le> sr_hiwater r"
  shows "\<exists>k res. trim_free_list e r c s = Some res \<and> (object_list (caches s c) \<noteq> [] \<longrightarrow> k < length (object_list (caches s c)))
    \<and> flushed e r S (clients loc) (set_cache c ((caches s c)\<lparr>object_list := drop k (object_list (caches s c))\<rparr>) s) res"
  using assms(1,2)
proof (induction "length (object_list (caches s c))" arbitrary: S loc s rule: less_induct)
  case less
  let ?l = "object_list (caches s c)" and ?b = "unat (sr_free_batch r)"
  have b': "0 < ?b" "?b \<le> unat (sr_hiwater r)" using b by (simp_all add: word_le_nat_alt word_less_nat_alt)
  show ?case
  proof (cases "length ?l > unat (sr_hiwater r)")
    case False
    then have "trim_free_list e r c s = Some (Ok s)" by (subst trim_free_list.simps) simp
    moreover have "flushed e r S (clients loc) (set_cache c ((caches s c)\<lparr>object_list := drop 0 ?l\<rparr>) s) (Ok s)"
      by (rule flushed_Ok [OF less.prems(1) map_le_refl refl]) simp_all
    ultimately show ?thesis by (intro exI [of _ 0] exI [of _ "Ok s"]) simp
  next
    case True
    note T = trim_free_list.simps [of e r c s, unfolded if_P [OF True]]
    have f: "flushed e r S (clients loc) (set_cache c ((caches s c)\<lparr>object_list := drop ?b ?l\<rparr>) s) (FlushFreeList e r c ?b s)"
      by (rule flush_free_list_ok [OF less.prems])
    from f show ?thesis
    proof (cases rule: flushed_cases)
      case (Fail p s1 S1 loc1 x)
      then show ?thesis using f True b' by (intro exI [of _ ?b] exI [of _ "Fail x"]) (simp add: T)
    next
      case (Ok s1 S1 loc1)
      have l1: "object_list (caches s1 c) = drop ?b ?l" using Ok(5) by simp
      have "length (object_list (caches s1 c)) < length ?l" using b' True by (simp add: l1)
      moreover have "cpu_allocators s1 (my_cpu e) \<noteq> None" using Ok(6) less.prems(2) by auto
      ultimately obtain k res where k: "trim_free_list e r c s1 = Some res"
        "object_list (caches s1 c) \<noteq> [] \<longrightarrow> k < length (object_list (caches s1 c))"
        "flushed e r S1 (clients loc1) (set_cache c ((caches s1 c)\<lparr>object_list := drop k (object_list (caches s1 c))\<rparr>) s1) res"
        using less.hyps [OF _ Ok(3)] by blast
      have "flushed e r S (clients loc) (set_cache c ((caches s c)\<lparr>object_list := drop (?b + k) ?l\<rparr>) s) res"
        using k(3) unfolding Ok(4)
        by (rule flushed_mono [OF _ Ok(2)]) (use Ok(5,6) l1 in \<open>auto simp: add.commute\<close>)
      moreover have "?b + k < length ?l" using k(2) l1 b' True by auto
      ultimately show ?thesis using k(1) Ok(1) by (intro exI [of _ "?b + k"] exI [of _ res]) (simp add: T)
    qed
  qed
qed

end
