(* ===== verification/Slab_Alloc.thy ===== *)
theory Slab_Alloc
  imports Slab_Inv
begin

text \<open>
  Allocation and freeing of slab objects: what the operations of \<open>Slab\<close> return, that objects handed
  out are new, and when \<open>SlabCache::Alloc\<close> does not return.
\<close>

subsection \<open>Allocation from a cache\<close>

text \<open>A result of an allocation: null with nothing free, an object no client held, or the page
  allocator's failure while flushing.\<close>

definition taken :: "slab_root \<Rightarrow> (pfn \<Rightarrow> cache_id option) \<Rightarrow> (u64 \<Rightarrow> place option) \<Rightarrow> slab \<Rightarrow> u64 \<Rightarrow> slab \<Rightarrow> bool" where
  "taken r S loc s x s' \<longleftrightarrow> (\<exists>S' loc'. S' \<subseteq>\<^sub>m S \<and> slab_inv r S' loc' s' \<and> x \<notin> clients loc
     \<and> clients loc' = insert x (clients loc) \<and> dom (cpu_allocators s') = dom (cpu_allocators s))"

lemma pop_taken:
  assumes inv: "slab_inv r S loc s" and l: "object_list (caches s c) \<noteq> []"
  shows "\<exists>x s'. SlabCache_Alloc e r c s = Some (Ok (x, s')) \<and> taken r S loc s x s'"
proof -
  obtain x xs where l: "object_list (caches s c) = x # xs" using l by (cases "object_list (caches s c)") auto
  note pop = pop_object [OF inv l]
  let ?s = "set_cache c ((caches s c)\<lparr>object_list := xs\<rparr>) s"
  have "SlabCache_Alloc e r c s = Some (Ok (x, ?s))" by (subst SlabCache_Alloc.simps) (simp add: l)
  moreover have "x \<notin> clients loc" "clients (loc(x \<mapsto> With_Client)) = insert x (clients loc)"
    using pop(1) by (auto simp: clients_def)
  then have "taken r S loc s x ?s"
    unfolding taken_def using pop(2) map_le_refl [of S]
    by (intro exI [of _ S] exI [of _ "loc(x \<mapsto> With_Client)"]) simp
  ultimately show ?thesis by blast
qed

lemma local_alloc:
  assumes inv: "slab_inv r S loc s" and nc: "\<not> remote_check (caches s c) \<or> object_list (caches s c) \<noteq> []"
  shows "(object_list (caches s c) = [] \<and> partial_page_list (caches s c) = [] \<and> SlabCache_Alloc e r c s = Some (Ok (0, s)))
    \<or> (\<exists>x s'. SlabCache_Alloc e r c s = Some (Ok (x, s')) \<and> taken r S loc s x s')"
proof (cases "object_list (caches s c)")
  case Nil
  then have A: "SlabCache_Alloc e r c s = Some (alloc_from_partial r c s)"
    using nc by (subst SlabCache_Alloc.simps) simp
  from take_from_slab [OF inv, of c] show ?thesis
  proof (elim disjE exE conjE)
    fix x s' assume a: "alloc_from_partial r c s = Ok (x, s')" "loc x \<noteq> None" "loc x \<noteq> Some With_Client"
      "slab_inv r S (loc(x \<mapsto> With_Client)) s'" "cpu_allocators s' = cpu_allocators s"
    have "x \<notin> clients loc" "clients (loc(x \<mapsto> With_Client)) = insert x (clients loc)"
      using a(3) by (auto simp: clients_def)
    then have "taken r S loc s x s'"
      unfolding taken_def using a(4,5) map_le_refl [of S]
      by (intro exI [of _ S] exI [of _ "loc(x \<mapsto> With_Client)"]) simp
    then show ?thesis using A a(1) by simp
  qed (use A Nil in simp)
qed (use pop_taken [OF inv, of c e] in simp)

lemma claimed_alloc:
  assumes inv: "slab_inv r S loc s" and me: "cpu_allocators s (my_cpu e) \<noteq> None"
    and b: "0 < sr_free_batch r" "sr_free_batch r \<le> sr_hiwater r"
    and c: "object_list (caches s c) = []" "remote_check (caches s c)" "remote_objects (caches s c) \<noteq> []"
  shows "(\<exists>x s'. SlabCache_Alloc e r c s = Some (Ok (x, s')) \<and> taken r S loc s x s')
    \<or> (\<exists>y. SlabCache_Alloc e r c s = Some (Fail y) \<and> flushed e r S (clients loc) s (Fail y))"
proof -
  let ?s1 = "set_cache c ((caches s c)\<lparr>object_list := remote_objects (caches s c), remote_objects := []\<rparr>) s"
  note cl = claim_ok [OF inv c(1)]
  have ne: "object_list (caches ?s1 c) \<noteq> []" using c(3) by simp
  obtain k res where t: "trim_free_list e r c ?s1 = Some res" "k < length (object_list (caches ?s1 c))"
    "flushed e r S (clients loc) (set_cache c ((caches ?s1 c)\<lparr>object_list := drop k (object_list (caches ?s1 c))\<rparr>) ?s1) res"
    using trim_ok [OF cl(2) _ b, of e c] me ne cl(3) by auto
  have A: "SlabCache_Alloc e r c s = (case res of Fail x \<Rightarrow> Some (Fail x) | Ok s2 \<Rightarrow> SlabCache_Alloc e r c s2)"
    by (subst SlabCache_Alloc.simps) (simp add: c cl(1) t(1))
  from t(3) show ?thesis
  proof (cases rule: flushed_cases)
    case (Fail p s1 S1 loc1 y)
    then show ?thesis using A flushed_Fail [OF Fail(2-6)] by simp
  next
    case (Ok s2 S2 loc2)
    have "object_list (caches s2 c) \<noteq> []" using Ok(5) t(2) by simp
    from pop_taken [OF Ok(3) this, of e] obtain x s' where x: "SlabCache_Alloc e r c s2 = Some (Ok (x, s'))"
      "taken r S2 loc2 s2 x s'" by blast
    have "taken r S loc s x s'"
      using x(2) Ok(2,4,6) map_le_trans unfolding taken_def by (metis set_cache_sel(2))
    then show ?thesis using A Ok(1) x(1) by simp
  qed
qed

text \<open>Once the remote-check flag is set it stays set, and with both lists empty the retry never ends.\<close>

definition stuck :: "cache_id \<Rightarrow> slab \<Rightarrow> bool" where
  "stuck c s \<longleftrightarrow> remote_check (caches s c) \<and> object_list (caches s c) = [] \<and> remote_objects (caches s c) = []"

lemma claim_stuck: "stuck c s \<Longrightarrow> ClaimRemoteFreeList c s = Ok s"
proof -
  assume "stuck c s"
  then have "(caches s c)\<lparr>object_list := remote_objects (caches s c), remote_objects := []\<rparr> = caches s c"
    by (intro slab_cache.equality) (simp_all add: stuck_def)
  then have "set_cache c ((caches s c)\<lparr>object_list := remote_objects (caches s c), remote_objects := []\<rparr>) s = s"
    by (simp only: set_cache_def) simp
  with \<open>stuck c s\<close> show ?thesis
    by (simp only: ClaimRemoteFreeList_def stuck_def Let_def if_True simp_thms)
qed

lemma stuck_alloc:
  assumes "stuck c s"
  shows "SlabCache_Alloc e r c s = None"
proof -
  have "\<not> stuck c s" if "SlabCache_Alloc e r c s = Some res" for res
  proof (rule SlabCache_Alloc.raw_induct [OF _ that])
    fix f e r c s y
    assume IH: "\<And>e r c s y. f e r c s = Some y \<Longrightarrow> \<not> stuck c s"
      and body: "(case object_list (caches s c) of
        [] \<Rightarrow> if remote_check (caches s c)
             then case ClaimRemoteFreeList c s of
                  Ok s1 \<Rightarrow> Option.bind (trim_free_list e r c s1) (\<lambda>t. case t of Ok s2 \<Rightarrow> f e r c s2 | Fail x \<Rightarrow> Some (Fail x))
                  | Fail x \<Rightarrow> Some (Fail x)
             else Some (alloc_from_partial r c s)
        | ret # rest \<Rightarrow> Some (Ok (ret, set_cache c (caches s c\<lparr>object_list := rest\<rparr>) s))) = Some y"
    show "\<not> stuck c s"
    proof
      assume st: "stuck c s"
      note st' = st [unfolded stuck_def]
      have "trim_free_list e r c s = Some (Ok s)" by (subst trim_free_list.simps) (simp add: st')
      then have "f e r c s = Some y" using body by (simp add: claim_stuck [OF st] st')
      then show False using IH st by blast
    qed
  qed
  then show ?thesis using assms by (cases "SlabCache_Alloc e r c s") auto
qed

lemma trim_no_batch:
  assumes "sr_free_batch r = 0" and "unat (sr_hiwater r) < length (object_list (caches s c))"
  shows "trim_free_list e r c s = None"
proof -
  have "sr_free_batch r \<noteq> 0 \<or> \<not> unat (sr_hiwater r) < length (object_list (caches s c))"
    if "trim_free_list e r c s = Some res" for res
  proof (rule trim_free_list.raw_induct [OF _ that])
    fix f e r c s y
    assume IH: "\<And>e r c s y. f e r c s = Some y \<Longrightarrow>
        sr_free_batch r \<noteq> 0 \<or> \<not> unat (sr_hiwater r) < length (object_list (caches s c))"
      and body: "(if unat (sr_hiwater r) < length (object_list (caches s c))
        then case FlushFreeList e r c (unat (sr_free_batch r)) s of Ok s1 \<Rightarrow> f e r c s1 | Fail x \<Rightarrow> Some (Fail x)
        else Some (Ok s)) = Some y"
    show "sr_free_batch r \<noteq> 0 \<or> \<not> unat (sr_hiwater r) < length (object_list (caches s c))"
      using body IH [of e r c s y] by (cases "sr_free_batch r = 0") (auto split: if_splits)
  qed
  then show ?thesis using assms by (cases "trim_free_list e r c s") auto
qed

text \<open>With batches of size 0 (objects over 256 KiB) the list claimed is never cut down.\<close>

lemma no_batch_alloc:
  assumes "sr_free_batch r = 0" and "sr_hiwater r = 0"
    and "object_list (caches s c) = []" and "remote_check (caches s c)" and "remote_objects (caches s c) \<noteq> []"
  shows "SlabCache_Alloc e r c s = None"
  by (subst SlabCache_Alloc.simps) (simp add: assms ClaimRemoteFreeList_def Let_def trim_no_batch)

text \<open>The states in which \<open>SlabCache::Alloc\<close> runs for ever.\<close>

definition hangs :: "slab_root \<Rightarrow> cache_id \<Rightarrow> slab \<Rightarrow> bool" where
  "hangs r c s \<longleftrightarrow> remote_check (caches s c) \<and> object_list (caches s c) = []
     \<and> (remote_objects (caches s c) = [] \<or> sr_free_batch r = 0)"

lemma hangs_alloc:
  assumes "hangs r c s" and "sr_free_batch r = 0 \<Longrightarrow> sr_hiwater r = 0"
  shows "SlabCache_Alloc e r c s = None"
proof (cases "remote_objects (caches s c) = []")
  case True
  then show ?thesis using assms(1) by (intro stuck_alloc) (simp add: hangs_def stuck_def)
next
  case False
  then show ?thesis using assms by (intro no_batch_alloc) (auto simp: hangs_def)
qed

text \<open>The batch size and high-water mark of a root the constructor makes.\<close>

lemma root_batch:
  assumes "SlabAllocatorRoot sz al = Ok r" and "align_ok al" and "unat sz \<le> 2 ^ 62"
  shows "sr_free_batch r \<le> sr_hiwater r" and "sr_free_batch r = 0 \<Longrightarrow> sr_hiwater r = 0"
  using SlabAllocatorRoot_ok [OF assms(2,3)] assms(1) by (auto split: if_splits)

subsection \<open>Adding a slab\<close>

text \<open>The page data after the loop has put the objects \<open>k, \<dots>, k + n - 1\<close> on the list.\<close>

definition filled :: "nat \<Rightarrow> slab_root \<Rightarrow> cache_id \<Rightarrow> pfn \<Rightarrow> nat \<Rightarrow> nat \<Rightarrow> (pfn \<Rightarrow> slab_data) \<Rightarrow> pfn \<Rightarrow> slab_data" where
  "filled root r c p k n data = (\<lambda>q. (data q)\<lparr>
     sd_list := (if q = p then rev (map (object r p) [k..<k + n]) @ sd_list (data q) else sd_list (data q)),
     sd_cache := (if q \<in> pfn_down ` object r p ` {k..<k + n} then Some c else sd_cache (data q)),
     sd_root := (if q \<in> pfn_down ` object r p ` {k..<k + n} then root else sd_root (data q))\<rparr>)"

lemma object_Suc: "object r p k + sr_size r = object r p (Suc k)"
  by (simp add: object_def algebra_simps)

lemma add_objects_ok:
  assumes "\<And>j. k \<le> j \<Longrightarrow> j < k + n \<Longrightarrow> (\<forall>t :: slab. \<forall>K :: slab res. frames t = frames s \<longrightarrow> require_page (pfn_down (object r p j)) t K = K)"
  shows "add_objects r c p n (object r p k) s = Ok (s\<lparr>slab_pages := filled (slab_number s) r c p k n (slab_pages s)\<rparr>)"
  using assms
proof (induction n arbitrary: k s)
  case 0
  have "filled (slab_number s) r c p k 0 (slab_pages s) = slab_pages s"
    by (rule ext) (simp add: filled_def)
  then show ?case by simp
next
  case (Suc n)
  let ?o = "object r p k"
  let ?d = "(slab_pages s p)\<lparr>sd_list := ?o # sd_list (slab_pages s p)\<rparr>"
  let ?s1 = "set_data p ?d s"
  let ?s2 = "set_data (pfn_down ?o) ((slab_pages ?s1 (pfn_down ?o))\<lparr>sd_cache := Some c, sd_root := slab_number s\<rparr>) ?s1"
  have number: "slab_number ?s2 = slab_number s" by simp
  have IH: "add_objects r c p n (object r p (Suc k)) ?s2 = Ok (?s2\<lparr>slab_pages := filled (slab_number s) r c p (Suc k) n (slab_pages ?s2)\<rparr>)"
    by (rule Suc.IH [of "Suc k" ?s2, unfolded number]) (use Suc.prems in simp)
  have "filled (slab_number s) r c p (Suc k) n (slab_pages ?s2) q = filled (slab_number s) r c p k (Suc n) (slab_pages s) q" for q
  proof -
    have "{k..<k + Suc n} = insert k {Suc k..<Suc k + n}" by auto
    moreover have "[k..<k + Suc n] = k # [Suc k..<Suc k + n]" by (simp add: upt_conv_Cons)
    ultimately show ?thesis
      by (intro slab_data.equality) (auto simp: filled_def simp del: upt_Suc)
  qed
  then have "filled (slab_number s) r c p (Suc k) n (slab_pages ?s2) = filled (slab_number s) r c p k (Suc n) (slab_pages s)" by (rule ext)
  then have "?s2\<lparr>slab_pages := filled (slab_number s) r c p (Suc k) n (slab_pages ?s2)\<rparr> = s\<lparr>slab_pages := filled (slab_number s) r c p k (Suc n) (slab_pages s)\<rparr>"
    by (simp add: set_data_def)
  moreover have "require_page (pfn_down ?o) ?s1 K = K" for K :: "slab res" using Suc.prems [of k] by simp
  ultimately show ?case using IH by (simp only: add_objects.simps Let_def object_Suc)
qed

lemma add_slab_ok:
  assumes inv: "slab_inv r S loc s" and at: "slab_at r p"
    and present: "\<And>q. unat q \<in> block (p, sr_order r) \<Longrightarrow> page_map (frames s) q \<noteq> None"
    and new: "\<And>q. q \<in> dom S \<Longrightarrow> block (p, sr_order r) \<inter> block (q, sr_order r) = {}"
  shows "\<exists>s'. AddSlab r c p s = Ok s'
    \<and> slab_inv r (S(p \<mapsto> c)) (\<lambda>x. if x \<in> objects r p then Some (In_Slab p) else loc x) s'
    \<and> object_list (caches s' c) = object_list (caches s c) \<and> remote_check (caches s' c) = remote_check (caches s c)
    \<and> partial_page_list (caches s' c) \<noteq> [] \<and> cpu_allocators s' = cpu_allocators s"
proof -
  have root: "root_ok r" using inv by (simp add: slab_inv_def)
  have p: "p \<notin> dom S" using new [of p] head_in_block [of p "sr_order r"] by blast
  obtain m where m: "page_map (frames s) p = Some m" using present [of p] by auto
  have low: "unat q < 17179869184" if "unat q \<in> block (p, sr_order r)" for q
    using that at by (auto simp: slab_at_def block_def)
  let ?fs = "(frames s)\<lparr>page_map := (page_map (frames s))(p \<mapsto> m\<lparr>pg_usage := SLAB_ALLOCATOR\<rparr>)\<rparr>"
  let ?s1 = "s\<lparr>frames := ?fs\<rparr>"
  let ?s2 = "set_data p ((slab_pages s p)\<lparr>sd_list := [], sd_used := 0\<rparr>) ?s1"
  define data where "data = filled (slab_number s) r c p 0 (num_objects r) ((slab_pages s)(p := (slab_pages s p)\<lparr>sd_list := [], sd_used := 0\<rparr>))"
  let ?s3 = "?s2\<lparr>slab_pages := data\<rparr>"
  let ?s = "set_cache c ((caches s c)\<lparr>partial_page_list := p # partial_page_list (caches s c)\<rparr>) ?s3"
  let ?loc = "\<lambda>x. if x \<in> objects r p then Some (In_Slab p) else loc x" and ?S = "S(p \<mapsto> c)"
  have fresh: "loc x = None" if "x \<in> objects r p" for x
  proof (rule ccontr)
    assume "loc x \<noteq> None"
    then obtain q c' where "S q = Some c'" "x \<in> objects r q" "slab_at r q" by (rule object_owner [OF inv])
    then show False using objects_of_slabs [OF root at _ that] p by blast
  qed
  have req: "require_page (pfn_down (object r p j)) t K = K"
    if "j < num_objects r" "frames t = ?fs" for j and t :: slab and K :: "slab res"
  proof -
    have "object r p j \<in> objects r p" using that(1) by (simp add: objects_def)
    from object_frame(1) [OF root at this] have "unat (pfn_down (object r p j)) \<in> block (p, sr_order r)" .
    note low [OF this] present [OF this]
    then show ?thesis using that(2) by (simp add: require_page_def page_at_low)
  qed
  have "add_objects r c p (num_objects r) (object r p 0) ?s2 = Ok ?s3"
    using req by (subst add_objects_ok) (auto simp: data_def)
  moreover have "object r p 0 = pfn_to_addr p" by (simp add: object_def)
  moreover have pl: "p \<notin> set (partial_page_list (caches s c))" using partial_list(2) [OF inv, of c] p by auto
  ultimately have A: "AddSlab r c p s = Ok ?s"
    using m low [OF head_in_block]
    by (simp add: AddSlab_def page_at_low push_partial_def num_objects_def set_cache_def set_data_def)
  have frames_p: "pfn_down ` object r p ` {0..<0 + num_objects r} \<subseteq> {q. unat q \<in> block (p, sr_order r)}"
    using object_frame(1) [OF root at] by (auto simp: objects_def)
  have list_p: "sd_list (data p) = rev (map (object r p) [0..<num_objects r])" "sd_used (data p) = 0"
    by (simp_all add: filled_def data_def)
  have list_q: "sd_list (data q) = sd_list (slab_pages s q)" "sd_used (data q) = sd_used (slab_pages s q)" if "q \<noteq> p" for q
    using that by (simp_all add: filled_def data_def)
  have own_p: "sd_cache (data (pfn_down x)) = Some c" if "x \<in> objects r p" for x
  proof -
    have "object r p ` {0..<0 + num_objects r} = objects r p" by (simp add: objects_def atLeast0LessThan)
    then show ?thesis using that by (simp add: filled_def data_def)
  qed
  have own_q: "sd_cache (data q) = sd_cache (slab_pages s q)" if "unat q \<notin> block (p, sr_order r)" for q
    using that frames_p by (auto simp: filled_def data_def)
  have set_p: "set (sd_list (data p)) = objects r p" "distinct (sd_list (data p))"
    using inj_object [OF root at] by (auto simp: list_p(1) objects_def distinct_map atLeast0LessThan)
  have old_own: "sd_cache (data (pfn_down x)) = Some c'" if "S q = Some c'" "x \<in> objects r q" for q c' x
  proof -
    have "slab_at r q" "sd_cache (slab_pages s (pfn_down x)) = Some c'"
      using inv that by (auto simp: slab_inv_def slabs_ok_def)
    moreover from object_frame(1) [OF root this(1) that(2)] have "unat (pfn_down x) \<notin> block (p, sr_order r)"
      using new that(1) by blast
    ultimately show ?thesis using own_q by simp
  qed
  have present': "page_map ?fs q \<noteq> None \<longleftrightarrow> page_map (frames s) q \<noteq> None" for q using m by auto
  have pages: "slab_pages ?s = data" "frames ?s = ?fs" by (simp_all add: set_cache_def)
  have "slabs_ok r ?S ?s"
    unfolding slabs_ok_def pages
  proof (intro conjI allI impI ballI)
    fix q c' assume q: "?S q = Some c'"
    show "slab_at r q" using q at inv by (auto simp: slab_inv_def slabs_ok_def split: if_splits)
    show "page_map ?fs q' \<noteq> None" if "unat q' \<in> block (q, sr_order r)" for q'
      using q that present inv unfolding present' by (auto simp: slab_inv_def slabs_ok_def split: if_splits)
    show "sd_cache (data (pfn_down x)) = Some c'" if "x \<in> objects r q" for x
      using q that own_p old_own by (auto split: if_splits)
    show "sd_used (data q) + length (sd_list (data q)) = num_objects r"
      using q list_p list_q inv by (auto simp: slab_inv_def slabs_ok_def split: if_splits)
  next
    fix q q' assume q: "q \<in> dom ?S" "q' \<in> dom ?S" "q \<noteq> q'"
    have "\<forall>q\<in>dom S. \<forall>q'\<in>dom S. q \<noteq> q' \<longrightarrow> block (q, sr_order r) \<inter> block (q', sr_order r) = {}"
      using inv unfolding slab_inv_def slabs_ok_def by blast
    then show "block (q, sr_order r) \<inter> block (q', sr_order r) = {}"
      using new q by (cases "q = p"; cases "q' = p") (auto simp: Int_commute)
  qed
  moreover have "places_ok r ?S ?loc"
  proof -
    have "dom ?loc = dom loc \<union> objects r p" by (auto simp: dom_def)
    moreover have "S p = None" using p by blast
    ultimately show ?thesis using inv by (auto simp: slab_inv_def places_ok_def)
  qed
  moreover have "lists_ok ?loc ?S ?s"
  proof -
    have "loc x \<noteq> Some (In_Slab p)" for x using inv p by (auto simp: slab_inv_def places_ok_def)
    then have eq: "?loc x = Some Q \<longleftrightarrow> (if Q = In_Slab p then x \<in> objects r p else loc x = Some Q)" for x Q
      using fresh [of x] by auto
    have out: "outgoing ?s = outgoing s" by (simp add: outgoing_def fun_eq_iff set_cache_def)
    have "distinct (sd_list (data q)) \<and> set (sd_list (data q)) = {x. ?loc x = Some (In_Slab q)}" if "q \<in> dom ?S" for q
    proof (cases "q = p")
      case False
      then show ?thesis using that slab_list [OF inv, of q] list_q by (simp add: eq)
    qed (simp add: eq set_p)
    moreover have "distinct (object_list (caches ?s c')) \<and> set (object_list (caches ?s c')) = {x. ?loc x = Some (In_Cache c')}
      \<and> distinct (remote_objects (caches ?s c')) \<and> set (remote_objects (caches ?s c')) = {x. ?loc x = Some (In_Remote c')}" for c'
      using cache_list [OF inv, of c'] remote_list [OF inv, of c'] by (auto simp: eq set_cache_def)
    ultimately show ?thesis using outgoing_list [OF inv] unfolding lists_ok_def out pages by (simp add: eq)
  qed
  moreover have "partial_ok r ?S ?s"
  proof -
    have "sd_list (data p) \<noteq> []" using num_objects(2) [OF root] by (simp add: list_p(1))
    then have "{q. ?S q = Some c' \<and> sd_list (data q) \<noteq> []} =
        {q. S q = Some c' \<and> sd_list (slab_pages s q) \<noteq> []} \<union> (if c' = c then {p} else {})" for c'
      using list_q p by (auto split: if_splits)
    then show ?thesis
      using inv pl unfolding slab_inv_def partial_ok_def pages by (auto simp: set_cache_def)
  qed
  moreover have "outgoing_ok r ?S ?loc ?s"
    using inv p fresh unfolding slab_inv_def outgoing_ok_def
    by (auto simp: outgoing_cache_def set_cache_def split: if_splits)
  ultimately have "slab_inv r ?S ?loc ?s" using root by (simp add: slab_inv_def)
  then show ?thesis using A by (intro exI [of _ ?s]) (simp add: set_cache_def)
qed

subsection \<open>Allocation with growth\<close>

lemma clients_disjoint:
  assumes inv: "slab_inv r S loc s" and "loc x \<noteq> None" and "loc y \<noteq> None" and "x \<noteq> y"
  shows "extent r x \<inter> extent r y = {}"
proof -
  have root: "root_ok r" using inv by (simp add: slab_inv_def)
  obtain p c where p: "S p = Some c" "x \<in> objects r p" "slab_at r p" by (rule object_owner [OF inv assms(2)])
  obtain q d where q: "S q = Some d" "y \<in> objects r q" "slab_at r q" by (rule object_owner [OF inv assms(3)])
  show ?thesis
  proof (cases "p = q")
    case True
    then show ?thesis using extents_disjoint [OF root p(3,2)] q(2) assms(4) by blast
  next
    case False
    have "block (p, sr_order r) \<inter> block (q, sr_order r) = {}"
      using inv p(1) q(1) False unfolding slab_inv_def slabs_ok_def by blast
    moreover have "(0::nat) < 2 ^ sr_order r" by simp
    ultimately have "unat p + 2 ^ sr_order r \<le> unat q \<or> unat q + 2 ^ sr_order r \<le> unat p"
      unfolding block_def by (auto simp: disjoint_iff)
    then have "(unat p + 2 ^ sr_order r) * 4096 \<le> unat q * 4096 \<or> (unat q + 2 ^ sr_order r) * 4096 \<le> unat p * 4096"
      by auto
    then show ?thesis using extent_in_slab [OF root p(3,2)] extent_in_slab [OF root q(3,2)] by fastforce
  qed
qed

lemma object_nonzero:
  assumes inv: "slab_inv r S loc s" and "0 \<notin> dom S" and "loc x \<noteq> None"
  shows "x \<noteq> 0"
proof -
  have root: "root_ok r" using inv by (simp add: slab_inv_def)
  obtain p c where p: "S p = Some c" "x \<in> objects r p" "slab_at r p" by (rule object_owner [OF inv assms(3)])
  then obtain k where "k < num_objects r" "x = object r p k" by (auto simp: objects_def)
  then have "unat p * 4096 \<le> unat x" using unat_object(1) [OF root p(3), of k] by simp
  moreover have "p \<noteq> 0" using p(1) assms(2) by auto
  then have "0 < unat p" by (simp add: unat_gt_0)
  ultimately have "0 < unat x" by linarith
  then show ?thesis by auto
qed

text \<open>The frames that the node's allocator and the slabs of this root share: every slab is a block
  held by a client of the page allocator; \<open>X\<close> are the heads of the blocks of other nodes.\<close>

definition frames_ok :: "pfn set \<Rightarrow> slab_root \<Rightarrow> (pfn \<Rightarrow> cache_id option) \<Rightarrow> blk set \<Rightarrow> nid \<Rightarrow> page_allocators \<Rightarrow> bool" where
  "frames_ok X r S A nid fs \<longleftrightarrow> 0 \<le> nid \<and> nat nid < length (allocators fs)
     \<and> buddy_inv X A (allocators fs ! nat nid, page_map fs) \<and> (\<forall>q\<in>dom S. (q, sr_order r) \<in> A)
     \<and> 0 \<notin> dom S \<and> 0 \<notin> free_frames (allocators fs ! nat nid)"

lemma page_alloc:
  assumes "slab_inv r S loc s" and "frames_ok X r S A nid (frames s)"
  shows "(Alloc (sr_order r) nid (frames s) = Ok (NO_PFN, frames s)
        \<and> (\<forall>k. sr_order r \<le> k \<and> k \<le> MAX_ORDER \<longrightarrow> (allocators (frames s) ! nat nid) k = []))
    \<or> (\<exists>p f. Alloc (sr_order r) nid (frames s) = Ok (p, f) \<and> p \<noteq> NO_PFN \<and> p \<noteq> 0 \<and> slab_inv r S loc (s\<lparr>frames := f\<rparr>)
        \<and> slab_at r p \<and> (\<forall>q. unat q \<in> block (p, sr_order r) \<longrightarrow> page_map f q \<noteq> None)
        \<and> (\<forall>q\<in>dom S. block (p, sr_order r) \<inter> block (q, sr_order r) = {}))"
proof -
  let ?fl = "allocators (frames s) ! nat nid" and ?fs = "frames s"
  have nid: "0 \<le> nid" "nat nid < length (allocators ?fs)" and b: "buddy_inv X A (?fl, page_map ?fs)"
    and held: "\<forall>q\<in>dom S. (q, sr_order r) \<in> A" and free0: "0 \<notin> free_frames ?fl"
    using assms(2) by (auto simp: frames_ok_def)
  from AllocLocal_ok [OF b, of "sr_order r"] show ?thesis
  proof (elim disjE exE conjE)
    assume a: "AllocLocal (sr_order r) (?fl, page_map ?fs) = Ok (NO_PFN, (?fl, page_map ?fs))"
      "\<forall>k. sr_order r \<le> k \<and> k \<le> MAX_ORDER \<longrightarrow> fst (?fl, page_map ?fs) k = []"
    then have "Alloc (sr_order r) nid ?fs = Ok (NO_PFN, ?fs)"
      using nid by (simp add: Alloc_def on_allocator_def)
    then show ?thesis using a(2) by simp
  next
    fix p b' assume a: "AllocLocal (sr_order r) (?fl, page_map ?fs) = Ok (p, b')" "p \<noteq> NO_PFN"
      "buddy_inv X (insert (p, sr_order r) A) b'" "block (p, sr_order r) \<subseteq> free_frames (fst (?fl, page_map ?fs))"
      "(p, sr_order r) \<notin> A"
    obtain fl' pages' where b': "b' = (fl', pages')" by (cases b')
    let ?f = "\<lparr>allocators = (allocators ?fs)[nat nid := fl'], page_map = pages'\<rparr>"
    note inv' = buddy_invD [OF a(3) [unfolded b']]
    have ok: "block_ok pages' (p, sr_order r)" using inv'(3) by blast
    then have "slab_at r p" "\<forall>q. unat q \<in> block (p, sr_order r) \<longrightarrow> pages' q \<noteq> None"
      by (auto simp: block_ok_def slab_at_def)
    moreover have "block (p, sr_order r) \<inter> block (q, sr_order r) = {}" if "q \<in> dom S" for q
    proof -
      have "(q, sr_order r) \<in> A" using held that by blast
      moreover from this have "(q, sr_order r) \<noteq> (p, sr_order r)" using a(5) by blast
      ultimately show ?thesis using inv'(4) unfolding disjoint_blocks_def by blast
    qed
    moreover have "unat p \<in> free_frames ?fl" using a(4) head_in_block [of p "sr_order r"] by auto
    then have "p \<noteq> 0" using free0 by auto
    moreover have al: "Alloc (sr_order r) nid ?fs = Ok (p, ?f)"
      using nid a(1) by (simp add: Alloc_def on_allocator_def b')
    moreover have "same_pages ?fs ?f"
      using AllocLocal_present [OF a(1)] by (simp add: same_pages_def b')
    ultimately show ?thesis using a(2) inv_frames [OF assms(1)] by (intro disjI2 exI [of _ p] exI [of _ ?f]) simp
  qed
qed

text \<open>An allocation that succeeds: an object that no client held, disjoint from all those held.\<close>

definition fresh_object :: "slab_root \<Rightarrow> (u64 \<Rightarrow> place option) \<Rightarrow> slab \<Rightarrow> (u64 \<times> slab) \<Rightarrow> bool" where
  "fresh_object r loc s xs \<longleftrightarrow> (case xs of (x, s') \<Rightarrow> x \<noteq> 0 \<and> x \<notin> clients loc \<and> dom (cpu_allocators s') = dom (cpu_allocators s)
     \<and> (\<exists>S' loc'. slab_inv r S' loc' s' \<and> clients loc' = insert x (clients loc))
     \<and> (\<forall>y\<in>clients loc. extent r x \<inter> extent r y = {}))"

lemma taken_fresh:
  assumes "taken r S loc s x s'" and "0 \<notin> dom S"
  shows "fresh_object r loc s (x, s')"
proof -
  obtain S' loc' where t: "S' \<subseteq>\<^sub>m S" "slab_inv r S' loc' s'" "x \<notin> clients loc" "clients loc' = insert x (clients loc)"
    "dom (cpu_allocators s') = dom (cpu_allocators s)"
    using assms(1) by (auto simp: taken_def)
  have "loc' y \<noteq> None" if "y \<in> clients loc'" for y using that by (auto simp: clients_def)
  moreover from this have "x \<noteq> 0"
    using object_nonzero [OF t(2), of x] t(4) assms(2) map_le_implies_dom_le [OF t(1)] by auto
  ultimately show ?thesis using t clients_disjoint [OF t(2), of x] unfolding fresh_object_def by fastforce
qed

lemma first_try:
  assumes inv: "slab_inv r S loc s" and me: "cpu_allocators s (my_cpu e) \<noteq> None"
    and b: "sr_free_batch r \<le> sr_hiwater r" and st: "\<not> hangs r c s"
  shows "(SlabCache_Alloc e r c s = Some (Ok (0, s)) \<and> object_list (caches s c) = [] \<and> partial_page_list (caches s c) = []
        \<and> \<not> remote_check (caches s c))
    \<or> (\<exists>x s'. SlabCache_Alloc e r c s = Some (Ok (x, s')) \<and> taken r S loc s x s')
    \<or> (\<exists>y. SlabCache_Alloc e r c s = Some (Fail y) \<and> flushed e r S (clients loc) s (Fail y))"
proof (cases "\<not> remote_check (caches s c) \<or> object_list (caches s c) \<noteq> []")
  case True
  from local_alloc [OF inv True, of e] True show ?thesis by blast
next
  case False
  then have "remote_objects (caches s c) \<noteq> []" "0 < sr_free_batch r" using st by (auto simp: hangs_def word_gt_0)
  then show ?thesis using claimed_alloc [OF inv me _ b] False by blast
qed

lemma alloc_or_grow_ok:
  assumes inv: "slab_inv r S loc s" and me: "cpu_allocators s (my_cpu e) \<noteq> None"
    and b: "sr_free_batch r \<le> sr_hiwater r" and st: "\<not> hangs r c s"
    and fr: "frames_ok X r S A nid (frames s)"
  shows "(alloc_or_grow e r c nid s = Some (Ok (0, s)) \<and> object_list (caches s c) = [] \<and> partial_page_list (caches s c) = []
        \<and> (\<forall>k. sr_order r \<le> k \<and> k \<le> MAX_ORDER \<longrightarrow> (allocators (frames s) ! nat nid) k = []))
    \<or> (\<exists>xs. alloc_or_grow e r c nid s = Some (Ok xs) \<and> fresh_object r loc s xs)
    \<or> (\<exists>y. alloc_or_grow e r c nid s = Some (Fail y) \<and> flushed e r S (clients loc) s (Fail y))"
proof -
  have z: "0 \<notin> dom S" using fr by (simp add: frames_ok_def)
  from first_try [OF inv me b st] show ?thesis
  proof (elim disjE exE conjE)
    fix x s' assume a: "SlabCache_Alloc e r c s = Some (Ok (x, s'))" "taken r S loc s x s'"
    have f: "fresh_object r loc s (x, s')" by (rule taken_fresh [OF a(2) z])
    then have "alloc_or_grow e r c nid s = Some (Ok (x, s'))"
      using a(1) by (simp add: alloc_or_grow_def fresh_object_def)
    then show ?thesis using f by blast
  next
    fix y assume "SlabCache_Alloc e r c s = Some (Fail y)" "flushed e r S (clients loc) s (Fail y)"
    then show ?thesis by (simp add: alloc_or_grow_def)
  next
    assume a: "SlabCache_Alloc e r c s = Some (Ok (0, s))" "object_list (caches s c) = []"
      "partial_page_list (caches s c) = []" "\<not> remote_check (caches s c)"
    from page_alloc [OF inv fr] show ?thesis
    proof (elim disjE exE conjE)
      assume "Alloc (sr_order r) nid (frames s) = Ok (NO_PFN, frames s)"
        "\<forall>k. sr_order r \<le> k \<and> k \<le> MAX_ORDER \<longrightarrow> (allocators (frames s) ! nat nid) k = []"
      then show ?thesis using a by (simp add: alloc_or_grow_def)
    next
      fix p f assume p: "Alloc (sr_order r) nid (frames s) = Ok (p, f)" "p \<noteq> NO_PFN" "p \<noteq> 0"
        "slab_inv r S loc (s\<lparr>frames := f\<rparr>)" "slab_at r p" "\<forall>q. unat q \<in> block (p, sr_order r) \<longrightarrow> page_map f q \<noteq> None"
        "\<forall>q\<in>dom S. block (p, sr_order r) \<inter> block (q, sr_order r) = {}"
      let ?loc = "\<lambda>x. if x \<in> objects r p then Some (In_Slab p) else loc x"
      obtain s3 where s3: "AddSlab r c p (s\<lparr>frames := f\<rparr>) = Ok s3" "slab_inv r (S(p \<mapsto> c)) ?loc s3"
        "object_list (caches s3 c) = []" "\<not> remote_check (caches s3 c)" "partial_page_list (caches s3 c) \<noteq> []"
        "cpu_allocators s3 = cpu_allocators s"
        using add_slab_ok [OF p(4,5), of c] p(6,7) a(2,4) by auto
      from local_alloc [OF s3(2), of c e] s3(4,5) obtain x s4 where x: "SlabCache_Alloc e r c s3 = Some (Ok (x, s4))"
        "taken r (S(p \<mapsto> c)) ?loc s3 x s4" by auto
      have f1: "fresh_object r ?loc s3 (x, s4)" by (rule taken_fresh [OF x(2)]) (use z p(3) in auto)
      have root: "root_ok r" using inv by (simp add: slab_inv_def)
      have "y \<notin> objects r p" if ly: "loc y \<noteq> None" for y
      proof
        assume y: "y \<in> objects r p"
        obtain q d where "S q = Some d" "y \<in> objects r q" "slab_at r q" by (rule object_owner [OF inv ly])
        moreover from this have "q = p" using objects_of_slabs [OF root _ p(5) _ y] by blast
        ultimately show False using p(7) head_in_block [of p "sr_order r"] by blast
      qed
      then have "clients ?loc = clients loc" by (auto simp: clients_def)
      then have f2: "fresh_object r loc s (x, s4)" using f1 s3(6) by (simp add: fresh_object_def)
      then have "alloc_or_grow e r c nid s = Some (Ok (x, s4))"
        using a(1) p(1,2) s3(1) x(1) by (simp add: alloc_or_grow_def fresh_object_def)
      then show ?thesis using f2 by blast
    qed
  qed
qed

subsection \<open>Freeing\<close>

text \<open>The outcome of a free: the object leaves the client's hands and nothing else does.\<close>

definition freed :: "env \<Rightarrow> slab_root \<Rightarrow> (pfn \<Rightarrow> cache_id option) \<Rightarrow> u64 set \<Rightarrow> slab res \<Rightarrow> bool" where
  "freed e r S held res \<longleftrightarrow>
     (\<exists>s' S' loc'. res = Ok s' \<and> S' \<subseteq>\<^sub>m S \<and> slab_inv r S' loc' s' \<and> clients loc' = held)
     \<or> (\<exists>p s1 S1 loc1 x. p \<in> dom S - dom S1 \<and> S1 \<subseteq>\<^sub>m S \<and> slab_inv r S1 loc1 s1 \<and> clients loc1 = held
        \<and> free_slab e p (sr_order r) s1 = Fail x \<and> res = Fail x)"

lemma flushed_freed:
  assumes "flushed e r S held s res"
  shows "freed e r S held res"
  using assms
proof (cases rule: flushed_cases)
  case (Ok s' S' loc')
  then show ?thesis unfolding freed_def
    by (intro disjI1 exI [of _ s'] exI [of _ S'] exI [of _ loc']) simp
next
  case (Fail p s1 S1 loc1 x)
  show ?thesis unfolding freed_def Fail(1)
    by (intro disjI2 exI [of _ p] exI [of _ s1] exI [of _ S1] exI [of _ loc1] exI [of _ x] conjI Fail(2-6) refl)
qed

lemma cache_free_ok:
  assumes inv: "slab_inv r S loc s" and x: "loc x = Some With_Client" and me: "cpu_allocators s (my_cpu e) \<noteq> None"
  shows "freed e r S (clients loc - {x}) (SlabCache_Free e r c x s)"
proof -
  let ?s = "set_cache c ((caches s c)\<lparr>object_list := x # object_list (caches s c)\<rparr>) s" and ?loc = "loc(x \<mapsto> In_Cache c)"
  note p = push_object [OF inv x, of c]
  have cl: "clients ?loc = clients loc - {x}" by (auto simp: clients_def)
  have "freed e r S (clients ?loc) (Ok ?s)"
    unfolding freed_def by (intro disjI1 exI [of _ ?s] exI [of _ S] exI [of _ ?loc]) (simp add: p)
  moreover have "freed e r S (clients ?loc) (FlushFreeList e r c n ?s)" for n
    using flush_free_list_ok [OF p] me by (intro flushed_freed) simp
  ultimately show ?thesis unfolding cl SlabCache_Free_def Let_def by simp
qed

subsection \<open>Properties\<close>

text \<open>C11: A processor's allocation from a root that the constructor made, in any well-formed state.  It
  never returns exactly when the remote-check flag of the processor's cache is set, its free list is empty,
  and either its remote list is empty too or the objects are over 256 KiB, so that the batch size is 0.
  Otherwise it returns an object that no client held, disjoint in memory from every object held, and
  the allocator stays well formed with the object added; or null, with nothing changed, and then
  its lists and the node's free blocks are empty; or the page allocator fails on a slab being
  released.\<close>

theorem SlabAllocator_Alloc_fresh:
  assumes "slab_inv r S loc s" and "cpu_allocators s (my_cpu e) \<noteq> None"
    and "SlabAllocatorRoot sz al = Ok r" and "align_ok al" and "unat sz \<le> 2 ^ 62"
    and "frames_ok X r S A (my_nid e) (frames s)"
  shows "if hangs r (Cpu_Cache i) s then SlabAllocator_Alloc e r i (my_nid e) s = None
    else (SlabAllocator_Alloc e r i (my_nid e) s = Some (Ok (0, s))
        \<and> object_list (caches s (Cpu_Cache i)) = [] \<and> partial_page_list (caches s (Cpu_Cache i)) = []
        \<and> (\<forall>k. sr_order r \<le> k \<and> k \<le> MAX_ORDER \<longrightarrow> (allocators (frames s) ! nat (my_nid e)) k = []))
    \<or> (\<exists>xs. SlabAllocator_Alloc e r i (my_nid e) s = Some (Ok xs) \<and> fresh_object r loc s xs)
    \<or> (\<exists>y. SlabAllocator_Alloc e r i (my_nid e) s = Some (Fail y) \<and> flushed e r S (clients loc) s (Fail y))"
proof (cases "hangs r (Cpu_Cache i) s")
  case True
  then have "SlabCache_Alloc e r (Cpu_Cache i) s = None" by (rule hangs_alloc) (rule root_batch(2) [OF assms(3-5)])
  then show ?thesis using True by (simp add: SlabAllocator_Alloc_def alloc_or_grow_def)
next
  case False
  then show ?thesis using alloc_or_grow_ok [OF assms(1,2) root_batch(1) [OF assms(3-5)] False assms(6)]
    by (simp add: SlabAllocator_Alloc_def)
qed

definition env0 :: env where "env0 = \<lparr>my_cpu = 0, my_nid = 0, new_ok = True\<rparr>"

definition root64 :: slab_root where
  "root64 = \<lparr>sr_align = 8, sr_size = 64, sr_order = 0, sr_free_batch = 256, sr_hiwater = 1024\<rparr>"

definition slab0 :: slab where
  "slab0 = fst (slab_init (\<lambda>_. 0) 1 1 (\<lambda>_. \<lparr>sd_list = [], sd_cache = None, sd_root = 0, sd_used = 0\<rparr>)
     \<lparr>allocators = [fst small_node], page_map = snd small_node\<rparr> Cpu_Allocator)"

lemma slab0: "slab_inv root64 Map.empty Map.empty slab0" "cpu_allocators slab0 0 = Some SlabAllocator_new"
  "caches slab0 c = SlabCache_new" "frames_ok {} root64 Map.empty {} 0 (frames slab0)"
proof -
  have "0 \<notin> free_frames (fst small_node)"
    by (auto simp: small_node_def free_frames_def free_blocks_def block_def split: if_splits)
  then show "frames_ok {} root64 Map.empty {} 0 (frames slab0)"
    using small_inv by (simp add: frames_ok_def slab0_def slab_init_def)
  show "slab_inv root64 Map.empty Map.empty slab0"
    by (auto simp: slab_inv_defs root_ok_def root64_def slab0_def slab_init_def SlabCache_new_def
        SlabAllocator_new_def outgoing_def outgoing_cache_def split: option.splits)
qed (simp_all add: slab0_def slab_init_def)

lemma root64: "SlabAllocatorRoot 64 0 = Ok root64" "align_ok 0" "unat (64 :: u64) \<le> 2 ^ 62"
proof -
  show "SlabAllocatorRoot 64 0 = Ok root64" by code_simp
qed (simp_all add: align_ok_def)

lemma no_flush0: "\<not> hangs root64 (Cpu_Cache 0) slab0" "\<not> flushed env0 root64 Map.empty (clients Map.empty) slab0 (Fail y)"
  "\<not> (\<forall>k. sr_order root64 \<le> k \<and> k \<le> MAX_ORDER \<longrightarrow> (allocators (frames slab0) ! 0) k = [])"
proof -
  show "\<not> hangs root64 (Cpu_Cache 0) slab0" by (simp add: hangs_def slab0(3) SlabCache_new_def)
  show "\<not> flushed env0 root64 Map.empty (clients Map.empty) slab0 (Fail y)" by (auto simp: flushed_def)
  have "(allocators (frames slab0) ! 0) 2 \<noteq> []" by (simp add: slab0_def slab_init_def small_node_def)
  then show "\<not> (\<forall>k. sr_order root64 \<le> k \<and> k \<le> MAX_ORDER \<longrightarrow> (allocators (frames slab0) ! 0) k = [])"
    by (intro notI) (auto simp: root64_def MAX_ORDER_def)
qed

lemma first_alloc: "\<exists>xs. alloc_or_grow env0 root64 (Cpu_Cache 0) 0 slab0 = Some (Ok xs)
    \<and> fresh_object root64 Map.empty slab0 xs"
  using alloc_or_grow_ok [of root64 Map.empty Map.empty slab0 env0 "Cpu_Cache 0" "{}" "{}" 0] slab0(1,2,4) no_flush0
  by (auto simp: env0_def root64_def word_le_nat_alt)

theorem SlabAllocator_Alloc_fresh_witness:
  "\<exists>xs. SlabAllocator_Alloc env0 root64 0 0 slab0 = Some (Ok xs) \<and> fresh_object root64 Map.empty slab0 xs"
  using SlabAllocator_Alloc_fresh [OF slab0(1) _ root64, of env0 "{}" "{}" 0] slab0(2,4) no_flush0
  by (auto simp: env0_def)

text \<open>C17: In every well-formed state and for every root the constructor makes, \<open>SlabCache::Alloc\<close> fails to
  return in exactly these states: the remote-check flag, which nothing clears, is set, the cache's free
  list is empty, and either its remote list is empty as well (after the remotely freed objects have
  been allocated again), so that the retry finds the same state, or the objects are over 256 KiB, so that
  the batch size is 0 and the list claimed is never cut down to the high-water mark.\<close>

theorem SlabCache_Alloc_returns_iff:
  assumes "slab_inv r S loc s" and "cpu_allocators s (my_cpu e) \<noteq> None"
    and "SlabAllocatorRoot sz al = Ok r" and "align_ok al" and "unat sz \<le> 2 ^ 62"
  shows "SlabCache_Alloc e r c s = None \<longleftrightarrow> remote_check (caches s c) \<and> object_list (caches s c) = []
    \<and> (remote_objects (caches s c) = [] \<or> 262144 < unat (sr_size r))"
proof -
  have "hangs r c s \<longleftrightarrow> remote_check (caches s c) \<and> object_list (caches s c) = []
      \<and> (remote_objects (caches s c) = [] \<or> 262144 < unat (sr_size r))"
    using SlabAllocatorRoot_ok [OF assms(4,5)] assms(3) by (auto simp: hangs_def split: if_splits)
  then show ?thesis
    using first_try [OF assms(1,2) root_batch(1) [OF assms(3-5)], of c]
      hangs_alloc [of r c s e, OF _ root_batch(2) [OF assms(3-5)]]
    by (cases "hangs r c s") auto
qed

theorem SlabCache_Alloc_returns_iff_witness:
  "SlabCache_Alloc env0 root64 (Cpu_Cache 0) (set_cache (Cpu_Cache 0) (SlabCache_new\<lparr>remote_check := True\<rparr>) slab0) = None"
proof -
  let ?s = "set_cache (Cpu_Cache 0) (SlabCache_new\<lparr>remote_check := True\<rparr>) slab0"
  have "slab_inv root64 Map.empty Map.empty ?s"
    using slab0(1) by (auto simp: slab_inv_def slabs_ok_def places_ok_def lists_ok_def partial_ok_def outgoing_ok_def SlabCache_new_def)
  then show ?thesis
    using SlabCache_Alloc_returns_iff [OF _ _ root64, of Map.empty Map.empty ?s env0 "Cpu_Cache 0"] slab0(2)
    by (simp add: env0_def SlabCache_new_def)
qed

text \<open>C15: Freeing an object that a client holds takes it out of the client's hands, keeps the allocator
  well formed and every other held object held, on the local path and on the path to another
  node's cache; slabs released to the page allocator contain no held object.\<close>

theorem SlabAllocator_Free_correct:
  assumes "slab_inv r S loc s" and "x \<in> clients loc" and "cpu_allocators s i \<noteq> None" and "my_cpu e = i"
  shows "freed e r S (clients loc - {x}) (SlabAllocator_Free e r i x s)"
proof -
  have x: "loc x = Some With_Client" using assms(2) by (simp add: clients_def)
  obtain p c where p: "S p = Some c" "unat (pfn_down x) \<in> block (p, sr_order r)" "slab_at r p"
    by (rule object_owner [OF assms(1), of x]) (use x in auto)
  have "page_map (frames s) (pfn_down x) \<noteq> None"
    using assms(1) p unfolding slab_inv_def slabs_ok_def by blast
  then obtain m where m: "page_map (frames s) (pfn_down x) = Some m" by auto
  have "unat (pfn_down x) < 17179869184" using p(2,3) by (auto simp: slab_at_def block_def)
  then have F: "SlabAllocator_Free e r i x s =
      (if uint (pg_nid m) = my_nid e then SlabCache_Free e r (Cpu_Cache i) x s else FreeRemote r i x s)"
    by (simp add: SlabAllocator_Free_def page_at_low m)
  obtain s' loc' where "FreeRemote r i x s = Ok s'" "slab_inv r S loc' s'" "clients loc' = clients loc - {x}"
    using free_remote [OF assms(1,3) x] by blast
  then have "freed e r S (clients loc - {x}) (FreeRemote r i x s)"
    unfolding freed_def using map_le_refl [of S] by blast
  then show ?thesis using cache_free_ok [OF assms(1) x] assms(3,4) F by simp
qed

theorem SlabAllocator_Free_correct_witness:
  "\<exists>x s S loc. SlabAllocator_Alloc env0 root64 0 0 slab0 = Some (Ok (x, s)) \<and> clients loc = {x}
     \<and> freed env0 root64 S {} (SlabAllocator_Free env0 root64 0 x s)"
proof -
  obtain x s where a: "SlabAllocator_Alloc env0 root64 0 0 slab0 = Some (Ok (x, s))"
    and f: "fresh_object root64 Map.empty slab0 (x, s)"
    using first_alloc by (auto simp: SlabAllocator_Alloc_def env0_def)
  then obtain S loc where s: "slab_inv root64 S loc s" "clients loc = {x}" "cpu_allocators s 0 \<noteq> None"
    using slab0(2) by (fastforce simp: fresh_object_def clients_def)
  then have "freed env0 root64 S (clients loc - {x}) (SlabAllocator_Free env0 root64 0 x s)"
    by (intro SlabAllocator_Free_correct) (simp_all add: env0_def)
  then have "freed env0 root64 S {} (SlabAllocator_Free env0 root64 0 x s)" using s(2) by simp
  with a s(2) show ?thesis by blast
qed

text \<open>For objects larger than 256 KiB the batch size and the high-water mark are both 0: freeing
  one only ever pushes it on the cache's list, never back to its slab, and claiming remotely
  freed ones makes \<open>SlabCache::Alloc\<close> loop for ever.\<close>

theorem large_objects_never_flushed:
  assumes "SlabAllocatorRoot sz al = Ok r" and "align_ok al" and "unat sz \<le> 2 ^ 62" and "262144 < unat (sr_size r)"
  shows "SlabCache_Free e r c p s = Ok (set_cache c ((caches s c)\<lparr>object_list := p # object_list (caches s c)\<rparr>) s)
    \<and> (object_list (caches s c) = [] \<and> remote_check (caches s c) \<and> remote_objects (caches s c) \<noteq> []
        \<longrightarrow> SlabCache_Alloc e r c s = None)"
proof -
  have "unat sz \<le> 2 ^ 23" using SlabAllocatorRoot_ok [OF assms(2,3)] assms(1) by (auto split: if_splits)
  then have z: "sr_free_batch r = 0" "sr_hiwater r = 0"
    using SlabAllocatorRoot_ok [OF assms(2,3)] assms(1,4) by (auto split: if_splits)
  show ?thesis using no_batch_alloc [OF z] by (simp add: SlabCache_Free_def z)
qed

theorem large_objects_never_flushed_witness:
  "\<exists>r. SlabAllocatorRoot 524288 0 = Ok r \<and> SlabCache_Free env0 r (Cpu_Cache 0) 0x800000 slab0
     = Ok (set_cache (Cpu_Cache 0) (SlabCache_new\<lparr>object_list := [0x800000]\<rparr>) slab0)"
proof -
  have al: "align_ok 0" "unat (524288 :: u64) \<le> 2 ^ 62" by (simp_all add: align_ok_def)
  have "unat (524288 :: u64) \<le> 2 ^ 23" by simp
  then obtain r where r: "SlabAllocatorRoot 524288 0 = Ok r" "524288 \<le> sr_size r"
    using SlabAllocatorRoot_ok [OF al] by auto
  then have "262144 < unat (sr_size r)" by (simp add: word_le_nat_alt)
  from large_objects_never_flushed [OF r(1) al this, of env0 "Cpu_Cache 0" "0x800000" slab0] r(1)
  show ?thesis by (simp add: slab0(3) SlabCache_new_def)
qed

text \<open>C36: A root for objects of any size up to 8 MiB is constructed with slabs of at most order 11 that
  hold at least one object as large and as aligned as asked for, wasting a quarter of the slab at
  most unless the order is the least possible; a larger size is refused as a bug.\<close>

theorem SlabAllocatorRoot_correct:
  assumes "align_ok al" and "unat sz \<le> 2 ^ 62"
  shows "if unat sz \<le> 2 ^ 23
    then \<exists>r. SlabAllocatorRoot sz al = Ok r \<and> sr_order r \<le> MAX_ORDER \<and> 0 < num_objects r \<and> sz \<le> sr_size r
      \<and> al \<le> sr_align r \<and> unat (sr_align r) dvd unat (sr_size r)
      \<and> num_objects r * unat (sr_size r) \<le> 2 ^ (12 + sr_order r)
      \<and> (little_waste (sr_size r) (sr_order r) \<or> sr_order r = least_order (unat (sr_size r)))
    else SlabAllocatorRoot sz al = Fail Bug_On"
  using SlabAllocatorRoot_ok [OF assms] num_objects(2,3) by (auto simp: root_ok_def split: if_splits)

theorem SlabAllocatorRoot_correct_witness:
  "\<exists>r. SlabAllocatorRoot 3000 0 = Ok r \<and> 0 < num_objects r \<and> 3000 \<le> sr_size r"
proof -
  have "align_ok 0" "unat (3000 :: u64) \<le> 2 ^ 62" by (simp_all add: align_ok_def)
  from SlabAllocatorRoot_correct [OF this] show ?thesis by auto
qed

text \<open>When another processor installs a node's allocator first, \<open>get_node_allocator\<close> deletes the
  allocator that is installed, not the one it constructed, and returns the deleted one.\<close>

theorem get_node_allocator_deletes_installed:
  "get_node_allocator_ptr None new_allocator (Some installed) = (Some installed, Some installed)"
  by (simp add: get_node_allocator_ptr_def)

end
