(* ===== verification/Gp_Allocator.thy ===== *)
theory Gp_Allocator
  imports Slab_Alloc Ebb
begin

text \<open>
  \<open>sys/general_purpose_allocator.hpp\<close> and its users in \<open>sys/newlib.cpp\<close>: requests are rounded up to
  one of 23 size classes, each served by a slab root.  The slab roots share the page data and the
  page allocators.
\<close>

definition gp_sizes :: "u64 list" where
  "gp_sizes = [8, 16, 32, 64, 96, 128, 192, 256, 512, 1024, 2 * 1024, 4 * 1024, 8 * 1024,
     16 * 1024, 32 * 1024, 64 * 1024, 128 * 1024, 256 * 1024, 512 * 1024,
     1024 * 1024, 2 * 1024 * 1024, 4 * 1024 * 1024, 8 * 1024 * 1024]"

fun indexer :: "u64 \<Rightarrow> u64 list \<Rightarrow> u64 \<Rightarrow> u64" where
  "indexer index [] sz = - 1"
| "indexer index (head # tail) sz = (if sz \<le> head then index else indexer (index + 1) tail sz)"

record gp =
  gp_roots :: "slab_root list"
  gp_slabs :: "slab list"

text \<open>After an operation on one root the others see its page data and page allocators.\<close>

definition share :: "nat \<Rightarrow> slab \<Rightarrow> gp \<Rightarrow> gp" where
  "share k s g = g\<lparr>gp_slabs := map (\<lambda>(j, t). if j = k then s else t\<lparr>slab_pages := slab_pages s, frames := frames s\<rparr>)
     (enumerate 0 (gp_slabs g))\<rparr>"

text \<open>\<open>construct\<close>: a root for every size, in order.\<close>

fun gp_construct :: "u64 list \<Rightarrow> slab_root list res" where
  "gp_construct [] = Ok []"
| "gp_construct (head # tail) =
     bind_res (SlabAllocatorRoot head 0) (\<lambda>r. bind_res (gp_construct tail) (\<lambda>rs. Ok (r # rs)))"

text \<open>\<open>Init\<close>: the roots, which have no allocators yet, and the constructor of a processor's
  representative, which makes the processor's allocator of every class.\<close>

definition gp_Init :: "(pfn \<Rightarrow> slab_data) \<Rightarrow> page_allocators \<Rightarrow> gp res" where
  "gp_Init data fs = bind_res (gp_construct gp_sizes) (\<lambda>rs.
     Ok \<lparr>gp_roots = rs, gp_slabs = map (\<lambda>k. \<lparr>slab_number = k, caches = (\<lambda>_. SlabCache_new),
       cpu_allocators = Map.empty, node_allocators = (\<lambda>_. False), slab_pages = data, frames = fs\<rparr>) [0..<length rs]\<rparr>)"

fun cpu_allocators_of :: "env \<Rightarrow> slab list \<Rightarrow> slab list res" where
  "cpu_allocators_of e [] = Ok []"
| "cpu_allocators_of e (s # ss) =
     bind_res (get_cpu_allocator e (my_cpu e) s) (\<lambda>s'. bind_res (cpu_allocators_of e ss) (\<lambda>ss'. Ok (s' # ss')))"

definition gp_new :: "env \<Rightarrow> gp \<Rightarrow> gp res" where
  "gp_new e g = bind_res (cpu_allocators_of e (gp_slabs g)) (\<lambda>ss. Ok (g\<lparr>gp_slabs := ss\<rparr>))"

text \<open>\<open>HandleFault\<close>: the representative of the processor, constructed on its first fault.\<close>

definition gp_HandleFault :: "nat \<Rightarrow> u64 \<Rightarrow> ebb_id \<Rightarrow> (nat \<Rightarrow> u64 option) \<times> trans_table \<Rightarrow> u64 \<times> (nat \<Rightarrow> u64 option) \<times> trans_table" where
  "gp_HandleFault cpu new_rep eid st = (case st of (reps, table) \<Rightarrow>
     let reps' = (case reps cpu of None \<Rightarrow> reps(cpu \<mapsto> new_rep) | Some _ \<Rightarrow> reps);
         allocator = the (reps' cpu)
     in (allocator, reps', cache_ref eid allocator table))"

definition gp_Alloc :: "env \<Rightarrow> u64 \<Rightarrow> nid \<Rightarrow> gp \<Rightarrow> (u64 \<times> gp) res option" where
  "gp_Alloc e sz nid g =
     (let index = indexer 0 gp_sizes sz
      in if index = - 1 then Some (Fail Bug_On)
         else let k = unat index
              in Option.bind (SlabAllocator_Alloc e (gp_roots g ! k) (my_cpu e) nid (gp_slabs g ! k)) (\<lambda>t.
                   Some (bind_res t (\<lambda>(ret, s). kbugon (ret = 0) (Ok (ret, share k s g))))))"

text \<open>\<open>Free\<close> goes to the processor's allocator of the root that the cache of the object's page
  belongs to; every class sees the same page data.\<close>

definition gp_Free :: "env \<Rightarrow> u64 \<Rightarrow> gp \<Rightarrow> gp res" where
  "gp_Free e p g =
     (let view = hd (gp_slabs g) in require_page (pfn_down p) view
       (let d = slab_pages view (pfn_down p); k = sd_root d
        in defined (sd_cache d \<noteq> None \<and> k < length (gp_slabs g))
          (bind_res (get_cpu_allocator e (my_cpu e) (gp_slabs g ! k)) (\<lambda>s.
             bind_res (SlabAllocator_Free e (gp_roots g ! k) (my_cpu e) p s) (\<lambda>s'. Ok (share k s' g))))))"

text \<open>All size classes take their pages from the same page allocators: reading and replacing them.\<close>

definition gp_set_pages :: "page_allocators \<Rightarrow> gp \<Rightarrow> gp" where
  "gp_set_pages st g = g\<lparr>gp_slabs := map (\<lambda>s. s\<lparr>frames := st\<rparr>) (gp_slabs g)\<rparr>"

definition gp_pages :: "gp \<Rightarrow> page_allocators" where
  "gp_pages g = frames (hd (gp_slabs g))"

definition newlib_malloc :: "env \<Rightarrow> u64 \<Rightarrow> gp \<Rightarrow> (u64 \<times> gp) res option" where
  "newlib_malloc e sz g = gp_Alloc e sz (my_nid e) g"

definition newlib_memalign :: "env \<Rightarrow> u64 \<Rightarrow> u64 \<Rightarrow> gp \<Rightarrow> (u64 \<times> gp) res option" where
  "newlib_memalign e alignment sz g =
     Option.bind (gp_Alloc e (max sz alignment) (my_nid e) g) (\<lambda>t.
       Some (bind_res t (\<lambda>(ptr, g'). kbugon (align_down ptr alignment \<noteq> ptr) (Ok (ptr, g')))))"

lemma indexer_cases:
  "(\<exists>k<length xs. indexer i xs sz = i + of_nat k \<and> sz \<le> xs ! k \<and> (\<forall>j<k. xs ! j < sz))
    \<or> (indexer i xs sz = - 1 \<and> (\<forall>x\<in>set xs. x < sz))"
proof (induction xs arbitrary: i)
  case (Cons x xs)
  show ?case
  proof (cases "sz \<le> x")
    case True
    then show ?thesis by (intro disjI1 exI [of _ 0]) simp
  next
    case False
    from Cons [of "i + 1"] show ?thesis
    proof (elim disjE exE conjE)
      fix k assume "k < length xs" "indexer (i + 1) xs sz = i + 1 + of_nat k" "sz \<le> xs ! k" "\<forall>j<k. xs ! j < sz"
      then show ?thesis using False
        by (intro disjI1 exI [of _ "Suc k"]) (auto simp: less_Suc_eq_0_disj algebra_simps)
    next
      assume "indexer (i + 1) xs sz = - 1" "\<forall>x\<in>set xs. x < sz"
      then show ?thesis using False by (intro disjI2) auto
    qed
  qed
qed simp

lemma gp_sizes_max: "x \<in> set gp_sizes \<Longrightarrow> 8 \<le> unat x \<and> unat x \<le> 2 ^ 23"
  by (auto simp: gp_sizes_def)

lemma gp_construct_ok:
  assumes "\<And>x. x \<in> set xs \<Longrightarrow> unat x \<le> 2 ^ 23"
  shows "\<exists>rs. gp_construct xs = Ok rs \<and> length rs = length xs \<and>
    (\<forall>k<length xs. SlabAllocatorRoot (xs ! k) 0 = Ok (rs ! k) \<and> root_ok (rs ! k) \<and> xs ! k \<le> sr_size (rs ! k))"
  using assms
proof (induction xs)
  case (Cons x xs)
  have x: "unat x \<le> 2 ^ 23" using Cons.prems by simp
  then have "unat x \<le> 2 ^ 62" by simp
  moreover have "align_ok 0" by (simp add: align_ok_def)
  ultimately obtain r where "SlabAllocatorRoot x 0 = Ok r" "root_ok r" "x \<le> sr_size r"
    using SlabAllocatorRoot_ok [of 0 x] x by auto
  moreover obtain rs where "gp_construct xs = Ok rs" "length rs = length xs"
    "\<forall>k<length xs. SlabAllocatorRoot (xs ! k) 0 = Ok (rs ! k) \<and> root_ok (rs ! k) \<and> xs ! k \<le> sr_size (rs ! k)"
    using Cons.IH Cons.prems by auto
  ultimately show ?case by (intro exI [of _ "r # rs"]) (auto simp: less_Suc_eq_0_disj)
qed simp

lemma gp_sizes_length: "length gp_sizes = 23" by (simp add: gp_sizes_def)

lemma gp_sizes_last: "0x800000 \<in> set gp_sizes" by (simp add: gp_sizes_def)

text \<open>\<open>Init\<close> succeeds for all 23 size classes, and every request of at most 8 MiB goes to the first
  class that holds it, whose slab objects are at least as large as the request; a larger request
  is refused as a bug.\<close>

theorem gp_class_fits:
  shows "\<exists>rs. gp_construct gp_sizes = Ok rs \<and> length rs = 23 \<and>
    (if sz \<le> 0x800000
     then let k = length (takeWhile (\<lambda>x. x < sz) gp_sizes)
          in k < 23 \<and> indexer 0 gp_sizes sz = of_nat k \<and> sz \<le> sr_size (rs ! k) \<and> root_ok (rs ! k)
     else gp_Alloc e sz nid g = Some (Fail Bug_On))"
proof -
  obtain rs where rs: "gp_construct gp_sizes = Ok rs" "length rs = 23"
    "\<forall>k<23. root_ok (rs ! k) \<and> gp_sizes ! k \<le> sr_size (rs ! k)"
    using gp_construct_ok [of gp_sizes] gp_sizes_max gp_sizes_length by auto
  show ?thesis
  proof (cases "sz \<le> 0x800000")
    case True
    have "\<not> (\<forall>x\<in>set gp_sizes. x < sz)" using True gp_sizes_last by (meson linorder_not_less)
    then obtain k where k: "k < 23" "indexer 0 gp_sizes sz = of_nat k" "sz \<le> gp_sizes ! k" "\<forall>j<k. gp_sizes ! j < sz"
      using indexer_cases [of gp_sizes 0 sz] gp_sizes_length by auto
    moreover from this have "sz \<le> sr_size (rs ! k)" "root_ok (rs ! k)" using rs(3) order_trans by blast+
    moreover have "length (takeWhile (\<lambda>x. x < sz) gp_sizes) = k"
      using k gp_sizes_length by (subst takeWhile_eq_take_P_nth [where n = k]) auto
    ultimately show ?thesis using rs(1,2) True by (simp add: Let_def)
  next
    case False
    then have "\<not> sz \<le> x" if "x \<in> set gp_sizes" for x
      using gp_sizes_max [OF that] by (simp add: word_le_nat_alt)
    then have "indexer 0 gp_sizes sz = - 1"
      using indexer_cases [of gp_sizes 0 sz] by (metis nth_mem)
    then show ?thesis using rs(1,2) False by (simp add: gp_Alloc_def)
  qed
qed

text \<open>The size classes 96 and 192 break \<open>memalign\<close>: when the object the class hands out is at an odd
  index of its slab, a request for 64-byte alignment that such a class serves (65 to 96 bytes)
  stops the kernel.\<close>

theorem memalign_96_misaligned:
  assumes "root_ok r" and "sr_size r = 96" and "slab_at r p" and "k < num_objects r" and "odd k"
    and "gp_Alloc e (max sz 64) (my_nid e) g = Some (Ok (object r p k, g'))"
  shows "newlib_memalign e 64 sz g = Some (Fail Bug_On)"
proof -
  have u: "unat (object r p k) = unat p * 4096 + k * 96"
    using unat_object(1) [OF assms(1,3), of k] assms(2,4) by simp
  have "align_down (object r p k) 64 \<noteq> object r p k"
  proof
    assume "align_down (object r p k) 64 = object r p k"
    then have "align_down (object r p k) (2 ^ 6) = object r p k" by simp
    then have "unat (object r p k) div 2 ^ 6 * 2 ^ 6 = unat (object r p k)" by (metis unat_align_down)
    then have "(unat p * 4096 + k * 96) div 64 * 64 = unat p * 4096 + k * 96" by (simp only: u) simp
    then have "64 dvd unat p * 4096 + k * 96" by (metis dvd_triv_right)
    moreover have "unat p * 4096 = 64 * (unat p * 64)" by simp
    ultimately have "64 dvd k * 96" by (metis dvd_add_right_iff dvd_triv_left)
    then have "32 * 2 dvd 32 * (3 * k)" by (simp add: mult.commute)
    then have "2 dvd 3 * k" by (simp only: dvd_times_left_cancel_iff)
    then show False using assms(5) by simp
  qed
  then show ?thesis using assms(6) by (simp add: newlib_memalign_def)
qed

definition root96 :: slab_root where
  "root96 = \<lparr>sr_align = 8, sr_size = 96, sr_order = 0, sr_free_batch = 256, sr_hiwater = 1024\<rparr>"

definition gp96 :: gp where
  "gp96 = \<lparr>gp_roots = replicate 23 root96,
     gp_slabs = replicate 23 (set_cache (Cpu_Cache 0) (SlabCache_new\<lparr>object_list := [object root96 4 41]\<rparr>) slab0)\<rparr>"

lemma gp96_alloc:
  assumes "indexer 0 gp_sizes sz = of_nat k" and "k < 23"
  shows "\<exists>g'. gp_Alloc env0 sz 0 gp96 = Some (Ok (object root96 4 41, g'))"
proof -
  have r: "root_ok root96" "slab_at root96 4" by (simp_all add: root_ok_def root96_def slab_at_def)
  have n: "41 < num_objects root96" using num_objects(1) [OF r(1)] by (simp add: root96_def)
  have "unat (object root96 4 41) = 20320" using unat_object(1) [OF r, of 41] n by (simp add: root96_def)
  then have nz: "object root96 4 41 \<noteq> 0" by auto
  have c: "SlabCache_Alloc env0 root96 (Cpu_Cache 0) (gp_slabs gp96 ! k)
      = Some (Ok (object root96 4 41, set_cache (Cpu_Cache 0) SlabCache_new slab0))"
    using assms(2) by (subst SlabCache_Alloc.simps) (simp add: gp96_def set_cache_def SlabCache_new_def)
  have k: "unat (of_nat k :: u64) = k" using assms(2) by (simp add: unat_of_nat)
  have "of_nat k \<noteq> (- 1 :: u64)"
  proof
    assume "of_nat k = (- 1 :: u64)"
    then have "k = unat (- 1 :: u64)" using k by simp
    then show False using assms(2) by (simp add: unsigned_minus_1_eq_mask mask_eq_exp_minus_1)
  qed
  moreover have "gp_roots gp96 ! k = root96" using assms(2) by (simp add: gp96_def)
  ultimately show ?thesis using nz c k
    by (simp add: gp_Alloc_def assms(1) SlabAllocator_Alloc_def alloc_or_grow_def env0_def)
qed

theorem memalign_96_misaligned_witness:
  "newlib_memalign env0 64 80 gp96 = Some (Fail Bug_On)"
proof -
  have r: "root_ok root96" "slab_at root96 4" by (simp_all add: root_ok_def root96_def slab_at_def)
  have n: "41 < num_objects root96" using num_objects(1) [OF r(1)] by (simp add: root96_def)
  have m: "max 80 64 = (80 :: u64)" by (simp add: max_def)
  have "indexer 0 gp_sizes 80 = of_nat 4" by (simp add: gp_sizes_def)
  then have "\<exists>g'. gp_Alloc env0 (max 80 64) (my_nid env0) gp96 = Some (Ok (object root96 4 41, g'))"
    unfolding m using gp96_alloc [of 80 4] by (simp add: env0_def)
  then show ?thesis using memalign_96_misaligned [OF r(1) _ r(2) n] by (auto simp: root96_def)
qed

end
