(* ===== verification/Sync.thy ===== *)
theory Sync
  imports Prelude
begin

text \<open>
  \<open>sys/spinlock.hpp\<close>, \<open>sys/semaphore.hpp\<close>, \<open>sys/recursive_spinlock.hpp\<close>,
  \<open>sys/condition_variable.hpp\<close> and the thread interface of the C++ runtime, \<open>sys/gthread.cpp\<close>.
  Locks are state machines: the shared memory, the program counter of every processor, and one
  step per atomic access; memory is sequentially consistent.
\<close>

subsection \<open>Spinlocks\<close>

datatype lock_pc = Outside | Spinning | Inside

text \<open>The flag before and after \<open>test_and_set\<close>, which returns the old value, and \<open>clear\<close>.\<close>

definition test_and_set :: "bool \<Rightarrow> bool \<times> bool" where "test_and_set flag = (flag, True)"
definition clear_flag :: "bool \<Rightarrow> bool" where "clear_flag flag = False"

text \<open>One step of processor \<open>t\<close>: call \<open>lock\<close>, one round of its loop, \<open>unlock\<close>.\<close>

definition spin_round :: "bool \<Rightarrow> lock_pc \<times> bool" where
  "spin_round flag = (case test_and_set flag of (busy, flag') \<Rightarrow> (if busy then Spinning else Inside, flag'))"

inductive lock_step :: "bool \<times> (nat \<Rightarrow> lock_pc) \<Rightarrow> bool \<times> (nat \<Rightarrow> lock_pc) \<Rightarrow> bool" where
  lock_call: "pc t = Outside \<Longrightarrow> lock_step (flag, pc) (flag, pc(t := Spinning))"
| lock_spin: "pc t = Spinning \<Longrightarrow> spin_round flag = (next_pc, flag') \<Longrightarrow> lock_step (flag, pc) (flag', pc(t := next_pc))"
| unlock: "pc t = Inside \<Longrightarrow> lock_step (flag, pc) (clear_flag flag, pc(t := Outside))"

inductive_cases lock_stepE: "lock_step (flag, pc) s'"

lemmas lock_ops = spin_round_def test_and_set_def clear_flag_def

text \<open>The flag is set exactly while one processor is inside, and never two.\<close>

definition lock_inv :: "bool \<times> (nat \<Rightarrow> lock_pc) \<Rightarrow> bool" where
  "lock_inv s \<longleftrightarrow> (case s of (flag, pc) \<Rightarrow>
     (flag \<longleftrightarrow> (\<exists>t. pc t = Inside)) \<and> (\<forall>t u. pc t = Inside \<and> pc u = Inside \<longrightarrow> t = u))"

lemma lock_inv_step:
  assumes "lock_step s s'" and "lock_inv s"
  shows "lock_inv s'"
  using assms
proof cases
  case (lock_spin pc t flag next_pc flag')
  then show ?thesis
    using assms(2) by (cases flag) (auto simp: lock_inv_def lock_ops split: if_splits, metis lock_pc.distinct(5))
next
  case (unlock pc t flag)
  then show ?thesis using assms(2) by (auto simp: lock_inv_def lock_ops)
qed (auto simp: lock_inv_def, metis lock_pc.distinct(3))

subsection \<open>Barriers\<close>

text \<open>The program counter of a processor in \<open>wait\<close>: before it, after loading \<open>completed_\<close>, the last one
  before its two stores, spinning, and after it.\<close>

datatype barrier_pc = Before | Loaded u32 | Last_Store | Last_Add | Spin u32 | Passed

record barrier =
  waiters :: u32
  completed :: u32

inductive barrier_step :: "u32 \<Rightarrow> barrier \<times> (nat \<Rightarrow> barrier_pc) \<Rightarrow> barrier \<times> (nat \<Rightarrow> barrier_pc) \<Rightarrow> bool" for n where
  load: "pc t = Before \<Longrightarrow> barrier_step n (b, pc) (b, pc(t := Loaded (completed b)))"
| fetch_add_last: "pc t = Loaded v \<Longrightarrow> waiters b = n - 1 \<Longrightarrow>
    barrier_step n (b, pc) (b\<lparr>waiters := waiters b + 1\<rparr>, pc(t := Last_Store))"
| fetch_add: "pc t = Loaded v \<Longrightarrow> waiters b \<noteq> n - 1 \<Longrightarrow>
    barrier_step n (b, pc) (b\<lparr>waiters := waiters b + 1\<rparr>, pc(t := Spin v))"
| reset: "pc t = Last_Store \<Longrightarrow> barrier_step n (b, pc) (b\<lparr>waiters := 0\<rparr>, pc(t := Last_Add))"
| complete: "pc t = Last_Add \<Longrightarrow> barrier_step n (b, pc) (b\<lparr>completed := completed b + 1\<rparr>, pc(t := Passed))"
| spin_exit: "pc t = Spin v \<Longrightarrow> completed b \<noteq> v \<Longrightarrow> barrier_step n (b, pc) (b, pc(t := Passed))"

definition barrier_new :: barrier where "barrier_new = \<lparr>waiters = 0, completed = 0\<rparr>"

subsection \<open>Recursive spinlocks\<close>

record recursive_spinlock =
  rl_event_id :: u32
  rl_count :: u16

definition recursive_spinlock_new :: "u32 \<Rightarrow> recursive_spinlock" where
  "recursive_spinlock_new garbage = \<lparr>rl_event_id = garbage, rl_count = 0\<rparr>"

definition recursive_trylock :: "u32 \<Rightarrow> recursive_spinlock \<Rightarrow> bool \<times> recursive_spinlock" where
  "recursive_trylock event_id l =
     (if rl_count l = - 1 then (False, l)
      else if rl_count l \<le> 0 then (True, l\<lparr>rl_event_id := event_id, rl_count := rl_count l + 1\<rparr>)
      else if rl_event_id l = event_id then (True, l\<lparr>rl_count := rl_count l + 1\<rparr>)
      else (False, l))"

definition recursive_unlock :: "recursive_spinlock \<Rightarrow> recursive_spinlock" where
  "recursive_unlock l = l\<lparr>rl_count := rl_count l - 1\<rparr>"

text \<open>\<open>lock\<close> when nobody else changes the lock: \<open>None\<close> is a loop that does not end.\<close>

definition recursive_lock :: "u32 \<Rightarrow> recursive_spinlock \<Rightarrow> recursive_spinlock option" where
  "recursive_lock event_id l = (case recursive_trylock event_id l of (True, l') \<Rightarrow> Some l' | (False, _) \<Rightarrow> None)"

subsection \<open>Semaphores\<close>

definition sem_signal :: "u32 \<Rightarrow> u32 \<Rightarrow> u32" where "sem_signal n count = count + n"

text \<open>\<open>trywait\<close> is two accesses: a load, and a weak compare-and-exchange that may fail spuriously.\<close>

definition sem_exchange :: "u32 \<Rightarrow> u32 \<Rightarrow> bool \<Rightarrow> u32 \<Rightarrow> bool \<times> u32" where
  "sem_exchange val n spurious count =
     (if val \<ge> n \<and> count = val \<and> \<not> spurious then (True, val - n) else (False, count))"

datatype sem_pc = Sem_Idle | Sem_Loaded u32 u32

inductive sem_step :: "u32 \<times> nat \<times> nat \<times> (nat \<Rightarrow> sem_pc) \<Rightarrow> u32 \<times> nat \<times> nat \<times> (nat \<Rightarrow> sem_pc) \<Rightarrow> bool" where
  signal: "sem_step (count, given, taken, pc) (sem_signal n count, given + unat n, taken, pc)"
| wait_load: "pc t = Sem_Idle \<Longrightarrow> sem_step (count, given, taken, pc) (count, given, taken, pc(t := Sem_Loaded n count))"
| wait_exchange: "pc t = Sem_Loaded n val \<Longrightarrow> sem_exchange val n spurious count = (ok, count') \<Longrightarrow>
    sem_step (count, given, taken, pc) (count', given, (if ok then taken + unat n else taken), pc(t := Sem_Idle))"

subsection \<open>Condition variables\<close>

text \<open>The nodes live on the stacks of the waiting threads; \<open>cv_live\<close> are those whose \<open>wait\<close> has not
  returned, with the count of their semaphore.\<close>

record condition_variable =
  cv_list :: "nat list"
  cv_live :: "nat \<Rightarrow> u32 option"

definition cv_wait_enter :: "nat \<Rightarrow> condition_variable \<Rightarrow> condition_variable" where
  "cv_wait_enter node cv = cv\<lparr>cv_list := node # cv_list cv, cv_live := (cv_live cv)(node \<mapsto> 0)\<rparr>"

text \<open>\<open>node.sem.wait()\<close> succeeds and \<open>wait\<close> returns: its node goes out of scope.\<close>

definition cv_wait_return :: "nat \<Rightarrow> condition_variable \<Rightarrow> condition_variable option" where
  "cv_wait_return node cv = (case cv_live cv node of
     None \<Rightarrow> None
   | Some n \<Rightarrow> if n \<ge> 1 then Some (cv\<lparr>cv_live := (cv_live cv)(node := None)\<rparr>) else None)"

fun signal_nodes :: "nat list \<Rightarrow> (nat \<Rightarrow> u32 option) \<Rightarrow> (nat \<Rightarrow> u32 option) res" where
  "signal_nodes [] live = Ok live"
| "signal_nodes (node # nodes) live = (case live node of
     None \<Rightarrow> Fail Undefined
   | Some n \<Rightarrow> signal_nodes nodes (live(node \<mapsto> sem_signal 1 n)))"

definition cv_broadcast :: "condition_variable \<Rightarrow> condition_variable res" where
  "cv_broadcast cv = bind_res (signal_nodes (cv_list cv) (cv_live cv)) (\<lambda>live. Ok (cv\<lparr>cv_live := live\<rparr>))"

subsection \<open>The thread interface of the C++ runtime\<close>

definition gthread_mutex_init :: "bool \<Rightarrow> bool" where "gthread_mutex_init flag = clear_flag flag"

definition gthread_active_p :: int where "gthread_active_p = 1"

text \<open>\<open>once\<close>: 0 is unused, 1 running, 2 done; the function may itself fail, or call \<open>once\<close> again.\<close>

definition gthread_once :: "(u64 \<times> 's \<Rightarrow> (u64 \<times> 's) res) \<Rightarrow> u64 \<times> 's \<Rightarrow> (int \<times> u64 \<times> 's) res" where
  "gthread_once func st = (case st of (flag, s) \<Rightarrow>
     if flag = 0 then bind_res (func (1, s)) (\<lambda>(_, s'). Ok (0, 2, s'))
     else kbugon (flag \<noteq> 2) (Ok (0, flag, s)))"

definition gthread_mutex_lock :: "bool \<Rightarrow> (int \<times> bool) res" where
  "gthread_mutex_lock flag = (case test_and_set flag of (busy, flag') \<Rightarrow> kbugon busy (Ok (0, flag')))"

definition gthread_mutex_unlock :: "bool \<Rightarrow> int \<times> bool" where
  "gthread_mutex_unlock flag = (0, clear_flag flag)"

datatype gthread_key_call = Key_Create | Key_Delete | Get_Specific | Set_Specific
datatype gthread_recursive_call = Recursive_Trylock | Recursive_Lock | Recursive_Unlock
datatype gthread_cond_call = Cond_Init | Cond_Broadcast | Cond_Wait | Cond_Wait_Recursive | Cond_Destroy
datatype gthread_thread_call = Thread_Create | Thread_Join | Thread_Detach | Thread_Equal | Thread_Self | Thread_Yield
datatype gthread_timed_call = Mutex_Timedlock | Recursive_Timedlock | Cond_Signal | Cond_Timedwait

text \<open>The functions whose body is \<open>UNIMPLEMENTED()\<close>.\<close>

definition gthread_key :: "gthread_key_call \<Rightarrow> int res" where "gthread_key c = Fail Unimplemented"
definition gthread_recursive :: "gthread_recursive_call \<Rightarrow> int res" where "gthread_recursive c = Fail Unimplemented"
definition gthread_cond :: "gthread_cond_call \<Rightarrow> int res" where "gthread_cond c = Fail Unimplemented"
definition gthread_thread :: "gthread_thread_call \<Rightarrow> int res" where "gthread_thread c = Fail Unimplemented"
definition gthread_timed :: "gthread_timed_call \<Rightarrow> int res" where "gthread_timed c = Fail Unimplemented"

subsection \<open>Invariants\<close>

lemma lock_inv_reachable: "lock_step\<^sup>*\<^sup>* s s' \<Longrightarrow> lock_inv s \<Longrightarrow> lock_inv s'"
  by (induction rule: rtranclp_induct) (auto intro: lock_inv_step)

definition arrived :: "nat \<Rightarrow> (nat \<Rightarrow> barrier_pc) \<Rightarrow> nat set" where
  "arrived n pc = {t. t < n \<and> pc t \<noteq> Before \<and> (\<forall>v. pc t \<noteq> Loaded v)}"

text \<open>The three phases of a round of \<open>n\<close> processors: arriving, the last one's two stores, leaving.\<close>

definition barrier_inv :: "u32 \<Rightarrow> barrier \<times> (nat \<Rightarrow> barrier_pc) \<Rightarrow> bool" where
  "barrier_inv n s \<longleftrightarrow> (case s of (b, pc) \<Rightarrow>
     let A = arrived (unat n) pc; L = {t. pc t = Last_Store \<or> pc t = Last_Add}
     in (\<forall>t\<ge>unat n. pc t = Passed) \<and> (\<forall>t v. pc t = Loaded v \<or> pc t = Spin v \<longrightarrow> v = 0) \<and>
        ((completed b = 0 \<and> (\<forall>t<unat n. pc t \<noteq> Passed) \<and> L = {} \<and> waiters b = of_nat (card A) \<and> card A < unat n)
         \<or> (completed b = 0 \<and> (\<forall>t<unat n. pc t \<noteq> Passed) \<and> A = {..<unat n} \<and> (\<exists>l. L = {l}))
         \<or> (completed b = 1 \<and> A = {..<unat n} \<and> L = {})))"

lemma arrived_upd: "t < n \<Longrightarrow> arrived n (pc(t := q)) =
    (if q = Before \<or> (\<exists>v. q = Loaded v) then arrived n pc - {t} else insert t (arrived n pc))"
  by (auto simp: arrived_def)

lemma arrived_sub: "arrived n pc \<subseteq> {..<n}" "finite (arrived n pc)"
  by (auto simp: arrived_def)

lemma count_last:
  assumes "(of_nat k :: u32) = n - 1" and "k < unat n"
  shows "k = unat n - 1"
proof -
  have "1 \<le> n" using assms(2) by (simp add: word_le_nat_alt)
  then have "unat (n - 1) = unat n - 1" by (simp add: unat_sub_nowrap)
  moreover have "unat (of_nat k :: u32) = k"
    using assms(2) unat_lt_pow [of n] by (simp add: unat_of_nat)
  ultimately show ?thesis using assms(1) by simp
qed

lemma barrier_inv_step:
  assumes "barrier_step n s s'" and "barrier_inv n s"
  shows "barrier_inv n s'"
  using assms
proof cases
  case (load pc t b)
  have t: "t < unat n" using load assms(2) by (auto simp: barrier_inv_def Let_def not_le [symmetric])
  then have "t \<notin> arrived (unat n) pc" using load by (simp add: arrived_def)
  then have "arrived (unat n) (pc(t := Loaded (completed b))) = arrived (unat n) pc" by (simp add: arrived_upd [OF t])
  moreover have "arrived (unat n) pc \<noteq> {..<unat n}" using t \<open>t \<notin> arrived (unat n) pc\<close> by auto
  moreover have "{u. (pc(t := Loaded (completed b))) u = Last_Store \<or> (pc(t := Loaded (completed b))) u = Last_Add}
      = {u. pc u = Last_Store \<or> pc u = Last_Add}" using load by auto
  ultimately show ?thesis using assms(2) load t by (auto simp: barrier_inv_def Let_def)
next
  case (fetch_add_last pc t v b)
  let ?A = "arrived (unat n) pc"
  have t: "t < unat n" using fetch_add_last assms(2) by (auto simp: barrier_inv_def Let_def not_le [symmetric])
  have nA: "t \<notin> ?A" using fetch_add_last by (simp add: arrived_def)
  then have "?A \<noteq> {..<unat n}" using t by auto
  then have ph: "completed b = 0" "\<forall>u<unat n. pc u \<noteq> Passed" "{u. pc u = Last_Store \<or> pc u = Last_Add} = {}"
    "waiters b = of_nat (card ?A)" "card ?A < unat n"
    using fetch_add_last assms(2) by (auto simp: barrier_inv_def Let_def)
  have A: "card (insert t ?A) = unat n"
    using count_last [of "card ?A" n] ph(4,5) fetch_add_last(4) nA arrived_sub(2) t by simp
  have "insert t ?A = {..<unat n}"
    using A arrived_sub(1) [of "unat n" pc] t by (intro card_subset_eq) auto
  then have "arrived (unat n) (pc(t := Last_Store)) = {..<unat n}" by (simp add: arrived_upd [OF t])
  moreover have "{u. (pc(t := Last_Store)) u = Last_Store \<or> (pc(t := Last_Store)) u = Last_Add} = {t}"
    using ph(3) by auto
  ultimately show ?thesis using assms(2) fetch_add_last ph t by (auto simp: barrier_inv_def Let_def)
next
  case (fetch_add pc t v b)
  let ?A = "arrived (unat n) pc"
  have t: "t < unat n" using fetch_add assms(2) by (auto simp: barrier_inv_def Let_def not_le [symmetric])
  have nA: "t \<notin> ?A" using fetch_add by (simp add: arrived_def)
  then have "?A \<noteq> {..<unat n}" using t by auto
  then have ph: "completed b = 0" "\<forall>u<unat n. pc u \<noteq> Passed" "{u. pc u = Last_Store \<or> pc u = Last_Add} = {}"
    "waiters b = of_nat (card ?A)" "card ?A < unat n" and v: "v = 0"
    using fetch_add assms(2) by (auto simp: barrier_inv_def Let_def)
  have "card ?A \<noteq> unat n - 1"
  proof
    assume "card ?A = unat n - 1"
    moreover have "1 \<le> n" using t by (simp add: word_le_nat_alt)
    then have "(of_nat (unat n - 1) :: u32) = n - 1" by (simp add: of_nat_diff word_le_nat_alt)
    ultimately show False using ph(4) fetch_add(4) by simp
  qed
  then have "card (insert t ?A) < unat n" using ph(5) nA arrived_sub(2) by simp
  moreover have "arrived (unat n) (pc(t := Spin v)) = insert t ?A" by (simp add: arrived_upd [OF t])
  moreover have "{u. (pc(t := Spin v)) u = Last_Store \<or> (pc(t := Spin v)) u = Last_Add} = {}" using ph(3) by auto
  moreover have "waiters b + 1 = of_nat (card (insert t ?A))" using ph(4) nA arrived_sub(2) by simp
  ultimately show ?thesis using assms(2) fetch_add ph t v unfolding barrier_inv_def by (simp add: Let_def)
next
  case (reset pc t b)
  have t: "t < unat n" using reset assms(2) by (auto simp: barrier_inv_def Let_def not_le [symmetric])
  then have A: "arrived (unat n) (pc(t := Last_Add)) = arrived (unat n) pc"
    using reset by (auto simp: arrived_upd [OF t] arrived_def)
  have "{u. (pc(t := Last_Add)) u = Last_Store \<or> (pc(t := Last_Add)) u = Last_Add} = {u. pc u = Last_Store \<or> pc u = Last_Add}"
    using reset by auto
  moreover have "{u. pc u = Last_Store \<or> pc u = Last_Add} \<noteq> {}" using reset by auto
  then have "completed b = 0" "\<forall>u<unat n. pc u \<noteq> Passed" "arrived (unat n) pc = {..<unat n}"
    "\<exists>l. {u. pc u = Last_Store \<or> pc u = Last_Add} = {l}"
    using reset assms(2) by (auto simp: barrier_inv_def Let_def)
  ultimately show ?thesis using assms(2) reset t unfolding barrier_inv_def by (simp add: Let_def A)
next
  case (complete pc t b)
  have t: "t < unat n" using complete assms(2) by (auto simp: barrier_inv_def Let_def not_le [symmetric])
  have ne: "{u. pc u = Last_Store \<or> pc u = Last_Add} \<noteq> {}" using complete by auto
  then have ph: "completed b = 0" "arrived (unat n) pc = {..<unat n}" "\<exists>l. {u. pc u = Last_Store \<or> pc u = Last_Add} = {l}"
    using assms(2) unfolding complete(1) barrier_inv_def Let_def prod.case by (elim conjE disjE; simp)+
  have "t \<in> {u. pc u = Last_Store \<or> pc u = Last_Add}" using complete by simp
  with ph(3) have L: "{u. pc u = Last_Store \<or> pc u = Last_Add} = {t}" by (elim exE) simp
  have "{u. (pc(t := Passed)) u = Last_Store \<or> (pc(t := Passed)) u = Last_Add} = {}" using L by auto
  moreover have "arrived (unat n) (pc(t := Passed)) = {..<unat n}" using ph(2) t by (auto simp: arrived_upd [OF t])
  ultimately show ?thesis using assms(2) complete ph(1) t unfolding barrier_inv_def by (simp add: Let_def)
next
  case (spin_exit pc t v b)
  have t: "t < unat n" using spin_exit assms(2) by (auto simp: barrier_inv_def Let_def not_le [symmetric])
  have "v = 0" using spin_exit assms(2) by (auto simp: barrier_inv_def Let_def)
  then have ph: "completed b = 1" "arrived (unat n) pc = {..<unat n}" "{u. pc u = Last_Store \<or> pc u = Last_Add} = {}"
    using spin_exit assms(2) by (auto simp: barrier_inv_def Let_def)
  have "{u. (pc(t := Passed)) u = Last_Store \<or> (pc(t := Passed)) u = Last_Add} = {}" using ph(3) by auto
  moreover have "arrived (unat n) (pc(t := Passed)) = {..<unat n}" using ph(2) t by (auto simp: arrived_upd [OF t])
  ultimately show ?thesis using assms(2) spin_exit ph(1) t unfolding barrier_inv_def by (simp add: Let_def)
qed

lemma barrier_inv_reachable:
  assumes "(barrier_step n)\<^sup>*\<^sup>* s s'" and "barrier_inv n s"
  shows "barrier_inv n s'"
  using assms by (induction rule: rtranclp_induct) (auto intro: barrier_inv_step)

definition barrier_start :: "u32 \<Rightarrow> barrier \<times> (nat \<Rightarrow> barrier_pc)" where
  "barrier_start n = (barrier_new, \<lambda>t. if t < unat n then Before else Passed)"

lemma barrier_inv_start: "0 < n \<Longrightarrow> barrier_inv n (barrier_start n)"
proof -
  assume "0 < n"
  then have "0 < unat n" by (simp add: word_less_nat_alt)
  moreover have "arrived (unat n) (snd (barrier_start n)) = {}" by (auto simp: arrived_def barrier_start_def)
  moreover have "{t. snd (barrier_start n) t = Last_Store \<or> snd (barrier_start n) t = Last_Add} = {}"
    by (auto simp: barrier_start_def)
  ultimately show ?thesis by (simp add: barrier_inv_def barrier_start_def barrier_new_def Let_def)
qed

lemma barrier_progress:
  assumes inv: "barrier_inv n (b, pc)" and t: "pc t \<noteq> Passed"
  shows "\<exists>s'. barrier_step n (b, pc) s'"
proof -
  have tn: "t < unat n" using assms by (auto simp: barrier_inv_def Let_def not_le [symmetric])
  have load: "\<exists>s'. barrier_step n (b, pc) s'" if "pc u = Before" for u
    using barrier_step.load [where pc = pc and t = u] that by blast
  have add: "\<exists>s'. barrier_step n (b, pc) s'" if "pc u = Loaded v" for u v
    using fetch_add [where pc = pc and t = u] fetch_add_last [where pc = pc and t = u] that by blast
  have last: "\<exists>s'. barrier_step n (b, pc) s'" if "pc u = Last_Store \<or> pc u = Last_Add" for u
    using that reset [where pc = pc and t = u] complete [where pc = pc and t = u] by blast
  consider (arriving) "arrived (unat n) pc \<noteq> {..<unat n}" | (last) l where "pc l = Last_Store \<or> pc l = Last_Add"
    | (leaving) "completed b = 1" "arrived (unat n) pc = {..<unat n}"
  proof (cases "arrived (unat n) pc = {..<unat n}")
    case True
    then have "completed b = 1 \<or> (\<exists>l. {u. pc u = Last_Store \<or> pc u = Last_Add} = {l})"
      using inv unfolding barrier_inv_def Let_def prod.case by (elim conjE disjE) simp_all
    then show ?thesis
    proof (elim disjE exE)
      fix l assume "{u. pc u = Last_Store \<or> pc u = Last_Add} = {l}"
      then have "l \<in> {u. pc u = Last_Store \<or> pc u = Last_Add}" by simp
      then show ?thesis using that(2) by simp
    qed (use True that(3) in simp)
  qed (use that(1) in simp)
  then show ?thesis
  proof cases
    case arriving
    then obtain u where "u < unat n" "u \<notin> arrived (unat n) pc" using arrived_sub(1) [of "unat n" pc] by blast
    then show ?thesis using load add by (auto simp: arrived_def)
  next
    case leaving
    then have "t \<in> arrived (unat n) pc" using tn by simp
    then show ?thesis
    proof (cases "pc t")
      case (Spin v)
      then have "v = 0" using inv by (auto simp: barrier_inv_def Let_def)
      then show ?thesis using spin_exit [where pc = pc and t = t and v = v and b = b and n = n] Spin leaving(1) by auto
    qed (use t last load in \<open>auto simp: arrived_def\<close>)
  qed (use last in blast)
qed

subsection \<open>Properties\<close>

text \<open>A spinlock excludes: in every reachable state of any number of processors at most one is
  inside, the flag is set exactly while one is, and when none is, a spinning processor's next
  round gets the lock.\<close>

theorem spinlock_excludes:
  assumes "lock_step\<^sup>*\<^sup>* (False, \<lambda>_. Outside) (flag, pc)"
  shows "(\<forall>t u. pc t = Inside \<and> pc u = Inside \<longrightarrow> t = u) \<and> (flag \<longleftrightarrow> (\<exists>t. pc t = Inside))
    \<and> (\<forall>t. pc t = Spinning \<and> (\<forall>u. pc u \<noteq> Inside) \<longrightarrow> lock_step (flag, pc) (True, pc(t := Inside)))"
proof -
  have "lock_inv (False, \<lambda>_. Outside)" by (simp add: lock_inv_def)
  from lock_inv_reachable [OF assms this] have inv: "lock_inv (flag, pc)" .
  have "lock_step (flag, pc) (True, pc(t := Inside))" if "pc t = Spinning" "\<forall>u. pc u \<noteq> Inside" for t
  proof -
    have "\<not> flag" using inv that(2) by (simp add: lock_inv_def)
    then show ?thesis using lock_spin [of pc t flag Inside True] that(1) by (simp add: lock_ops)
  qed
  then show ?thesis using inv by (auto simp: lock_inv_def)
qed

theorem spinlock_excludes_witness:
  "\<exists>flag pc. lock_step\<^sup>*\<^sup>* (False, \<lambda>_. Outside) (flag, pc) \<and> pc 3 = Inside \<and> flag"
proof -
  have "lock_step (False, \<lambda>_. Outside) (False, (\<lambda>_. Outside)(3 := Spinning))" by (rule lock_call) simp
  moreover have "lock_step (False, (\<lambda>_. Outside)(3 := Spinning)) (True, (\<lambda>_. Outside)(3 := Spinning, 3 := Inside))"
    by (rule lock_spin) (simp_all add: lock_ops)
  ultimately have r: "lock_step\<^sup>*\<^sup>* (False, \<lambda>_. Outside) (True, (\<lambda>_. Outside)(3 := Spinning, 3 := Inside))" by simp
  from conjunct1 [OF conjunct2 [OF spinlock_excludes [OF r]]]
  show ?thesis using r by (intro exI [of _ True] exI [of _ "(\<lambda>_. Outside)(3 := Spinning, 3 := Inside)"]) simp
qed

text \<open>C32: The barrier of \<open>smp_init\<close>: in every interleaving of one round of \<open>n\<close> processors, none passes
  before all have arrived, and as long as one has not passed some processor can take a step
  that is not an idle spin.\<close>

theorem barrier_correct:
  assumes "0 < n" and "(barrier_step n)\<^sup>*\<^sup>* (barrier_start n) (b, pc)"
  shows "(\<forall>t<unat n. pc t = Passed \<longrightarrow> (\<forall>u<unat n. pc u \<noteq> Before \<and> (\<forall>v. pc u \<noteq> Loaded v)))
    \<and> ((\<exists>t. pc t \<noteq> Passed) \<longrightarrow> (\<exists>s'. barrier_step n (b, pc) s'))"
proof -
  have inv: "barrier_inv n (b, pc)" by (rule barrier_inv_reachable [OF assms(2) barrier_inv_start [OF assms(1)]])
  have "arrived (unat n) pc = {..<unat n}" if "t < unat n" "pc t = Passed" for t
    using inv that unfolding barrier_inv_def Let_def prod.case by blast
  then have "u \<in> arrived (unat n) pc" if "t < unat n" "pc t = Passed" "u < unat n" for t u
    using that by simp
  then have "pc u \<noteq> Before \<and> (\<forall>v. pc u \<noteq> Loaded v)" if "t < unat n" "pc t = Passed" "u < unat n" for t u
    using that by (simp add: arrived_def)
  then show ?thesis using barrier_progress [OF inv] by blast
qed

theorem barrier_correct_witness:
  "\<exists>s'. barrier_step 2 (barrier_start 2) s'"
proof -
  have r: "(barrier_step 2)\<^sup>*\<^sup>* (barrier_start 2) (barrier_new, snd (barrier_start 2))" by (simp add: barrier_start_def)
  have "\<exists>s'. barrier_step 2 (barrier_new, snd (barrier_start 2)) s'"
  proof -
    have "snd (barrier_start 2) 0 \<noteq> Passed" by (simp add: barrier_start_def)
    then have "\<exists>t. snd (barrier_start 2) t \<noteq> Passed" ..
    moreover have "(0 :: u32) < 2" by simp
    ultimately show ?thesis using barrier_correct [OF _ r] by blast
  qed
  then show ?thesis by (simp add: barrier_start_def)
qed

text \<open>Unlocking a recursive lock that is not held wraps its count to 65535, after which every
  attempt of every event fails: \<open>lock\<close> never returns.  Held properly, by \<open>k\<close> nested acquisitions of one
  event, other events fail and \<open>k\<close> releases free it.\<close>

theorem recursive_spinlock_count:
  assumes "rl_count l = 0" and "0 < k" and "k < 65535"
    and "held = ((\<lambda>l. snd (recursive_trylock e l)) ^^ k) l"
  shows "recursive_lock e' (recursive_unlock l) = None
    \<and> unat (rl_count held) = k \<and> rl_event_id held = e \<and> (e' = e \<or> recursive_trylock e' held = (False, held))
    \<and> rl_count ((recursive_unlock ^^ k) held) = 0"
proof -
  have "unat (rl_count (((\<lambda>l. snd (recursive_trylock e l)) ^^ j) l)) = j
      \<and> (0 < j \<longrightarrow> rl_event_id (((\<lambda>l. snd (recursive_trylock e l)) ^^ j) l) = e)" if "j < 65535" for j
    using that
  proof (induction j)
    case 0
    then show ?case using assms(1) by simp
  next
    case (Suc j)
    let ?l = "((\<lambda>l. snd (recursive_trylock e l)) ^^ j) l"
    have c: "unat (rl_count ?l) = j" "0 < j \<longrightarrow> rl_event_id ?l = e" using Suc by auto
    have nm: "rl_count ?l \<noteq> - 1" using c(1) Suc.prems by (auto simp: word_eq_unat unsigned_minus_1_eq_mask mask_eq_exp_minus_1)
    have z: "rl_count ?l \<le> 0 \<longleftrightarrow> j = 0" using c(1) by (simp add: word_le_nat_alt)
    have "unat (rl_count ?l + 1) = Suc j" using c(1) Suc.prems by (simp add: unat_word_ariths)
    then show ?case using c(2) nm z by (auto simp: recursive_trylock_def)
  qed
  from this [OF assms(3)] assms(2) have h: "unat (rl_count held) = k" "rl_event_id held = e" by (auto simp: assms(4))
  then have nm: "rl_count held \<noteq> - 1" and nz: "\<not> rl_count held \<le> 0"
    using assms(2,3) by (auto simp: word_eq_unat unsigned_minus_1_eq_mask mask_eq_exp_minus_1 word_le_nat_alt)
  have "rl_count ((recursive_unlock ^^ j) m) = rl_count m - of_nat j" for j m
    by (induction j) (simp_all add: recursive_unlock_def algebra_simps)
  moreover have "rl_count held = of_nat k" unfolding h(1) [symmetric] by simp
  ultimately have "rl_count ((recursive_unlock ^^ k) held) = 0" by simp
  then show ?thesis
    using assms(1) h nm nz by (auto simp: recursive_lock_def recursive_unlock_def recursive_trylock_def)
qed

theorem recursive_spinlock_count_witness:
  "recursive_lock 7 (recursive_unlock (recursive_spinlock_new 0)) = None"
  using recursive_spinlock_count [of "recursive_spinlock_new 0" 1 _ 7 7, OF _ _ _ refl] by (simp add: recursive_spinlock_new_def)

text \<open>A semaphore neither loses nor invents units: in every interleaving, as long as the units ever
  given fit in 32 bits, the count plus the units taken is the initial count plus the units given,
  whatever spurious failures the weak exchange has.\<close>

theorem semaphore_conserves:
  assumes "sem_step\<^sup>*\<^sup>* (c, 0, 0, \<lambda>_. Sem_Idle) (count, given, taken, pc)" and "unat c + given < 2 ^ 32"
  shows "unat count + taken = unat c + given"
  using assms
proof (induction "(count, given, taken, pc)" arbitrary: count given taken pc rule: rtranclp_induct)
  case (step y)
  obtain count1 given1 taken1 pc1 where y: "y = (count1, given1, taken1, pc1)" by (cases y) auto
  have "given1 \<le> given" using step(2) unfolding y by cases auto
  then have IH: "unat count1 + taken1 = unat c + given1" using step.hyps(3) [OF y] step.prems by simp
  show ?case using step(2) unfolding y
  proof cases
    case (signal n)
    then have "unat count1 + unat n < 2 ^ LENGTH(32)" using IH step.prems by simp
    then have "unat (count1 + n) = unat count1 + unat n" by (rule unat_add_nowrap)
    then show ?thesis using signal IH by (simp add: sem_signal_def)
  next
    case (wait_exchange t n val spurious ok)
    then show ?thesis using IH
      by (auto simp: sem_exchange_def unat_sub_nowrap word_le_nat_alt split: if_splits)
  qed (use IH in auto)
qed simp

theorem semaphore_conserves_witness:
  "sem_step\<^sup>*\<^sup>* (1, 0, 0, \<lambda>_. Sem_Idle) (3, 2, 0, \<lambda>_. Sem_Idle) \<and> unat (3 :: u32) + 0 = unat (1 :: u32) + 2"
proof -
  have "sem_step (1, 0, 0, \<lambda>_. Sem_Idle) (sem_signal 2 1, 0 + unat (2 :: u32), 0, \<lambda>_. Sem_Idle)" by (rule signal)
  moreover have "sem_signal 2 1 = 3" "0 + unat (2 :: u32) = 2" by (simp_all add: sem_signal_def)
  ultimately have r: "sem_step\<^sup>*\<^sup>* (1, 0, 0, \<lambda>_. Sem_Idle) (3, 2, 0, \<lambda>_. Sem_Idle)"
    by (simp only: r_into_rtranclp)
  from semaphore_conserves [OF r] r show ?thesis by simp
qed

lemma signal_dead: "node \<in> set nodes \<Longrightarrow> live node = None \<Longrightarrow> signal_nodes nodes live = Fail Undefined"
proof (induction nodes arbitrary: live)
  case (Cons a nodes)
  then show ?case by (cases "a = node") (auto split: option.splits)
qed simp

text \<open>A thread that returns from waiting on a condition variable leaves its node, a local variable,
  on the variable's list: the next broadcast signals a semaphore that no longer exists.\<close>

theorem condition_variable_dangling:
  assumes "cv_broadcast (cv_wait_enter node cv) = Ok c" and "cv_wait_return node c = Some cv'"
  shows "cv_broadcast cv' = Fail Undefined"
proof -
  have "cv_live cv' node = None \<and> cv_list cv' = cv_list c"
    using assms(2) by (auto simp: cv_wait_return_def split: option.splits if_splits)
  moreover have "cv_list c = node # cv_list cv"
    using assms(1) by (auto simp: cv_broadcast_def cv_wait_enter_def res_Ok_iff)
  ultimately show ?thesis using signal_dead [of node "cv_list cv'" "cv_live cv'"] by (simp add: cv_broadcast_def)
qed

theorem condition_variable_dangling_witness:
  "\<exists>c cv'. cv_broadcast (cv_wait_enter 5 \<lparr>cv_list = [], cv_live = Map.empty\<rparr>) = Ok c
     \<and> cv_wait_return 5 c = Some cv' \<and> cv_broadcast cv' = Fail Undefined"
proof -
  let ?cv = "\<lparr>cv_list = [], cv_live = Map.empty\<rparr>"
  let ?c = "\<lparr>cv_list = [5], cv_live = Map.empty(5 \<mapsto> 0, 5 \<mapsto> 1)\<rparr>"
  let ?d = "\<lparr>cv_list = [5], cv_live = (Map.empty(5 \<mapsto> 0, 5 \<mapsto> 1))(5 := None)\<rparr>"
  have "cv_broadcast (cv_wait_enter 5 ?cv) = Ok ?c"
    by (simp add: cv_broadcast_def cv_wait_enter_def sem_signal_def)
  moreover have "cv_wait_return 5 ?c = Some ?d" by (simp add: cv_wait_return_def)
  ultimately show ?thesis using condition_variable_dangling by blast
qed

end
