(* ===== verification/Clock_Timer.thy ===== *)
theory Clock_Timer
  imports Cpu "HOL-Library.Signed_Division" "HOL-Library.Multiset"
begin

text \<open>
  \<open>sys/clock.cpp\<close>, \<open>sys/timer.hpp\<close>, \<open>sys/timer.cpp\<close>: the paravirtual clock, read under a version
  counter that the hypervisor changes concurrently, and the APIC timer with its queue of
  repeating timers.  Times are nanoseconds, timeouts microseconds.
\<close>

subsection \<open>Reading under a version counter\<close>

record pvclock =
  pv_version :: u32
  pv_tsc_timestamp :: u64
  pv_system_time :: u64
  pv_mul :: u32
  pv_shift :: "8 word"

record wall_clock =
  wc_version :: u32
  wc_sec :: u32
  wc_nsec :: u32

text \<open>The local variables of \<open>clock_time\<close> and of \<open>clock_init\<close>.\<close>

record sample =
  s_tsc :: u64
  s_system_time :: u64
  s_mul :: u32
  s_shift :: "8 word"

text \<open>One round of the loop of \<open>clock_time\<close>: the times of its six loads.  \<open>mem\<close> is the structure at each
  moment.  The \<open>continue\<close> of a \<open>do\<close> loop goes to the test of the loop's condition.\<close>

type_synonym round = "nat \<times> nat \<times> nat \<times> nat \<times> nat \<times> nat"

fun clock_loop :: "(nat \<Rightarrow> pvclock) \<Rightarrow> round list \<Rightarrow> sample \<Rightarrow> sample option" where
  "clock_loop mem [] locals = None"
| "clock_loop mem ((t0, t1, t2, t3, t4, t5) # rounds) locals =
     (let version = pv_version (mem t0);
          locals' = (if version mod 2 \<noteq> 0 then locals
                     else \<lparr>s_tsc = pv_tsc_timestamp (mem t1), s_system_time = pv_system_time (mem t2),
                           s_mul = pv_mul (mem t3), s_shift = pv_shift (mem t4)\<rparr>)
      in if version \<noteq> pv_version (mem t5) then clock_loop mem rounds locals' else Some locals')"

text \<open>The loop of \<open>clock_init\<close>; its variables start without a value.\<close>

fun wall_loop :: "(nat \<Rightarrow> wall_clock) \<Rightarrow> (nat \<times> nat \<times> nat \<times> nat) list \<Rightarrow> (u32 \<times> u32) option \<Rightarrow> (u32 \<times> u32) option option" where
  "wall_loop mem [] locals = None"
| "wall_loop mem ((t0, t1, t2, t3) # rounds) locals =
     (let version = wc_version (mem t0);
          locals' = (if version mod 2 \<noteq> 0 then locals else Some (wc_sec (mem t1), wc_nsec (mem t2)))
      in if version \<noteq> wc_version (mem t3) then wall_loop mem rounds locals' else Some locals')"

definition MSR_KVM_WALL_CLOCK_NEW :: u32 where "MSR_KVM_WALL_CLOCK_NEW = 0x4b564d00"
definition MSR_KVM_SYSTEM_TIME_NEW :: u32 where "MSR_KVM_SYSTEM_TIME_NEW = 0x4b564d01"

definition setup_system_time :: "u64 \<Rightarrow> msr_write list" where
  "setup_system_time vcpu_time_info = [(MSR_KVM_SYSTEM_TIME_NEW, vcpu_time_info OR 1)]"

text \<open>\<open>clock_init\<close>: the registers written and the boot time; using a variable without a value is
  undefined.\<close>

definition clock_init :: "cpuid_features \<Rightarrow> u64 \<Rightarrow> u64 \<Rightarrow> (nat \<Rightarrow> wall_clock) \<Rightarrow> (nat \<times> nat \<times> nat \<times> nat) list
    \<Rightarrow> (msr_write list \<times> int) res option" where
  "clock_init features wall_addr vcpu_addr mem rounds =
     (if \<not> kvm_clocksource2 features then Some (Fail Bug_On)
      else case wall_loop mem rounds None of
             None \<Rightarrow> None
           | Some None \<Rightarrow> Some (Fail Undefined)
           | Some (Some (sec, nsec)) \<Rightarrow>
               Some (Ok ((MSR_KVM_WALL_CLOCK_NEW, wall_addr) # setup_system_time vcpu_addr,
                         uint sec * 1000000000 + uint nsec)))"

definition clock_ap_init :: "u64 \<Rightarrow> msr_write list" where "clock_ap_init vcpu_addr = setup_system_time vcpu_addr"

text \<open>The scaling of time stamps: a shift by the width or more is undefined; the assembly takes bits 32
  to 95 of the product.\<close>

definition scale_tsc :: "u64 \<Rightarrow> 8 word \<Rightarrow> u32 \<Rightarrow> u64 res" where
  "scale_tsc time tsc_shift mul =
     bind_res
       (if sint tsc_shift \<ge> 0 then defined (sint tsc_shift < 64) (Ok (push_bit (nat (sint tsc_shift)) time))
        else defined (- sint tsc_shift < 64) (Ok (drop_bit (nat (- sint tsc_shift)) time)))
       (\<lambda>time. Ok (ucast (drop_bit 32 (ucast time * ucast mul :: 128 word))))"

definition clock_time :: "int \<Rightarrow> u64 \<Rightarrow> (nat \<Rightarrow> pvclock) \<Rightarrow> round list \<Rightarrow> int res option" where
  "clock_time boot_time rdtsc mem rounds =
     (case clock_loop mem rounds \<lparr>s_tsc = 0, s_system_time = 0, s_mul = 0, s_shift = 0\<rparr> of
        None \<Rightarrow> None
      | Some l \<Rightarrow> Some (bind_res (scale_tsc (rdtsc - s_tsc l) (s_shift l) (s_mul l))
                    (\<lambda>time. Ok (boot_time + sint (s_system_time l + time)))))"

subsection \<open>The timer\<close>

definition MSR_X2APIC_LVT_TIMER :: u32 where "MSR_X2APIC_LVT_TIMER = 0x832"
definition MSR_X2APIC_INIT_COUNT :: u32 where "MSR_X2APIC_INIT_COUNT = 0x838"
definition MSR_X2APIC_CURRENT_COUNT :: u32 where "MSR_X2APIC_CURRENT_COUNT = 0x839"
definition MSR_X2APIC_DCR :: u32 where "MSR_X2APIC_DCR = 0x83e"

function divide_loop :: "u64 \<Rightarrow> int \<Rightarrow> u64 \<times> int" where
  "divide_loop ticks divider =
     (if ticks > 0xFFFFFFFF then divide_loop (drop_bit 1 ticks) (divider + 1) else (ticks, divider))"
  by pat_completeness auto
termination
proof (relation "measure (\<lambda>(t, d). unat t)")
  fix ticks :: u64 assume "ticks > 0xFFFFFFFF"
  then have "0 < unat ticks" by (simp add: word_less_nat_alt)
  then show "((drop_bit 1 ticks, d + 1), ticks, d) \<in> measure (\<lambda>(t, d). unat t)" for d :: int
    by (simp add: unat_drop_bit_word del: drop_bit_Suc One_nat_def)
qed simp

declare divide_loop.simps [simp del]

definition SetTimer :: "u64 \<Rightarrow> int \<Rightarrow> msr_write list res" where
  "SetTimer ticks_per_us from_now =
     (case divide_loop (of_int from_now * ticks_per_us) (- 1) of (ticks, divider) \<Rightarrow>
        kbugon (divider > 7)
          (let divider_set = (if divider = - 1 then 0xb else of_int divider)
           in Ok [(MSR_X2APIC_DCR, divider_set), (MSR_X2APIC_INIT_COUNT, ticks)]))"

text \<open>The multimap, in order; a new element goes after those with an equal key.\<close>

type_synonym 'f timers = "(int \<times> 'f \<times> int) list"

fun emplace :: "int \<Rightarrow> 'f \<times> int \<Rightarrow> 'f timers \<Rightarrow> 'f timers" where
  "emplace when v [] = [(when, v)]"
| "emplace when v ((w, u) # ts) = (if w \<le> when then (w, u) # emplace when v ts else (when, v) # (w, u) # ts)"

definition timer_Start :: "u64 \<Rightarrow> int \<Rightarrow> int \<Rightarrow> 'f \<Rightarrow> 'f timers \<Rightarrow> (msr_write list \<times> 'f timers) res" where
  "timer_Start ticks_per_us now timeout f ts =
     (let when = now + timeout * 1000
      in bind_res (if ts = [] \<or> fst (hd ts) > when then SetTimer ticks_per_us timeout else Ok [])
           (\<lambda>w. Ok (w, emplace when (f, timeout) ts)))"

text \<open>The loop of the interrupt handler; \<open>readings\<close> are the results of \<open>clock_time\<close>, one after each call
  of a timer's function, \<open>log\<close> the functions called.\<close>

fun timer_loop :: "int list \<Rightarrow> int \<Rightarrow> 'f timers \<Rightarrow> 'f list \<Rightarrow> ('f timers \<times> int \<times> 'f list) option" where
  "timer_loop readings now [] log = Some ([], now, log)"
| "timer_loop readings now ((w, f, timeout) # ts) log =
     (if w \<le> now
      then (case readings of
              [] \<Rightarrow> None
            | now' # readings' \<Rightarrow>
                timer_loop readings' now' (tl (emplace (now + timeout * 1000) (f, timeout) ((w, f, timeout) # ts))) (log @ [f]))
      else Some ((w, f, timeout) # ts, now, log))"

definition timer_interrupt :: "u64 \<Rightarrow> int list \<Rightarrow> 'f timers \<Rightarrow> (msr_write list \<times> 'f timers \<times> 'f list) res option" where
  "timer_interrupt ticks_per_us readings ts =
     (case readings of
        [] \<Rightarrow> None
      | now # readings \<Rightarrow>
          if ts = [] then Some (Fail Assert_Failed)
          else (case timer_loop readings now ts [] of
                  None \<Rightarrow> None
                | Some ([], now', log) \<Rightarrow> Some (Ok ([], [], log))
                | Some (ts', now', log) \<Rightarrow>
                    Some (bind_res (SetTimer ticks_per_us ((fst (hd ts') - now') sdiv 1000)) (\<lambda>w. Ok (w, ts', log)))))"

text \<open>The constructor: the registers written around the calibration, and the ticks per microsecond from
  the count that remains after 10 ms.\<close>

definition ApicTimer_new :: "u8 \<Rightarrow> u64 \<Rightarrow> msr_write list \<times> u64" where
  "ApicTimer_new interrupt remaining =
     ([(MSR_X2APIC_LVT_TIMER, ucast interrupt), (MSR_X2APIC_DCR, 3), (MSR_X2APIC_INIT_COUNT, 0xFFFFFFFF),
       (MSR_X2APIC_INIT_COUNT, 0)],
      let elapsed = 0xFFFFFFFF - (ucast remaining :: u32)
      in ucast (elapsed * 16 div 10000))"

subsection \<open>Lemmas\<close>

definition snapshot :: "pvclock \<Rightarrow> sample" where
  "snapshot v = \<lparr>s_tsc = pv_tsc_timestamp v, s_system_time = pv_system_time v, s_mul = pv_mul v, s_shift = pv_shift v\<rparr>"

text \<open>What the hypervisor documents: the version only grows, and the other fields change only while it is
  odd and stays the same.\<close>

definition hypervisor :: "(nat \<Rightarrow> nat) \<Rightarrow> (nat \<Rightarrow> pvclock) \<Rightarrow> bool" where
  "hypervisor V mem \<longleftrightarrow> (\<forall>t. pv_version (mem t) = of_nat (V t) \<and> V t \<le> V (Suc t)
     \<and> (snapshot (mem (Suc t)) = snapshot (mem t) \<or> odd (V t)))"

lemma hypervisor_mono: "hypervisor V mem \<Longrightarrow> t \<le> u \<Longrightarrow> V t \<le> V u"
  by (rule lift_Suc_mono_le [of V]) (auto simp: hypervisor_def)

lemma hypervisor_stable:
  assumes h: "hypervisor V mem" and "even (V t)" and "V (t + d) = V t"
  shows "snapshot (mem (t + d)) = snapshot (mem t)"
  using assms(3)
proof (induction d)
  case (Suc d)
  have "V t \<le> V (t + d)" "V (t + d) \<le> V (t + Suc d)" by (rule hypervisor_mono [OF h]; simp)+
  then have "V (t + d) = V t" using Suc.prems by simp
  with Suc.IH show ?case using h assms(2) by (simp add: hypervisor_def) (metis)
qed simp

lemma hypervisor_between:
  assumes h: "hypervisor V mem" and "even (V t)" and "V u = V t" and "t \<le> v" "v \<le> u"
  shows "snapshot (mem v) = snapshot (mem t)"
proof -
  have "V v = V t" using hypervisor_mono [OF h assms(4)] hypervisor_mono [OF h assms(5)] assms(3) by simp
  then show ?thesis using hypervisor_stable [OF h assms(2), of "v - t"] assms(4) by simp
qed

lemma version_even: "(of_nat n :: u32) mod 2 = 1 \<longleftrightarrow> odd n"
proof -
  have "((of_nat n :: u32) mod 2 = 0) \<longleftrightarrow> unat ((of_nat n :: u32) mod 2) = 0" by (simp only: unat_eq_zero)
  also have "\<dots> \<longleftrightarrow> n mod 2 ^ 32 mod 2 = 0" by (simp add: unat_mod_distrib unat_of_nat)
  also have "\<dots> \<longleftrightarrow> even n" by (simp add: mod_mod_cancel even_iff_mod_2_eq_zero)
  finally show ?thesis by (metis not_mod_2_eq_0_eq_1)
qed

lemma version_equal:
  assumes "(of_nat m :: u32) = of_nat n" and "m \<le> n" and "n < m + 2 ^ 32"
  shows "m = n"
proof -
  have "(of_nat (n - m) :: u32) = 0" using assms(1,2) by (simp add: of_nat_diff)
  then have "unat (of_nat (n - m) :: u32) = 0" by simp
  then have "(n - m) mod 2 ^ 32 = 0" by (simp add: unat_of_nat)
  moreover have "n - m < 2 ^ 32" using assms(2,3) by linarith
  ultimately show ?thesis using assms(2) by simp
qed

text \<open>The decoding of the divide configuration register: the exponent of the divisor; bit 2 is reserved.\<close>

definition apic_divide :: "u64 \<Rightarrow> nat option" where
  "apic_divide d = (if bit d 2 \<or> d > 0xb then None
     else if d = 0xb then Some 0 else Some (1 + unat (d AND 3) + (if bit d 3 then 4 else 0)))"

lemma divide_loop_spec:
  "\<exists>k. divide_loop t d = (drop_bit k t, d + int k) \<and> unat t div 2 ^ k < 2 ^ 32 \<and> (k = 0 \<or> 2 ^ 32 \<le> unat t div 2 ^ (k - 1))"
proof (induction t d rule: divide_loop.induct)
  case (1 t d)
  show ?case
  proof (cases "t > 0xFFFFFFFF")
    case False
    then have "unat t < 2 ^ 32" by (simp add: word_less_nat_alt)
    then show ?thesis using False by (subst divide_loop.simps) (intro exI [of _ 0], simp)
  next
    case True
    then have big: "2 ^ 32 \<le> unat t" by (simp add: word_less_nat_alt)
    obtain k where k: "divide_loop (drop_bit 1 t) (d + 1) = (drop_bit k (drop_bit 1 t), d + 1 + int k)"
      "unat (drop_bit 1 t) div 2 ^ k < 2 ^ 32" "k = 0 \<or> 2 ^ 32 \<le> unat (drop_bit 1 t) div 2 ^ (k - 1)"
      using 1 [OF True] by blast
    have div: "unat (drop_bit 1 t) div 2 ^ j = unat t div 2 ^ Suc j" for j
      by (simp only: unat_drop_bit_word power_Suc power_0 power_one_right mult_1_right div_mult2_eq)
    have "drop_bit k (drop_bit 1 t) = drop_bit (Suc k) t" by (simp only: drop_bit_drop_bit add_Suc_right One_nat_def) simp
    then have "divide_loop t d = (drop_bit (Suc k) t, d + int (Suc k))"
      using True k(1) by (subst divide_loop.simps) (simp del: drop_bit_Suc)
    moreover have "unat t div 2 ^ Suc k < 2 ^ 32" using k(2) unfolding div .
    moreover have "2 ^ 32 \<le> unat t div 2 ^ k"
    proof (cases k)
      case (Suc j)
      then show ?thesis using k(3) unfolding div by simp
    qed (use big in simp)
    ultimately show ?thesis by (intro exI [of _ "Suc k"]) simp
  qed
qed

lemma divide_bounds:
  assumes "(T :: nat) div 2 ^ k < 2 ^ 32" and "k = 0 \<or> 2 ^ 32 \<le> T div 2 ^ (k - 1)"
  shows "T < 2 ^ (32 + k)" and "k = 0 \<or> 2 ^ (31 + k) \<le> T"
proof -
  show "T < 2 ^ (32 + k)" using assms(1) by (simp add: div_less_iff_less_mult power_add)
  show "k = 0 \<or> 2 ^ (31 + k) \<le> T"
  proof (cases k)
    case (Suc j)
    then have "2 ^ 32 \<le> T div 2 ^ j" using assms(2) by simp
    then have "2 ^ 32 * 2 ^ j \<le> T" by (simp add: less_eq_div_iff_mult_less_eq)
    then show ?thesis using Suc by (simp add: power_add)
  qed simp
qed

lemma divide_exponent:
  assumes "(T :: nat) < 2 ^ (32 + k)" and "k = 0 \<or> 2 ^ (31 + k) \<le> T"
  shows "k \<le> 4 \<longleftrightarrow> T < 2 ^ 36" and "k \<le> 8 \<longleftrightarrow> T < 2 ^ 40"
proof -
  have up: "T < 2 ^ j" if "32 + k \<le> j" for j
    by (rule less_le_trans [OF assms(1) power_increasing [OF that]]) simp
  have down: "2 ^ j \<le> T" if "k \<noteq> 0" "j \<le> 31 + k" for j
    by (rule order_trans [OF power_increasing [OF that(2)]]) (use assms(2) that(1) in simp_all)
  show "k \<le> 4 \<longleftrightarrow> T < 2 ^ 36" using up [of 36] down [of 36] by force
  show "k \<le> 8 \<longleftrightarrow> T < 2 ^ 40" using up [of 40] down [of 40] by force
qed

lemma apic_divide_divider:
  "k \<le> 8 \<Longrightarrow> apic_divide (if int k - 1 = - 1 then 0xb else of_int (int k - 1)) = (if k \<le> 4 then Some k else None)"
proof -
  assume "k \<le> 8"
  then have "k = 0 \<or> k = 1 \<or> k = 2 \<or> k = 3 \<or> k = 4 \<or> k = 5 \<or> k = 6 \<or> k = 7 \<or> k = 8" by arith
  then show ?thesis by (elim disjE) (simp_all add: apic_divide_def)
qed

lemma emplace_mset: "image_mset snd (mset (emplace when v ts)) = add_mset v (image_mset snd (mset ts))"
  by (induction ts) auto

lemma emplace_set: "set (emplace when v ts) = insert (when, v) (set ts)"
  by (induction "when" v ts rule: emplace.induct) (simp_all add: insert_commute)

lemma emplace_sorted: "sorted (map fst ts) \<Longrightarrow> sorted (map fst (emplace when v ts))"
  by (induction "when" v ts rule: emplace.induct) (auto simp: emplace_set intro: order_trans less_imp_le)

lemma emplace_tail: "w \<le> when \<Longrightarrow> tl (emplace when v ((w, u) # ts)) = emplace when v ts"
  by simp

lemma emplace_filter: "L < when \<Longrightarrow> filter (\<lambda>e. fst e \<le> L) (emplace when v ts) = filter (\<lambda>e. fst e \<le> L) ts"
  by (induction ts) auto

lemma emplace_takeWhile:
  "sorted (map fst ts) \<Longrightarrow> b < when \<Longrightarrow> takeWhile (\<lambda>e. fst e \<le> b) (emplace when v ts) = takeWhile (\<lambda>e. fst e \<le> b) ts"
  by (induction ts) auto

text \<open>While no reading reaches the time \<open>L\<close>, and every timer that is added again is due after it, the loop
  runs each timer at most once.\<close>

lemma timer_loop_correct:
  assumes "sorted (map fst ts)" and "sorted (now # readings)" and "\<forall>r\<in>set (now # readings). r \<le> L"
    and "\<forall>e\<in>set ts. L < now + snd (snd e) * 1000"
    and "length (filter (\<lambda>e. fst e \<le> L) ts) \<le> length readings"
  shows "\<exists>ts' now' log'. timer_loop readings now ts log = Some (ts', now', log @ log') \<and> now' \<in> set (now # readings)
    \<and> sorted (map fst ts') \<and> mset (map snd ts') = mset (map snd ts) \<and> (\<forall>e\<in>set ts'. now' < fst e)
    \<and> log' = map (\<lambda>e. fst (snd e)) (takeWhile (\<lambda>e. fst e \<le> now') ts)"
  using assms
proof (induction readings now ts log rule: timer_loop.induct)
  case (1 readings now log)
  then show ?case by simp
next
  case (2 readings now w f timeout ts log)
  show ?case
  proof (cases "w \<le> now")
    case False
    then show ?thesis using "2.prems"(1) by fastforce
  next
    case True
    have "now \<le> L" using "2.prems"(3) by simp
    then have "length (filter (\<lambda>e. fst e \<le> L) ts) < length readings" using True "2.prems"(5) by simp
    then obtain now' readings' where r: "readings = now' # readings'" by (cases readings) auto
    have later: "L < now + timeout * 1000" using "2.prems"(4) by simp
    let ?ts = "emplace (now + timeout * 1000) (f, timeout) ts"
    have tl: "tl (emplace (now + timeout * 1000) (f, timeout) ((w, f, timeout) # ts)) = ?ts"
      by (rule emplace_tail) (use True later \<open>now \<le> L\<close> in simp)
    have p: "sorted (map fst ?ts)" "sorted (now' # readings')" "\<forall>r\<in>set (now' # readings'). r \<le> L"
      "\<forall>e\<in>set ?ts. L < now' + snd (snd e) * 1000" "length (filter (\<lambda>e. fst e \<le> L) ?ts) \<le> length readings'"
      using "2.prems" later True \<open>now \<le> L\<close>
      by (auto simp: r emplace_sorted emplace_set emplace_filter intro: less_le_trans)
    obtain ts' u log' where i: "timer_loop readings' now' ?ts (log @ [f]) = Some (ts', u, (log @ [f]) @ log')"
      "u \<in> set (now' # readings')" "sorted (map fst ts')" "mset (map snd ts') = mset (map snd ?ts)"
      "\<forall>e\<in>set ts'. u < fst e" "log' = map (\<lambda>e. fst (snd e)) (takeWhile (\<lambda>e. fst e \<le> u) ?ts)"
      using "2.IH" [OF True r] p unfolding tl by blast
    have "now \<le> u" "u \<le> L" using i(2) "2.prems"(2,3) by (auto simp: r)
    have "log' = map (\<lambda>e. fst (snd e)) (takeWhile (\<lambda>e. fst e \<le> u) ts)"
      unfolding i(6) using "2.prems"(1) later \<open>u \<le> L\<close> by (subst emplace_takeWhile) auto
    then show ?thesis using True i(1-5) tl \<open>now \<le> u\<close>
      by (intro exI [of _ ts'] exI [of _ u] exI [of _ "f # log'"]) (simp add: r emplace_mset)
  qed
qed

subsection \<open>Properties\<close>

text \<open>The times of a round, read by the properties: the version of its first and of its last load, and
  what the loads between them give.\<close>

definition first_version :: "(nat \<Rightarrow> pvclock) \<Rightarrow> round \<Rightarrow> u32" where
  "first_version mem = (\<lambda>(t0, t1, t2, t3, t4, t5). pv_version (mem t0))"

definition last_version :: "(nat \<Rightarrow> pvclock) \<Rightarrow> round \<Rightarrow> u32" where
  "last_version mem = (\<lambda>(t0, t1, t2, t3, t4, t5). pv_version (mem t5))"

definition fields_loaded :: "(nat \<Rightarrow> pvclock) \<Rightarrow> round \<Rightarrow> sample" where
  "fields_loaded mem = (\<lambda>(t0, t1, t2, t3, t4, t5).
     \<lparr>s_tsc = pv_tsc_timestamp (mem t1), s_system_time = pv_system_time (mem t2),
      s_mul = pv_mul (mem t3), s_shift = pv_shift (mem t4)\<rparr>)"

text \<open>What the variables hold after some rounds: the loads of the last round that saw an even version,
  or their initial zeros when there was none.\<close>

definition left_over :: "(nat \<Rightarrow> pvclock) \<Rightarrow> round list \<Rightarrow> sample \<Rightarrow> sample" where
  "left_over mem rounds locals =
     (case filter (\<lambda>r. first_version mem r mod 2 = 0) rounds of
        [] \<Rightarrow> locals | r # rs \<Rightarrow> fields_loaded mem (last (r # rs)))"

lemma left_over_Cons:
  "left_over mem (r # rounds) locals =
    left_over mem rounds (if first_version mem r mod 2 \<noteq> 0 then locals else fields_loaded mem r)"
  by (simp add: left_over_def split: list.splits)

lemma clock_loop_rounds:
  assumes "\<And>r. r \<in> set pre \<Longrightarrow> first_version mem r \<noteq> last_version mem r"
  shows "clock_loop mem (pre @ rounds) locals = clock_loop mem rounds (left_over mem pre locals)"
  using assms
proof (induction pre arbitrary: locals)
  case Nil
  show ?case by (simp add: left_over_def)
next
  case (Cons r pre)
  obtain t0 t1 t2 t3 t4 t5 where r: "r = (t0, t1, t2, t3, t4, t5)" by (cases r)
  have "pv_version (mem t0) \<noteq> pv_version (mem t5)"
    using Cons.prems [of r] by (simp add: r first_version_def last_version_def)
  moreover have "clock_loop mem (pre @ rounds) l = clock_loop mem rounds (left_over mem pre l)" for l
    using Cons.IH Cons.prems by simp
  ultimately show ?case
    by (simp add: left_over_Cons) (simp add: r first_version_def fields_loaded_def Let_def)
qed

text \<open>The value returned for the values \<open>l\<close> of the variables.\<close>

definition clock_reading :: "int \<Rightarrow> u64 \<Rightarrow> sample \<Rightarrow> int res" where
  "clock_reading boot now l =
     bind_res (scale_tsc (now - s_tsc l) (s_shift l) (s_mul l)) (\<lambda>time. Ok (boot + sint (s_system_time l + time)))"

lemma clock_reading_zero: "clock_reading boot now \<lparr>s_tsc = 0, s_system_time = 0, s_mul = 0, s_shift = 0\<rparr> = Ok boot"
  by (simp add: clock_reading_def scale_tsc_def)

text \<open>C38: Reading the clock while the hypervisor may update it, over any number of rounds: the rounds
  \<open>pre\<close> saw the version change and the last one did not.  When the last round saw an even version, all
  fields come from the one state at its start.  When it saw an odd version (an update in progress) the
  loop ends all the same, because \<open>continue\<close> tests the condition, and the variables still hold what
  an earlier round left there: nothing but their initial zeros if all saw odd versions, and then the
  boot time is returned; otherwise the fields of the last round that saw an even version, although the
  version changed during that round, so that they may be a mixture of two states.\<close>

theorem clock_time_during_update:
  assumes "hypervisor V mem"
    and "\<And>r. r \<in> set pre \<Longrightarrow> first_version mem r \<noteq> last_version mem r"
    and "t0 \<le> t1" "t1 \<le> t5" "t0 \<le> t2" "t2 \<le> t5" "t0 \<le> t3" "t3 \<le> t5" "t0 \<le> t4" "t4 \<le> t5"
    and "V t5 < V t0 + 2 ^ 32" and "pv_version (mem t0) = pv_version (mem t5)"
  shows "clock_time boot now mem (pre @ [(t0, t1, t2, t3, t4, t5)]) = Some
    (if even (V t0) then clock_reading boot now (snapshot (mem t0))
     else case filter (\<lambda>r. first_version mem r mod 2 = 0) pre of
            [] \<Rightarrow> Ok boot
          | r # rs \<Rightarrow> clock_reading boot now (fields_loaded mem (last (r # rs))))"
proof -
  have v: "pv_version (mem t) = of_nat (V t)" for t using assms(1) by (simp add: hypervisor_def)
  have "t0 \<le> t5" using assms(3,4) by simp
  then have same: "V t5 = V t0"
    using version_equal [of "V t0" "V t5"] assms(11,12) hypervisor_mono [OF assms(1)] unfolding v by simp
  note rounds = clock_loop_rounds [where pre = pre, OF assms(2)]
  show ?thesis
  proof (cases "even (V t0)")
    case True
    note b = hypervisor_between [OF assms(1) True same]
    have "snapshot (mem t1) = snapshot (mem t0)" "snapshot (mem t2) = snapshot (mem t0)"
      "snapshot (mem t3) = snapshot (mem t0)" "snapshot (mem t4) = snapshot (mem t0)"
      by (rule b; fact assms)+
    then have "\<lparr>s_tsc = pv_tsc_timestamp (mem t1), s_system_time = pv_system_time (mem t2), s_mul = pv_mul (mem t3),
        s_shift = pv_shift (mem t4)\<rparr> = snapshot (mem t0)" by (simp add: snapshot_def)
    then show ?thesis using True same
      by (simp add: clock_time_def rounds v version_even Let_def clock_reading_def)
  next
    case False
    then have "clock_time boot now mem (pre @ [(t0, t1, t2, t3, t4, t5)]) =
        Some (clock_reading boot now (left_over mem pre \<lparr>s_tsc = 0, s_system_time = 0, s_mul = 0, s_shift = 0\<rparr>))"
      using same by (simp add: clock_time_def rounds v version_even Let_def clock_reading_def)
    then show ?thesis using False by (simp add: left_over_def clock_reading_zero split: list.splits)
  qed
qed

text \<open>A mixture: the round loads the time stamp 100 before the update and the time 1000 after it.\<close>

theorem clock_time_during_update_witness:
  "clock_time 0 300
     (\<lambda>t. if t = 0
          then \<lparr>pv_version = 2, pv_tsc_timestamp = 100, pv_system_time = 0, pv_mul = 2147483648, pv_shift = 1\<rparr>
          else if t = 1
          then \<lparr>pv_version = 3, pv_tsc_timestamp = 100, pv_system_time = 0, pv_mul = 2147483648, pv_shift = 1\<rparr>
          else \<lparr>pv_version = 3, pv_tsc_timestamp = 200, pv_system_time = 1000, pv_mul = 2147483648, pv_shift = 1\<rparr>)
     [(0, 1, 2, 3, 4, 5), (6, 7, 8, 9, 10, 11)] = Some (Ok 1200)"
proof -
  let ?V = "\<lambda>t :: nat. if t = 0 then 2 else 3 :: nat"
  let ?m = "\<lambda>t :: nat. if t = 0
    then \<lparr>pv_version = 2, pv_tsc_timestamp = 100, pv_system_time = 0, pv_mul = 2147483648, pv_shift = 1\<rparr>
    else if t = 1
    then \<lparr>pv_version = 3, pv_tsc_timestamp = 100, pv_system_time = 0, pv_mul = 2147483648, pv_shift = 1\<rparr>
    else \<lparr>pv_version = 3, pv_tsc_timestamp = 200, pv_system_time = 1000, pv_mul = 2147483648, pv_shift = 1\<rparr>"
  have "hypervisor ?V ?m" by (simp add: hypervisor_def snapshot_def)
  from clock_time_during_update [OF this, of "[(0, 1, 2, 3, 4, 5)]" 6 7 11 8 9 10 0 300] show ?thesis
    by (simp add: first_version_def last_version_def fields_loaded_def clock_reading_def scale_tsc_def)
qed

text \<open>Arming the timer for a time of \<open>T\<close> ticks: below \<open>2\<^sup>3\<^sup>6\<close> ticks the count and the divider written
  give a period within one divider step of \<open>T\<close>; from \<open>2\<^sup>3\<^sup>6\<close> to \<open>2\<^sup>4\<^sup>0\<close> the value written to the divide
  register has a reserved bit set, although the processor can divide by 128; above, the kernel stops.\<close>

theorem SetTimer_period:
  assumes "T = unat ticks_per_us * n" and "T < 2 ^ 64"
  shows "if T < 2 ^ 36
     then \<exists>d c k. SetTimer ticks_per_us (int n) = Ok [(MSR_X2APIC_DCR, d), (MSR_X2APIC_INIT_COUNT, c)]
       \<and> apic_divide d = Some k \<and> unat c < 2 ^ 32 \<and> unat c * 2 ^ k \<le> T \<and> T < (unat c + 1) * 2 ^ k
     else if T < 2 ^ 40
     then \<exists>d c. SetTimer ticks_per_us (int n) = Ok [(MSR_X2APIC_DCR, d), (MSR_X2APIC_INIT_COUNT, c)] \<and> apic_divide d = None
     else SetTimer ticks_per_us (int n) = Fail Bug_On"
proof -
  define t where "t = of_int (int n) * ticks_per_us"
  have "unat t = T" using assms by (simp add: t_def unat_word_ariths unat_of_nat mod_mult_left_eq mod_mult_right_eq mult.commute)
  then obtain k where k: "divide_loop t (- 1) = (drop_bit k t, int k - 1)"
    and b: "T div 2 ^ k < 2 ^ 32" "k = 0 \<or> 2 ^ 32 \<le> T div 2 ^ (k - 1)"
    using divide_loop_spec [of t "- 1"] by auto
  have c: "unat (drop_bit k t) = T div 2 ^ k" using \<open>unat t = T\<close> by (simp only: unat_drop_bit_word)
  have "T < (T div 2 ^ k + 1) * 2 ^ k" using dividend_less_div_times [of "2 ^ k" T] by simp
  then have period: "unat (drop_bit k t) * 2 ^ k \<le> T \<and> T < (unat (drop_bit k t) + 1) * 2 ^ k"
    unfolding c by simp
  note e = divide_exponent [OF divide_bounds [OF b]]
  have S: "SetTimer ticks_per_us (int n) = kbugon (8 < k)
      (Ok [(MSR_X2APIC_DCR, if int k - 1 = - 1 then 0xb else of_int (int k - 1)), (MSR_X2APIC_INIT_COUNT, drop_bit k t)])"
    unfolding SetTimer_def t_def [symmetric] k by (simp add: Let_def kbugon_def)
  show ?thesis
  proof (cases "k \<le> 8")
    case True
    note a = apic_divide_divider [OF True]
    have "(T < 2 ^ 40) = True" using e True by simp
    moreover have "SetTimer ticks_per_us (int n) =
        Ok [(MSR_X2APIC_DCR, if int k - 1 = - 1 then 0xb else of_int (int k - 1)), (MSR_X2APIC_INIT_COUNT, drop_bit k t)]"
      using S True by (simp add: kbugon_def)
    moreover have "unat (drop_bit k t) < 2 ^ 32" using b(1) c by simp
    ultimately show ?thesis using a period e(1) by (simp del: power_numeral)
  next
    case False
    then show ?thesis using e S by (simp add: kbugon_def)
  qed
qed

theorem SetTimer_period_witness:
  "\<exists>d c. SetTimer 1000 (int 200000000) = Ok [(MSR_X2APIC_DCR, d), (MSR_X2APIC_INIT_COUNT, c)] \<and> apic_divide d = None"
  using SetTimer_period [of 200000000000 1000 200000000] by simp

text \<open>C29: The handler of the timer interrupt: for a clock that does not go back, and timers that are not due
  again before the handler ends, the handler returns; it has run exactly the timers due at its last
  reading of the clock, in the order of their times; no timer is lost, every one left is due later and
  the queue is in order; the hardware timer is set for the first of them.\<close>

theorem timer_interrupt_correct:
  assumes "ts \<noteq> []" and "sorted (map fst ts)" and "sorted (now # readings)" and "\<forall>r\<in>set (now # readings). r \<le> L"
    and "\<forall>e\<in>set ts. L < now + snd (snd e) * 1000" and "length ts \<le> length readings"
  shows "\<exists>ts' now'. timer_interrupt ticks_per_us (now # readings) ts =
        Some (bind_res (SetTimer ticks_per_us ((fst (hd ts') - now') sdiv 1000))
          (\<lambda>w. Ok (w, ts', map (\<lambda>e. fst (snd e)) (takeWhile (\<lambda>e. fst e \<le> now') ts))))
    \<and> now' \<in> set (now # readings) \<and> sorted (map fst ts') \<and> mset (map snd ts') = mset (map snd ts)
    \<and> (\<forall>e\<in>set ts'. now' < fst e)"
proof -
  have "length (filter (\<lambda>e. fst e \<le> L) ts) \<le> length readings" using assms(6) length_filter_le le_trans by blast
  then obtain ts' now' where t: "timer_loop readings now ts [] =
      Some (ts', now', map (\<lambda>e. fst (snd e)) (takeWhile (\<lambda>e. fst e \<le> now') ts))"
    and r: "now' \<in> set (now # readings)" "sorted (map fst ts')" "mset (map snd ts') = mset (map snd ts)" "\<forall>e\<in>set ts'. now' < fst e"
    using timer_loop_correct [OF assms(2-5), of "[]"] by auto
  have "ts' \<noteq> []" using r(3) assms(1) by auto
  then obtain e es where "ts' = e # es" by (cases ts') auto
  with r t assms(1) show ?thesis by (intro exI [of _ ts'] exI [of _ now']) (simp add: timer_interrupt_def)
qed

theorem timer_interrupt_correct_witness:
  "\<exists>ts' now'. timer_interrupt 1000 [2000, 3000, 4000] [(1500, ''net'', 500), (1000000, ''tcp'', 1000)] =
        Some (bind_res (SetTimer 1000 ((fst (hd ts') - now') sdiv 1000))
          (\<lambda>w. Ok (w, ts', map (\<lambda>e. fst (snd e)) (takeWhile (\<lambda>e. fst e \<le> now') [(1500, ''net'', 500 :: int), (1000000, ''tcp'', 1000)]))))
    \<and> now' \<in> set [2000, 3000, 4000] \<and> sorted (map fst ts') \<and> mset (map snd ts') = mset (map snd [(1500 :: int, ''net'', 500 :: int), (1000000, ''tcp'', 1000)])
    \<and> (\<forall>e\<in>set ts'. now' < fst e)"
  by (rule timer_interrupt_correct [where L = 4000]) simp_all

text \<open>A timer due less than a microsecond after the handler's last reading of the clock is armed with a count
  of zero, which stops the hardware timer; and while this timer stays first in the queue, starting a
  later one does not arm the hardware again.\<close>

theorem timer_stall:
  assumes "now < when" and "when < now + 1000" and "when \<le> now' + timeout' * 1000"
  shows "timer_interrupt ticks_per_us [now] [(when, f, timeout)] =
      Some (Ok ([(MSR_X2APIC_DCR, 0xb), (MSR_X2APIC_INIT_COUNT, 0)], [(when, f, timeout)], []))
    \<and> (\<exists>ts. timer_Start ticks_per_us now' timeout' g [(when, f, timeout)] = Ok ([], ts))"
proof -
  have "(when - now) sdiv 1000 = 0" using assms(1,2) by (simp add: signed_divide_int_def)
  then show ?thesis using assms by (simp add: timer_interrupt_def SetTimer_def divide_loop.simps kbugon_def timer_Start_def)
qed

theorem timer_stall_witness:
  "timer_interrupt 1000 [5000] [(5500, ''tcp'', 250)] =
      Some (Ok ([(MSR_X2APIC_DCR, 0xb), (MSR_X2APIC_INIT_COUNT, 0)], [(5500, ''tcp'', 250)], []))
    \<and> (\<exists>ts. timer_Start 1000 6000 100 ''arp'' [(5500, ''tcp'', 250)] = Ok ([], ts))"
  by (rule timer_stall) simp_all

end
