(* ===== verification/Pci.thy ===== *)
theory Pci
  imports VMem VMem_Allocator
begin

text \<open>
  \<open>sys/pci.hpp\<close>, \<open>sys/pci.cpp\<close>: configuration space, enumeration of the buses, base address registers
  and MSI-X.  The hardware is a parameter: its state \<open>'h\<close> and what the port and memory accesses of
  \<open>sys/io.hpp\<close> do to it.
\<close>

subsection \<open>Access to the hardware\<close>

record 'h hardware =
  in8 :: "u16 \<Rightarrow> 'h \<Rightarrow> u8 \<times> 'h"
  in16 :: "u16 \<Rightarrow> 'h \<Rightarrow> u16 \<times> 'h"
  in32 :: "u16 \<Rightarrow> 'h \<Rightarrow> u32 \<times> 'h"
  out8 :: "u16 \<Rightarrow> u8 \<Rightarrow> 'h \<Rightarrow> 'h"
  out16 :: "u16 \<Rightarrow> u16 \<Rightarrow> 'h \<Rightarrow> 'h"
  out32 :: "u16 \<Rightarrow> u32 \<Rightarrow> 'h \<Rightarrow> 'h"
  load8 :: "u64 \<Rightarrow> 'h \<Rightarrow> u8 \<times> 'h"
  load16 :: "u64 \<Rightarrow> 'h \<Rightarrow> u16 \<times> 'h"
  load32 :: "u64 \<Rightarrow> 'h \<Rightarrow> u32 \<times> 'h"
  store8 :: "u64 \<Rightarrow> u8 \<Rightarrow> 'h \<Rightarrow> 'h"
  store16 :: "u64 \<Rightarrow> u16 \<Rightarrow> 'h \<Rightarrow> 'h"
  store32 :: "u64 \<Rightarrow> u32 \<Rightarrow> 'h \<Rightarrow> 'h"

text \<open>Sequencing of accesses.\<close>

type_synonym ('h, 'a) io = "'h \<Rightarrow> 'a \<times> 'h"

definition io_bind :: "('h, 'a) io \<Rightarrow> ('a \<Rightarrow> ('h, 'b) io) \<Rightarrow> ('h, 'b) io" where
  "io_bind m f h = (case m h of (x, h') \<Rightarrow> f x h')"

definition io_return :: "'a \<Rightarrow> ('h, 'a) io" where "io_return x h = (x, h)"

definition io_do :: "('h \<Rightarrow> 'h) \<Rightarrow> ('h, unit) io" where "io_do f h = ((), f h)"

subsection \<open>Configuration space\<close>

definition PCI_ADDRESS_PORT :: u16 where "PCI_ADDRESS_PORT = 0xCF8"
definition PCI_DATA_PORT :: u16 where "PCI_DATA_PORT = 0xCFC"
definition PCI_ADDRESS_ENABLE :: u32 where "PCI_ADDRESS_ENABLE = 0x80000000"
definition PCI_BUS_OFFSET :: nat where "PCI_BUS_OFFSET = 16"
definition PCI_DEVICE_OFFSET :: nat where "PCI_DEVICE_OFFSET = 11"
definition PCI_FUNC_OFFSET :: nat where "PCI_FUNC_OFFSET = 8"

record pci_function =
  pf_bus :: u8
  pf_device :: u8
  pf_func :: u8

definition pci_address :: "pci_function \<Rightarrow> u8 \<Rightarrow> u32" where
  "pci_address f offset = PCI_ADDRESS_ENABLE OR push_bit PCI_BUS_OFFSET (ucast (pf_bus f))
     OR push_bit PCI_DEVICE_OFFSET (ucast (pf_device f)) OR push_bit PCI_FUNC_OFFSET (ucast (pf_func f)) OR ucast offset"

definition pci_set_addr :: "'h hardware \<Rightarrow> pci_function \<Rightarrow> u8 \<Rightarrow> ('h, unit) io" where
  "pci_set_addr hw f offset = io_do (out32 hw PCI_ADDRESS_PORT (pci_address f offset))"

definition pci_read_8 :: "'h hardware \<Rightarrow> pci_function \<Rightarrow> u8 \<Rightarrow> ('h, u8) io" where
  "pci_read_8 hw f offset = io_bind (pci_set_addr hw f offset) (\<lambda>_. in8 hw (PCI_DATA_PORT + (ucast offset AND 3)))"

definition pci_read_16 :: "'h hardware \<Rightarrow> pci_function \<Rightarrow> u8 \<Rightarrow> ('h, u16) io" where
  "pci_read_16 hw f offset = io_bind (pci_set_addr hw f offset) (\<lambda>_. in16 hw PCI_DATA_PORT)"

definition pci_read_32 :: "'h hardware \<Rightarrow> pci_function \<Rightarrow> u8 \<Rightarrow> ('h, u32) io" where
  "pci_read_32 hw f offset = io_bind (pci_set_addr hw f offset) (\<lambda>_. in32 hw PCI_DATA_PORT)"

definition pci_write_16 :: "'h hardware \<Rightarrow> pci_function \<Rightarrow> u8 \<Rightarrow> u16 \<Rightarrow> ('h, unit) io" where
  "pci_write_16 hw f offset val = io_bind (pci_set_addr hw f offset) (\<lambda>_. io_do (out16 hw PCI_DATA_PORT val))"

definition pci_write_32 :: "'h hardware \<Rightarrow> pci_function \<Rightarrow> u8 \<Rightarrow> u32 \<Rightarrow> ('h, unit) io" where
  "pci_write_32 hw f offset val = io_bind (pci_set_addr hw f offset) (\<lambda>_. io_do (out32 hw PCI_DATA_PORT val))"

definition VENDOR_ID_ADDR :: u8 where "VENDOR_ID_ADDR = 0x00"
definition DEVICE_ID_ADDR :: u8 where "DEVICE_ID_ADDR = 0x02"
definition COMMAND_ADDR :: u8 where "COMMAND_ADDR = 0x04"
definition HEADER_TYPE_ADDR :: u8 where "HEADER_TYPE_ADDR = 0x0E"
definition COMMAND_BUS_MASTER :: u16 where "COMMAND_BUS_MASTER = push_bit 2 1"
definition COMMAND_INT_DISABLE :: u16 where "COMMAND_INT_DISABLE = push_bit 10 1"
definition HEADER_MULTIFUNC_MASK :: u8 where "HEADER_MULTIFUNC_MASK = 0x80"
definition HEADER_TYPE_BRIDGE :: u8 where "HEADER_TYPE_BRIDGE = 0x01"

definition get_vendor_id :: "'h hardware \<Rightarrow> pci_function \<Rightarrow> ('h, u16) io" where
  "get_vendor_id hw f = pci_read_16 hw f VENDOR_ID_ADDR"

definition get_device_id :: "'h hardware \<Rightarrow> pci_function \<Rightarrow> ('h, u16) io" where
  "get_device_id hw f = pci_read_16 hw f DEVICE_ID_ADDR"

definition get_command :: "'h hardware \<Rightarrow> pci_function \<Rightarrow> ('h, u16) io" where
  "get_command hw f = pci_read_16 hw f COMMAND_ADDR"

definition get_header_type :: "'h hardware \<Rightarrow> pci_function \<Rightarrow> ('h, u8) io" where
  "get_header_type hw f = io_bind (pci_read_8 hw f HEADER_TYPE_ADDR) (\<lambda>v. io_return (v AND NOT HEADER_MULTIFUNC_MASK))"

text \<open>\<open>operator bool\<close>: true when there is no such function.\<close>

definition pci_function_bool :: "'h hardware \<Rightarrow> pci_function \<Rightarrow> ('h, bool) io" where
  "pci_function_bool hw f = io_bind (get_vendor_id hw f) (\<lambda>v. io_return (v = 0xffff))"

definition is_multifunc :: "'h hardware \<Rightarrow> pci_function \<Rightarrow> ('h, bool) io" where
  "is_multifunc hw f = io_bind (pci_read_8 hw f HEADER_TYPE_ADDR) (\<lambda>v. io_return (v AND HEADER_MULTIFUNC_MASK \<noteq> 0))"

definition is_bridge :: "'h hardware \<Rightarrow> pci_function \<Rightarrow> ('h, bool) io" where
  "is_bridge hw f = io_bind (get_header_type hw f) (\<lambda>v. io_return (v = HEADER_TYPE_BRIDGE))"

definition set_command :: "'h hardware \<Rightarrow> pci_function \<Rightarrow> u16 \<Rightarrow> ('h, unit) io" where
  "set_command hw f cmd = pci_write_16 hw f COMMAND_ADDR cmd"

definition set_bus_master :: "'h hardware \<Rightarrow> pci_function \<Rightarrow> bool \<Rightarrow> ('h, unit) io" where
  "set_bus_master hw f enable = io_bind (get_command hw f) (\<lambda>cmd.
     set_command hw f (if enable then cmd OR COMMAND_BUS_MASTER else cmd AND NOT COMMAND_BUS_MASTER))"

definition disable_int :: "'h hardware \<Rightarrow> pci_function \<Rightarrow> ('h, unit) io" where
  "disable_int hw f = io_bind (get_command hw f) (\<lambda>cmd. set_command hw f (cmd OR COMMAND_INT_DISABLE))"

subsection \<open>Base address registers\<close>

definition BAR0_ADDR :: u8 where "BAR0_ADDR = 0x10"
definition BAR_ADDR :: "u8 \<Rightarrow> u8" where "BAR_ADDR idx = BAR0_ADDR + idx * 4"
definition BAR_IO_SPACE_FLAG :: u32 where "BAR_IO_SPACE_FLAG = 0x1"
definition BAR_IO_SPACE_MASK :: u32 where "BAR_IO_SPACE_MASK = NOT 0x3"
definition BAR_MMIO_TYPE_MASK :: u32 where "BAR_MMIO_TYPE_MASK = 0x6"
definition BAR_MMIO_TYPE_64 :: u32 where "BAR_MMIO_TYPE_64 = 0x4"
definition BAR_MMIO_PREFETCHABLE_MASK :: u32 where "BAR_MMIO_PREFETCHABLE_MASK = 0x8"
definition BAR_MMIO_MASK :: u32 where "BAR_MMIO_MASK = NOT 0xf"

record pci_bar =
  pb_addr :: u64
  pb_size :: u64
  pb_vaddr :: u64
  pb_mmio :: bool
  pb_is_64 :: bool
  pb_prefetchable :: bool

definition get_bar_raw :: "'h hardware \<Rightarrow> pci_function \<Rightarrow> u8 \<Rightarrow> ('h, u32) io" where
  "get_bar_raw hw f idx = pci_read_32 hw f (BAR_ADDR idx)"

definition set_bar_raw :: "'h hardware \<Rightarrow> pci_function \<Rightarrow> u8 \<Rightarrow> u32 \<Rightarrow> ('h, unit) io" where
  "set_bar_raw hw f idx val = pci_write_32 hw f (BAR_ADDR idx) val"

text \<open>Writing ones to a register, reading it back and restoring it.\<close>

definition probe_bar :: "'h hardware \<Rightarrow> pci_function \<Rightarrow> u8 \<Rightarrow> u32 \<Rightarrow> ('h, u32) io" where
  "probe_bar hw f idx val = io_bind (set_bar_raw hw f idx 0xffffffff) (\<lambda>_. io_bind (get_bar_raw hw f idx)
     (\<lambda>v. io_bind (set_bar_raw hw f idx val) (\<lambda>_. io_return v)))"

definition pci_bar_new :: "'h hardware \<Rightarrow> pci_function \<Rightarrow> u32 \<Rightarrow> u8 \<Rightarrow> ('h, pci_bar) io" where
  "pci_bar_new hw f bar_val idx =
     (if bar_val AND BAR_IO_SPACE_FLAG = 0
      then io_bind (probe_bar hw f idx bar_val) (\<lambda>v.
           let low_sz = v AND BAR_MMIO_MASK;
               addr = ucast (bar_val AND BAR_MMIO_MASK) :: u64;
               is_64 = (bar_val AND BAR_MMIO_TYPE_MASK = BAR_MMIO_TYPE_64);
               bar = (\<lambda>addr high_sz. \<lparr>pb_addr = addr, pb_size = NOT (push_bit 32 (ucast (high_sz :: u32)) OR ucast low_sz) + 1,
                 pb_vaddr = 0, pb_mmio = True, pb_is_64 = is_64,
                 pb_prefetchable = (bar_val AND BAR_MMIO_PREFETCHABLE_MASK \<noteq> 0)\<rparr>)
           in if is_64
              then io_bind (get_bar_raw hw f (idx + 1)) (\<lambda>bar_val2.
                   io_bind (probe_bar hw f (idx + 1) bar_val2) (\<lambda>high_sz.
                   io_return (bar (addr OR push_bit 32 (ucast bar_val2)) high_sz)))
              else io_return (bar addr (NOT 0)))
      else io_bind (probe_bar hw f idx bar_val) (\<lambda>v.
           io_return \<lparr>pb_addr = ucast (bar_val AND BAR_IO_SPACE_MASK),
             pb_size = ucast (NOT (v AND BAR_IO_SPACE_MASK) + 1 :: u32),
             pb_vaddr = 0, pb_mmio = False, pb_is_64 = False, pb_prefetchable = False\<rparr>))"

text \<open>\<open>pci_bar::map\<close>: virtual pages from the allocator, then a mapping of the register's bytes.\<close>

type_synonym 'f kernel_memory = "'f regions \<times> buddy vm"

definition pci_bar_map :: "u64 \<Rightarrow> pci_bar \<Rightarrow> 'f kernel_memory \<Rightarrow> (pci_bar \<times> 'f kernel_memory) res" where
  "pci_bar_map cr3 bar m =
     (if \<not> pb_mmio bar then Ok (bar, m)
      else case m of (regions, vm) \<Rightarrow>
        let npages = drop_bit PAGE_SHIFT (align_up (pb_size bar) PAGE_SIZE)
        in bind_res (vmem_alloc npages None regions) (\<lambda>(page, regions').
           kbugon (page = 0)
             (bind_res (map_memory cr3 page (pfn_down (pb_addr bar)) (pb_size bar) vm) (\<lambda>vm'.
                Ok (bar\<lparr>pb_vaddr := pfn_to_addr page\<rparr>, regions', vm')))))"

definition pci_bar_read8 :: "'h hardware \<Rightarrow> pci_bar \<Rightarrow> u64 \<Rightarrow> ('h, u8) io" where
  "pci_bar_read8 hw bar offset =
     (if pb_mmio bar then load8 hw (pb_vaddr bar + offset) else in8 hw (ucast (pb_addr bar + offset)))"

definition pci_bar_read16 :: "'h hardware \<Rightarrow> pci_bar \<Rightarrow> u64 \<Rightarrow> ('h, u16) io" where
  "pci_bar_read16 hw bar offset =
     (if pb_mmio bar then load16 hw (pb_vaddr bar + offset) else in16 hw (ucast (pb_addr bar + offset)))"

definition pci_bar_read32 :: "'h hardware \<Rightarrow> pci_bar \<Rightarrow> u64 \<Rightarrow> ('h, u32) io" where
  "pci_bar_read32 hw bar offset =
     (if pb_mmio bar then load32 hw (pb_vaddr bar + offset) else in32 hw (ucast (pb_addr bar + offset)))"

definition pci_bar_write8 :: "'h hardware \<Rightarrow> pci_bar \<Rightarrow> u64 \<Rightarrow> u8 \<Rightarrow> ('h, unit) io" where
  "pci_bar_write8 hw bar offset val =
     io_do (if pb_mmio bar then store8 hw (pb_vaddr bar + offset) val else out8 hw (ucast (pb_addr bar + offset)) val)"

definition pci_bar_write16 :: "'h hardware \<Rightarrow> pci_bar \<Rightarrow> u64 \<Rightarrow> u16 \<Rightarrow> ('h, unit) io" where
  "pci_bar_write16 hw bar offset val =
     io_do (if pb_mmio bar then store16 hw (pb_vaddr bar + offset) val else out16 hw (ucast (pb_addr bar + offset)) val)"

definition pci_bar_write32 :: "'h hardware \<Rightarrow> pci_bar \<Rightarrow> u64 \<Rightarrow> u32 \<Rightarrow> ('h, unit) io" where
  "pci_bar_write32 hw bar offset val =
     io_do (if pb_mmio bar then store32 hw (pb_vaddr bar + offset) val else out32 hw (ucast (pb_addr bar + offset)) val)"

subsection \<open>Devices\<close>

record pci_device =
  pd_function :: pci_function
  pd_bars :: "pci_bar option list"
  pd_msix_bar_idx :: int
  pd_msix_offset :: u8
  pd_msix_table_size :: u64
  pd_msix_table_offset :: u32

text \<open>The loop of the constructor; the array has six elements.\<close>

function bars_loop :: "'h hardware \<Rightarrow> pci_function \<Rightarrow> nat \<Rightarrow> pci_bar option list \<Rightarrow> 'h \<Rightarrow> (pci_bar option list \<times> 'h) res" where
  "bars_loop hw f idx bars h =
     (if idx \<le> 6
      then case pci_read_32 hw f (BAR_ADDR (of_nat idx)) h of (bar, h1) \<Rightarrow>
        if bar = 0 then bars_loop hw f (idx + 1) bars h1
        else case pci_bar_new hw f bar (of_nat idx) h1 of (b, h2) \<Rightarrow>
          defined (idx < length bars)
            (bars_loop hw f (if pb_is_64 b then idx + 2 else idx + 1) (bars[idx := Some b]) h2)
      else Ok (bars, h))"
  by pat_completeness auto
termination by (relation "measure (\<lambda>(hw, f, idx, bars, h). 7 - idx)") auto

declare bars_loop.simps [simp del]

definition pci_device_new :: "'h hardware \<Rightarrow> pci_function \<Rightarrow> 'h \<Rightarrow> (pci_device \<times> 'h) res" where
  "pci_device_new hw f h = bind_res (bars_loop hw f 0 (replicate 6 None) h) (\<lambda>(bars, h').
     Ok (\<lparr>pd_function = f, pd_bars = bars, pd_msix_bar_idx = - 1, pd_msix_offset = 0, pd_msix_table_size = 0,
          pd_msix_table_offset = 0\<rparr>, h'))"

definition CAPABILITIES_PTR_ADDR :: u8 where "CAPABILITIES_PTR_ADDR = 0x34"

text \<open>The walk along the list of capabilities; \<open>None\<close> when it never ends.\<close>

partial_function (option) capability_loop :: "'h hardware \<Rightarrow> pci_function \<Rightarrow> u8 \<Rightarrow> u8 \<Rightarrow> 'h \<Rightarrow> (u8 \<times> 'h) option" where
  "capability_loop hw f capability ptr h =
     (if ptr = 0 then Some (0xFF, h)
      else case pci_read_8 hw f ptr h of (cap, h1) \<Rightarrow>
        if cap = capability then Some (ptr, h1)
        else case pci_read_8 hw f (ptr + 1) h1 of (ptr', h2) \<Rightarrow> capability_loop hw f capability ptr' h2)"

definition find_capability :: "'h hardware \<Rightarrow> pci_function \<Rightarrow> u8 \<Rightarrow> 'h \<Rightarrow> (u8 \<times> 'h) option" where
  "find_capability hw f capability h = (case pci_read_8 hw f CAPABILITIES_PTR_ADDR h of (ptr, h1) \<Rightarrow>
     capability_loop hw f capability ptr h1)"

definition get_bar :: "pci_device \<Rightarrow> nat \<Rightarrow> pci_bar res" where
  "get_bar d idx = defined (idx < length (pd_bars d))
     (case pd_bars d ! idx of None \<Rightarrow> Fail Thrown | Some b \<Rightarrow> Ok b)"

subsection \<open>MSI-X\<close>

definition CAP_MSIX :: u8 where "CAP_MSIX = 0x11"
definition MSIX_CONTROL :: u8 where "MSIX_CONTROL = 0x2"
definition MSIX_TABLE_OFFSET :: u8 where "MSIX_TABLE_OFFSET = 0x4"
definition MSIX_CONTROL_FUNCTION_MASK :: u16 where "MSIX_CONTROL_FUNCTION_MASK = push_bit 14 1"
definition MSIX_CONTROL_ENABLE :: u16 where "MSIX_CONTROL_ENABLE = push_bit 15 1"
definition MSIX_CONTROL_TABLE_SIZE_MASK :: u16 where "MSIX_CONTROL_TABLE_SIZE_MASK = 0x7ff"
definition MSIX_TABLE_OFFSET_BIR_MASK :: u32 where "MSIX_TABLE_OFFSET_BIR_MASK = 0x7"
definition MSIX_TABLE_ENTRY_SIZE :: u64 where "MSIX_TABLE_ENTRY_SIZE = 16"
definition MSIX_TABLE_ENTRY_ADDR :: u64 where "MSIX_TABLE_ENTRY_ADDR = 0"
definition MSIX_TABLE_ENTRY_DATA :: u64 where "MSIX_TABLE_ENTRY_DATA = 8"
definition MSIX_TABLE_ENTRY_CONTROL :: u64 where "MSIX_TABLE_ENTRY_CONTROL = 12"
definition MSIX_TABLE_ENTRY_CONTROL_MASK_BIT :: u32 where "MSIX_TABLE_ENTRY_CONTROL_MASK_BIT = 1"

definition msix_get_control :: "'h hardware \<Rightarrow> pci_device \<Rightarrow> ('h, u16) io" where
  "msix_get_control hw d = pci_read_16 hw (pd_function d) (pd_msix_offset d + MSIX_CONTROL)"

definition msix_set_control :: "'h hardware \<Rightarrow> pci_device \<Rightarrow> u16 \<Rightarrow> ('h, unit) io" where
  "msix_set_control hw d control = pci_write_16 hw (pd_function d) (pd_msix_offset d + MSIX_CONTROL) control"

definition msix_enabled :: "pci_device \<Rightarrow> bool" where "msix_enabled d \<longleftrightarrow> pd_msix_bar_idx d \<noteq> - 1"

definition msix_update_entry :: "'h hardware \<Rightarrow> (u32 \<Rightarrow> u32) \<Rightarrow> pci_device \<Rightarrow> u64 \<Rightarrow> 'h \<Rightarrow> 'h res" where
  "msix_update_entry hw change d idx h =
     (if \<not> msix_enabled d \<or> idx \<ge> pd_msix_table_size d then Ok h
      else bind_res (get_bar d (nat (pd_msix_bar_idx d))) (\<lambda>bar.
           let offset = ucast (pd_msix_table_offset d) + idx * MSIX_TABLE_ENTRY_SIZE + MSIX_TABLE_ENTRY_CONTROL
           in Ok (snd (io_bind (pci_bar_read32 hw bar offset) (\<lambda>ctrl. pci_bar_write32 hw bar offset (change ctrl)) h))))"

definition msix_mask_entry :: "'h hardware \<Rightarrow> pci_device \<Rightarrow> u64 \<Rightarrow> 'h \<Rightarrow> 'h res" where
  "msix_mask_entry hw = msix_update_entry hw (\<lambda>ctrl. ctrl OR MSIX_TABLE_ENTRY_CONTROL_MASK_BIT)"

definition msix_unmask_entry :: "'h hardware \<Rightarrow> pci_device \<Rightarrow> u64 \<Rightarrow> 'h \<Rightarrow> 'h res" where
  "msix_unmask_entry hw = msix_update_entry hw (\<lambda>ctrl. ctrl AND NOT MSIX_TABLE_ENTRY_CONTROL_MASK_BIT)"

definition set_msix_entry :: "'h hardware \<Rightarrow> pci_device \<Rightarrow> u64 \<Rightarrow> u8 \<Rightarrow> u8 \<Rightarrow> 'h \<Rightarrow> 'h res" where
  "set_msix_entry hw d entry vector dest h =
     defined (0 \<le> pd_msix_bar_idx d)
       (bind_res (get_bar d (nat (pd_msix_bar_idx d))) (\<lambda>bar.
          let offset = ucast (pd_msix_table_offset d) + entry * MSIX_TABLE_ENTRY_SIZE
          in msix_unmask_entry hw d entry
               (snd (io_bind (pci_bar_write32 hw bar (offset + MSIX_TABLE_ENTRY_ADDR) 0xFEE00000)
                  (\<lambda>_. pci_bar_write32 hw bar (offset + MSIX_TABLE_ENTRY_DATA) (ucast vector)) h))))"

fun mask_entries :: "'h hardware \<Rightarrow> pci_device \<Rightarrow> nat list \<Rightarrow> 'h \<Rightarrow> 'h res" where
  "mask_entries hw d [] h = Ok h"
| "mask_entries hw d (i # is) h = bind_res (msix_mask_entry hw d (of_nat i) h) (mask_entries hw d is)"

text \<open>\<open>msix_enable\<close>: whether the device has MSI-X, the device and the memory afterwards.\<close>

definition msix_enable :: "'h hardware \<Rightarrow> u64 \<Rightarrow> pci_device \<Rightarrow> 'f kernel_memory \<Rightarrow> 'h \<Rightarrow> (bool \<times> pci_device \<times> 'f kernel_memory \<times> 'h) res option" where
  "msix_enable hw cr3 d m h = Option.bind (find_capability hw (pd_function d) CAP_MSIX h) (\<lambda>(offset, h1). Some
     (if offset = 0xFF then Ok (False, d, m, h1)
      else let f = pd_function d;
               d1 = d\<lparr>pd_msix_offset := offset\<rparr>;
               (control, h2) = msix_get_control hw d1 h1;
               (table, h3) = pci_read_32 hw f (offset + MSIX_TABLE_OFFSET) h2;
               idx = unat (table AND MSIX_TABLE_OFFSET_BIR_MASK);
               d2 = d1\<lparr>pd_msix_table_size := ucast (control AND MSIX_CONTROL_TABLE_SIZE_MASK) + 1,
                       pd_msix_bar_idx := int idx,
                       pd_msix_table_offset := table AND NOT MSIX_TABLE_OFFSET_BIR_MASK\<rparr>
           in bind_res (get_bar d2 idx) (\<lambda>bar.
              bind_res (pci_bar_map cr3 bar m) (\<lambda>(bar', m').
              let d3 = d2\<lparr>pd_bars := (pd_bars d2)[idx := Some bar']\<rparr>;
                  (_, h4) = disable_int hw f h3;
                  (ctrl, h5) = msix_get_control hw d3 h4;
                  ctrl = ctrl OR MSIX_CONTROL_ENABLE OR MSIX_CONTROL_FUNCTION_MASK;
                  (_, h6) = msix_set_control hw d3 ctrl h5
              in bind_res (mask_entries hw d3 [0..<unat (pd_msix_table_size d3)] h6) (\<lambda>h7.
                 Ok (True, d3, m', snd (msix_set_control hw d3 (ctrl AND NOT MSIX_CONTROL_FUNCTION_MASK) h7)))))))"

subsection \<open>Enumeration\<close>

definition pci_function_at :: "u8 \<Rightarrow> nat \<Rightarrow> nat \<Rightarrow> pci_function" where
  "pci_function_at bus device func = \<lparr>pf_bus = bus, pf_device = of_nat device, pf_func = of_nat func\<rparr>"

text \<open>The loops over the functions of a device and over the devices of a bus.\<close>

fun enumerate_funcs :: "'h hardware \<Rightarrow> u8 \<Rightarrow> nat \<Rightarrow> nat list \<Rightarrow> pci_device list \<Rightarrow> 'h \<Rightarrow> (pci_device list \<times> 'h) res" where
  "enumerate_funcs hw bus device [] devices h = Ok (devices, h)"
| "enumerate_funcs hw bus device (func # funcs) devices h =
     (let f = pci_function_at bus device func;
          (absent, h1) = pci_function_bool hw f h
      in if absent then enumerate_funcs hw bus device funcs devices h1
         else let (bridge, h2) = is_bridge hw f h1
              in if bridge then Fail Aborted
                 else bind_res (pci_device_new hw f h2) (\<lambda>(d, h3).
                      enumerate_funcs hw bus device funcs (devices @ [d]) h3))"

fun enumerate_devices :: "'h hardware \<Rightarrow> u8 \<Rightarrow> nat list \<Rightarrow> pci_device list \<Rightarrow> 'h \<Rightarrow> (pci_device list \<times> 'h) res" where
  "enumerate_devices hw bus [] devices h = Ok (devices, h)"
| "enumerate_devices hw bus (device # rest) devices h =
     (let f = pci_function_at bus device 0;
          (absent, h1) = pci_function_bool hw f h
      in if absent then enumerate_devices hw bus rest devices h1
         else let (multi, h2) = is_multifunc hw f h1
              in bind_res (enumerate_funcs hw bus device [0..<(if multi then 8 else 1)] devices h2)
                   (\<lambda>(devices', h3). enumerate_devices hw bus rest devices' h3))"

definition enumerate_bus :: "'h hardware \<Rightarrow> u8 \<Rightarrow> pci_device list \<Rightarrow> 'h \<Rightarrow> (pci_device list \<times> 'h) res" where
  "enumerate_bus hw bus devices h = enumerate_devices hw bus [0..<32] devices h"

text \<open>With several host bridges: the loop over the functions of device 0.\<close>

fun enumerate_bridges :: "'h hardware \<Rightarrow> nat list \<Rightarrow> pci_device list \<Rightarrow> 'h \<Rightarrow> (pci_device list \<times> 'h) res" where
  "enumerate_bridges hw [] devices h = Ok (devices, h)"
| "enumerate_bridges hw (func # funcs) devices h =
     (let (bus, h1) = pci_function_bool hw (pci_function_at 0 0 func) h
      in if \<not> bus then enumerate_bridges hw funcs devices h1
         else bind_res (enumerate_bus hw (of_nat func) devices h1) (\<lambda>(devices', h2). enumerate_bridges hw funcs devices' h2))"

definition enumerate_all_buses :: "'h hardware \<Rightarrow> 'h \<Rightarrow> (pci_device list \<times> 'h) res" where
  "enumerate_all_buses hw h =
     (let (multi, h1) = is_multifunc hw (pci_function_at 0 0 0) h
      in if \<not> multi then enumerate_bus hw 0 [] h1 else enumerate_bridges hw [0..<8] [] h1)"

text \<open>\<open>pci_init\<close> enumerates; drivers are offered the devices in turn, each device until one takes it.\<close>

definition pci_init :: "'h hardware \<Rightarrow> 'h \<Rightarrow> (pci_device list \<times> 'h) res" where
  "pci_init hw h = enumerate_all_buses hw h"

type_synonym 's probe = "pci_device \<Rightarrow> 's \<Rightarrow> (bool \<times> 's) res"

definition pci_register_probe :: "'s probe \<Rightarrow> 's probe list \<Rightarrow> 's probe list" where
  "pci_register_probe probe probes = probes @ [probe]"

fun offer_device :: "'s probe list \<Rightarrow> pci_device \<Rightarrow> 's \<Rightarrow> 's res" where
  "offer_device [] dev s = Ok s"
| "offer_device (probe # probes) dev s =
     bind_res (probe dev s) (\<lambda>(taken, s'). if taken then Ok s' else offer_device probes dev s')"

fun pci_load_drivers :: "'s probe list \<Rightarrow> pci_device list \<Rightarrow> 's \<Rightarrow> 's res" where
  "pci_load_drivers probes [] s = Ok s"
| "pci_load_drivers probes (dev # devs) s = bind_res (offer_device probes dev s) (pci_load_drivers probes devs)"

end
