(* ===== verification/Pci_Scan.thy ===== *)
theory Pci_Scan
  imports Pci
begin

text \<open>
  What the PCI code guarantees on hardware that implements configuration space: which functions the
  enumeration finds, the size of a base address register, and the walk along the capabilities.
\<close>

subsection \<open>Configuration space\<close>













subsection \<open>What the enumeration finds\<close>










subsection \<open>Sizes of base address registers\<close>

text \<open>What a memory register of \<open>2 ^ k\<close> bytes reads back after ones were written to it.\<close>

lemma bar_size_word:
  fixes flags :: u32
  assumes "4 \<le> k" and "k < 64" and "flags AND NOT 0xf = 0"
  shows "NOT (push_bit 32 (ucast (ucast (drop_bit 32 (NOT (mask k :: u64))) :: u32)) OR
      ucast ((ucast (NOT (mask k :: u64)) OR flags) AND BAR_MMIO_MASK)) + 1 = (2 :: u64) ^ k"
proof -
  have low: "(ucast (NOT (mask k :: u64)) OR flags) AND BAR_MMIO_MASK = (ucast (NOT (mask k :: u64)) :: u32)"
  proof (rule bit_word_eqI)
    fix n assume "n < LENGTH(32)"
    have m: "BAR_MMIO_MASK = NOT (mask 4)" by (simp add: BAR_MMIO_MASK_def mask_eq_exp_minus_1)
    have "flags AND NOT (mask 4) = 0" using assms(3) by (simp add: mask_eq_exp_minus_1)
    then have "\<not> bit (flags AND NOT (mask 4)) n" by simp
    then have "4 \<le> n \<Longrightarrow> \<not> bit flags n" using \<open>n < LENGTH(32)\<close> by (auto simp: bit_simps)
    then show "bit ((ucast (NOT (mask k :: u64)) OR flags) AND BAR_MMIO_MASK) n = bit (ucast (NOT (mask k :: u64)) :: u32) n"
      using assms(1) \<open>n < LENGTH(32)\<close> unfolding m by (auto simp: bit_simps)
  qed
  have "push_bit 32 (ucast (ucast (drop_bit 32 (NOT (mask k :: u64))) :: u32)) OR ucast (ucast (NOT (mask k :: u64)) :: u32) = (NOT (mask k) :: u64)"
    by (rule bit_eqI) (auto simp: bit_simps)
  then show ?thesis unfolding low by (simp add: mask_eq_exp_minus_1)
qed

lemma io_bind_apply: "io_bind m f h = f (fst (m h)) (snd (m h))"
  by (simp add: io_bind_def split: prod.split)

lemma probe_bar_restores:
  "probe_bar hw f idx val h = (fst (probe_bar hw f idx val h), snd (pci_write_32 hw f (BAR_ADDR idx) val
     (snd (pci_read_32 hw f (BAR_ADDR idx) (snd (pci_write_32 hw f (BAR_ADDR idx) 0xffffffff h))))))"
  by (simp add: probe_bar_def get_bar_raw_def set_bar_raw_def io_bind_def io_return_def split: prod.split)

subsection \<open>The list of capabilities\<close>

definition cap_next :: "(u8 \<Rightarrow> u8) \<Rightarrow> u8 \<Rightarrow> u8" where "cap_next cfg ptr = cfg (ptr + 1)"

definition cap_stop :: "(u8 \<Rightarrow> u8) \<Rightarrow> u8 \<Rightarrow> u8 \<Rightarrow> bool" where
  "cap_stop cfg capability ptr \<longleftrightarrow> ptr = 0 \<or> cfg ptr = capability"

definition reads_as :: "'h hardware \<Rightarrow> pci_function \<Rightarrow> ('h \<Rightarrow> bool) \<Rightarrow> (u8 \<Rightarrow> u8) \<Rightarrow> bool" where
  "reads_as hw f I cfg \<longleftrightarrow> (\<forall>off h. I h \<longrightarrow> fst (pci_read_8 hw f off h) = cfg off \<and> I (snd (pci_read_8 hw f off h)))"

lemma reads_asD: "reads_as hw f I cfg \<Longrightarrow> I h \<Longrightarrow> \<exists>h'. pci_read_8 hw f off h = (cfg off, h') \<and> I h'"
  unfolding reads_as_def by (metis prod.collapse)

lemma capability_found:
  assumes r: "reads_as hw f I cfg" and "I h" and "cap_stop cfg capability ((cap_next cfg ^^ n) ptr)"
    and "\<forall>m<n. \<not> cap_stop cfg capability ((cap_next cfg ^^ m) ptr)"
  shows "\<exists>h'. capability_loop hw f capability ptr h =
    Some (if (cap_next cfg ^^ n) ptr = 0 then 0xFF else (cap_next cfg ^^ n) ptr, h')"
  using assms(2-4)
proof (induction n arbitrary: ptr h)
  case 0
  then show ?case using reads_asD [OF r 0(1), of ptr] by (subst capability_loop.simps) (auto simp: cap_stop_def)
next
  case (Suc n)
  have p: "ptr \<noteq> 0" "cfg ptr \<noteq> capability" using Suc.prems(3) by (force simp: cap_stop_def)+
  obtain h1 where h1: "pci_read_8 hw f ptr h = (cfg ptr, h1)" "I h1" using reads_asD [OF r Suc.prems(1)] by blast
  obtain h2 where h2: "pci_read_8 hw f (ptr + 1) h1 = (cap_next cfg ptr, h2)" "I h2"
    using reads_asD [OF r h1(2)] by (auto simp: cap_next_def)
  have "cap_stop cfg capability ((cap_next cfg ^^ n) (cap_next cfg ptr))" using Suc.prems(2) by (simp add: funpow_swap1)
  moreover have "\<forall>m<n. \<not> cap_stop cfg capability ((cap_next cfg ^^ m) (cap_next cfg ptr))"
  proof (intro allI impI)
    fix m assume "m < n"
    then show "\<not> cap_stop cfg capability ((cap_next cfg ^^ m) (cap_next cfg ptr))"
      using Suc.prems(3) [rule_format, of "Suc m"] by (simp add: funpow_swap1)
  qed
  ultimately obtain h' where "capability_loop hw f capability (cap_next cfg ptr) h2 =
      Some (if (cap_next cfg ^^ n) (cap_next cfg ptr) = 0 then 0xFF else (cap_next cfg ^^ n) (cap_next cfg ptr), h')"
    using Suc.IH [OF h2(2)] by blast
  then show ?case using p h1(1) h2(1) by (subst capability_loop.simps) (simp add: funpow_swap1)
qed

lemma capability_stops:
  assumes r: "reads_as hw f I cfg" and "I h" and that: "capability_loop hw f capability ptr h = Some y"
  shows "\<exists>n. cap_stop cfg capability ((cap_next cfg ^^ n) ptr)"
proof -
  let ?stops = "\<lambda>ptr. \<exists>n. cap_stop cfg capability ((cap_next cfg ^^ n) ptr)"
  have "(hw, f, capability) = (hw, f, capability) \<longrightarrow> I h \<longrightarrow> ?stops ptr"
  proof (rule capability_loop.raw_induct [where P = "\<lambda>hw' f' c ptr h y. (hw', f', c) = (hw, f, capability) \<longrightarrow> I h \<longrightarrow> ?stops ptr", OF _ that], intro impI)
    fix loop hw' f' c ptr h y
    assume IH: "\<And>hw' f' c ptr h y. loop hw' f' c ptr h = Some y \<Longrightarrow> (hw', f', c) = (hw, f, capability) \<longrightarrow> I h \<longrightarrow> ?stops ptr"
      and body: "(if ptr = 0 then Some (0xFF, h)
        else case pci_read_8 hw' f' ptr h of (cap, h1) \<Rightarrow>
          if cap = c then Some (ptr, h1)
          else case pci_read_8 hw' f' (ptr + 1) h1 of (ptr', h2) \<Rightarrow> loop hw' f' c ptr' h2) = Some y"
      and e: "(hw', f', c) = (hw, f, capability)" and h: "I h"
    obtain h1 where h1: "pci_read_8 hw f ptr h = (cfg ptr, h1)" "I h1" using reads_asD [OF r h] by blast
    obtain h2 where h2: "pci_read_8 hw f (ptr + 1) h1 = (cap_next cfg ptr, h2)" "I h2"
      using reads_asD [OF r h1(2)] by (auto simp: cap_next_def)
    show "?stops ptr"
    proof (cases "cap_stop cfg capability ptr")
      case True
      then show ?thesis by (intro exI [of _ 0]) simp
    next
      case False
      then have "loop hw f capability (cap_next cfg ptr) h2 = Some y" using body e h1(1) h2(1) by (auto simp: cap_stop_def)
      then obtain n where "cap_stop cfg capability ((cap_next cfg ^^ n) (cap_next cfg ptr))" using IH h2(2) by blast
      then show ?thesis by (intro exI [of _ "Suc n"]) (simp add: funpow_swap1)
    qed
  qed
  then show ?thesis using assms(2) by simp
qed

subsection \<open>Properties\<close>


text \<open>Hardware with a network card as device 1 of bus 0; its state is the address register.\<close>

definition nic :: pci_function where "nic = pci_function_at 0 1 0"

definition nic_hw :: "u32 hardware" where
  "nic_hw = \<lparr>in8 = (\<lambda>_ a. (0, a)), in16 = (\<lambda>_ a. (if a = pci_address nic 0 then 0x1af4 else 0xffff, a)), in32 = (\<lambda>_ a. (0, a)),
     out8 = (\<lambda>_ _ a. a), out16 = (\<lambda>_ _ a. a), out32 = (\<lambda>p v a. if p = PCI_ADDRESS_PORT then v else a),
     load8 = (\<lambda>_ a. (0, a)), load16 = (\<lambda>_ a. (0, a)), load32 = (\<lambda>_ a. (0, a)),
     store8 = (\<lambda>_ _ a. a), store16 = (\<lambda>_ _ a. a), store32 = (\<lambda>_ _ a. a)\<rparr>"




text \<open>A memory register of \<open>2 ^ k\<close> bytes gets this size, and the address in its upper bits, whether it is one
  register (\<open>k \<le> 32\<close>) or two; the registers are written back as they were read.\<close>

theorem pci_bar_size:
  assumes "4 \<le> k" and "k < 64" and "bar_val AND BAR_IO_SPACE_FLAG = 0"
    and "bar_val AND BAR_MMIO_TYPE_MASK = BAR_MMIO_TYPE_64 \<or> k \<le> 32" and "flags AND NOT 0xf = 0"
    and "fst (probe_bar hw f idx bar_val h) = ucast (NOT (mask k :: u64)) OR flags"
    and "bar_val AND BAR_MMIO_TYPE_MASK = BAR_MMIO_TYPE_64 \<Longrightarrow>
      \<forall>v h. fst (probe_bar hw f (idx + 1) v h) = ucast (drop_bit 32 (NOT (mask k :: u64)))"
  shows "let bar = fst (pci_bar_new hw f bar_val idx h)
    in pb_mmio bar \<and> pb_size bar = 2 ^ k \<and> ucast (pb_addr bar) = bar_val AND BAR_MMIO_MASK"
proof -
  have one: "ucast (drop_bit 32 (NOT (mask k :: u64))) = (NOT 0 :: u32)" if "k \<le> 32"
    by (rule bit_word_eqI) (use that in \<open>auto simp: bit_simps\<close>)
  have addr: "ucast (ucast (bar_val AND BAR_MMIO_MASK) OR push_bit 32 (ucast w) :: u64) = bar_val AND BAR_MMIO_MASK" for w :: u32
    by (rule bit_word_eqI) (auto simp: bit_simps)
  have addr': "ucast (ucast (bar_val AND BAR_MMIO_MASK) :: u64) = bar_val AND BAR_MMIO_MASK"
    by (rule bit_word_eqI) (auto simp: bit_simps)
  note size = bar_size_word [OF assms(1,2,5)]
  show ?thesis
  proof (cases "bar_val AND BAR_MMIO_TYPE_MASK = BAR_MMIO_TYPE_64")
    case True
    then show ?thesis using assms(3,6,7) size addr by (simp add: pci_bar_new_def Let_def io_bind_apply io_return_def)
  next
    case False
    then have "k \<le> 32" using assms(4) by simp
    then show ?thesis using False assms(3,6) size [unfolded one [OF \<open>k \<le> 32\<close>]] addr'
      by (simp add: pci_bar_new_def Let_def io_bind_apply io_return_def)
  qed
qed

text \<open>Hardware with one register of 4096 bytes: reads return all ones above bit 11.\<close>

definition bar_hw :: "u32 hardware" where
  "bar_hw = nic_hw\<lparr>in32 := (\<lambda>_ a. (0xfffff000, a))\<rparr>"

theorem pci_bar_size_witness:
  "pb_size (fst (pci_bar_new bar_hw nic 0xfebc0000 1 0)) = 4096"
proof -
  have "fst (probe_bar bar_hw nic i v h) = 0xfffff000" for i v h
    by (simp add: probe_bar_def get_bar_raw_def set_bar_raw_def pci_read_32_def io_bind_apply io_return_def bar_hw_def)
  moreover have "ucast (NOT (mask 12 :: u64)) = (0xfffff000 :: u32)" by (simp add: mask_eq_exp_minus_1)
  ultimately show ?thesis
    using pci_bar_size [of 12 "0xfebc0000" 0 bar_hw nic 1 0] by (simp add: BAR_IO_SPACE_FLAG_def BAR_MMIO_TYPE_MASK_def BAR_MMIO_TYPE_64_def Let_def)
qed

text \<open>C22: \<open>find_capability\<close> ends exactly if the list of capabilities that starts at offset 0x34 has an end or
  the capability on it, and then it returns the first place with the capability, or 0xFF; a list that
  loops without the capability makes it run for ever.\<close>

theorem find_capability_ends_iff:
  assumes "reads_as hw f I cfg" and "I h"
  shows "if \<exists>n. cap_stop cfg capability ((cap_next cfg ^^ n) (cfg 0x34))
    then let ptr = (cap_next cfg ^^ (LEAST n. cap_stop cfg capability ((cap_next cfg ^^ n) (cfg 0x34)))) (cfg 0x34)
         in \<exists>h'. find_capability hw f capability h = Some (if ptr = 0 then 0xFF else ptr, h')
    else find_capability hw f capability h = None"
proof -
  let ?stop = "\<lambda>n. cap_stop cfg capability ((cap_next cfg ^^ n) (cfg 0x34))"
  obtain h1 where h1: "pci_read_8 hw f 0x34 h = (cfg 0x34, h1)" "I h1" using reads_asD [OF assms] by blast
  then have find: "find_capability hw f capability h = capability_loop hw f capability (cfg 0x34) h1"
    by (simp add: find_capability_def CAPABILITIES_PTR_ADDR_def)
  show ?thesis
  proof (cases "\<exists>n. ?stop n")
    case True
    then have "?stop (LEAST n. ?stop n)" by (rule LeastI_ex)
    moreover have "\<forall>m<(LEAST n. ?stop n). \<not> ?stop m" using not_less_Least by blast
    ultimately show ?thesis using True capability_found [OF assms(1) h1(2)] unfolding find by (simp add: Let_def)
  next
    case False
    then show ?thesis unfolding find using capability_stops [OF assms(1) h1(2)] by (cases "capability_loop hw f capability (cfg 0x34) h1") auto
  qed
qed

theorem find_capability_ends_iff_witness:
  "\<exists>h'. find_capability nic_hw nic CAP_MSIX 0 = Some (0xFF, h')"
proof -
  have "reads_as nic_hw nic (\<lambda>_. True) (\<lambda>_. 0)"
    by (simp add: reads_as_def pci_read_8_def pci_set_addr_def io_bind_def io_do_def nic_hw_def)
  note f = find_capability_ends_iff [OF this TrueI, of CAP_MSIX 0]
  have "\<exists>n. cap_stop (\<lambda>_. 0) CAP_MSIX ((cap_next (\<lambda>_. 0) ^^ n) 0)" by (intro exI [of _ 0]) (simp add: cap_stop_def)
  moreover have "(cap_next (\<lambda>_. 0) ^^ n) 0 = 0" for n by (induction n) (simp_all add: cap_next_def)
  ultimately show ?thesis using f by simp
qed

end
