(* ===== verification/Buffer.thy ===== *)
theory Buffer
  imports Gp_Allocator
begin

text \<open>
  \<open>sys/buffer.hpp\<close>: the buffers that travel between drivers and the network stack.  A mutable
  buffer owns memory of \<open>malloc\<close>; its destructor and its moves are part of the model, because they
  decide how often the memory is freed.
\<close>

record mutable_buffer =
  mb_ptr :: u64
  mb_size :: u64
  mb_offset :: u64

text \<open>A buffer of new memory; no memory is an exception.\<close>

definition mutable_buffer_new :: "env \<Rightarrow> u64 \<Rightarrow> gp \<Rightarrow> (mutable_buffer \<times> gp) res option" where
  "mutable_buffer_new e sz g =
     Option.bind (newlib_malloc e sz g) (\<lambda>t. Some (bind_res t (\<lambda>(mem, g').
       if mem = 0 then Fail Thrown else Ok (\<lparr>mb_ptr = mem, mb_size = sz, mb_offset = 0\<rparr>, g'))))"

definition mutable_buffer_of :: "u64 \<Rightarrow> u64 \<Rightarrow> mutable_buffer" where
  "mutable_buffer_of ptr sz = \<lparr>mb_ptr = ptr, mb_size = sz, mb_offset = 0\<rparr>"

text \<open>The defaulted move copies the members, of which none is a class: the source keeps its pointer.
  The result is the new object and the source afterwards.\<close>

definition mutable_buffer_move :: "mutable_buffer \<Rightarrow> mutable_buffer \<times> mutable_buffer" where
  "mutable_buffer_move b = (b, b)"

text \<open>The destructor: the addresses passed to \<open>free\<close>.\<close>

definition mutable_buffer_destroy :: "mutable_buffer \<Rightarrow> u64 list" where
  "mutable_buffer_destroy b = (if mb_ptr b = 0 then [] else [mb_ptr b - mb_offset b])"

definition mutable_buffer_advance :: "mutable_buffer \<Rightarrow> u64 \<Rightarrow> mutable_buffer" where
  "mutable_buffer_advance b sz = b\<lparr>mb_ptr := mb_ptr b + sz, mb_size := mb_size b - sz, mb_offset := mb_offset b + sz\<rparr>"

definition mutable_buffer_release :: "mutable_buffer \<Rightarrow> ((u64 \<times> u64) \<times> mutable_buffer) res" where
  "mutable_buffer_release b = kassert (mb_ptr b \<noteq> 0)
     (Ok ((mb_ptr b - mb_offset b, mb_size b + mb_offset b), b\<lparr>mb_ptr := 0\<rparr>))"

text \<open>Read-only buffers share their memory; \<open>cb_deleter\<close> runs when the last one goes.\<close>

record 'd const_buffer =
  cb_ptr :: u64
  cb_size :: u64
  cb_offset :: u64
  cb_deleter :: 'd

definition const_buffer_of :: "u64 \<Rightarrow> u64 \<Rightarrow> 'd \<Rightarrow> 'd const_buffer" where
  "const_buffer_of ptr sz d = \<lparr>cb_ptr = ptr, cb_size = sz, cb_offset = 0, cb_deleter = d\<rparr>"

definition const_buffer_addr :: "'d const_buffer \<Rightarrow> u64" where
  "const_buffer_addr b = cb_ptr b + cb_offset b"

lemma release_advance:
  "mb_ptr b + sz \<noteq> 0 \<Longrightarrow> mb_ptr b \<noteq> 0 \<Longrightarrow>
     bind_res (mutable_buffer_release (mutable_buffer_advance b sz)) (\<lambda>r. Ok (fst r)) =
     bind_res (mutable_buffer_release b) (\<lambda>r. Ok (fst r))"
  by (simp add: mutable_buffer_release_def mutable_buffer_advance_def)

lemma destroy_released:
  "mutable_buffer_release b = Ok (r, b') \<Longrightarrow> mutable_buffer_destroy b' = []"
  by (auto simp: mutable_buffer_release_def mutable_buffer_destroy_def kassert_Ok_iff)

lemma destroy_after_move:
  "mutable_buffer_move b = (b', b'') \<Longrightarrow>
     mutable_buffer_destroy b' @ mutable_buffer_destroy b'' = concat (replicate 2 (mutable_buffer_destroy b))"
  by (auto simp: mutable_buffer_move_def numeral_2_eq_2)

end
