(* ===== verification/Vring.thy ===== *)
theory Vring
  imports Buffer
begin

text \<open>
  \<open>sys/virtio.hpp\<close>, class \<open>vring\<close>: a ring shared with a virtio device.  The descriptor table, the
  available ring and the two event indices the driver writes are part of the state; what the device
  writes (the used ring and its index, the index at which it wants to be notified) are arguments:
  the values the driver loads.  Loads are in program order.
\<close>

definition VIRTIO_PAGE :: u64 where "VIRTIO_PAGE = 4096"

record desc =
  d_addr :: u64
  d_len :: u32
  d_flags :: u16
  d_next :: u16

definition F_NEXT :: u16 where "F_NEXT = 1"
definition F_WRITE :: u16 where "F_WRITE = 2"
definition F_INDIRECT :: u16 where "F_INDIRECT = 4"

record used_elem =
  ue_id :: u32
  ue_len :: u32

record used =
  u_idx :: u16
  u_ring :: "used_elem list"

record 'd vring =
  vr_desc :: "desc list"
  vr_avail_idx :: u16
  vr_avail_ring :: "u16 list"
  vr_used_event :: u16
  vr_qsize :: u16
  vr_free_head :: u16
  vr_free_count :: u16
  vr_buf_references :: "u16 \<rightharpoonup> 'd const_buffer list"

text \<open>The constructor: the memory it takes and the addresses of the parts.\<close>

record vring_layout =
  vl_addr :: u64
  vl_avail :: u64
  vl_avail_end :: u64
  vl_used :: u64
  vl_avail_event :: u64

definition vring_bytes :: "u16 \<Rightarrow> u64" where
  "vring_bytes qsize = align_up (16 * ucast qsize + 2 * (3 + ucast qsize)) 4096 + align_up (2 * 3 + 8 * ucast qsize) 4096"

definition vring_alloc :: "u16 \<Rightarrow> nid \<Rightarrow> page_allocators \<Rightarrow> (vring_layout \<times> page_allocators) res" where
  "vring_alloc qsize nid st =
     bind_res (fls (vring_bytes qsize - 1)) (\<lambda>l.
     bind_res (Alloc (l - PAGE_SHIFT + 1) nid st) (\<lambda>(page, st').
     kbugon (page = NO_PFN)
       (let addr = pfn_to_addr page;
            avail = addr + ucast qsize * 16;
            avail_ring_end = avail + 4 + 2 * ucast qsize;
            avail_end = avail_ring_end + 2;
            used = align_up avail_end 4096
        in Ok (\<lparr>vl_addr = addr, vl_avail = avail, vl_avail_end = avail_end, vl_used = used,
                vl_avail_event = used + 4 + 8 * ucast qsize\<rparr>, st'))))"

definition vring_new :: "u16 \<Rightarrow> 'd vring" where
  "vring_new qsize = (let n = unat qsize in
     \<lparr>vr_desc = (map (\<lambda>i. \<lparr>d_addr = 0, d_len = 0, d_flags = 0, d_next = of_nat (i + 1)\<rparr>) [0..<n])
        [n - 1 := \<lparr>d_addr = 0, d_len = 0, d_flags = 0, d_next = 0\<rparr>],
      vr_avail_idx = 0, vr_avail_ring = replicate n 0, vr_used_event = 0, vr_qsize = qsize,
      vr_free_head = 0, vr_free_count = qsize, vr_buf_references = Map.empty\<rparr>)"

definition get_num_free_descriptors :: "'d vring \<Rightarrow> u64" where
  "get_num_free_descriptors v = ucast (vr_free_count v)"

subsection \<open>Handing buffers to the device\<close>

text \<open>The loop that writes buffers to descriptors from the free list; the result is the last one.\<close>

fun write_descs :: "u16 \<Rightarrow> (u64 \<times> u64) list \<Rightarrow> u16 \<Rightarrow> 'd vring \<Rightarrow> (u16 \<times> 'd vring) res" where
  "write_descs flags [] last_desc v = Ok (last_desc, v)"
| "write_descs flags ((addr, sz) # bufs) last_desc v =
     (let i = vr_free_head v in
      defined (unat i < length (vr_desc v))
        (let d = vr_desc v ! unat i;
             d' = d\<lparr>d_addr := addr, d_len := ucast sz, d_flags := d_flags d OR flags\<rparr>
         in write_descs flags bufs i (v\<lparr>vr_desc := (vr_desc v)[unat i := d'], vr_free_head := d_next d\<rparr>)))"

text \<open>One chain: allocate, write, mark its end, put its head in the available ring.\<close>

definition put_chain :: "u16 \<Rightarrow> (u64 \<times> u64) list \<Rightarrow> u16 \<Rightarrow> 'd vring \<Rightarrow> 'd vring res" where
  "put_chain flags bufs avail_idx v =
     (let head = vr_free_head v;
          v1 = v\<lparr>vr_free_count := vr_free_count v - of_nat (length bufs)\<rparr>
      in bind_res (write_descs flags bufs head v1) (\<lambda>(last_desc, v2).
         let l = unat last_desc in
         defined (l < length (vr_desc v2) \<and> vr_qsize v2 \<noteq> 0)
           (let d = vr_desc v2 ! l
            in Ok (v2\<lparr>vr_desc := (vr_desc v2)[l := d\<lparr>d_flags := d_flags d AND NOT F_NEXT\<rparr>],
                      vr_avail_ring := (vr_avail_ring v2)[unat (avail_idx mod vr_qsize v2) := head]\<rparr>))))"

definition must_kick :: "u16 \<Rightarrow> u16 \<Rightarrow> u16 \<Rightarrow> bool" where
  "must_kick avail_idx event_idx orig_idx \<longleftrightarrow> avail_idx - event_idx - 1 < avail_idx - orig_idx"

fun release_all :: "mutable_buffer list \<Rightarrow> (u64 \<times> u64) list res" where
  "release_all [] = Ok []"
| "release_all (b # bs) = bind_res (mutable_buffer_release b) (\<lambda>(r, b'). bind_res (release_all bs) (\<lambda>rs. Ok (r # rs)))"

text \<open>The loop over the lists of buffers: the lists not added, the index reached.\<close>

fun writable_loop :: "mutable_buffer list list \<Rightarrow> u16 \<Rightarrow> 'd vring \<Rightarrow> (mutable_buffer list list \<times> u16 \<times> 'd vring) res" where
  "writable_loop [] avail_idx v = Ok ([], avail_idx, v)"
| "writable_loop (buf_list # rest) avail_idx v =
     (if buf_list = [] then writable_loop rest avail_idx v
      else if length buf_list > unat (vr_free_count v) then Ok (buf_list # rest, avail_idx, v)
      else bind_res (release_all buf_list) (\<lambda>rs.
           bind_res (put_chain (F_WRITE OR F_NEXT) rs avail_idx v) (writable_loop rest (avail_idx + 1))))"

text \<open>The result is what is left of the range, and whether the device was notified.  A return from within
  the loop does not store the index.\<close>

definition add_writable_buffers :: "u16 \<Rightarrow> mutable_buffer list list \<Rightarrow> 'd vring \<Rightarrow> (mutable_buffer list list \<times> bool \<times> 'd vring) res" where
  "add_writable_buffers event_idx bufs v =
     (if bufs = [] then Ok ([], False, v)
      else let orig_idx = vr_avail_idx v
           in bind_res (writable_loop bufs orig_idx v) (\<lambda>(rest, avail_idx, v').
                if rest \<noteq> [] then Ok (rest, False, v')
                else Ok ([], must_kick avail_idx event_idx orig_idx, v'\<lparr>vr_avail_idx := avail_idx\<rparr>)))"

text \<open>\<open>emplace\<close> keeps an element that is there.\<close>

definition add_readable_buffer :: "u16 \<Rightarrow> 'd const_buffer list \<Rightarrow> 'd vring \<Rightarrow> (bool \<times> 'd vring) res" where
  "add_readable_buffer event_idx bufs v =
     kbugon (unat (vr_free_count v) < length bufs)
       (let head = vr_free_head v; orig_idx = vr_avail_idx v
        in bind_res (put_chain F_NEXT (map (\<lambda>b. (const_buffer_addr b, cb_size b)) bufs) orig_idx v) (\<lambda>v'.
             let avail_idx = orig_idx + 1; refs = vr_buf_references v'
             in Ok (must_kick avail_idx event_idx orig_idx,
                    v'\<lparr>vr_avail_idx := avail_idx,
                       vr_buf_references := (if head \<in> dom refs then refs else refs(head \<mapsto> bufs))\<rparr>)))"

subsection \<open>Taking buffers back\<close>

text \<open>The loop along a chain: the descriptors visited.\<close>

partial_function (option) walk_chain :: "desc list \<Rightarrow> nat \<Rightarrow> nat list res option" where
  "walk_chain ds i =
     (if i < length ds
      then if d_flags (ds ! i) AND F_NEXT \<noteq> 0
           then Option.bind (walk_chain ds (unat (d_next (ds ! i)))) (\<lambda>r. Some (bind_res r (\<lambda>is. Ok (i # is))))
           else Some (Ok [i])
      else Some (Fail Undefined))"

declare walk_chain.simps [code]

definition free_chain :: "u32 \<Rightarrow> nat list \<Rightarrow> 'd vring \<Rightarrow> 'd vring" where
  "free_chain ident chain v =
     v\<lparr>vr_desc := (vr_desc v)[last chain := (vr_desc v ! last chain)\<lparr>d_next := vr_free_head v\<rparr>],
       vr_free_head := ucast ident, vr_free_count := vr_free_count v + of_nat (length chain)\<rparr>"

definition chain_buffers :: "desc list \<Rightarrow> nat list \<Rightarrow> mutable_buffer list" where
  "chain_buffers ds chain = map (\<lambda>i. mutable_buffer_of (d_addr (ds ! i)) (ucast (d_len (ds ! i)))) chain"

text \<open>One element of the used ring, and the loop.  \<open>us\<close> is the used ring at each load of its index;
  \<open>handle\<close> is what is done with an element and its chain.\<close>

definition take_used :: "(u32 \<Rightarrow> u32 \<Rightarrow> nat list \<Rightarrow> 'd vring \<Rightarrow> 's \<Rightarrow> ('d vring \<times> 's) res) \<Rightarrow> used \<Rightarrow> u16 \<Rightarrow> 'd vring \<Rightarrow> 's \<Rightarrow> ('d vring \<times> 's) res option" where
  "take_used handle u used_index v s =
     (if unat used_index < length (u_ring u)
      then let elem = u_ring u ! unat used_index
           in Option.bind (walk_chain (vr_desc v) (unat (ue_id elem))) (\<lambda>r. Some (bind_res r (\<lambda>chain.
                bind_res (handle (ue_id elem) (ue_len elem) chain v s) (\<lambda>(v', s'). Ok (free_chain (ue_id elem) chain v', s')))))
      else Some (Fail Undefined))"

fun used_loop :: "(u32 \<Rightarrow> u32 \<Rightarrow> nat list \<Rightarrow> 'd vring \<Rightarrow> 's \<Rightarrow> ('d vring \<times> 's) res) \<Rightarrow> used list \<Rightarrow> u16 \<Rightarrow> 'd vring \<Rightarrow> 's \<Rightarrow> ('d vring \<times> 's) res option" where
  "used_loop handle [] used_index v s = None"
| "used_loop handle [u] used_index v s =
     (if used_index = u_idx u then None
      else Option.bind (take_used handle u used_index v s) (\<lambda>r. case r of Ok _ \<Rightarrow> None | Fail e \<Rightarrow> Some (Fail e)))"
| "used_loop handle (u # u' # us) used_index v s =
     (if used_index = u_idx u
      then let v' = v\<lparr>vr_used_event := used_index\<rparr>
           in if used_index = u_idx u' then Some (Ok (v', s))
              else Option.bind (take_used handle u' used_index v' s) (\<lambda>r. case r of
                     Ok (v'', s') \<Rightarrow> used_loop handle us (used_index + 1) v'' s' | Fail e \<Rightarrow> Some (Fail e))
      else Option.bind (take_used handle u used_index v s) (\<lambda>r. case r of
             Ok (v'', s') \<Rightarrow> used_loop handle (u' # us) (used_index + 1) v'' s' | Fail e \<Rightarrow> Some (Fail e)))"

text \<open>\<open>process_used_buffers\<close> passes the buffers of each chain and the length written to \<open>f\<close>.\<close>

definition process_used_buffers :: "(mutable_buffer list \<Rightarrow> u32 \<Rightarrow> 's \<Rightarrow> 's res) \<Rightarrow> used list \<Rightarrow> 'd vring \<Rightarrow> 's \<Rightarrow> ('d vring \<times> 's) res option" where
  "process_used_buffers f us v s =
     used_loop (\<lambda>ident len chain v s. bind_res (f (chain_buffers (vr_desc v) chain) len s) (\<lambda>s'. Ok (v, s'))) us (vr_used_event v) v s"

text \<open>\<open>clean_used_buffers\<close> lets go of the buffers kept for each chain.\<close>

definition clean_used_buffers :: "used list \<Rightarrow> 'd vring \<Rightarrow> 'd vring res option" where
  "clean_used_buffers us v =
     Option.bind (used_loop (\<lambda>ident len chain v s. Ok (v\<lparr>vr_buf_references := (vr_buf_references v)(ucast ident := None)\<rparr>, s)) us (vr_used_event v) v ())
       (\<lambda>r. Some (bind_res r (\<lambda>(v', _). Ok v')))"

end
