(* ===== verification/Vring_Inv.thy ===== *)
theory Vring_Inv
  imports Vring "HOL-Library.Multiset"
begin

text \<open>
  The invariant of a ring: every descriptor is either on the free list or in exactly one chain that
  the device holds.  Handing over and taking back keep it, for any timing of the device.
\<close>

subsection \<open>Free lists and chains\<close>

definition next_of :: "desc list \<Rightarrow> nat \<Rightarrow> u16" where
  "next_of ds i = d_next (ds ! i)"

fun free_list :: "(nat \<Rightarrow> u16) \<Rightarrow> u16 \<Rightarrow> nat list \<Rightarrow> bool" where
  "free_list nx h [] = True"
| "free_list nx h (i # is) = (unat h = i \<and> free_list nx (nx i) is)"

fun is_chain :: "desc list \<Rightarrow> nat list \<Rightarrow> bool" where
  "is_chain ds [] = False"
| "is_chain ds [i] = (d_flags (ds ! i) AND F_NEXT = 0)"
| "is_chain ds (i # j # is) = (d_flags (ds ! i) AND F_NEXT \<noteq> 0 \<and> unat (d_next (ds ! i)) = j \<and> is_chain ds (j # is))"

definition ring_inv :: "'d vring \<Rightarrow> nat list \<Rightarrow> nat list list \<Rightarrow> bool" where
  "ring_inv v fl H \<longleftrightarrow> 0 < unat (vr_qsize v) \<and> length (vr_desc v) = unat (vr_qsize v)
     \<and> length (vr_avail_ring v) = unat (vr_qsize v) \<and> length fl = unat (vr_free_count v)
     \<and> distinct (fl @ concat H) \<and> set (fl @ concat H) = {..<unat (vr_qsize v)}
     \<and> free_list (next_of (vr_desc v)) (vr_free_head v) fl \<and> (\<forall>c\<in>set H. is_chain (vr_desc v) c)"

definition contents :: "desc list \<Rightarrow> nat list \<Rightarrow> (u64 \<times> u32) list" where
  "contents ds c = map (\<lambda>i. (d_addr (ds ! i), d_len (ds ! i))) c"

lemma free_list_cong: "(\<And>i. i \<in> set fl \<Longrightarrow> nx i = nx' i) \<Longrightarrow> free_list nx h fl = free_list nx' h fl"
  by (induction fl arbitrary: h) auto

lemma is_chain_cong:
  "(\<And>i. i \<in> set c \<Longrightarrow> d_flags (ds ! i) = d_flags (ds' ! i)) \<Longrightarrow>
   (\<And>i. i \<in> set (butlast c) \<Longrightarrow> d_next (ds ! i) = d_next (ds' ! i)) \<Longrightarrow> is_chain ds c = is_chain ds' c"
  by (induction ds c rule: is_chain.induct) auto

lemma walk_chain_ok: "is_chain ds c \<Longrightarrow> set c \<subseteq> {..<length ds} \<Longrightarrow> walk_chain ds (hd c) = Some (Ok c)"
proof (induction ds c rule: is_chain.induct)
  case (2 ds i)
  then show ?case by (subst walk_chain.simps) simp
next
  case (3 ds i j "is")
  then show ?case by (subst walk_chain.simps) simp
qed simp

lemma chain_of_free:
  assumes "free_list (next_of ds) h c" and "c \<noteq> []" and "\<forall>i\<in>set (butlast c). d_flags (ds ! i) AND F_NEXT \<noteq> 0"
    and "d_flags (ds ! last c) AND F_NEXT = 0"
  shows "is_chain ds c"
  using assms by (induction ds c arbitrary: h rule: is_chain.induct) (auto simp: next_of_def split: if_splits)

lemma free_list_take: "free_list nx h fl \<Longrightarrow> free_list nx h (take n fl)"
  by (induction fl arbitrary: h n) (auto simp: take_Cons split: nat.split)

lemma free_of_chain:
  assumes "is_chain ds c" and "distinct c" and "free_list nx h fl" and "unat k = hd c"
    and "\<And>i. i \<in> set (butlast c) \<Longrightarrow> nx i = d_next (ds ! i)" and "nx (last c) = h"
  shows "free_list nx k (c @ fl)"
  using assms
proof (induction ds c arbitrary: k rule: is_chain.induct)
  case (3 ds i j "is")
  have "free_list nx (nx i) ((j # is) @ fl)"
    by (rule "3.IH") (use "3.prems" in auto)
  then show ?case using "3.prems"(4) by simp
qed auto

lemma last_not_butlast: "j \<in> set (butlast c) \<Longrightarrow> distinct c \<Longrightarrow> j \<noteq> last c"
  by (cases c rule: rev_cases) auto

lemma flag_or: "(f OR F_NEXT) AND F_NEXT \<noteq> 0" "(f OR (F_WRITE OR F_NEXT)) AND F_NEXT \<noteq> 0"
proof -
  have "bit ((f OR F_NEXT) AND F_NEXT) 0" "bit ((f OR (F_WRITE OR F_NEXT)) AND F_NEXT) 0"
    by (simp_all add: F_NEXT_def bit_or_iff bit_and_iff)
  then show "(f OR F_NEXT) AND F_NEXT \<noteq> 0" "(f OR (F_WRITE OR F_NEXT)) AND F_NEXT \<noteq> 0" by force+
qed

lemma flag_clear: "(f AND NOT F_NEXT) AND F_NEXT = 0"
  by (simp add: and.assoc)

subsection \<open>Handing over\<close>

lemma write_descs_ok:
  assumes "free_list (next_of (vr_desc v)) (vr_free_head v) fl" and "distinct fl"
    and "set fl \<subseteq> {..<length (vr_desc v)}" and "length bufs \<le> length fl"
  shows "\<exists>ds h l. write_descs flags bufs l0 v = Ok (l, v\<lparr>vr_desc := ds, vr_free_head := h\<rparr>)
    \<and> (if bufs = [] then l = l0 else unat l = last (take (length bufs) fl))
    \<and> length ds = length (vr_desc v) \<and> next_of ds = next_of (vr_desc v) \<and> free_list (next_of ds) h (drop (length bufs) fl)
    \<and> (\<forall>i. i \<notin> set (take (length bufs) fl) \<longrightarrow> ds ! i = vr_desc v ! i)
    \<and> contents ds (take (length bufs) fl) = map (\<lambda>(a, s). (a, ucast s)) bufs
    \<and> (\<forall>i\<in>set (take (length bufs) fl). d_flags (ds ! i) = d_flags (vr_desc v ! i) OR flags)"
  using assms
proof (induction bufs arbitrary: l0 v fl)
  case Nil
  then show ?case
    by (intro exI [of _ "vr_desc v"] exI [of _ "vr_free_head v"] exI [of _ l0]) (simp add: contents_def)
next
  case (Cons b bufs)
  obtain a s where b: "b = (a, s)" by (cases b)
  obtain i fl' where fl: "fl = i # fl'" using Cons.prems(4) by (cases fl) auto
  let ?i = "vr_free_head v"
  have i: "unat ?i = i" "i < length (vr_desc v)" "i \<notin> set fl'" using Cons.prems fl by auto
  let ?d = "vr_desc v ! i"
  let ?d' = "?d\<lparr>d_addr := a, d_len := ucast s, d_flags := d_flags ?d OR flags\<rparr>"
  let ?v = "v\<lparr>vr_desc := (vr_desc v)[i := ?d'], vr_free_head := d_next ?d\<rparr>"
  have nx: "next_of (vr_desc ?v) = next_of (vr_desc v)"
    using i(2) by (auto simp: next_of_def fun_eq_iff nth_list_update)
  have "\<exists>ds h l. write_descs flags bufs ?i ?v = Ok (l, ?v\<lparr>vr_desc := ds, vr_free_head := h\<rparr>)
    \<and> (if bufs = [] then l = ?i else unat l = last (take (length bufs) fl'))
    \<and> length ds = length (vr_desc ?v) \<and> next_of ds = next_of (vr_desc ?v) \<and> free_list (next_of ds) h (drop (length bufs) fl')
    \<and> (\<forall>i. i \<notin> set (take (length bufs) fl') \<longrightarrow> ds ! i = vr_desc ?v ! i)
    \<and> contents ds (take (length bufs) fl') = map (\<lambda>(a, s). (a, ucast s)) bufs
    \<and> (\<forall>i\<in>set (take (length bufs) fl'). d_flags (ds ! i) = d_flags (vr_desc ?v ! i) OR flags)"
    by (rule Cons.IH) (use Cons.prems i nx in \<open>auto simp: fl next_of_def\<close>)
  then obtain ds h l where w: "write_descs flags bufs ?i ?v = Ok (l, ?v\<lparr>vr_desc := ds, vr_free_head := h\<rparr>)"
    and r: "if bufs = [] then l = ?i else unat l = last (take (length bufs) fl')"
      "length ds = length (vr_desc ?v)" "next_of ds = next_of (vr_desc ?v)" "free_list (next_of ds) h (drop (length bufs) fl')"
      "\<And>i. i \<notin> set (take (length bufs) fl') \<Longrightarrow> ds ! i = vr_desc ?v ! i"
      "contents ds (take (length bufs) fl') = map (\<lambda>(a, s). (a, ucast s)) bufs"
      "\<And>i. i \<in> set (take (length bufs) fl') \<Longrightarrow> d_flags (ds ! i) = d_flags (vr_desc ?v ! i) OR flags"
    by blast
  have ii: "i \<notin> set (take (length bufs) fl')" using i(3) in_set_takeD by fastforce
  then have di: "ds ! i = ?d'" using r(5) i(2) by simp
  have "write_descs flags ((a, s) # bufs) l0 v = Ok (l, v\<lparr>vr_desc := ds, vr_free_head := h\<rparr>)"
    using w i by (simp add: Let_def)
  moreover have "unat l = last (take (Suc (length bufs)) fl)" using r(1) i(1) Cons.prems(4) by (cases bufs; cases fl') (auto simp: fl)
  moreover have "ds ! j = vr_desc v ! j" if "j \<notin> set (take (Suc (length bufs)) fl)" for j using r(5) that by (simp add: fl)
  moreover have "contents ds (take (Suc (length bufs)) fl) = map (\<lambda>(a, s). (a, ucast s)) ((a, s) # bufs)"
    using r(6) by (simp add: fl contents_def di)
  moreover have "d_flags (ds ! j) = d_flags (vr_desc v ! j) OR flags" if "j \<in> set (take (Suc (length bufs)) fl)" for j
    using r(7) [of j] that di i(2) ii by (cases "j = i") (auto simp: fl)
  ultimately show ?case using r(2,3,4) nx
    by (intro exI [of _ ds] exI [of _ h] exI [of _ l]) (simp add: fl b)
qed

lemma ring_inv_free_count: "ring_inv v fl H \<Longrightarrow> length fl \<le> unat (vr_qsize v)"
proof -
  assume i: "ring_inv v fl H"
  then have "card (set fl) \<le> card {..<unat (vr_qsize v)}" by (intro card_mono) (auto simp: ring_inv_def)
  moreover have "card (set fl) = length fl" using i by (simp add: ring_inv_def distinct_card)
  ultimately show ?thesis by simp
qed

lemma put_chain_ok:
  assumes inv: "ring_inv v fl H" and bufs: "bufs \<noteq> []" "length bufs \<le> length fl"
    and flags: "\<And>f. (f OR flags) AND F_NEXT \<noteq> 0"
  shows "\<exists>v'. put_chain flags bufs avail_idx v = Ok v' \<and> ring_inv v' (drop (length bufs) fl) (take (length bufs) fl # H)
    \<and> contents (vr_desc v') (take (length bufs) fl) = map (\<lambda>(a, s). (a, ucast s)) bufs
    \<and> (\<forall>c\<in>set H. contents (vr_desc v') c = contents (vr_desc v) c)
    \<and> vr_avail_ring v' = (vr_avail_ring v)[unat (avail_idx mod vr_qsize v) := of_nat (hd fl)]
    \<and> vr_avail_idx v' = vr_avail_idx v \<and> vr_used_event v' = vr_used_event v \<and> vr_qsize v' = vr_qsize v
    \<and> vr_buf_references v' = vr_buf_references v"
proof -
  let ?n = "length bufs"
  let ?c = "take ?n fl"
  let ?v1 = "v\<lparr>vr_free_count := vr_free_count v - of_nat ?n\<rparr>"
  note i = inv [unfolded ring_inv_def]
  have c: "?c \<noteq> []" "distinct ?c" "set ?c \<subseteq> {..<length (vr_desc v)}"
    using bufs i by (auto dest: in_set_takeD)
  have d1: "vr_desc ?v1 = vr_desc v" by simp
  have "free_list (next_of (vr_desc ?v1)) (vr_free_head ?v1) fl" "distinct fl" "set fl \<subseteq> {..<length (vr_desc ?v1)}"
    using i by auto
  note write_descs_ok [OF this bufs(2), of flags "vr_free_head v", unfolded d1 if_not_P [OF bufs(1)]]
  then obtain ds h l where w: "write_descs flags bufs (vr_free_head v) ?v1 = Ok (l, ?v1\<lparr>vr_desc := ds, vr_free_head := h\<rparr>)"
    and l: "unat l = last ?c" and r: "length ds = length (vr_desc v)" "next_of ds = next_of (vr_desc v)"
      "free_list (next_of ds) h (drop ?n fl)" "\<forall>i. i \<notin> set ?c \<longrightarrow> ds ! i = vr_desc v ! i"
      "contents ds ?c = map (\<lambda>(a, s). (a, ucast s)) bufs"
      "\<forall>i\<in>set ?c. d_flags (ds ! i) = d_flags (vr_desc v ! i) OR flags"
    by (elim exE conjE) (rule that)
  have lc: "last ?c \<in> set ?c" using c(1) by (rule last_in_set)
  moreover have "last ?c < length ds" using c(3) calculation r(1) by auto
  ultimately have lc: "last ?c \<in> set ?c" "last ?c < length ds" by auto
  let ?ds = "ds[last ?c := (ds ! last ?c)\<lparr>d_flags := d_flags (ds ! last ?c) AND NOT F_NEXT\<rparr>]"
  let ?v = "v\<lparr>vr_free_count := vr_free_count v - of_nat ?n, vr_desc := ?ds, vr_free_head := h,
      vr_avail_ring := (vr_avail_ring v)[unat (avail_idx mod vr_qsize v) := vr_free_head v]\<rparr>"
  have run: "put_chain flags bufs avail_idx v = Ok ?v"
  proof -
    have "vr_qsize v \<noteq> 0" using i by auto
    then show ?thesis using lc(2) by (simp add: put_chain_def w Let_def l)
  qed
  have nx: "next_of ?ds = next_of (vr_desc v)"
    using lc(2) r(2) by (auto simp: next_of_def fun_eq_iff nth_list_update)
  have other: "?ds ! j = vr_desc v ! j" if "j \<notin> set ?c" for j
    using r(4) that lc(1) by (metis nth_list_update_neq)
  have chain: "is_chain ?ds ?c"
  proof (rule chain_of_free)
    show "free_list (next_of ?ds) (vr_free_head v) ?c" unfolding nx using i by (intro free_list_take) blast
    show "\<forall>i\<in>set (butlast ?c). d_flags (?ds ! i) AND F_NEXT \<noteq> 0"
    proof
      fix j assume j: "j \<in> set (butlast ?c)"
      then have "j \<noteq> last ?c" using c(2) by (rule last_not_butlast)
      moreover have "j \<in> set ?c" using j by (rule in_set_butlastD)
      ultimately show "d_flags (?ds ! j) AND F_NEXT \<noteq> 0" using r(6) flags by simp
    qed
    show "d_flags (?ds ! last ?c) AND F_NEXT = 0" using lc(2) flag_clear by simp
  qed (rule c(1))
  have others: "is_chain ?ds d" if "d \<in> set H" for d
  proof -
    have "j \<notin> set ?c" if "j \<in> set d" for j using that \<open>d \<in> set H\<close> i by (auto dest: in_set_takeD)
    then show ?thesis using is_chain_cong [of d ?ds "vr_desc v"] other that i in_set_butlastD by metis
  qed
  have cont: "contents ?ds d = contents (vr_desc v) d" if "d \<in> set H" for d
  proof -
    have "j \<notin> set ?c" if "j \<in> set d" for j using that \<open>d \<in> set H\<close> i by (auto dest: in_set_takeD)
    then show ?thesis using other by (simp add: contents_def)
  qed
  have same: "contents ?ds ?c = contents ds ?c"
    using lc(2) by (auto simp: contents_def nth_list_update)
  have "unat (of_nat ?n :: u16) = ?n"
    using bufs(2) i unat_lt_pow [of "vr_free_count v"] by (simp add: unat_of_nat)
  then have count: "unat (vr_free_count v - of_nat ?n) = length fl - ?n"
    using bufs(2) i by (subst unat_sub_nowrap) (auto simp: word_le_nat_alt)
  have perm: "distinct (drop ?n fl @ concat (?c # H)) \<and> set (drop ?n fl @ concat (?c # H)) = {..<unat (vr_qsize v)}"
  proof -
    have "mset (drop ?n fl @ concat (?c # H)) = mset (fl @ concat H)"
      by (simp add: union_commute) (metis append_take_drop_id mset_append union_commute)
    then show ?thesis using i by (metis mset_eq_imp_distinct_iff mset_eq_setD)
  qed
  have "ring_inv ?v (drop ?n fl) (?c # H)"
    unfolding ring_inv_def using i r(1,3) perm count chain others nx r(2) by simp
  moreover have "vr_free_head v = of_nat (hd fl)"
  proof -
    have "fl \<noteq> []" using bufs by auto
    then have "unat (vr_free_head v) = hd fl" using i by (cases fl) auto
    moreover have "of_nat (unat (vr_free_head v)) = vr_free_head v" by simp
    ultimately show ?thesis by simp
  qed
  ultimately show ?thesis using run cont same r(5) by (intro exI [of _ ?v]) simp
qed

subsection \<open>Taking back\<close>

lemma ring_inv_other [simp]:
  "ring_inv (v\<lparr>vr_buf_references := R\<rparr>) fl H = ring_inv v fl H"
  "ring_inv (v\<lparr>vr_used_event := u\<rparr>) fl H = ring_inv v fl H"
  "ring_inv (v\<lparr>vr_avail_idx := a\<rparr>) fl H = ring_inv v fl H"
  by (simp_all add: ring_inv_def)

lemma ring_inv_perm: "mset H = mset H' \<Longrightarrow> ring_inv v fl H \<Longrightarrow> ring_inv v fl H'"
proof -
  assume m: "mset H = mset H'" and i: "ring_inv v fl H"
  have "mset (concat K) = sum_mset (image_mset mset (mset K))" for K :: "nat list list"
    by (simp add: mset_concat sum_mset_sum_list [symmetric])
  then have "mset (concat H) = mset (concat H')" using m by simp
  then have "mset (fl @ concat H) = mset (fl @ concat H')" by simp
  then have "distinct (fl @ concat H') = distinct (fl @ concat H)" "set (fl @ concat H') = set (fl @ concat H)" "set H' = set H"
    using m mset_eq_imp_distinct_iff mset_eq_setD by metis+
  with i show ?thesis unfolding ring_inv_def by simp
qed

lemma held_chain:
  assumes "ring_inv v fl (c # H)"
  shows "c \<noteq> []" "distinct c" "set c \<subseteq> {..<length (vr_desc v)}" "length (vr_desc v) < 2 ^ 16"
    "walk_chain (vr_desc v) (hd c) = Some (Ok c)" "hd c < 2 ^ 16"
proof -
  have i: "is_chain (vr_desc v) c" "distinct c" "set c \<subseteq> {..<length (vr_desc v)}" "length (vr_desc v) = unat (vr_qsize v)"
    using assms by (auto simp: ring_inv_def)
  then show "distinct c" "set c \<subseteq> {..<length (vr_desc v)}" by auto
  show "c \<noteq> []" using i(1) by auto
  show "length (vr_desc v) < 2 ^ 16" using unat_lt_pow [of "vr_qsize v"] i(4) by simp
  then show "hd c < 2 ^ 16" using \<open>c \<noteq> []\<close> i(3) hd_in_set by fastforce
  show "walk_chain (vr_desc v) (hd c) = Some (Ok c)" using walk_chain_ok [OF i(1,3)] .
qed

lemma free_chain_ok:
  assumes inv: "ring_inv v fl (c # H)"
  shows "ring_inv (free_chain (of_nat (hd c)) c v) (c @ fl) H"
    and "\<forall>d\<in>set (c # H). contents (vr_desc (free_chain (of_nat (hd c)) c v)) d = contents (vr_desc v) d"
proof -
  note i = inv [unfolded ring_inv_def]
  note hc = held_chain [OF inv]
  let ?ds = "(vr_desc v)[last c := (vr_desc v ! last c)\<lparr>d_next := vr_free_head v\<rparr>]"
  have lc: "last c \<in> set c" using hc(1) by (rule last_in_set)
  moreover have "last c < length (vr_desc v)" using hc(3) calculation by auto
  ultimately have lc: "last c \<in> set c" "last c < length (vr_desc v)" by auto
  have nl: "j \<noteq> last c" if "j \<in> set (butlast c)" for j
    using that hc(2) by (rule last_not_butlast)
  have nx: "next_of ?ds j = (if j = last c then vr_free_head v else next_of (vr_desc v) j)" for j
    using lc(2) by (auto simp: next_of_def nth_list_update)
  have out: "last c \<notin> set fl" using lc(1) i by auto
  have "free_list (next_of ?ds) (of_nat (hd c)) (c @ fl)"
  proof (rule free_of_chain)
    show "is_chain (vr_desc v) c" using i by simp
    show "free_list (next_of ?ds) (vr_free_head v) fl"
      using i free_list_cong [of fl "next_of ?ds" "next_of (vr_desc v)"] nx out by metis
    show "unat (of_nat (hd c) :: u16) = hd c" using hc(6) by (simp add: unat_of_nat)
    show "next_of ?ds j = d_next (vr_desc v ! j)" if "j \<in> set (butlast c)" for j
      using nx nl [OF that] by (simp add: next_of_def)
    show "next_of ?ds (last c) = vr_free_head v" using nx by simp
  qed (rule hc(2))
  moreover have "ucast (of_nat (hd c) :: u32) = (of_nat (hd c) :: u16)"
    by (rule word_eq_unat [THEN iffD2]) (use hc(6) in \<open>simp add: unat_of_nat unsigned_ucast_eq take_bit_eq_mod\<close>)
  moreover have "is_chain ?ds d" if "d \<in> set H" for d
  proof -
    have "last c \<notin> set d" using lc(1) that i by auto
    then have "?ds ! j = vr_desc v ! j" if "j \<in> set d" for j using that by (metis nth_list_update_neq)
    then show ?thesis using is_chain_cong [of d ?ds "vr_desc v"] in_set_butlastD that i by (metis list.set_intros(2))
  qed
  moreover have "unat (vr_free_count v + of_nat (length c)) = length fl + length c"
  proof -
    have "length (c @ fl) \<le> unat (vr_qsize v)"
    proof -
      have "distinct (c @ fl)" "set (c @ fl) \<subseteq> {..<unat (vr_qsize v)}" using i by auto
      then show ?thesis by (metis card_lessThan card_mono distinct_card finite_lessThan)
    qed
    then have "length fl + length c < 2 ^ 16" using hc(4) i by simp
    then show ?thesis using i by (subst unat_add_nowrap) (auto simp: unat_of_nat)
  qed
  moreover have "distinct ((c @ fl) @ concat H) \<and> set ((c @ fl) @ concat H) = {..<unat (vr_qsize v)}"
    using i by auto
  ultimately show "ring_inv (free_chain (of_nat (hd c)) c v) (c @ fl) H"
    unfolding ring_inv_def using i by (simp add: free_chain_def)
  show "\<forall>d\<in>set (c # H). contents (vr_desc (free_chain (of_nat (hd c)) c v)) d = contents (vr_desc v) d"
    using lc(2) by (auto simp: free_chain_def contents_def nth_list_update)
qed

subsection \<open>The loop over the used ring\<close>

text \<open>\<open>published N base ecs u n\<close>: at this load of the index the device has published the first \<open>n\<close> of the
  elements \<open>ecs\<close>, from the running index \<open>base\<close> on, as virtio has it: the element with index \<open>i\<close> is in
  the place \<open>i mod N\<close> of the ring of \<open>N\<close> places, and no more than \<open>N\<close> are outstanding.\<close>

definition published :: "nat \<Rightarrow> u16 \<Rightarrow> (used_elem \<times> nat list) list \<Rightarrow> used \<Rightarrow> nat \<Rightarrow> bool" where
  "published N base ecs u n \<longleftrightarrow> n \<le> length ecs \<and> n \<le> N \<and> u_idx u = base + of_nat n
     \<and> length (u_ring u) = N \<and> N < 2 ^ 16 \<and> (\<forall>k<n. u_ring u ! ((unat base + k) mod N) = fst (ecs ! k))"

text \<open>\<open>drained f g ds ecs H fl v s base m v' s'\<close>: the first \<open>m\<close> chains were taken back, in order.\<close>

definition drained :: "((u64 \<times> u32) list \<Rightarrow> u32 \<Rightarrow> 's \<Rightarrow> 's) \<Rightarrow> (u32 \<Rightarrow> (u16 \<rightharpoonup> 'd const_buffer list) \<Rightarrow> (u16 \<rightharpoonup> 'd const_buffer list))
    \<Rightarrow> desc list \<Rightarrow> (used_elem \<times> nat list) list \<Rightarrow> nat list list \<Rightarrow> nat list \<Rightarrow> 'd vring \<Rightarrow> 's \<Rightarrow> u16 \<Rightarrow> nat \<Rightarrow> 'd vring \<Rightarrow> 's \<Rightarrow> bool" where
  "drained f g ds ecs H fl v s base m v' s' \<longleftrightarrow> m \<le> length ecs
     \<and> s' = fold (\<lambda>(e, c). f (contents ds c) (ue_len e)) (take m ecs) s
     \<and> ring_inv v' (concat (rev (map snd (take m ecs))) @ fl) (map snd (drop m ecs) @ H)
     \<and> vr_used_event v' = base + of_nat m
     \<and> vr_buf_references v' = fold (\<lambda>(e, c). g (ue_id e)) (take m ecs) (vr_buf_references v)
     \<and> vr_avail_idx v' = vr_avail_idx v \<and> vr_avail_ring v' = vr_avail_ring v"

lemma drained_0: "ring_inv v fl (map snd ecs @ H) \<Longrightarrow> drained f g ds ecs H fl v s base 0 (v\<lparr>vr_used_event := base\<rparr>) s"
  by (simp add: drained_def)

lemma drained_Suc:
  "drained f g ds ecs H (c @ fl) (free_chain i c (v\<lparr>vr_buf_references := g (ue_id e) (vr_buf_references v)\<rparr>)) (f (contents ds c) (ue_len e) s) (base + 1) m v' s'
    \<Longrightarrow> drained f g ds ((e, c) # ecs) H fl v s base (Suc m) v' s'"
  by (simp add: drained_def free_chain_def algebra_simps)

lemma drained_event: "drained f g ds ecs H fl (v\<lparr>vr_used_event := b\<rparr>) s base m v' s' = drained f g ds ecs H fl v s base m v' s'"
  by (simp add: drained_def)

lemma published_next: "published N base ecs u n \<Longrightarrow> unat base < N \<Longrightarrow> unat (base + 1) = unat base + 1"
  by (subst unat_add_nowrap) (auto simp: published_def)

lemma published_Suc:
  assumes "published N base (ec # ecs) u (Suc n)" and "unat base < N"
  shows "published N (base + 1) ecs u n"
  using assms published_next [OF assms] by (auto simp: published_def algebra_simps)

lemma published_more:
  "list_all2 (published N base (ec # ecs)) us ns \<Longrightarrow> \<forall>n\<in>set ns. 0 < n \<Longrightarrow> unat base < N \<Longrightarrow>
    list_all2 (published N (base + 1) ecs) us (map (\<lambda>n. n - 1) ns)"
proof (induction us ns rule: list_all2_induct)
  case (Cons u us n ns)
  then show ?case using published_Suc [of N base ec ecs u "n - 1"] by simp
qed simp

lemma take_used_ok:
  assumes inv: "ring_inv v fl (c # H)" and "unat ui < length (u_ring u)" "u_ring u ! unat ui = e" "ue_id e = of_nat (hd c)"
    and "handle (ue_id e) (ue_len e) c v s = Ok (v\<lparr>vr_buf_references := R\<rparr>, s')"
  shows "take_used handle u ui v s = Some (Ok (free_chain (ue_id e) c (v\<lparr>vr_buf_references := R\<rparr>), s'))"
proof -
  note hc = held_chain [OF inv]
  have "unat (of_nat (hd c) :: u32) = hd c" using hc(6) by (simp add: unat_of_nat)
  then show ?thesis using hc(5) assms(2-5) by (simp add: take_used_def)
qed

lemma published_first:
  assumes "published N base ecs u n"
  shows "base = u_idx u \<longleftrightarrow> n = 0"
proof -
  have "unat (of_nat n :: u16) = n" using assms by (simp add: published_def unat_of_nat)
  then have "(of_nat n :: u16) = 0 \<longleftrightarrow> n = 0" by (metis unat_0 unat_eq_zero)
  then show ?thesis using assms by (simp add: published_def)
qed

lemma published_elem:
  assumes "published N base ((e, c) # ecs) u n" and "n \<noteq> 0" and "unat base < N"
  shows "unat base < length (u_ring u)" and "u_ring u ! unat base = e"
  using assms by (auto simp: published_def)

lemma take_used_past:
  assumes "published N base ecs u n" and "\<not> unat base < N"
  shows "take_used handle u base v s = Some (Fail Undefined)"
  using assms by (simp add: take_used_def published_def)

text \<open>The loop takes chains back in order, or it reads past the end of the ring.\<close>

definition drains ::
    "((u64 \<times> u32) list \<Rightarrow> u32 \<Rightarrow> 's \<Rightarrow> 's) \<Rightarrow> (u32 \<Rightarrow> (u16 \<rightharpoonup> 'd const_buffer list) \<Rightarrow> (u16 \<rightharpoonup> 'd const_buffer list))
    \<Rightarrow> desc list \<Rightarrow> (used_elem \<times> nat list) list \<Rightarrow> nat list list \<Rightarrow> nat list \<Rightarrow> 'd vring \<Rightarrow> 's \<Rightarrow> nat \<Rightarrow> u16 \<Rightarrow> nat list
    \<Rightarrow> nat \<Rightarrow> ('d vring \<times> 's) res option \<Rightarrow> bool" where
  "drains f g ds ecs H fl v s N base ns least r \<longleftrightarrow>
     (\<exists>m v' s'. least \<le> m \<and> r = Some (Ok (v', s')) \<and> drained f g ds ecs H fl v s base m v' s')
     \<or> r = Some (Fail Undefined) \<and> (\<exists>n\<in>set ns. N < unat base + n)"

lemma drains_past: "n \<in> set ns \<Longrightarrow> n \<noteq> 0 \<Longrightarrow> \<not> unat base < N \<Longrightarrow> drains f g ds ecs H fl v s N base ns least (Some (Fail Undefined))"
  by (auto simp: drains_def intro!: bexI [of _ n])

lemma drains_Suc:
  assumes "drains f g ds ecs H (c @ fl) (free_chain i c (v\<lparr>vr_buf_references := g (ue_id e) (vr_buf_references v)\<rparr>)) (f (contents ds c) (ue_len e) s)
      N (base + 1) (map (\<lambda>n. n - 1) ns) least r"
    and "unat (base + 1) = unat base + 1" and "\<forall>n\<in>set ns. 0 < n"
  shows "drains f g ds ((e, c) # ecs) H fl v s N base ns (Suc least) r"
  using assms(1) unfolding drains_def
proof (elim disjE exE conjE)
  fix m v' s' assume m: "least \<le> m" "r = Some (Ok (v', s'))"
    "drained f g ds ecs H (c @ fl) (free_chain i c (v\<lparr>vr_buf_references := g (ue_id e) (vr_buf_references v)\<rparr>)) (f (contents ds c) (ue_len e) s) (base + 1) m v' s'"
  show "(\<exists>m v' s'. Suc least \<le> m \<and> r = Some (Ok (v', s')) \<and> drained f g ds ((e, c) # ecs) H fl v s base m v' s')
      \<or> r = Some (Fail Undefined) \<and> (\<exists>n\<in>set ns. N < unat base + n)"
    by (intro disjI1 exI [of _ "Suc m"] exI [of _ v'] exI [of _ s']) (use m drained_Suc [OF m(3)] in simp)
next
  assume r: "r = Some (Fail Undefined)" and "\<exists>n\<in>set (map (\<lambda>n. n - 1) ns). N < unat (base + 1) + n"
  then obtain n where n: "n \<in> set ns" "N < unat (base + 1) + (n - 1)" by auto
  moreover have "0 < n" using assms(3) n(1) by blast
  ultimately have "N < unat base + n" using assms(2) by simp
  then show "(\<exists>m v' s'. Suc least \<le> m \<and> r = Some (Ok (v', s')) \<and> drained f g ds ((e, c) # ecs) H fl v s base m v' s')
      \<or> r = Some (Fail Undefined) \<and> (\<exists>n\<in>set ns. N < unat base + n)"
    using r n(1) by blast
qed

lemma drains_subset:
  assumes "drains f g ds ecs H fl v s N base ns k r" and "set ns \<subseteq> set ns'" and "k' \<le> k"
  shows "drains f g ds ecs H fl v s N base ns' k' r"
  using assms(1) unfolding drains_def
proof (elim disjE exE conjE)
  fix m v' s'
  assume "k \<le> m" "r = Some (Ok (v', s'))" "drained f g ds ecs H fl v s base m v' s'"
  then show "(\<exists>m v' s'. k' \<le> m \<and> r = Some (Ok (v', s')) \<and> drained f g ds ecs H fl v s base m v' s')
      \<or> r = Some (Fail Undefined) \<and> (\<exists>n\<in>set ns'. N < unat base + n)"
    using assms(3) by (intro disjI1 exI [of _ m] exI [of _ v'] exI [of _ s']) simp
qed (use assms(2) in blast)

lemma drains_event: "drains f g ds ecs H fl (v\<lparr>vr_used_event := b\<rparr>) s N base ns k r = drains f g ds ecs H fl v s N base ns k r"
  by (simp add: drains_def drained_event)

lemma used_loop_ok:
  assumes "list_all2 (published N base ecs) us ns" and "sorted ns" and "2 * length ecs + 2 \<le> length us"
    and "ring_inv v fl (map snd ecs @ H)"
    and "\<forall>(e, c)\<in>set ecs. ue_id e = of_nat (hd c) \<and> contents (vr_desc v) c = contents ds c"
    and "\<And>e c v s. (e, c) \<in> set ecs \<Longrightarrow> contents (vr_desc v) c = contents ds c \<Longrightarrow>
      handle (ue_id e) (ue_len e) c v s = Ok (v\<lparr>vr_buf_references := g (ue_id e) (vr_buf_references v)\<rparr>, f (contents ds c) (ue_len e) s)"
  shows "drains f g ds ecs H fl v s N base ns (hd ns) (used_loop handle us base v s)"
  using assms
proof (induction ecs arbitrary: base us ns v fl s)
  case Nil
  obtain u1 u2 us' where us: "us = u1 # u2 # us'" using Nil.prems(3) by (cases us; cases "tl us") auto
  then obtain n1 n2 ns' where ns: "ns = n1 # n2 # ns'" using Nil.prems(1) by (auto simp: list_all2_Cons1)
  have "published N base [] u1 n1" "published N base [] u2 n2" using Nil.prems(1) us ns by auto
  then have "n1 = 0" "base = u_idx u1" "base = u_idx u2" by (auto simp: published_def)
  moreover have "drained f g ds [] H fl v s base 0 (v\<lparr>vr_used_event := base\<rparr>) s" using Nil.prems(4) by (rule drained_0)
  ultimately show ?case using ns us unfolding drains_def
    by (intro disjI1 exI [of _ 0] exI [of _ "v\<lparr>vr_used_event := base\<rparr>"] exI [of _ s]) simp
next
  case (Cons ec ecs)
  obtain e c where ec: "ec = (e, c)" by (cases ec)
  obtain u1 u2 us' where us: "us = u1 # u2 # us'" using Cons.prems(3) by (cases us; cases "tl us") auto
  then obtain n1 n2 ns' where ns: "ns = n1 # n2 # ns'" using Cons.prems(1) by (auto simp: list_all2_Cons1)
  have p: "published N base (ec # ecs) u1 n1" "published N base (ec # ecs) u2 n2" using Cons.prems(1) us ns by auto
  have inv: "ring_inv v fl (c # map snd ecs @ H)" using Cons.prems(4) by (simp add: ec)
  have idc: "ue_id e = of_nat (hd c)" "contents (vr_desc v) c = contents ds c" using Cons.prems(5) by (auto simp: ec)
  let ?next = "\<lambda>w. free_chain (ue_id e) c (w\<lparr>vr_buf_references := g (ue_id e) (vr_buf_references w)\<rparr>)"
  let ?s = "f (contents ds c) (ue_len e) s"
  have take: "take_used handle u base w s = Some (Ok (?next w, ?s))"
    if "published N base (ec # ecs) u n" "n \<noteq> 0" "unat base < N" "ring_inv w fl (c # map snd ecs @ H)" "vr_desc w = vr_desc v" for u n w
    by (rule take_used_ok [OF that(4) published_elem [OF that(1) [unfolded ec] that(2,3)] idc(1)])
      (rule Cons.prems(6), simp_all add: ec that(5) idc(2))
  have rest: "drains f g ds (ec # ecs) H fl w s N base ns0 (hd ns0) (used_loop handle us0 (base + 1) (?next w) ?s)"
    if "list_all2 (published N base (ec # ecs)) us0 ns0" "sorted ns0" "\<forall>n\<in>set ns0. 0 < n" "2 * length ecs + 2 \<le> length us0"
      "unat base < N" "ring_inv w fl (c # map snd ecs @ H)" "vr_desc w = vr_desc v" for us0 ns0 w
  proof -
    have fc: "ring_inv (?next w) (c @ fl) (map snd ecs @ H)"
        "\<forall>d\<in>set (c # map snd ecs @ H). contents (vr_desc (?next w)) d = contents (vr_desc w) d"
      using free_chain_ok [of "w\<lparr>vr_buf_references := g (ue_id e) (vr_buf_references w)\<rparr>" fl c "map snd ecs @ H"] that(6)
      by (simp_all add: idc(1))
    have ne: "ns0 \<noteq> []" using that(1,4) by auto
    have "drains f g ds ecs H (c @ fl) (?next w) ?s N (base + 1) (map (\<lambda>n. n - 1) ns0) (hd (map (\<lambda>n. n - 1) ns0))
        (used_loop handle us0 (base + 1) (?next w) ?s)"
    proof (rule Cons.IH [OF published_more [OF that(1,3,5)] _ that(4) fc(1)])
      show "sorted (map (\<lambda>n. n - 1) ns0)" using that(2) by (auto simp: sorted_iff_nth_mono diff_le_mono)
      show "\<forall>(e, c)\<in>set ecs. ue_id e = of_nat (hd c) \<and> contents (vr_desc (?next w)) c = contents ds c"
        using Cons.prems(5) fc(2) that(7) by force
    qed (rule Cons.prems(6); simp)
    moreover have "unat (base + 1) = unat base + 1" using published_next [OF p(1) that(5)] .
    ultimately have "drains f g ds (ec # ecs) H fl w s N base ns0 (Suc (hd (map (\<lambda>n. n - 1) ns0)))
        (used_loop handle us0 (base + 1) (?next w) ?s)"
      unfolding ec using that(3) by (rule drains_Suc)
    then show ?thesis using ne by (elim drains_subset) (auto simp: hd_map)
  qed
  let ?w = "v\<lparr>vr_used_event := base\<rparr>"
  show ?case
  proof (cases "n1 = 0")
    case False
    have l: "used_loop handle us base v s = Option.bind (take_used handle u1 base v s) (\<lambda>r. case r of
        Ok (v'', s') \<Rightarrow> used_loop handle (u2 # us') (base + 1) v'' s' | Fail e \<Rightarrow> Some (Fail e))"
      using published_first [OF p(1)] False us by simp
    have "\<forall>n\<in>set (n2 # ns'). n1 \<le> n" using Cons.prems(2) ns by simp
    then have pos: "\<forall>n\<in>set (n2 # ns'). 0 < n" "n1 \<le> n2" using False by auto
    show ?thesis
    proof (cases "unat base < N")
      case True
      then have "drains f g ds (ec # ecs) H fl v s N base (n2 # ns') n2 (used_loop handle us base v s)"
        using rest [of "u2 # us'" "n2 # ns'" v] Cons.prems(1,2,3) inv us ns pos(1) take [OF p(1) False _ inv refl] l by simp
      then show ?thesis using pos(2) ns by (elim drains_subset) auto
    next
      case False
      then show ?thesis using l take_used_past [OF p(1) False, of handle v s] \<open>n1 \<noteq> 0\<close> ns by (simp add: drains_past [of n1])
    qed
  next
    case True
    show ?thesis
    proof (cases "n2 = 0")
      case n2: True
      then show ?thesis using True published_first [OF p(1)] published_first [OF p(2)] us ns drained_0 [OF Cons.prems(4), of f g ds s base]
        unfolding drains_def by (intro disjI1 exI [of _ 0] exI [of _ ?w] exI [of _ s]) simp
    next
      case n2: False
      have b1: "base = u_idx u1" and b2: "base \<noteq> u_idx u2"
        using published_first [OF p(1)] published_first [OF p(2)] True n2 by simp_all
      have l: "used_loop handle us base v s = Option.bind (take_used handle u2 base ?w s) (\<lambda>r. case r of
          Ok (v'', s') \<Rightarrow> used_loop handle us' (base + 1) v'' s' | Fail e \<Rightarrow> Some (Fail e))"
        by (simp only: us used_loop.simps if_P [OF b1] if_not_P [OF b2] Let_def)
      have "\<forall>n\<in>set ns'. n2 \<le> n" using Cons.prems(2) ns by simp
      then have pos: "\<forall>n\<in>set ns'. 0 < n" using n2 by auto
      have inv': "ring_inv ?w fl (c # map snd ecs @ H)" using inv by simp
      show ?thesis
      proof (cases "unat base < N")
        case b: True
        then have "drains f g ds (ec # ecs) H fl ?w s N base ns' (hd ns') (used_loop handle us base v s)"
          using rest [of us' ns' ?w] Cons.prems(1,2,3) inv' us ns pos take [OF p(2) n2 b inv'] l by simp
        then show ?thesis unfolding drains_event using True ns by (elim drains_subset) auto
      next
        case b: False
        then show ?thesis using l take_used_past [OF p(2) b, of handle ?w s] n2 ns by (simp add: drains_past [of n2])
      qed
    qed
  qed
qed

end
