(* ===== verification/Virtio_Queue.thy ===== *)
theory Virtio_Queue
  imports Vring_Inv
begin

text \<open>
  What the rings of \<open>sys/virtio.hpp\<close> guarantee: the layout of the shared memory, handing chains of
  buffers to the device, taking them back under any timing of the device, and when the device is
  notified; and where the code does not keep these guarantees.
\<close>

subsection \<open>Notification\<close>

lemma must_kick_distance:
  fixes n x :: u16
  shows "n - x - 1 < n \<longleftrightarrow> x < n"
proof (cases "x < n")
  case True
  then have "1 \<le> n - x" by (simp add: word_le_nat_alt word_less_nat_alt unat_sub_nowrap)
  then have "unat (n - x - 1) = unat n - unat x - 1" using True by (simp add: unat_sub_nowrap word_less_nat_alt word_le_nat_alt)
  then show ?thesis using True by (simp add: word_less_nat_alt)
next
  case False
  then have le: "n \<le> x" by simp
  have "n - x - 1 = - 1 - (x - n)" by simp
  then have "unat (n - x - 1) = unat (- 1 :: u16) - unat (x - n)" by (simp only: unat_sub_nowrap word_n1_ge)
  also have "\<dots> = 2 ^ 16 - 1 - unat (x - n)" by (simp add: unsigned_minus_1_eq_mask mask_eq_exp_minus_1)
  also have "\<dots> = 2 ^ 16 - 1 - (unat x - unat n)" using le by (simp add: unat_sub_nowrap)
  also have "\<dots> \<ge> unat n" using unat_lt_pow [of x] le by (simp add: word_le_nat_alt)
  finally show ?thesis using False by (simp add: word_less_nat_alt)
qed

lemma must_kick_count:
  assumes "n < 2 ^ 16"
  shows "must_kick (orig + of_nat n) event orig \<longleftrightarrow> unat (event - orig) < n"
proof -
  have "must_kick (orig + of_nat n) event orig \<longleftrightarrow> of_nat n - (event - orig) - 1 < (of_nat n :: u16)"
    by (simp add: must_kick_def algebra_simps)
  also have "\<dots> \<longleftrightarrow> event - orig < of_nat n" by (rule must_kick_distance)
  also have "\<dots> \<longleftrightarrow> unat (event - orig) < n" using assms by (simp add: word_less_nat_alt unat_of_nat)
  finally show ?thesis .
qed

subsection \<open>Several chains at once\<close>

text \<open>The chains cut from the free list for lists of buffers, and the available ring with their heads.\<close>

fun carve :: "'a list list \<Rightarrow> nat list \<Rightarrow> nat list list" where
  "carve [] fl = []"
| "carve (b # bs) fl = (if b = [] then carve bs fl else take (length b) fl # carve bs (drop (length b) fl))"

fun put_heads :: "u16 \<Rightarrow> u16 \<Rightarrow> nat list list \<Rightarrow> u16 list \<Rightarrow> u16 list" where
  "put_heads q idx [] r = r"
| "put_heads q idx (c # cs) r = put_heads q (idx + 1) cs (r[unat (idx mod q) := of_nat (hd c)])"

definition owned :: "mutable_buffer \<Rightarrow> u64 \<times> u64" where
  "owned b = (mb_ptr b - mb_offset b, mb_size b + mb_offset b)"

lemma release_all_ok: "\<forall>b\<in>set bs. mb_ptr b \<noteq> 0 \<Longrightarrow> release_all bs = Ok (map owned bs)"
  by (induction bs) (simp_all add: mutable_buffer_release_def owned_def)

lemma contents_length: "length (contents ds c) = length c"
  by (simp add: contents_def)

lemma writable_loop_ok:
  assumes "ring_inv v fl H" and "sum_list (map length bls) \<le> length fl" and "\<forall>bl\<in>set bls. \<forall>b\<in>set bl. mb_ptr b \<noteq> 0"
  shows "\<exists>v'. writable_loop bls idx v = Ok ([], idx + of_nat (length (carve bls fl)), v')
    \<and> ring_inv v' (drop (sum_list (map length bls)) fl) (rev (carve bls fl) @ H)
    \<and> concat (map (contents (vr_desc v')) (carve bls fl)) = map (\<lambda>b. (fst (owned b), ucast (snd (owned b)))) (concat bls)
    \<and> (\<forall>c\<in>set H. contents (vr_desc v') c = contents (vr_desc v) c)
    \<and> vr_avail_ring v' = put_heads (vr_qsize v) idx (carve bls fl) (vr_avail_ring v)
    \<and> vr_avail_idx v' = vr_avail_idx v \<and> vr_used_event v' = vr_used_event v \<and> vr_qsize v' = vr_qsize v
    \<and> vr_buf_references v' = vr_buf_references v"
  using assms
proof (induction bls arbitrary: idx v fl H)
  case (Cons bl bls)
  show ?case
  proof (cases "bl = []")
    case True
    then show ?thesis using Cons by simp
  next
    case False
    let ?n = "length bl"
    have n: "length (map owned bl) \<le> length fl" "map owned bl \<noteq> []" using Cons.prems(2) False by simp_all
    have "(f OR (F_WRITE OR F_NEXT)) AND F_NEXT \<noteq> 0" for f by (rule flag_or)
    from put_chain_ok [OF Cons.prems(1) n(2,1) this]
    obtain v1 where p: "put_chain (F_WRITE OR F_NEXT) (map owned bl) idx v = Ok v1"
      and i1: "ring_inv v1 (drop ?n fl) (take ?n fl # H)"
      and c1: "contents (vr_desc v1) (take ?n fl) = map (\<lambda>(a, s). (a, ucast s)) (map owned bl)"
        "\<forall>c\<in>set H. contents (vr_desc v1) c = contents (vr_desc v) c"
      and r1: "vr_avail_ring v1 = (vr_avail_ring v)[unat (idx mod vr_qsize v) := of_nat (hd fl)]"
        "vr_avail_idx v1 = vr_avail_idx v" "vr_used_event v1 = vr_used_event v" "vr_qsize v1 = vr_qsize v"
        "vr_buf_references v1 = vr_buf_references v"
      unfolding length_map by blast
    have "sum_list (map length bls) \<le> length (drop ?n fl)" "\<forall>bl\<in>set bls. \<forall>b\<in>set bl. mb_ptr b \<noteq> 0"
      using Cons.prems(2,3) by auto
    from Cons.IH [OF i1 this, of "idx + 1"]
    obtain v' where w: "writable_loop bls (idx + 1) v1 = Ok ([], idx + 1 + of_nat (length (carve bls (drop ?n fl))), v')"
      and i2: "ring_inv v' (drop (sum_list (map length bls)) (drop ?n fl)) (rev (carve bls (drop ?n fl)) @ take ?n fl # H)"
      and c2: "concat (map (contents (vr_desc v')) (carve bls (drop ?n fl))) = map (\<lambda>b. (fst (owned b), ucast (snd (owned b)))) (concat bls)"
        "\<forall>c\<in>set (take ?n fl # H). contents (vr_desc v') c = contents (vr_desc v1) c"
      and r2: "vr_avail_ring v' = put_heads (vr_qsize v1) (idx + 1) (carve bls (drop ?n fl)) (vr_avail_ring v1)"
        "vr_avail_idx v' = vr_avail_idx v1" "vr_used_event v' = vr_used_event v1" "vr_qsize v' = vr_qsize v1"
        "vr_buf_references v' = vr_buf_references v1"
      by blast
    have "length fl = unat (vr_free_count v)" using Cons.prems(1) by (simp add: ring_inv_def)
    then have "writable_loop (bl # bls) idx v = Ok ([], idx + of_nat (length (carve (bl # bls) fl)), v')"
      using False n(1) p w Cons.prems(3) by (simp add: release_all_ok algebra_simps)
    moreover have "hd (take ?n fl) = hd fl" using False by (simp add: hd_take)
    ultimately show ?thesis using False i2 c1 c2 r1 r2
      by (intro exI [of _ v']) (simp add: case_prod_unfold comp_def add.commute)
  qed
qed simp

lemma ring_inv_new:
  assumes "0 < unat q"
  shows "ring_inv (vring_new q :: 'd vring) [0..<unat q] []"
proof -
  let ?nx = "next_of (vr_desc (vring_new q :: 'd vring))"
  have chain: "free_list ?nx (of_nat k) [k..<unat q]" if "k \<le> unat q" for k
    using that
  proof (induction "unat q - k" arbitrary: k)
    case (Suc d)
    then have k: "k < unat q" "d = unat q - Suc k" by simp_all
    have "unat (of_nat k :: u16) = k" using k(1) unat_lt_pow [of q] by (simp add: unat_of_nat)
    moreover have "free_list ?nx (?nx k) [Suc k..<unat q]"
    proof (cases "Suc k = unat q")
      case False
      then have nx: "?nx k = of_nat (Suc k)"
        using k(1) by (simp add: next_of_def vring_new_def Let_def nth_list_update)
      show ?thesis unfolding nx by (rule Suc.hyps(1) [OF k(2) Suc_leI [OF k(1)]])
    qed simp
    ultimately show ?case using k(1) by (simp add: upt_conv_Cons)
  qed simp
  show ?thesis using assms chain [of 0] by (simp add: ring_inv_def) (simp add: vring_new_def Let_def atLeast0LessThan)
qed

subsection \<open>The layout\<close>

lemma vring_bytes_nat:
  assumes "unat q \<le> 2 ^ 15"
  shows "unat (vring_bytes q) = (18 * unat q + 6 + 4095) div 4096 * 4096 + (8 * unat q + 6 + 4095) div 4096 * 4096"
proof -
  have q: "unat (ucast q :: u64) = unat q" by (rule unat_ucast_up) simp
  have w: "ucast q = (of_nat (unat q) :: u64)" by simp
  have a: "unat (16 * ucast q + 2 * (3 + ucast q) :: u64) = 18 * unat q + 6"
  proof -
    have "16 * ucast q + 2 * (3 + ucast q) = (of_nat (18 * unat q + 6) :: u64)" unfolding w by (simp add: algebra_simps)
    then show ?thesis using assms by (simp only: unat_of_nat) simp
  qed
  have b: "unat (2 * 3 + 8 * ucast q :: u64) = 8 * unat q + 6"
  proof -
    have "2 * 3 + 8 * ucast q = (of_nat (8 * unat q + 6) :: u64)" unfolding w by simp
    then show ?thesis using assms by (simp only: unat_of_nat) simp
  qed
  have a4: "unat (align_up (16 * ucast q + 2 * (3 + ucast q)) (2 ^ 12)) = (18 * unat q + 6 + 2 ^ 12 - 1) div 2 ^ 12 * 2 ^ 12"
    by (subst unat_align_up; (simp only: a)?) (use assms in simp_all)
  have b4: "unat (align_up (2 * 3 + 8 * ucast q) (2 ^ 12)) = (8 * unat q + 6 + 2 ^ 12 - 1) div 2 ^ 12 * 2 ^ 12"
    by (subst unat_align_up; (simp only: b)?) (use assms in simp_all)
  have "unat (align_up (16 * ucast q + 2 * (3 + ucast q)) (2 ^ 12)) + unat (align_up (2 * 3 + 8 * ucast q) (2 ^ 12)) < 2 ^ 64"
  proof -
    have "(n + 2 ^ 12 - 1) div 2 ^ 12 * 2 ^ 12 \<le> n + 2 ^ 12 - 1" for n :: nat by simp
    from add_mono [OF this [of "18 * unat q + 6"] this [of "8 * unat q + 6"]] show ?thesis
      unfolding a4 b4 by (rule le_less_trans) (use assms in simp)
  qed
  then show ?thesis unfolding vring_bytes_def using a4 b4 by (subst unat_add_nowrap) simp_all
qed

lemma vring_order:
  assumes "0 < unat q" and "unat q \<le> 2 ^ 15"
  shows "\<exists>l. fls (vring_bytes q - 1) = Ok l \<and> 12 \<le> l \<and> l \<le> 19 \<and> unat (vring_bytes q) \<le> 2 ^ Suc l"
proof -
  let ?b = "unat (vring_bytes q)"
  have n: "?b = (18 * unat q + 6 + 4095) div 4096 * 4096 + (8 * unat q + 6 + 4095) div 4096 * 4096"
    using assms(2) by (rule vring_bytes_nat)
  have lo: "1 \<le> (18 * unat q + 6 + 4095) div 4096" "1 \<le> (8 * unat q + 6 + 4095) div 4096"
    using assms(1) by (simp_all add: div_greater_zero_iff Suc_le_eq)
  have hi: "(18 * unat q + 6 + 4095) div 4096 \<le> 145" "(8 * unat q + 6 + 4095) div 4096 \<le> 65"
    using assms(2) by (simp_all add: div_le_mono [of _ "_ * 32768 + _", THEN order_trans] less_mult_imp_div_less flip: less_Suc_eq_le)
  have b: "8192 \<le> ?b" "?b \<le> 860160" using lo hi unfolding n by linarith+
  then have "unat (vring_bytes q - 1) = ?b - 1" by (subst unat_sub_nowrap) (auto simp: word_le_nat_alt)
  moreover from this have "vring_bytes q - 1 \<noteq> 0" using b by auto
  then obtain l where l: "fls (vring_bytes q - 1) = Ok l" using fls_Ok by blast
  ultimately have p: "2 ^ l \<le> ?b - 1" "?b - 1 < 2 ^ Suc l" using fls_log [OF l] by simp_all
  have "l < 20"
  proof (rule ccontr)
    assume "\<not> l < 20"
    then have "(2::nat) ^ 20 \<le> 2 ^ l" by (intro power_increasing) auto
    then show False using p(1) b(2) by simp
  qed
  moreover have "12 \<le> l"
  proof (rule ccontr)
    assume "\<not> 12 \<le> l"
    then have "(2::nat) ^ Suc l \<le> 2 ^ 12" by (intro power_increasing) auto
    then show False using p(2) b(1) by simp
  qed
  ultimately show ?thesis using l p(2) b(1) by (intro exI [of _ l]) simp
qed

subsection \<open>Properties\<close>

text \<open>C33: The constructor of a ring of up to 32768 entries asks for a block of pages of order at most 8, and
  the descriptor table, the available ring and the used ring lie in this order in the block, without
  overlap, the used ring page-aligned; nothing reaches past the block.\<close>

theorem vring_layout_fits:
  assumes "0 < unat q" and "unat q \<le> 2 ^ 15" and "vring_alloc q nid st = Ok (l, st')" and "unat (vl_addr l) < 2 ^ 48"
  shows "\<exists>page k. Alloc k nid st = Ok (page, st') \<and> page \<noteq> NO_PFN \<and> k \<le> 8 \<and> vl_addr l = pfn_to_addr page
    \<and> unat (vl_avail l) = unat (vl_addr l) + 16 * unat q
    \<and> unat (vl_avail_end l) = unat (vl_avail l) + 2 * unat q + 6
    \<and> vl_avail_end l \<le> vl_used l \<and> 4096 dvd unat (vl_used l)
    \<and> unat (vl_avail_event l) = unat (vl_used l) + 8 * unat q + 4
    \<and> unat (vl_avail_event l) + 2 \<le> unat (vl_addr l) + 4096 * 2 ^ k"
proof -
  obtain f where f: "fls (vring_bytes q - 1) = Ok f" "12 \<le> f" "f \<le> 19" "unat (vring_bytes q) \<le> 2 ^ Suc f"
    using vring_order [OF assms(1,2)] by blast
  obtain page where page: "Alloc (f - PAGE_SHIFT + 1) nid st = Ok (page, st')" "page \<noteq> NO_PFN"
    and l: "vl_addr l = pfn_to_addr page" "vl_avail l = vl_addr l + ucast q * 16"
      "vl_avail_end l = vl_avail l + 4 + 2 * ucast q + 2" "vl_used l = align_up (vl_avail_end l) (2 ^ 12)"
      "vl_avail_event l = vl_used l + 4 + 8 * ucast q"
    using assms(3) by (auto simp: vring_alloc_def f(1) res_Ok_iff Let_def)
  let ?a = "unat (vl_addr l)"
  let ?n = "unat q"
  have at: "unat (vl_addr l + of_nat m) = ?a + m" if "m < 2 ^ 60" for m
    using assms(4) that by (subst unat_add_nowrap) (simp_all add: unat_of_nat)
  have w: "ucast q = (of_nat ?n :: u64)" by simp
  have "vl_avail l = vl_addr l + of_nat (16 * ?n)" unfolding l(2) w by (simp add: algebra_simps)
  then have avail: "unat (vl_avail l) = ?a + 16 * ?n" using at [of "16 * ?n"] assms(2) by simp
  have "vl_avail_end l = vl_addr l + of_nat (18 * ?n + 6)" unfolding l(3) l(2) w by (simp add: algebra_simps)
  then have ae: "unat (vl_avail_end l) = ?a + (18 * ?n + 6)" using at [of "18 * ?n + 6"] assms(2) by simp
  have a: "4096 dvd ?a"
  proof -
    have "vl_addr l = push_bit 12 page" by (simp add: l(1) pfn_to_addr_def PAGE_SHIFT_def)
    then have "take_bit 12 (vl_addr l) = 0" by (intro bit_eqI) (auto simp: bit_take_bit_iff bit_push_bit_iff)
    then have "?a mod 2 ^ 12 = 0" by (metis take_bit_eq_mod unsigned_0 unsigned_take_bit_eq)
    then show ?thesis by auto
  qed
  have used: "unat (vl_used l) = ?a + (18 * ?n + 6 + 4095) div 4096 * 4096"
  proof -
    have "unat (vl_used l) = (?a + (18 * ?n + 6) + 2 ^ 12 - 1) div 2 ^ 12 * 2 ^ 12"
      unfolding l(4) using assms(2,4) ae by (subst unat_align_up) simp_all
    moreover obtain b where b: "?a = 4096 * b" using a by blast
    moreover have "(4096 * b + m) div 4096 = b + m div 4096" for m by simp
    from this [of "18 * ?n + 6 + 4095"] have "(4096 * b + (18 * ?n + 6) + 2 ^ 12 - 1) div 2 ^ 12 = b + (18 * ?n + 6 + 4095) div 4096"
      by (simp add: add.assoc)
    ultimately show ?thesis by simp
  qed
  have "(18 * ?n + 6 + 4095) div 4096 * 4096 \<le> 18 * ?n + 6 + 4095" by simp
  moreover have off: "unat (of_nat (8 * ?n + 4) :: u64) = 8 * ?n + 4"
    using assms(2) by (simp only: unat_of_nat) simp
  ultimately have "unat (vl_used l) + unat (of_nat (8 * ?n + 4) :: u64) < 2 ^ 64"
    unfolding used off using assms(2,4) by simp
  then have "unat (vl_used l + of_nat (8 * ?n + 4)) = unat (vl_used l) + (8 * ?n + 4)"
    by (subst unat_add_nowrap) (simp_all only: off, simp)
  moreover have "vl_avail_event l = vl_used l + of_nat (8 * ?n + 4)" unfolding l(5) w by (simp add: algebra_simps)
  ultimately have event: "unat (vl_avail_event l) = unat (vl_used l) + 8 * ?n + 4" by simp
  have "8 * ?n + 6 \<le> (8 * ?n + 6 + 4095) div 4096 * 4096" using div_mult_mod_eq [of "8 * ?n + 6 + 4095" 4096] mod_less_divisor [of 4096 "8 * ?n + 6 + 4095"] by linarith
  moreover have "4096 * 2 ^ (f - PAGE_SHIFT + 1) = (2 :: nat) ^ Suc f"
  proof -
    have "(2 :: nat) ^ Suc f = 2 ^ (12 + (f - 12 + 1))" using f(2) by simp
    then show ?thesis by (simp only: power_add PAGE_SHIFT_def) simp
  qed
  ultimately have fits: "unat (vl_avail_event l) + 2 \<le> ?a + 4096 * 2 ^ (f - PAGE_SHIFT + 1)"
    using f(4) unfolding vring_bytes_nat [OF assms(2)] event used by linarith
  have "18 * ?n + 6 \<le> (18 * ?n + 6 + 4095) div 4096 * 4096" using div_mult_mod_eq [of "18 * ?n + 6 + 4095" 4096] mod_less_divisor [of 4096 "18 * ?n + 6 + 4095"] by linarith
  then have "vl_avail_end l \<le> vl_used l" using ae used by (simp add: word_le_nat_alt)
  moreover have "4096 dvd unat (vl_used l)" unfolding used using a by simp
  moreover have "f - PAGE_SHIFT + 1 \<le> 8" using f(3) by (simp add: PAGE_SHIFT_def)
  ultimately show ?thesis using page l(1) avail ae event fits by (intro exI [of _ page] exI [of _ "f - PAGE_SHIFT + 1"]) simp
qed

text \<open>C18: Handing a packet to the device: with as many free descriptors as buffers, the packet's chain is taken
  from the free list, describes the buffers in order, and its head is published in the next slot of the
  available ring; the chains the device holds keep their contents; the device is notified exactly if
  it asked for the index just published.\<close>

theorem add_readable_buffer_correct:
  assumes "ring_inv v fl H" and "bufs \<noteq> []" and "length bufs \<le> length fl"
  shows "\<exists>v'. add_readable_buffer event_idx bufs v = Ok (event_idx = vr_avail_idx v, v')
    \<and> ring_inv v' (drop (length bufs) fl) (take (length bufs) fl # H)
    \<and> contents (vr_desc v') (take (length bufs) fl) = map (\<lambda>b. (const_buffer_addr b, ucast (cb_size b))) bufs
    \<and> (\<forall>c\<in>set H. contents (vr_desc v') c = contents (vr_desc v) c)
    \<and> vr_avail_ring v' = (vr_avail_ring v)[unat (vr_avail_idx v mod vr_qsize v) := of_nat (hd fl)]
    \<and> vr_avail_idx v' = vr_avail_idx v + 1"
proof -
  let ?b = "map (\<lambda>b. (const_buffer_addr b, cb_size b)) bufs"
  have b: "?b \<noteq> []" "length ?b \<le> length fl" using assms(2,3) by simp_all
  obtain v' where p: "put_chain F_NEXT ?b (vr_avail_idx v) v = Ok v'"
    and r: "ring_inv v' (drop (length ?b) fl) (take (length ?b) fl # H)"
      "contents (vr_desc v') (take (length ?b) fl) = map (\<lambda>(a, s). (a, ucast s)) ?b"
      "\<forall>c\<in>set H. contents (vr_desc v') c = contents (vr_desc v) c"
      "vr_avail_ring v' = (vr_avail_ring v)[unat (vr_avail_idx v mod vr_qsize v) := of_nat (hd fl)]"
    using put_chain_ok [OF assms(1) b flag_or(1)] by blast
  have "length fl = unat (vr_free_count v)" using assms(1) by (simp add: ring_inv_def)
  moreover have "must_kick (vr_avail_idx v + 1) event_idx (vr_avail_idx v) = (event_idx = vr_avail_idx v)"
    using must_kick_count [of 1 "vr_avail_idx v" event_idx] by (simp add: unat_eq_zero)
  ultimately show ?thesis using p r assms(3) by (auto simp: add_readable_buffer_def Let_def comp_def)
qed

text \<open>C12: Filling a ring: when the free descriptors suffice for all the lists, every list becomes a chain, in
  order, with the memory the buffers own; one store publishes all their heads, and the device is
  notified exactly if the index it waits for is one of those published.\<close>

theorem add_writable_buffers_correct:
  assumes "ring_inv v fl H" and "bls \<noteq> []" and "sum_list (map length bls) \<le> length fl"
    and "\<forall>bl\<in>set bls. \<forall>b\<in>set bl. mb_ptr b \<noteq> 0"
  shows "\<exists>v'. add_writable_buffers event_idx bls v
      = Ok ([], unat (event_idx - vr_avail_idx v) < length (carve bls fl), v')
    \<and> ring_inv v' (drop (sum_list (map length bls)) fl) (rev (carve bls fl) @ H)
    \<and> concat (map (contents (vr_desc v')) (carve bls fl)) = map (\<lambda>b. (fst (owned b), ucast (snd (owned b)))) (concat bls)
    \<and> vr_avail_ring v' = put_heads (vr_qsize v) (vr_avail_idx v) (carve bls fl) (vr_avail_ring v)
    \<and> vr_avail_idx v' = vr_avail_idx v + of_nat (length (carve bls fl))"
proof -
  obtain v' where w: "writable_loop bls (vr_avail_idx v) v = Ok ([], vr_avail_idx v + of_nat (length (carve bls fl)), v')"
    and r: "ring_inv v' (drop (sum_list (map length bls)) fl) (rev (carve bls fl) @ H)"
      "concat (map (contents (vr_desc v')) (carve bls fl)) = map (\<lambda>b. (fst (owned b), ucast (snd (owned b)))) (concat bls)"
      "vr_avail_ring v' = put_heads (vr_qsize v) (vr_avail_idx v) (carve bls fl) (vr_avail_ring v)"
    using writable_loop_ok [OF assms(1,3,4), of "vr_avail_idx v"] by blast
  have "length (carve bls xs) \<le> sum_list (map length bls)" for xs
    by (induction bls xs rule: carve.induct) (auto simp: neq_Nil_conv)
  then have "length (carve bls fl) \<le> length fl" using assms(3) le_trans by blast
  also have "\<dots> < 2 ^ 16" using ring_inv_free_count [OF assms(1)] unat_lt_pow [of "vr_qsize v"] by simp
  finally show ?thesis using w r assms(2) must_kick_count by (simp add: add_writable_buffers_def Let_def)
qed

text \<open>When a later list does not fit, the chains already built are never published: the call returns from
  inside its loop with the descriptors taken and the available index as before.\<close>

theorem add_writable_buffers_partial:
  assumes "ring_inv v fl H" and "a \<noteq> []" and "length a \<le> length fl" and "length fl < length a + length b"
    and "\<forall>x\<in>set a. mb_ptr x \<noteq> 0"
  shows "\<exists>v'. add_writable_buffers event_idx [a, b] v = Ok ([b], False, v')
    \<and> ring_inv v' (drop (length a) fl) (take (length a) fl # H)
    \<and> vr_avail_idx v' = vr_avail_idx v \<and> vr_free_count v' = vr_free_count v - of_nat (length a)"
proof -
  obtain v' where p: "put_chain (F_WRITE OR F_NEXT) (map owned a) (vr_avail_idx v) v = Ok v'"
    and r: "ring_inv v' (drop (length a) fl) (take (length a) fl # H)" "vr_avail_idx v' = vr_avail_idx v"
    using put_chain_ok [OF assms(1) _ _ flag_or(2), of "map owned a" "vr_avail_idx v"] assms(2,3) by auto
  have c: "length fl = unat (vr_free_count v)" "length fl - length a = unat (vr_free_count v')"
    using assms(1) r(1) by (simp_all add: ring_inv_def)
  have "unat (of_nat (length a) :: u16) = length a"
    using assms(3) c(1) unat_lt_pow [of "vr_free_count v"] by (simp add: unat_of_nat)
  then have "vr_free_count v' = vr_free_count v - of_nat (length a)"
    using c assms(3) by (simp add: word_eq_unat unat_sub_nowrap word_le_nat_alt)
  moreover have "b \<noteq> []" using assms(3,4) by auto
  moreover have "\<not> length a > unat (vr_free_count v)" "length b > unat (vr_free_count v')" using assms(3,4) c by linarith+
  ultimately show ?thesis using p r assms(2) release_all_ok [OF assms(5)] by (simp add: add_writable_buffers_def Let_def)
qed

lemma chain_buffers_contents: "chain_buffers ds c = map (\<lambda>(a, l). mutable_buffer_of a (ucast l)) (contents ds c)"
  by (simp add: chain_buffers_def contents_def)

lemma clean_used_buffers_correct:
  assumes "ring_inv v fl (map snd ecs @ H)" and "\<forall>(e, c)\<in>set ecs. ue_id e = of_nat (hd c)"
    and "list_all2 (published N (vr_used_event v) ecs) us ns" and "sorted ns" and "2 * length ecs + 2 \<le> length us"
  shows "(\<exists>m v'. hd ns \<le> m \<and> m \<le> length ecs \<and> clean_used_buffers us v = Some (Ok v')
    \<and> ring_inv v' (concat (rev (map snd (take m ecs))) @ fl) (map snd (drop m ecs) @ H)
    \<and> vr_used_event v' = vr_used_event v + of_nat m
    \<and> vr_buf_references v' = fold (\<lambda>(e, c) r. r(ucast (ue_id e) := None)) (take m ecs) (vr_buf_references v))
  \<or> clean_used_buffers us v = Some (Fail Undefined) \<and> (\<exists>n\<in>set ns. N < unat (vr_used_event v) + n)"
proof -
  have "drains (\<lambda>_ _ s. s) (\<lambda>ident r. r(ucast ident := None)) (vr_desc v) ecs H fl v () N (vr_used_event v) ns (hd ns)
      (used_loop (\<lambda>ident len chain v s. Ok (v\<lparr>vr_buf_references := (vr_buf_references v)(ucast ident := None)\<rparr>, s))
        us (vr_used_event v) v ())"
    using used_loop_ok [OF assms(3,4,5,1), of "vr_desc v" "\<lambda>ident len chain v s. Ok (v\<lparr>vr_buf_references := (vr_buf_references v)(ucast ident := None)\<rparr>, s)"
        "\<lambda>ident r. r(ucast ident := None)" "\<lambda>_ _ s. s" "()"] assms(2) by auto
  then show ?thesis unfolding drains_def
  proof (elim disjE exE conjE)
    fix m v' s'
    assume u: "hd ns \<le> m" "used_loop (\<lambda>ident len chain v s. Ok (v\<lparr>vr_buf_references := (vr_buf_references v)(ucast ident := None)\<rparr>, s))
        us (vr_used_event v) v () = Some (Ok (v', s'))"
      and d: "drained (\<lambda>_ _ s. s) (\<lambda>ident r. r(ucast ident := None)) (vr_desc v) ecs H fl v () (vr_used_event v) m v' s'"
    then show ?thesis by (intro disjI1 exI [of _ m] exI [of _ v']) (simp add: clean_used_buffers_def drained_def)
  qed (simp add: clean_used_buffers_def)
qed

text \<open>C7: Taking buffers back, whatever the device publishes while the loop runs, with the \<open>i\<close>-th element of
  its life at \<open>i mod N\<close> in the ring of \<open>N\<close> places.  The loop ends as soon as two loads in a row find
  nothing new; it has handled, in order, at least the
  chains published at its first load and no chain that was not published; each chain's buffers were
  given to the handler with the addresses and lengths that were handed over, its descriptors are free
  again, and the other chains are still the device's.  The one other outcome is undefined, and only when the
  device has published past the first lap of the ring: the driver, which does not take its
  index modulo \<open>N\<close>, reads outside the ring.\<close>

theorem process_used_buffers_correct:
  assumes "ring_inv v fl (map snd ecs @ H)" and "\<forall>(e, c)\<in>set ecs. ue_id e = of_nat (hd c)"
    and "list_all2 (published N (vr_used_event v) ecs) us ns" and "sorted ns" and "2 * length ecs + 2 \<le> length us"
    and "\<And>bufs len s. f bufs len s = Ok (f' bufs len s)"
  shows "(\<exists>m v'. hd ns \<le> m \<and> m \<le> length ecs
    \<and> process_used_buffers f us v s = Some (Ok (v', fold (\<lambda>(e, c). f' (chain_buffers (vr_desc v) c) (ue_len e)) (take m ecs) s))
    \<and> ring_inv v' (concat (rev (map snd (take m ecs))) @ fl) (map snd (drop m ecs) @ H)
    \<and> vr_used_event v' = vr_used_event v + of_nat m)
  \<or> process_used_buffers f us v s = Some (Fail Undefined) \<and> (\<exists>n\<in>set ns. N < unat (vr_used_event v) + n)"
proof -
  let ?g = "\<lambda>bufs. f' (map (\<lambda>(a, l). mutable_buffer_of a (ucast l)) bufs)"
  let ?h = "\<lambda>ident len chain v s. bind_res (f (chain_buffers (vr_desc v) chain) len s) (\<lambda>s'. Ok (v, s'))"
  have "drains ?g (\<lambda>_ r. r) (vr_desc v) ecs H fl v s N (vr_used_event v) ns (hd ns) (used_loop ?h us (vr_used_event v) v s)"
    using used_loop_ok [OF assms(3,4,5,1), of "vr_desc v" ?h "\<lambda>_ r. r" ?g s] assms(2,6) by (auto simp: chain_buffers_contents)
  then show ?thesis unfolding drains_def
  proof (elim disjE exE conjE)
    fix m v' s'
    assume "hd ns \<le> m" "used_loop ?h us (vr_used_event v) v s = Some (Ok (v', s'))"
      and "drained ?g (\<lambda>_ r. r) (vr_desc v) ecs H fl v s (vr_used_event v) m v' s'"
    then show ?thesis
      by (intro disjI1 exI [of _ m] exI [of _ v']) (simp add: process_used_buffers_def drained_def chain_buffers_contents)
  qed (simp add: process_used_buffers_def)
qed

text \<open>C25: The used ring is indexed with the running index itself, not modulo the size of the ring: once the
  driver has taken back as many chains as the ring has entries, the next one makes both routines read
  outside the ring.\<close>

theorem used_ring_not_wrapped:
  assumes "u_idx u \<noteq> vr_used_event v" and "length (u_ring u) \<le> unat (vr_used_event v)"
  shows "process_used_buffers f (u # us) v s = Some (Fail Undefined) \<and> clean_used_buffers (u # us) v = Some (Fail Undefined)"
  using assms by (cases us) (auto simp: process_used_buffers_def clean_used_buffers_def take_used_def)

subsection \<open>Witnesses\<close>

text \<open>A ring of four descriptors, and the same with the first one in the device's hands.\<close>

definition ring4 :: "unit vring" where "ring4 = vring_new 4"

definition ring4_held :: "unit vring" where "ring4_held = ring4\<lparr>vr_free_head := 1, vr_free_count := 3\<rparr>"

lemma ring4_inv: "ring_inv ring4 [0, 1, 2, 3] []"
proof -
  have "[0..<4] = [0, 1, 2, 3]" by (simp add: upt_conv_Cons)
  then show ?thesis using ring_inv_new [of 4] by (simp add: ring4_def)
qed

lemma ring4_held_inv: "ring_inv ring4_held [1, 2, 3] [[0]]"
  using ring4_inv by (auto simp: ring_inv_def ring4_held_def ring4_def vring_new_def Let_def next_of_def upt_rec F_NEXT_def)

definition node16 :: page_allocators where
  "node16 = \<lparr>allocators = [(\<lambda>_. [])(2 := [16])], page_map = (\<lambda>_. Some page0)(16 \<mapsto> page0\<lparr>pg_usage := PAGE_ALLOCATOR, pg_order := 2\<rparr>)\<rparr>"

lemma vring_alloc16: "\<exists>l st'. vring_alloc 256 0 node16 = Ok (l, st') \<and> vl_addr l = 0x10000"
proof -
  have "vring_bytes 256 - 1 = 12287" by (simp add: vring_bytes_def align_up_def align_down_def)
  then have f: "fls (vring_bytes 256 - 1) = Ok 13" by (intro fls_unique) simp_all
  have "[2..<12] = [2, 3, 4, 5, 6, 7, 8, 9, 10, 11]" by (simp add: upt_conv_Cons)
  then have "\<exists>st'. Alloc 2 0 node16 = Ok (16, st')"
    by (simp add: Alloc_def on_allocator_def node16_def run_buddy del: upt_Suc)
  moreover have "13 - PAGE_SHIFT + 1 = 2" by (simp add: PAGE_SHIFT_def)
  ultimately show ?thesis unfolding vring_alloc_def f bind_res.simps
    by (auto simp: NO_PFN_def pfn_to_addr_def Let_def PAGE_SHIFT_def push_bit_eq_mult simp del: One_nat_def)
qed

theorem vring_layout_fits_witness:
  "\<exists>l st' k. vring_alloc 256 0 node16 = Ok (l, st') \<and> unat (vl_avail l) = 0x10000 + 16 * 256 \<and> k \<le> 8
     \<and> unat (vl_avail_event l) + 2 \<le> 0x10000 + 4096 * 2 ^ k"
proof -
  obtain l st' where l: "vring_alloc 256 0 node16 = Ok (l, st')" "vl_addr l = 0x10000" using vring_alloc16 by blast
  then obtain page k where "k \<le> 8" "unat (vl_avail l) = unat (vl_addr l) + 16 * unat (256 :: u16)"
      "unat (vl_avail_event l) + 2 \<le> unat (vl_addr l) + 4096 * 2 ^ k"
    using vring_layout_fits [OF _ _ l(1)] by auto
  then show ?thesis using l by (intro exI [of _ l] exI [of _ st'] exI [of _ k]) simp
qed

theorem add_readable_buffer_correct_witness:
  "\<exists>v'. add_readable_buffer 0 [const_buffer_of 0x1000 12 (), const_buffer_of 0x2000 60 ()] ring4 = Ok (True, v')
    \<and> ring_inv v' [2, 3] [[0, 1]] \<and> contents (vr_desc v') [0, 1] = [(0x1000, 12), (0x2000, 60)]"
  using add_readable_buffer_correct [OF ring4_inv, of "[const_buffer_of 0x1000 12 (), const_buffer_of 0x2000 60 ()]" 0]
  by (auto simp: const_buffer_of_def const_buffer_addr_def ring4_def vring_new_def Let_def)

theorem add_writable_buffers_correct_witness:
  "\<exists>v'. add_writable_buffers 0 [[mutable_buffer_of 0x1000 2048], [mutable_buffer_of 0x2000 2048]] ring4 = Ok ([], True, v')
    \<and> ring_inv v' [2, 3] [[1], [0]]"
  using add_writable_buffers_correct [OF ring4_inv, of "[[mutable_buffer_of 0x1000 2048], [mutable_buffer_of 0x2000 2048]]" 0]
  by (auto simp: mutable_buffer_of_def ring4_def vring_new_def Let_def)

theorem add_writable_buffers_partial_witness:
  "\<exists>v'. add_writable_buffers 0 [[mutable_buffer_of 0x1000 2048], replicate 4 (mutable_buffer_of 0x2000 2048)] ring4
      = Ok ([replicate 4 (mutable_buffer_of 0x2000 2048)], False, v')
    \<and> ring_inv v' [1, 2, 3] [[0]] \<and> vr_avail_idx v' = 0 \<and> vr_free_count v' = 3"
  using add_writable_buffers_partial [OF ring4_inv, of "[mutable_buffer_of 0x1000 2048]" "replicate 4 (mutable_buffer_of 0x2000 2048)" 0]
  by (auto simp: mutable_buffer_of_def ring4_def vring_new_def Let_def)

definition used1 :: used where "used1 = \<lparr>u_idx = 1, u_ring = replicate 4 \<lparr>ue_id = 0, ue_len = 60\<rparr>\<rparr>"

definition elem1 :: "(used_elem \<times> nat list) list" where "elem1 = [(\<lparr>ue_id = 0, ue_len = 60\<rparr>, [0])]"

theorem process_used_buffers_correct_witness:
  "\<exists>m v'. hd [1, 1, 1, 1] \<le> m \<and> m \<le> length elem1
    \<and> process_used_buffers (\<lambda>bufs len s. Ok (len # s)) [used1, used1, used1, used1] ring4_held []
      = Some (Ok (v', fold (\<lambda>(e, c) s. ue_len e # s) (take m elem1) []))
    \<and> ring_inv v' (concat (rev (map snd (take m elem1))) @ [1, 2, 3]) (map snd (drop m elem1) @ [])
    \<and> vr_used_event v' = vr_used_event ring4_held + of_nat m"
proof -
  have inv: "ring_inv ring4_held [1, 2, 3] (map snd elem1 @ [])" using ring4_held_inv by (simp add: elem1_def)
  have ids: "\<forall>(e, c)\<in>set elem1. ue_id e = of_nat (hd c)" by (simp add: elem1_def)
  have "published 4 0 elem1 used1 1" by (simp add: published_def elem1_def used1_def)
  moreover have e: "vr_used_event ring4_held = 0" by (simp add: ring4_held_def ring4_def vring_new_def Let_def)
  ultimately have "list_all2 (published 4 (vr_used_event ring4_held) elem1) [used1, used1, used1, used1] [1, 1, 1, 1]" by simp
  from process_used_buffers_correct [where f = "\<lambda>bufs len s. Ok (len # s)" and f' = "\<lambda>bufs len s. len # s" and s = "[]", OF inv ids this]
  show ?thesis by (simp add: elem1_def e)
qed

theorem used_ring_not_wrapped_witness:
  "process_used_buffers (\<lambda>bufs len s. Ok s) [\<lparr>u_idx = 5, u_ring = replicate 4 \<lparr>ue_id = 0, ue_len = 60\<rparr>\<rparr>] (ring4\<lparr>vr_used_event := 4\<rparr>) () = Some (Fail Undefined)
   \<and> clean_used_buffers [\<lparr>u_idx = 5, u_ring = replicate 4 \<lparr>ue_id = 0, ue_len = 60\<rparr>\<rparr>] (ring4\<lparr>vr_used_event := 4\<rparr>) = Some (Fail Undefined)"
  by (rule used_ring_not_wrapped) simp_all

end
