(* ===== verification/Virtio_Driver.thy ===== *)
theory Virtio_Driver
  imports Virtio_Queue Pci
begin

text \<open>
  \<open>sys/virtio.hpp\<close>, class \<open>virtio_driver\<close>: the registers of a legacy virtio device in its first base
  address register, and bringing the device up: its queues, its features, its status.
\<close>

definition VIRTIO_VENDOR_ID :: u16 where "VIRTIO_VENDOR_ID = 0x1AF4"
definition DEVICE_FEATURES :: u64 where "DEVICE_FEATURES = 0"
definition GUEST_FEATURES :: u64 where "GUEST_FEATURES = 4"
definition QUEUE_ADDRESS :: u64 where "QUEUE_ADDRESS = 8"
definition QUEUE_SIZE :: u64 where "QUEUE_SIZE = 12"
definition QUEUE_SELECT :: u64 where "QUEUE_SELECT = 14"
definition QUEUE_NOTIFY :: u64 where "QUEUE_NOTIFY = 16"
definition DEVICE_STATUS :: u64 where "DEVICE_STATUS = 18"
definition QUEUE_VECTOR :: u64 where "QUEUE_VECTOR = 22"
definition DEVICE_CONFIGURATION :: u64 where "DEVICE_CONFIGURATION = 24"
definition CONFIG_ACKNOWLEDGE :: u8 where "CONFIG_ACKNOWLEDGE = 1"
definition CONFIG_DRIVER :: u8 where "CONFIG_DRIVER = 2"
definition CONFIG_DRIVER_OK :: u8 where "CONFIG_DRIVER_OK = 4"
definition QUEUE_ADDRESS_SHIFT :: nat where "QUEUE_ADDRESS_SHIFT = 12"
definition VIRTIO_RING_F_EVENT_IDX :: nat where "VIRTIO_RING_F_EVENT_IDX = 29"

definition kick :: "'h hardware \<Rightarrow> pci_bar \<Rightarrow> nat \<Rightarrow> ('h, unit) io" where
  "kick hw bar0 idx = pci_bar_write16 hw bar0 QUEUE_NOTIFY (of_nat idx)"

definition device_config_read8 :: "'h hardware \<Rightarrow> pci_bar \<Rightarrow> u64 \<Rightarrow> ('h, u8) io" where
  "device_config_read8 hw bar0 idx = pci_bar_read8 hw bar0 (DEVICE_CONFIGURATION + idx)"

definition get_device_status :: "'h hardware \<Rightarrow> pci_bar \<Rightarrow> ('h, u8) io" where
  "get_device_status hw bar0 = pci_bar_read8 hw bar0 DEVICE_STATUS"

definition set_device_status :: "'h hardware \<Rightarrow> pci_bar \<Rightarrow> u8 \<Rightarrow> ('h, unit) io" where
  "set_device_status hw bar0 status = pci_bar_write8 hw bar0 DEVICE_STATUS status"

definition add_device_status :: "'h hardware \<Rightarrow> pci_bar \<Rightarrow> u8 \<Rightarrow> ('h, unit) io" where
  "add_device_status hw bar0 status =
     io_bind (get_device_status hw bar0) (\<lambda>s. set_device_status hw bar0 (s OR status))"

definition reset :: "'h hardware \<Rightarrow> pci_bar \<Rightarrow> ('h, unit) io" where
  "reset hw bar0 = set_device_status hw bar0 0"

definition select_queue :: "'h hardware \<Rightarrow> pci_bar \<Rightarrow> u16 \<Rightarrow> ('h, unit) io" where
  "select_queue hw bar0 queue = pci_bar_write16 hw bar0 QUEUE_SELECT queue"

definition get_queue_size :: "'h hardware \<Rightarrow> pci_bar \<Rightarrow> ('h, u16) io" where
  "get_queue_size hw bar0 = pci_bar_read16 hw bar0 QUEUE_SIZE"

definition set_queue_addr :: "'h hardware \<Rightarrow> pci_bar \<Rightarrow> u64 \<Rightarrow> 'h \<Rightarrow> 'h res" where
  "set_queue_addr hw bar0 addr h =
     (let addr_val = drop_bit QUEUE_ADDRESS_SHIFT addr
      in kassert (addr_val \<le> 0xffffffff) (Ok (snd (pci_bar_write32 hw bar0 QUEUE_ADDRESS (ucast addr_val) h))))"

definition set_queue_vector :: "'h hardware \<Rightarrow> pci_bar \<Rightarrow> u16 \<Rightarrow> ('h, unit) io" where
  "set_queue_vector hw bar0 index = pci_bar_write16 hw bar0 QUEUE_VECTOR index"

text \<open>The queues of the device, until one has size 0; \<open>None\<close> when there is no end.\<close>

type_synonym 'd queue = "vring_layout \<times> 'd vring"

definition setup_virt_queue :: "'h hardware \<Rightarrow> pci_bar \<Rightarrow> nid \<Rightarrow> u16 \<Rightarrow> 'd queue list \<Rightarrow> page_allocators \<Rightarrow> 'h
    \<Rightarrow> ('d queue list \<times> page_allocators \<times> 'h) res" where
  "setup_virt_queue hw bar0 nid qsize queues st h =
     bind_res (vring_alloc qsize nid st) (\<lambda>(l, st').
     bind_res (set_queue_addr hw bar0 (vl_addr l) h) (\<lambda>h'.
     Ok (queues @ [(l, vring_new qsize)], st', snd (set_queue_vector hw bar0 (of_nat (length queues)) h'))))"

partial_function (option) setup_virt_queues :: "'h hardware \<Rightarrow> pci_bar \<Rightarrow> nid \<Rightarrow> 'd queue list \<Rightarrow> page_allocators \<Rightarrow> 'h
    \<Rightarrow> ('d queue list \<times> page_allocators \<times> 'h) res option" where
  "setup_virt_queues hw bar0 nid queues st h =
     (case io_bind (select_queue hw bar0 (of_nat (length queues))) (\<lambda>_. get_queue_size hw bar0) h of (qsize, h1) \<Rightarrow>
        if qsize = 0 then Some (Ok (queues, st, h1))
        else case setup_virt_queue hw bar0 nid qsize queues st h1 of
               Fail e \<Rightarrow> Some (Fail e)
             | Ok (queues', st', h2) \<Rightarrow> setup_virt_queues hw bar0 nid queues' st' h2)"

definition get_device_features :: "'h hardware \<Rightarrow> pci_bar \<Rightarrow> ('h, u32) io" where
  "get_device_features hw bar0 = pci_bar_read32 hw bar0 DEVICE_FEATURES"

definition set_guest_features :: "'h hardware \<Rightarrow> pci_bar \<Rightarrow> u32 \<Rightarrow> ('h, unit) io" where
  "set_guest_features hw bar0 features = pci_bar_write32 hw bar0 GUEST_FEATURES features"

definition setup_features :: "'h hardware \<Rightarrow> pci_bar \<Rightarrow> u32 \<Rightarrow> 'h \<Rightarrow> 'h res" where
  "setup_features hw bar0 driver_features h =
     (let (device_features, h1) = get_device_features hw bar0 h;
          driver_features = driver_features OR push_bit VIRTIO_RING_F_EVENT_IDX 1;
          subset = device_features AND driver_features
      in kassert (subset AND push_bit VIRTIO_RING_F_EVENT_IDX 1 \<noteq> 0) (Ok (snd (set_guest_features hw bar0 subset h1))))"

text \<open>The constructor: the device afterwards, its queues, the memory and the hardware.\<close>

record ('h, 'f) machine =
  m_regions :: "'f regions"
  m_tables :: page_tables
  m_pages :: page_allocators
  m_hw :: 'h

definition virtio_driver_new :: "'h hardware \<Rightarrow> u64 \<Rightarrow> nid \<Rightarrow> u32 \<Rightarrow> pci_device \<Rightarrow> ('h, 'f) machine
    \<Rightarrow> (pci_device \<times> 'd queue list \<times> ('h, 'f) machine) res option" where
  "virtio_driver_new hw cr3 nid driver_features dev m =
     (case get_bar dev 0 of
        Fail e \<Rightarrow> Some (Fail e)
      | Ok _ \<Rightarrow>
          let (_, h1) = set_bus_master hw (pd_function dev) True (m_hw m)
          in Option.bind (msix_enable hw cr3 dev (m_regions m, node_buddy nid (m_pages m), m_tables m) h1) (\<lambda>r. case r of
               Fail e \<Rightarrow> Some (Fail e)
             | Ok (msix, dev', (regions, buddy, tables), h2) \<Rightarrow>
                 if \<not> msix then Some (Fail Bug_On)
                 else (case get_bar dev' 0 of
                   Fail e \<Rightarrow> Some (Fail e)
                 | Ok bar0 \<Rightarrow>
                     let (_, h3) = reset hw bar0 h2;
                         (_, h4) = add_device_status hw bar0 (CONFIG_ACKNOWLEDGE OR CONFIG_DRIVER) h3
                     in Option.bind (setup_virt_queues hw bar0 nid [] (set_node_buddy nid buddy (m_pages m)) h4) (\<lambda>r. Some
                          (bind_res r (\<lambda>(queues, st, h5).
                           bind_res (setup_features hw bar0 driver_features h5) (\<lambda>h6.
                           Ok (dev', queues, \<lparr>m_regions = regions, m_tables = tables, m_pages = st, m_hw = h6\<rparr>))))))))"

text \<open>\<open>probe\<close>: whether the device is one of the driver's kind.\<close>

definition virtio_matches :: "'h hardware \<Rightarrow> u16 \<Rightarrow> pci_device \<Rightarrow> ('h, bool) io" where
  "virtio_matches hw device_id dev =
     io_bind (get_vendor_id hw (pd_function dev)) (\<lambda>vendor.
       if vendor = VIRTIO_VENDOR_ID
       then io_bind (get_device_id hw (pd_function dev)) (\<lambda>d. io_return (d = device_id))
       else io_return False)"

subsection \<open>Lemmas\<close>

text \<open>A device with \<open>sizes\<close> as the sizes of its queues.\<close>

definition answers :: "'h hardware \<Rightarrow> pci_bar \<Rightarrow> ('h \<Rightarrow> bool) \<Rightarrow> u16 list \<Rightarrow> bool" where
  "answers hw bar0 I sizes \<longleftrightarrow> length sizes < 2 ^ 16 \<and> 0 \<notin> set sizes
     \<and> (\<forall>n\<le>length sizes. \<forall>h. I h \<longrightarrow>
          fst (get_queue_size hw bar0 (snd (select_queue hw bar0 (of_nat n) h))) = (sizes @ [0]) ! n
        \<and> I (snd (get_queue_size hw bar0 (snd (select_queue hw bar0 (of_nat n) h)))))
     \<and> (\<forall>v h. I h \<longrightarrow> I (snd (pci_bar_write32 hw bar0 QUEUE_ADDRESS v h)))
     \<and> (\<forall>v h. I h \<longrightarrow> I (snd (set_queue_vector hw bar0 v h)))"

text \<open>Setting up queues ends: with the device's queues in order, or where a queue fails.\<close>

lemma setup_virt_queues_ends:
  assumes a: "answers hw bar0 I sizes" and "I h" and "map (vr_qsize \<circ> snd) queues = take n sizes" and "n \<le> length sizes"
  shows "\<exists>r. setup_virt_queues hw bar0 nid queues st h = Some r \<and>
    (case r of Ok (queues', st', h') \<Rightarrow> map (vr_qsize \<circ> snd) queues' = sizes \<and> I h' | Fail e \<Rightarrow> True)"
  using assms(2-4)
proof (induction "length sizes - n" arbitrary: n queues st h rule: less_induct)
  case less
  let ?q = "io_bind (select_queue hw bar0 (of_nat (length queues))) (\<lambda>_. get_queue_size hw bar0) h"
  have "length queues = n" using arg_cong [OF less.prems(2), of length] less.prems(3) by simp
  then have q: "fst ?q = (sizes @ [0]) ! n" "I (snd ?q)"
    using a less.prems(1,3) by (simp_all add: answers_def io_bind_def split: prod.split) (metis prod.sel)+
  show ?case
  proof (cases "n = length sizes")
    case True
    then have "fst ?q = 0" using q(1) by simp
    then show ?thesis using q(2) less.prems(2) True
      by (intro exI [of _ "Ok (queues, st, snd ?q)"]) (simp add: setup_virt_queues.simps [of hw] case_prod_unfold)
  next
    case False
    then have n: "n < length sizes" using less.prems(3) by simp
    then have nz: "fst ?q \<noteq> 0" using q(1) a by (auto simp: answers_def nth_append) (metis nth_mem)
    show ?thesis
    proof (cases "setup_virt_queue hw bar0 nid (fst ?q) queues st (snd ?q)")
      case (Fail e)
      then show ?thesis using nz by (intro exI [of _ "Fail e"]) (simp add: setup_virt_queues.simps [of hw] case_prod_unfold)
    next
      case (Ok x)
      obtain queues' st' h' where x: "x = (queues', st', h')" by (cases x)
      obtain l h2 where l: "queues' = queues @ [(l, vring_new (fst ?q))]" "set_queue_addr hw bar0 (vl_addr l) (snd ?q) = Ok h2"
        "h' = snd (set_queue_vector hw bar0 (of_nat (length queues)) h2)"
        using Ok unfolding x by (auto simp: setup_virt_queue_def res_Ok_iff)
      have "I h2" using l(2) q(2) a by (auto simp: set_queue_addr_def answers_def res_Ok_iff Let_def)
      then have "I h'" using l(3) a by (simp add: answers_def)
      moreover have "map (vr_qsize \<circ> snd) queues' = take (Suc n) sizes"
        using less.prems(2) q(1) n by (simp add: l(1) vring_new_def Let_def take_Suc_conv_app_nth nth_append)
      ultimately have "\<exists>r. setup_virt_queues hw bar0 nid queues' st' h' = Some r \<and>
          (case r of Ok (queues', st', h') \<Rightarrow> map (vr_qsize \<circ> snd) queues' = sizes \<and> I h' | Fail e \<Rightarrow> True)"
        using n by (intro less.hyps [of "Suc n"]) auto
      then show ?thesis using nz Ok x by (subst setup_virt_queues.simps) (simp add: case_prod_unfold)
    qed
  qed
qed

subsection \<open>Properties\<close>

text \<open>Setting up the queues of a device with finitely many queues ends: either the driver has a ring of the
  right size for every queue of the device, in order, or the allocation of a ring failed.\<close>

theorem virt_queues_set_up:
  assumes "answers hw bar0 I sizes" and "I h"
  shows "\<exists>r. setup_virt_queues hw bar0 nid [] st h = Some r \<and>
    (case r of Ok (queues, st', h') \<Rightarrow> map (vr_qsize \<circ> snd) queues = sizes \<and> I h' | Fail e \<Rightarrow> True)"
  using setup_virt_queues_ends [OF assms, of "[]" 0] by simp

end
