(* ===== verification/Net.thy ===== *)
theory Net
  imports Buffer "HOL-Library.Signed_Division"
begin

text \<open>
  \<open>sys/net.hpp\<close>, \<open>sys/net.cpp\<close>: between lwIP and the network devices.  lwIP is a third-party library:
  its packets are chains of \<open>pbuf\<close>s, here lists, and what its functions return is an argument.
\<close>

definition ETH_PAD_SIZE :: int where "ETH_PAD_SIZE = 2"   \<comment> \<open>\<open>lwipopts.h\<close>\<close>

record pbuf =
  q_payload :: u64
  q_len :: u16

subsection \<open>Sending\<close>

text \<open>The deleter of a buffer: the last segment frees the packet.\<close>

datatype deleter = Pbuf_Free | No_Op

text \<open>The loop over the chain; each segment goes to the front.\<close>

fun output_loop :: "pbuf list \<Rightarrow> deleter const_buffer list \<Rightarrow> deleter const_buffer list" where
  "output_loop [] l = l"
| "output_loop [q] l = const_buffer_of (q_payload q) (ucast (q_len q)) Pbuf_Free # l"
| "output_loop (q # q' # qs) l =
     output_loop (q' # qs) (const_buffer_of (q_payload q) (ucast (q_len q)) No_Op # l)"

text \<open>\<open>eth_output\<close>: \<open>pbuf_header\<close> moves the start of the packet; \<open>send\<close> is the device.  The result is the
  packet, its reference count and the state of the device.\<close>

definition eth_output :: "(int \<Rightarrow> pbuf list \<Rightarrow> pbuf list) \<Rightarrow> (deleter const_buffer list \<Rightarrow> 's \<Rightarrow> 's res) \<Rightarrow> pbuf list \<Rightarrow> nat \<Rightarrow> 's
    \<Rightarrow> (pbuf list \<times> nat \<times> 's) res" where
  "eth_output pbuf_header send p ref s =
     (let p1 = pbuf_header (- ETH_PAD_SIZE) p;
          l = output_loop p1 []
      in bind_res (send l s) (\<lambda>s'. Ok (pbuf_header ETH_PAD_SIZE p1, ref + 1, s')))"

subsection \<open>Receiving\<close>

text \<open>\<open>memcpy\<close>: destination, source and length.\<close>

type_synonym copy = "u64 \<times> u64 \<times> nat"

text \<open>The loop that copies a frame into a chain.  The length of a copy that does not hold the padding would be
  negative.\<close>

fun receive_loop :: "pbuf list \<Rightarrow> bool \<Rightarrow> u64 \<Rightarrow> copy list res" where
  "receive_loop [] first ptr = Ok []"
| "receive_loop (q # qs) first ptr =
     (let add = (if first then ETH_PAD_SIZE else 0)
      in defined (0 \<le> uint (q_len q) - add)
           (bind_res (receive_loop qs False (ptr + ucast (q_len q))) (\<lambda>copies.
              Ok ((q_payload q + of_int add, ptr, nat (uint (q_len q) - add)) # copies))))"

text \<open>\<open>ReceivePacket\<close>: \<open>chain\<close> is what \<open>pbuf_alloc\<close> returned for the length (16 bits wide) with padding.  The
  buffer is destroyed on return.  The result is the length asked for, the copies and the addresses freed.\<close>

definition ReceivePacket :: "(u16 \<Rightarrow> pbuf list option) \<Rightarrow> mutable_buffer \<Rightarrow> u32 \<Rightarrow> (pbuf list \<times> copy list \<times> u64 list) res" where
  "ReceivePacket pbuf_alloc buf len =
     (case pbuf_alloc (ucast (len + of_int ETH_PAD_SIZE)) of
        None \<Rightarrow> Fail Bug_On
      | Some p \<Rightarrow> bind_res (receive_loop p True (mb_ptr buf)) (\<lambda>copies. Ok (p, copies, mutable_buffer_destroy buf)))"

subsection \<open>Interfaces\<close>

record netif =
  nif_hwaddr :: "u8 list"
  nif_hwaddr_len :: u8
  nif_mtu :: u16
  nif_name :: string
  nif_flags :: u8

text \<open>\<open>eth_init\<close>; the values of lwIP's flags are arguments.\<close>

definition eth_init :: "u8 \<Rightarrow> u8 \<Rightarrow> u8 \<Rightarrow> u8 list \<Rightarrow> netif \<Rightarrow> netif" where
  "eth_init flag_broadcast flag_etharp flag_link_up mac n =
     n\<lparr>nif_hwaddr_len := 6, nif_hwaddr := take 6 mac, nif_mtu := 1500, nif_name := ''en'',
       nif_flags := nif_flags n OR flag_broadcast OR flag_etharp OR flag_link_up\<rparr>"

record 'dev interface =
  itf_dev :: 'dev
  itf_netif :: netif
  itf_idx :: nat

text \<open>The constructor: \<open>added\<close> is whether \<open>netif_add\<close> succeeded.\<close>

definition Interface_new :: "bool \<Rightarrow> (netif \<Rightarrow> netif) \<Rightarrow> netif \<Rightarrow> 'dev \<Rightarrow> nat \<Rightarrow> 'dev interface res" where
  "Interface_new added init n dev idx =
     (if added then Ok \<lparr>itf_dev = dev, itf_netif = init n, itf_idx = idx\<rparr> else Fail Thrown)"

definition NewInterface :: "bool \<Rightarrow> (netif \<Rightarrow> netif) \<Rightarrow> netif \<Rightarrow> 'dev \<Rightarrow> 'dev interface list \<Rightarrow> (nat \<times> 'dev interface list) res" where
  "NewInterface added init n dev interfaces =
     bind_res (Interface_new added init n dev (length interfaces)) (\<lambda>i.
       Ok (length interfaces, interfaces @ [i]))"

text \<open>Waiting for an address: the global \<open>context\<close>.\<close>

datatype waiting = No_Context | Saved | Deleted

definition AcquireIPAddress :: "'dev interface list \<Rightarrow> waiting \<Rightarrow> waiting res" where
  "AcquireIPAddress interfaces w = kbugon (interfaces = []) (Ok Saved)"

text \<open>\<open>status_callback\<close> activates the context and deletes it.\<close>

fun status_callback :: "waiting \<Rightarrow> waiting res" where
  "status_callback Saved = Ok Deleted"
| "status_callback No_Context = Fail Undefined"
| "status_callback Deleted = Fail Undefined"

subsection \<open>TCP\<close>

text \<open>The calls made to lwIP and to the application.\<close>

datatype tcp_call =
    Tcp_Arg nat u64     \<comment> \<open>connection and object\<close>
  | Tcp_Abort nat
  | Tcp_Accept nat
  | Tcp_Accepted nat
  | Accept_Callback nat
  | Connect_Callback

record Tcp_pcb =
  pcb_obj :: u64
  pcb_pcb :: "nat option"

definition Tcp_pcb_new :: "nat option \<Rightarrow> u64 \<Rightarrow> (Tcp_pcb \<times> tcp_call list) res" where
  "Tcp_pcb_new tcp_new_result this =
     (case tcp_new_result of None \<Rightarrow> Fail Thrown
      | Some pcb \<Rightarrow> Ok (\<lparr>pcb_obj = this, pcb_pcb = Some pcb\<rparr>, [Tcp_Arg pcb this]))"

definition Tcp_pcb_of :: "nat \<Rightarrow> u64 \<Rightarrow> Tcp_pcb \<times> tcp_call list" where
  "Tcp_pcb_of pcb this = (\<lparr>pcb_obj = this, pcb_pcb = Some pcb\<rparr>, [Tcp_Arg pcb this])"

definition Tcp_pcb_destroy :: "Tcp_pcb \<Rightarrow> tcp_call list" where
  "Tcp_pcb_destroy t = (case pcb_pcb t of None \<Rightarrow> [] | Some pcb \<Rightarrow> [Tcp_Abort pcb])"

definition Tcp_Bind :: "bool \<Rightarrow> Tcp_pcb \<Rightarrow> Tcp_pcb res" where
  "Tcp_Bind bound t = (if bound then Ok t else Fail Thrown)"

definition Tcp_Listen :: "nat option \<Rightarrow> Tcp_pcb \<Rightarrow> Tcp_pcb res" where
  "Tcp_Listen tcp_listen_result t =
     (case tcp_listen_result of None \<Rightarrow> Fail Thrown | Some pcb \<Rightarrow> Ok (t\<lparr>pcb_pcb := Some pcb\<rparr>))"

definition Tcp_Accept_callback :: "Tcp_pcb \<Rightarrow> tcp_call list" where
  "Tcp_Accept_callback t = (case pcb_pcb t of None \<Rightarrow> [] | Some pcb \<Rightarrow> [Tcp_Accept pcb])"

definition Tcp_Connect :: "bool \<Rightarrow> Tcp_pcb \<Rightarrow> Tcp_pcb res" where
  "Tcp_Connect started t = (if started then Ok t else Fail Thrown)"

text \<open>\<open>Accept_Handler\<close>: the temporary for the new connection initialises the parameter of the
  \<open>std::function\<close>; \<open>copies\<close> are the places of the copies the call makes besides it (the class has a
  destructor and therefore the default copy constructor, which copies the pointer).  All of them are
  destroyed when the callback has returned.\<close>

definition Accept_Handler :: "u64 \<Rightarrow> u64 list \<Rightarrow> bool \<Rightarrow> nat \<Rightarrow> Tcp_pcb \<Rightarrow> tcp_call list res" where
  "Accept_Handler tmp copies err_ok newpcb listening =
     kassert err_ok
       (case Tcp_pcb_of newpcb tmp of (t, calls) \<Rightarrow>
          Ok (calls @ [Accept_Callback newpcb]
              @ concat (map (\<lambda>this. Tcp_pcb_destroy (t\<lparr>pcb_obj := this\<rparr>)) copies) @ Tcp_pcb_destroy t
              @ (case pcb_pcb listening of None \<Rightarrow> [] | Some pcb \<Rightarrow> [Tcp_Accepted pcb])))"

definition Connect_Handler :: "bool \<Rightarrow> nat \<Rightarrow> Tcp_pcb \<Rightarrow> tcp_call list res" where
  "Connect_Handler err_ok pcb t = kassert err_ok (kassert (pcb_pcb t = Some pcb) (Ok [Connect_Callback]))"

text \<open>\<open>sys_now\<close> and \<open>lwip_rand\<close>.\<close>

definition sys_now :: "int \<Rightarrow> u32" where "sys_now clock_ns = of_int (clock_ns sdiv 1000000)"

definition lwip_rand :: "u64 \<Rightarrow> u32" where "lwip_rand tsc = ucast (tsc mod 0xFFFFFFFF)"

subsection \<open>Lemmas\<close>

definition segments :: "pbuf list \<Rightarrow> (u64 \<times> u64) list" where
  "segments p = map (\<lambda>q. (q_payload q, ucast (q_len q))) p"

lemma output_loop_segments:
  "map (\<lambda>b. (const_buffer_addr b, cb_size b)) (output_loop p l) = rev (segments p) @ map (\<lambda>b. (const_buffer_addr b, cb_size b)) l"
  by (induction p l rule: output_loop.induct) (simp_all add: segments_def const_buffer_of_def const_buffer_addr_def)

text \<open>The bytes of the frame, as offsets, that the copies read.\<close>

definition read_offsets :: "u64 \<Rightarrow> copy list \<Rightarrow> nat set" where
  "read_offsets ptr copies = (\<Union>(dst, src, n)\<in>set copies. {unat (src - ptr) ..< unat (src - ptr) + n})"

lemma receive_rest:
  assumes "off + (\<Sum>q\<leftarrow>qs. unat (q_len q)) < 2 ^ 64"
  shows "\<exists>copies. receive_loop qs False (ptr + of_nat off) = Ok copies
    \<and> read_offsets ptr copies = {off ..< off + (\<Sum>q\<leftarrow>qs. unat (q_len q))}"
  using assms
proof (induction qs arbitrary: off)
  case (Cons q qs)
  have p: "ptr + of_nat off + ucast (q_len q) = ptr + of_nat (off + unat (q_len q))" by simp
  obtain copies where c: "receive_loop qs False (ptr + of_nat (off + unat (q_len q))) = Ok copies"
    "read_offsets ptr copies = {off + unat (q_len q) ..< off + unat (q_len q) + (\<Sum>q\<leftarrow>qs. unat (q_len q))}"
    using Cons.IH [of "off + unat (q_len q)"] Cons.prems by (auto simp: add.assoc)
  have "unat (ptr + of_nat off - ptr) = off" using Cons.prems by (simp add: unat_of_nat)
  moreover have "{off ..< off + unat (q_len q)} \<union> {off + unat (q_len q) ..< off + unat (q_len q) + (\<Sum>q\<leftarrow>qs. unat (q_len q))}
      = {off ..< off + unat (q_len q) + (\<Sum>q\<leftarrow>qs. unat (q_len q))}" by (rule ivl_disj_un_two(3)) simp_all
  ultimately show ?case using c unfolding receive_loop.simps p by (simp add: read_offsets_def add.assoc)
qed (simp add: read_offsets_def)

subsection \<open>Properties\<close>

text \<open>C30: Copying a received frame into the chain that lwIP allocated for it and its padding: a chain of one
  segment receives exactly the frame; with more segments the copy skips the two bytes of the frame
  after the first segment's share, because the source advances by the padding as well, and reads two
  bytes past the frame at the end.\<close>

theorem ReceivePacket_bytes:
  assumes "pbuf_alloc (ucast (len + of_int ETH_PAD_SIZE)) = Some (q # qs)" and "2 \<le> unat (q_len q)"
    and "unat (q_len q) + (\<Sum>q\<leftarrow>qs. unat (q_len q)) = unat len + 2"
  shows "\<exists>copies. ReceivePacket pbuf_alloc buf len = Ok (q # qs, copies, mutable_buffer_destroy buf)
    \<and> read_offsets (mb_ptr buf) copies =
      (if qs = [] then {..<unat len} else {..<unat (q_len q) - 2} \<union> {unat (q_len q) ..< unat len + 2})"
proof -
  have "unat (q_len q) + (\<Sum>q\<leftarrow>qs. unat (q_len q)) < 2 ^ 64" using assms(3) unat_lt_pow [of len] by simp
  note rest = receive_rest [OF this, of "mb_ptr buf"]
  have "of_nat (unat (q_len q)) = (ucast (q_len q) :: u64)" by simp
  note rest [unfolded assms(3) this]
  then obtain copies where c: "receive_loop qs False (mb_ptr buf + ucast (q_len q)) = Ok copies"
    "read_offsets (mb_ptr buf) copies = {unat (q_len q) ..< unat len + 2}"
    by blast
  have n: "nat (uint (q_len q) - 2) = unat (q_len q) - 2" by (simp only: uint_nat)
  have "0 \<le> uint (q_len q) - 2" using assms(2) by (simp only: uint_nat)
  then have "receive_loop (q # qs) True (mb_ptr buf) = Ok ((q_payload q + 2, mb_ptr buf, unat (q_len q) - 2) # copies)"
    using c(1) n by (simp add: ETH_PAD_SIZE_def)
  then have "ReceivePacket pbuf_alloc buf len = Ok (q # qs, (q_payload q + 2, mb_ptr buf, unat (q_len q) - 2) # copies, mutable_buffer_destroy buf)"
    using assms(1) by (simp add: ReceivePacket_def del: receive_loop.simps)
  moreover have "read_offsets (mb_ptr buf) ((q_payload q + 2, mb_ptr buf, unat (q_len q) - 2) # copies)
      = {..<unat (q_len q) - 2} \<union> {unat (q_len q) ..< unat len + 2}"
    using c(2) by (simp add: read_offsets_def lessThan_atLeast0)
  moreover have "unat (q_len q) = unat len + 2" if "qs = []" using assms(3) that by simp
  ultimately show ?thesis by auto
qed

theorem ReceivePacket_bytes_witness:
  "\<exists>copies. ReceivePacket (\<lambda>n. Some [\<lparr>q_payload = 0x8000, q_len = 512\<rparr>, \<lparr>q_payload = 0x9000, q_len = 90\<rparr>]) (mutable_buffer_of 0x4000 2036) 600
      = Ok ([\<lparr>q_payload = 0x8000, q_len = 512\<rparr>, \<lparr>q_payload = 0x9000, q_len = 90\<rparr>], copies, [0x4000])
    \<and> read_offsets 0x4000 copies = {..<510} \<union> {512..<602}"
  using ReceivePacket_bytes [of "\<lambda>n. Some [\<lparr>q_payload = 0x8000, q_len = 512\<rparr>, \<lparr>q_payload = 0x9000, q_len = 90\<rparr>]" 600
      "\<lparr>q_payload = 0x8000, q_len = 512\<rparr>" "[\<lparr>q_payload = 0x9000, q_len = 90\<rparr>]" "mutable_buffer_of 0x4000 2036"]
  by (simp add: mutable_buffer_of_def mutable_buffer_destroy_def)

text \<open>The connection handed to the application is aborted before the handler returns, once for every copy of its
  object and once for the object itself.\<close>

lemma Accept_Handler_aborts:
  assumes "Accept_Handler tmp copies err_ok newpcb listening = Ok calls"
  shows "length (filter ((=) (Tcp_Abort newpcb)) calls) = Suc (length copies)"
proof -
  have "length (filter ((=) (Tcp_Abort newpcb)) (concat (map (\<lambda>this. [Tcp_Abort newpcb]) copies))) = length copies"
    by (induction copies) simp_all
  then show ?thesis using assms
    by (auto simp: Accept_Handler_def kassert_Ok_iff Tcp_pcb_of_def Tcp_pcb_destroy_def split: option.splits)
qed

lemma status_callback_twice: "bind_res (status_callback Saved) status_callback = Fail Undefined"
  by simp

end
