(* ===== verification/Virtio_Net.thy ===== *)
theory Virtio_Net
  imports Virtio_Driver Net Event_Manager
begin

text \<open>
  \<open>sys/virtio_net.hpp\<close>, \<open>sys/virtio_net.cpp\<close>: the network card, with receive ring 0 and transmit ring 1,
  between the rings of \<open>Vring\<close> and the network manager of \<open>Net\<close>.
\<close>

definition VIRTIO_NET_F_MAC :: nat where "VIRTIO_NET_F_MAC = 5"
definition VIRTIO_NET_F_MRG_RXBUF :: nat where "VIRTIO_NET_F_MRG_RXBUF = 15"
definition NET_DEVICE_ID :: u16 where "NET_DEVICE_ID = 0x1000"

text \<open>The header of every frame, two bytes and five 16-bit words.\<close>

record virtio_net_hdr =
  h_flags :: u8
  h_gso_type :: u8
  h_hdr_len :: u16
  h_gso_size :: u16
  h_csum_start :: u16
  h_csum_offset :: u16
  h_num_buffers :: u16

definition net_hdr_size :: u64 where "net_hdr_size = 2 + 5 * 2"

definition empty_header :: virtio_net_hdr where
  "empty_header = \<lparr>h_flags = 0, h_gso_type = 0, h_hdr_len = 0, h_gso_size = 0, h_csum_start = 0,
     h_csum_offset = 0, h_num_buffers = 0\<rparr>"

definition get_driver_features :: u32 where
  "get_driver_features = push_bit VIRTIO_NET_F_MAC 1 OR push_bit VIRTIO_NET_F_MRG_RXBUF 1"

subsection \<open>Receiving\<close>

fun new_buffers :: "env \<Rightarrow> nat \<Rightarrow> gp \<Rightarrow> (mutable_buffer list \<times> gp) res option" where
  "new_buffers e 0 g = Some (Ok ([], g))"
| "new_buffers e (Suc n) g =
     Option.bind (mutable_buffer_new e 2048 g) (\<lambda>r. case r of
       Fail x \<Rightarrow> Some (Fail x)
     | Ok (b, g1) \<Rightarrow> Option.bind (new_buffers e n g1) (\<lambda>r. Some (bind_res r (\<lambda>(bs, g2). Ok (b # bs, g2)))))"

text \<open>A list of one new buffer for every free descriptor.\<close>

definition fill_rx_ring :: "env \<Rightarrow> u16 \<Rightarrow> 'd vring \<Rightarrow> gp \<Rightarrow> (bool \<times> 'd vring \<times> gp) res option" where
  "fill_rx_ring e event_idx v g =
     Option.bind (new_buffers e (unat (get_num_free_descriptors v)) g) (\<lambda>r. Some (bind_res r (\<lambda>(bs, g').
       bind_res (add_writable_buffers event_idx (map (\<lambda>b. [b]) bs) v) (\<lambda>(rest, kicked, v').
         kassert (rest = []) (Ok (kicked, v', g'))))))"

text \<open>What the receive interrupt does with the buffers of a chain: packets passed on, memory freed.  The
  front buffer is moved into the argument of \<open>ReceivePacket\<close>; the list is destroyed at the end.\<close>

type_synonym received = "(pbuf list \<times> copy list) list \<times> u64 list"

definition receive_used :: "(u16 \<Rightarrow> pbuf list option) \<Rightarrow> mutable_buffer list \<Rightarrow> u32 \<Rightarrow> received \<Rightarrow> received res" where
  "receive_used pbuf_alloc list len s = (case s of (packets, frees) \<Rightarrow>
     kassert (length list = 1)
       (let front = mutable_buffer_advance (hd list) net_hdr_size;
            (buf, front') = mutable_buffer_move front
        in bind_res (ReceivePacket pbuf_alloc buf (ucast (ucast len - net_hdr_size :: u64))) (\<lambda>(p, copies, frees').
             Ok (packets @ [(p, copies)], frees @ frees' @ concat (map mutable_buffer_destroy (front' # tl list))))))"

definition receive_interrupt :: "env \<Rightarrow> (u16 \<Rightarrow> pbuf list option) \<Rightarrow> u16 \<Rightarrow> used list \<Rightarrow> 'd vring \<Rightarrow> gp
    \<Rightarrow> (received \<times> 'd vring \<times> gp) res option" where
  "receive_interrupt e pbuf_alloc event_idx us v g =
     Option.bind (process_used_buffers (receive_used pbuf_alloc) us v ([], [])) (\<lambda>r. case r of
       Fail x \<Rightarrow> Some (Fail x)
     | Ok (v1, s) \<Rightarrow>
         if get_num_free_descriptors v1 * 2 \<ge> ucast (vr_qsize v1)
         then Option.bind (fill_rx_ring e event_idx v1 g) (\<lambda>r. Some (bind_res r (\<lambda>(_, v2, g'). Ok (s, v2, g'))))
         else Some (Ok (s, v1, g)))"

definition send_interrupt :: "used list \<Rightarrow> 'd vring \<Rightarrow> 'd vring res option" where
  "send_interrupt us v = clean_used_buffers us v"

subsection \<open>Sending\<close>

text \<open>\<open>send\<close>: the header in front; \<open>header\<close> is the address of \<open>empty_header_\<close>.\<close>

definition virtio_net_send :: "u64 \<Rightarrow> u16 \<Rightarrow> deleter const_buffer list \<Rightarrow> deleter vring \<Rightarrow> (bool \<times> deleter vring) res" where
  "virtio_net_send header event_idx bufs v =
     (let bufs = const_buffer_of header net_hdr_size No_Op # bufs
      in kbugon (unat (get_num_free_descriptors v) < length bufs) (add_readable_buffer event_idx bufs v))"

subsection \<open>The constructor\<close>

datatype net_irq = Rcv | Send

fun read_mac :: "'h hardware \<Rightarrow> pci_bar \<Rightarrow> nat list \<Rightarrow> 'h \<Rightarrow> u8 list \<times> 'h" where
  "read_mac hw bar0 [] h = ([], h)"
| "read_mac hw bar0 (i # is) h =
     (let (b, h1) = device_config_read8 hw bar0 (of_nat i) h; (bs, h2) = read_mac hw bar0 is h1 in (b # bs, h2))"

text \<open>\<open>event0\<close> is the event index of the receive ring; the result includes the vectors and the interfaces.\<close>

definition virtio_net_driver_new ::
    "'h hardware \<Rightarrow> u64 \<Rightarrow> env \<Rightarrow> u16 \<Rightarrow> (netif \<Rightarrow> netif) \<Rightarrow> netif \<Rightarrow> bool \<Rightarrow> pci_device \<Rightarrow> ('h, 'f) machine \<Rightarrow> gp
     \<Rightarrow> net_irq event_manager \<Rightarrow> u8 list interface list
     \<Rightarrow> (u8 list \<times> deleter queue list \<times> ('h, 'f) machine \<times> gp \<times> net_irq event_manager \<times> u8 list interface list) res option" where
  "virtio_net_driver_new hw cr3 e event0 init nif added dev m g em interfaces =
     Option.bind (virtio_driver_new hw cr3 (my_nid e) get_driver_features dev m) (\<lambda>r. case r of
       Fail x \<Rightarrow> Some (Fail x)
     | Ok (dev', queues, m1) \<Rightarrow>
         (case get_bar dev' 0 of
            Fail x \<Rightarrow> Some (Fail x)
          | Ok bar0 \<Rightarrow>
              let (mac, h1) = read_mac hw bar0 [0..<6] (m_hw m1)
              in if queues = [] then Some (Fail Undefined)
                 else Option.bind (fill_rx_ring e event0 (snd (hd queues)) (gp_set_pages (m_pages m1) g)) (\<lambda>r. Some
                   (bind_res r (\<lambda>(kicked, rx, g').
                      let h2 = (if kicked then snd (kick hw bar0 0 h1) else h1);
                          (rcv_vector, em1) = AllocateVector Rcv em
                      in bind_res (set_msix_entry hw dev' 0 rcv_vector 0 h2) (\<lambda>h3.
                         let (send_vector, em2) = AllocateVector Send em1
                         in bind_res (set_msix_entry hw dev' 1 send_vector 0 h3) (\<lambda>h4.
                            let (_, h5) = add_device_status hw bar0 CONFIG_DRIVER_OK h4
                            in bind_res (NewInterface added init nif mac interfaces) (\<lambda>(_, interfaces').
                               Ok (mac, (fst (hd queues), rx) # tl queues, m1\<lparr>m_hw := h5, m_pages := gp_pages g'\<rparr>, g', em2, interfaces')))))))))"

subsection \<open>Lemmas\<close>

lemma new_buffers_ok:
  "new_buffers e n g = Some (Ok (bs, g')) \<Longrightarrow> length bs = n \<and> (\<forall>b\<in>set bs. mb_ptr b \<noteq> 0 \<and> mb_size b = 2048 \<and> mb_offset b = 0)"
proof (induction n arbitrary: g bs)
  case (Suc n)
  obtain b g1 where b: "mutable_buffer_new e 2048 g = Some (Ok (b, g1))"
    using Suc.prems by (cases "mutable_buffer_new e 2048 g"; cases "the (mutable_buffer_new e 2048 g)") auto
  then obtain bs1 where bs: "new_buffers e n g1 = Some (Ok (bs1, g'))" "bs = b # bs1"
    using Suc.prems by (auto simp: bind_eq_Some_conv res_Ok_iff)
  have "mb_ptr b \<noteq> 0 \<and> mb_size b = 2048 \<and> mb_offset b = 0"
    using b by (auto simp: mutable_buffer_new_def bind_eq_Some_conv res_Ok_iff split: if_splits)
  then show ?case using Suc.IH [OF bs(1)] bs(2) by simp
qed simp

lemma ucast_len: "ucast (ucast n :: u64) = (ucast n :: u32)" for n :: u16
  by (rule bit_word_eqI) (auto simp: bit_simps)

lemma carve_single: "length bs = length fl \<Longrightarrow> carve (map (\<lambda>b. [b]) bs) fl = map (\<lambda>i. [i]) fl"
  by (induction bs fl rule: list_induct2) auto

subsection \<open>Properties\<close>

text \<open>C20: Filling the receive ring succeeds when memory does: every free descriptor gets a buffer of its own of
  2048 bytes, all of them are published, and no descriptor is left free.\<close>

theorem fill_rx_ring_full:
  assumes "ring_inv v fl H" and "new_buffers e (length fl) g = Some (Ok (bs, g'))"
  shows "\<exists>kicked v'. fill_rx_ring e event_idx v g = Some (Ok (kicked, v', g'))
    \<and> ring_inv v' [] (rev (map (\<lambda>i. [i]) fl) @ H)
    \<and> map (\<lambda>i. (d_addr (vr_desc v' ! i), d_len (vr_desc v' ! i))) fl = map (\<lambda>b. (mb_ptr b, 2048)) bs
    \<and> vr_avail_idx v' = vr_avail_idx v + of_nat (length fl)"
proof -
  have n: "unat (get_num_free_descriptors v) = length fl"
    using assms(1) by (simp add: get_num_free_descriptors_def ring_inv_def unat_ucast_up)
  note bs = new_buffers_ok [OF assms(2)]
  show ?thesis
  proof (cases "fl = []")
    case True
    then show ?thesis using assms bs n
      by (intro exI [of _ False] exI [of _ v]) (simp add: fill_rx_ring_def add_writable_buffers_def)
  next
    case False
    let ?bls = "map (\<lambda>b. [b]) bs"
    have c: "carve ?bls fl = map (\<lambda>i. [i]) fl" using bs by (simp add: carve_single)
    have ne: "?bls \<noteq> []" using False bs by auto
    have sz: "sum_list (map length ?bls) = length fl" using bs by (simp add: comp_def sum_list_triv)
    have "sum_list (map length ?bls) \<le> length fl" using sz by simp
    moreover have "\<forall>bl\<in>set ?bls. \<forall>b\<in>set bl. mb_ptr b \<noteq> 0" using bs by auto
    ultimately obtain v' where a: "add_writable_buffers event_idx ?bls v = Ok ([], unat (event_idx - vr_avail_idx v) < length (carve ?bls fl), v')"
      "ring_inv v' (drop (sum_list (map length ?bls)) fl) (rev (carve ?bls fl) @ H)"
      "concat (map (contents (vr_desc v')) (carve ?bls fl)) = map (\<lambda>b. (fst (owned b), ucast (snd (owned b)))) (concat ?bls)"
      "vr_avail_idx v' = vr_avail_idx v + of_nat (length (carve ?bls fl))"
      using add_writable_buffers_correct [OF assms(1) ne] by blast
    have "concat (map (contents (vr_desc v')) (map (\<lambda>i. [i]) fl)) = map (\<lambda>i. (d_addr (vr_desc v' ! i), d_len (vr_desc v' ! i))) fl"
      by (induction fl) (simp_all add: contents_def)
    moreover have "map (\<lambda>b. (fst (owned b), ucast (snd (owned b)))) (concat ?bls) = map (\<lambda>b. (mb_ptr b, 2048)) bs"
      using bs by (induction bs) (simp_all add: owned_def)
    ultimately show ?thesis using a assms(2) unfolding c sz
      by (intro exI [of _ "unat (event_idx - vr_avail_idx v) < length fl"] exI [of _ v']) (simp add: fill_rx_ring_def n)
  qed
qed

text \<open>C6: Sending a frame through the whole transmit path, from \<open>eth_output\<close> to the ring: the device is given the
  header and then the segments of the packet in reverse order, so that a packet of more than one
  segment goes out with its segments swapped; the packet gains one reference.\<close>

theorem transmit_frame:
  assumes "ring_inv v fl H" and "length (pbuf_header (- ETH_PAD_SIZE) p) < length fl"
  shows "\<exists>v'. eth_output pbuf_header (\<lambda>l w. bind_res (virtio_net_send header event_idx l w) (\<lambda>(_, w'). Ok w')) p ref v
      = Ok (pbuf_header ETH_PAD_SIZE (pbuf_header (- ETH_PAD_SIZE) p), ref + 1, v')
    \<and> (let n = Suc (length (pbuf_header (- ETH_PAD_SIZE) p))
        in ring_inv v' (drop n fl) (take n fl # H) \<and> contents (vr_desc v') (take n fl) =
          (header, 12) # rev (map (\<lambda>q. (q_payload q, ucast (q_len q))) (pbuf_header (- ETH_PAD_SIZE) p)))"
proof -
  let ?p = "pbuf_header (- ETH_PAD_SIZE) p"
  let ?l = "const_buffer_of header net_hdr_size No_Op # output_loop ?p []"
  have segs: "map (\<lambda>b. (const_buffer_addr b, cb_size b)) (output_loop ?p []) = rev (segments ?p)"
    using output_loop_segments [of ?p "[]"] by simp
  have "length (output_loop ?p []) = length ?p" using arg_cong [OF segs, of length] unfolding length_map length_rev segments_def .
  then have len: "length ?l = Suc (length ?p)" by simp
  then obtain v' where a: "add_readable_buffer event_idx ?l v = Ok (event_idx = vr_avail_idx v, v')"
    and r: "ring_inv v' (drop (length ?l) fl) (take (length ?l) fl # H)"
      "contents (vr_desc v') (take (length ?l) fl) = map (\<lambda>b. (const_buffer_addr b, ucast (cb_size b))) ?l"
    using add_readable_buffer_correct [OF assms(1), of ?l event_idx] assms(2) by auto
  have "map (\<lambda>b. (const_buffer_addr b, ucast (cb_size b) :: u32)) ?l
      = (header, 12) # map (\<lambda>(a, s). (a, ucast s)) (rev (segments ?p))"
    unfolding segs [symmetric] by (simp add: const_buffer_of_def const_buffer_addr_def net_hdr_size_def comp_def)
  also have "map (\<lambda>(a, s). (a, ucast s :: u32)) (rev (segments ?p)) = rev (map (\<lambda>q. (q_payload q, ucast (q_len q))) ?p)"
    by (simp add: segments_def rev_map comp_def ucast_len)
  finally have c: "map (\<lambda>b. (const_buffer_addr b, ucast (cb_size b) :: u32)) ?l = (header, 12) # rev (map (\<lambda>q. (q_payload q, ucast (q_len q))) ?p)" .
  have n: "unat (get_num_free_descriptors v) = length fl"
    using assms(1) by (simp add: get_num_free_descriptors_def ring_inv_def unat_ucast_up)
  then have "virtio_net_send header event_idx (output_loop ?p []) v = Ok (event_idx = vr_avail_idx v, v')"
    using a len assms(2) by (simp add: virtio_net_send_def Let_def)
  then show ?thesis using r c unfolding len by (intro exI [of _ v']) (simp add: eth_output_def Let_def)
qed

text \<open>C26: Every frame received is freed twice: the buffer moved into \<open>ReceivePacket\<close> and the one left in the list
  both own the memory, because the defaulted move leaves the pointer of its source.\<close>

theorem receive_frees_twice:
  assumes "receive_used pbuf_alloc [mutable_buffer_of addr sz] len (packets, frees) = Ok (packets', frees')" and "addr + 12 \<noteq> 0"
  shows "frees' = frees @ [addr, addr]"
  using assms by (auto simp: receive_used_def ReceivePacket_def mutable_buffer_of_def mutable_buffer_advance_def mutable_buffer_move_def
      mutable_buffer_destroy_def net_hdr_size_def Let_def res_Ok_iff kassert_Ok_iff split: option.splits)

subsection \<open>Witnesses\<close>

definition ring4_tx :: "deleter vring" where "ring4_tx = vring_new 4"

theorem transmit_frame_witness:
  "\<exists>v'. eth_output (\<lambda>n p. p) (\<lambda>l w. bind_res (virtio_net_send 0x9000 0 l w) (\<lambda>(_, w'). Ok w'))
        [\<lparr>q_payload = 0x1000, q_len = 54\<rparr>, \<lparr>q_payload = 0x2000, q_len = 1460\<rparr>] 1 ring4_tx
      = Ok ([\<lparr>q_payload = 0x1000, q_len = 54\<rparr>, \<lparr>q_payload = 0x2000, q_len = 1460\<rparr>], 2, v')
    \<and> contents (vr_desc v') [0, 1, 2] = [(0x9000, 12), (0x2000, 1460), (0x1000, 54)]"
proof -
  have "[0..<4] = [0, 1, 2, 3]" by (simp add: upt_conv_Cons)
  then have "ring_inv ring4_tx [0, 1, 2, 3] []" using ring_inv_new [of 4] by (simp add: ring4_tx_def)
  from transmit_frame [OF this, of "\<lambda>n p. p" "[\<lparr>q_payload = 0x1000, q_len = 54\<rparr>, \<lparr>q_payload = 0x2000, q_len = 1460\<rparr>]" "0x9000" 0 1]
  show ?thesis by (auto simp: Let_def)
qed

theorem receive_frees_twice_witness:
  "\<exists>ps. receive_used (\<lambda>n. Some [\<lparr>q_payload = 0x8000, q_len = n\<rparr>]) [mutable_buffer_of 0x4000 2048] 72 ([], []) = Ok (ps, [0x4000, 0x4000])"
proof -
  obtain ps fs where r: "receive_used (\<lambda>n. Some [\<lparr>q_payload = 0x8000, q_len = n\<rparr>]) [mutable_buffer_of 0x4000 2048] 72 ([], []) = Ok (ps, fs)"
    by (simp add: receive_used_def ReceivePacket_def net_hdr_size_def ETH_PAD_SIZE_def mutable_buffer_move_def Let_def)
  then show ?thesis using receive_frees_twice [OF r] by simp
qed

definition ring1 :: "unit vring" where "ring1 = vring_new 1"

theorem fill_rx_ring_full_witness:
  "\<exists>g' kicked v'. fill_rx_ring env0 0 ring1 gp96 = Some (Ok (kicked, v', g')) \<and> ring_inv v' [] [[0]] \<and> vr_avail_idx v' = 1"
proof -
  have inv: "ring_inv ring1 [0] []" using ring_inv_new [of 1] by (simp add: ring1_def)
  have "indexer 0 gp_sizes 2048 = of_nat 10" by (simp add: gp_sizes_def)
  then obtain g' where g: "gp_Alloc env0 2048 0 gp96 = Some (Ok (object root96 4 41, g'))" using gp96_alloc [of 2048 10] by auto
  have r: "root_ok root96" "slab_at root96 4" by (simp_all add: root_ok_def root96_def slab_at_def)
  have "41 < num_objects root96" using num_objects(1) [OF r(1)] by (simp add: root96_def)
  then have "unat (object root96 4 41) = 20320" using unat_object(1) [OF r, of 41] by (simp add: root96_def)
  then have "object root96 4 41 \<noteq> 0" by auto
  then have "new_buffers env0 (length [0 :: nat]) gp96 = Some (Ok ([\<lparr>mb_ptr = object root96 4 41, mb_size = 2048, mb_offset = 0\<rparr>], g'))"
    using g by (simp add: mutable_buffer_new_def newlib_malloc_def env0_def)
  from fill_rx_ring_full [OF inv this, of 0] show ?thesis by (auto simp: ring1_def vring_new_def Let_def)
qed

end
