(* ===== verification/Acpi.thy ===== *)
theory Acpi
  imports Cpu Mem_Map VMem
begin

text \<open>
  \<open>sys/acpi.cpp\<close>, with the maps of \<open>sys/numa.hpp\<close>: the processors and the memory of each node, read from
  the firmware's MADT and SRAT tables, and the operating-system layer of ACPICA.  ACPICA is a
  third-party library: the sizes and flags of its structures are the parameter \<open>acpi_layout\<close>, and a
  table is the view of it through these structures, the entry that starts at each offset.
\<close>

subsection \<open>Nodes and proximity domains\<close>

definition MAX_NUMA_MEMBLOCKS :: nat where "MAX_NUMA_MEMBLOCKS = 256"
definition MAX_PXM_DOMAINS :: nat where "MAX_PXM_DOMAINS = MAX_NUMA_NODES"
definition MAX_LOCAL_APIC :: nat where "MAX_LOCAL_APIC = 256"

record topology =
  tp_cpus :: "cpu list"
  numa_nodes :: "numa_node list"
  apic_to_node_map :: "nid list"
  pxm_to_node_map :: "nid list"
  node_to_pxm_map :: "int list"

definition setup_node :: "u64 \<Rightarrow> topology \<Rightarrow> (nid \<times> topology) res" where
  "setup_node proximity_domain s =
     kbugon (unat proximity_domain \<ge> MAX_PXM_DOMAINS)
       (let d = unat proximity_domain; node = pxm_to_node_map s ! d
        in if node \<noteq> NO_NID then Ok (node, s)
           else if length (numa_nodes s) \<ge> MAX_NUMA_NODES then Fail Thrown
           else let nodes = numa_nodes s @ [\<lparr>nn_memblocks = [], nn_pfn_start = 0, nn_pfn_end = 0\<rparr>];
                    node = int (length nodes) - 1
                in Ok (node, s\<lparr>numa_nodes := nodes, pxm_to_node_map := (pxm_to_node_map s)[d := node],
                               node_to_pxm_map := (node_to_pxm_map s)[nat node := int d]\<rparr>))"

subsection \<open>The loop over a table\<close>

text \<open>Both tables are read by the same loop: the entry at the offset is handled, then the offset advances by
  the size of its structure.  \<open>None\<close> when the loop never ends.\<close>

partial_function (option) table_loop ::
    "('e \<Rightarrow> 's \<Rightarrow> 's res) \<Rightarrow> ('e \<Rightarrow> nat) \<Rightarrow> nat \<Rightarrow> (nat \<Rightarrow> 'e) \<Rightarrow> nat \<Rightarrow> 's \<Rightarrow> 's res option" where
  "table_loop handle advance len entry offset s =
     (if offset < len
      then case handle (entry offset) s of
             Fail e \<Rightarrow> Some (Fail e)
           | Ok s' \<Rightarrow> table_loop handle advance len entry (offset + advance (entry offset)) s'
      else Some (Ok s))"

declare table_loop.simps [code]

record acpi_layout =
  sz_madt :: nat
  sz_local_apic :: nat
  sz_io_apic :: nat
  sz_interrupt_override :: nat
  sz_local_apic_nmi :: nat
  sz_srat :: nat
  sz_cpu_affinity :: nat
  sz_mem_affinity :: nat
  madt_enabled :: u32
  srat_use_affinity :: u32
  srat_mem_enabled :: u32

subsection \<open>MADT\<close>

text \<open>An entry by its type, with the fields the code uses: processor id, APIC id and flags of a local APIC.
  All the types that end in \<open>kabort\<close>, the default included, are one.\<close>

datatype madt_entry =
    Madt_Local_Apic u8 u8 u32
  | Madt_Io_Apic
  | Madt_Interrupt_Override
  | Madt_Local_Apic_Nmi
  | Madt_Unsupported

text \<open>The state is \<open>first_cpu\<close> and the vector of processors.\<close>

fun madt_handle :: "acpi_layout \<Rightarrow> madt_entry \<Rightarrow> bool \<times> cpu list \<Rightarrow> (bool \<times> cpu list) res" where
  "madt_handle L (Madt_Local_Apic processor_id apic_id flags) (first_cpu, cpus) =
     (if flags AND madt_enabled L = 0 then Ok (first_cpu, cpus)
      else if first_cpu
      then defined (cpus \<noteq> []) (Ok (False, cpus[0 := (hd cpus)\<lparr>cpu_acpi_id := processor_id, cpu_apic_id := apic_id\<rparr>]))
      else if length cpus \<ge> MAX_NUM_CPUS then Fail Thrown
      else Ok (False, cpus @ [cpu_new (length cpus) processor_id apic_id]))"
| "madt_handle L Madt_Unsupported s = Fail Aborted"
| "madt_handle L _ s = Ok s"

fun madt_advance :: "acpi_layout \<Rightarrow> madt_entry \<Rightarrow> nat" where
  "madt_advance L (Madt_Local_Apic _ _ _) = sz_local_apic L"
| "madt_advance L Madt_Io_Apic = sz_io_apic L"
| "madt_advance L Madt_Interrupt_Override = sz_interrupt_override L"
| "madt_advance L Madt_Local_Apic_Nmi = sz_local_apic_nmi L"
| "madt_advance L Madt_Unsupported = 0"

definition parse_madt :: "acpi_layout \<Rightarrow> u32 \<Rightarrow> (nat \<Rightarrow> madt_entry) \<Rightarrow> cpu list \<Rightarrow> cpu list res option" where
  "parse_madt L len entry cpus =
     Option.bind (table_loop (madt_handle L) (madt_advance L) (unat len) entry (sz_madt L) (True, cpus))
       (\<lambda>r. Some (bind_res r (\<lambda>(_, cpus'). Ok cpus')))"

subsection \<open>SRAT\<close>

text \<open>The low byte of a processor's domain, the three others, its APIC id and the flags; the domain of a
  memory range, its start, length and flags.  The switch has no default.\<close>

datatype srat_entry =
    Srat_Cpu_Affinity u8 u8 u8 u8 u8 u32
  | Srat_Mem_Affinity u32 u64 u64 u32
  | Srat_X2apic
  | Srat_Other

definition cpu_domain :: "u8 \<Rightarrow> u8 \<Rightarrow> u8 \<Rightarrow> u8 \<Rightarrow> u32" where
  "cpu_domain lo hi0 hi1 hi2 = ucast lo OR push_bit 8 (ucast hi0) OR push_bit 16 (ucast hi1) OR push_bit 24 (ucast hi2)"

text \<open>\<open>std::find_if\<close> and \<open>set_nid\<close>.\<close>

fun set_cpu_nid :: "u8 \<Rightarrow> nid \<Rightarrow> cpu list \<Rightarrow> cpu list option" where
  "set_cpu_nid apic_id node [] = None"
| "set_cpu_nid apic_id node (c # cs) =
     (if cpu_apic_id c = apic_id then Some (c\<lparr>cpu_nid := Some node\<rparr> # cs) else map_option ((#) c) (set_cpu_nid apic_id node cs))"

definition add_memblock :: "numa_memblock \<Rightarrow> topology \<Rightarrow> topology res" where
  "add_memblock b s =
     (let n = nat (mb_nid b); node = numa_nodes s ! n
      in defined (0 \<le> mb_nid b \<and> n < length (numa_nodes s))
           (if length (nn_memblocks node) \<ge> MAX_NUMA_MEMBLOCKS then Fail Thrown
            else Ok (s\<lparr>numa_nodes := (numa_nodes s)[n := node\<lparr>nn_memblocks := nn_memblocks node @ [b]\<rparr>]\<rparr>)))"

fun srat_handle :: "acpi_layout \<Rightarrow> srat_entry \<Rightarrow> topology \<Rightarrow> topology res" where
  "srat_handle L (Srat_Cpu_Affinity lo hi0 hi1 hi2 apic_id flags) s =
     (if flags AND srat_use_affinity L = 0 then Ok s
      else bind_res (setup_node (scast (cpu_domain lo hi0 hi1 hi2)) s) (\<lambda>(node, s').
           kbugon (unat apic_id \<ge> MAX_LOCAL_APIC)
             (let s'' = s'\<lparr>apic_to_node_map := (apic_to_node_map s')[unat apic_id := node]\<rparr>
              in case set_cpu_nid apic_id node (tp_cpus s'') of
                   None \<Rightarrow> Fail Bug_On
                 | Some cpus \<Rightarrow> Ok (s''\<lparr>tp_cpus := cpus\<rparr>))))"
| "srat_handle L (Srat_Mem_Affinity proximity_domain base len flags) s =
     (if flags AND srat_mem_enabled L = 0 then Ok s
      else bind_res (setup_node (ucast proximity_domain) s) (\<lambda>(node, s').
           add_memblock \<lparr>mb_start = pfn_down base, mb_end = pfn_up (base + len), mb_nid = node\<rparr> s'))"
| "srat_handle L Srat_X2apic s = Fail Aborted"
| "srat_handle L Srat_Other s = Ok s"

fun srat_advance :: "acpi_layout \<Rightarrow> srat_entry \<Rightarrow> nat" where
  "srat_advance L (Srat_Cpu_Affinity _ _ _ _ _ _) = sz_cpu_affinity L"
| "srat_advance L (Srat_Mem_Affinity _ _ _ _) = sz_mem_affinity L"
| "srat_advance L Srat_X2apic = 0"
| "srat_advance L Srat_Other = 0"

definition parse_srat :: "acpi_layout \<Rightarrow> u32 \<Rightarrow> (nat \<Rightarrow> srat_entry) \<Rightarrow> topology \<Rightarrow> topology res option" where
  "parse_srat L len entry s = table_loop (srat_handle L) (srat_advance L) (unat len) entry (sz_srat L) s"

text \<open>\<open>acpi_boot_init\<close>: whether ACPICA finds its tables, and the two tables with their lengths.\<close>

definition acpi_boot_init ::
    "acpi_layout \<Rightarrow> bool \<Rightarrow> (u32 \<times> (nat \<Rightarrow> madt_entry)) option \<Rightarrow> (u32 \<times> (nat \<Rightarrow> srat_entry)) option
     \<Rightarrow> cpu list \<Rightarrow> numa_node list \<Rightarrow> topology res option" where
  "acpi_boot_init L initialized madt srat cpus nodes =
     (if \<not> initialized then Some (Fail Aborted)
      else case madt of
             None \<Rightarrow> Some (Fail Aborted)
           | Some (len, entry) \<Rightarrow>
               Option.bind (parse_madt L len entry cpus) (\<lambda>r. case r of
                 Fail e \<Rightarrow> Some (Fail e)
               | Ok cpus' \<Rightarrow>
                   (case srat of
                      None \<Rightarrow> Some (Fail Aborted)
                    | Some (len, entry) \<Rightarrow>
                        parse_srat L len entry
                          \<lparr>tp_cpus = cpus', numa_nodes = nodes, apic_to_node_map = replicate MAX_LOCAL_APIC NO_NID,
                           pxm_to_node_map = replicate MAX_PXM_DOMAINS NO_NID, node_to_pxm_map = replicate MAX_NUMA_NODES (- 1)\<rparr>)))"

subsection \<open>The operating-system layer\<close>

text \<open>\<open>initialized\<close> stays false: memory is mapped one to one.\<close>

definition AcpiOsMapMemory :: "u64 \<Rightarrow> u64 \<Rightarrow> page_range list vm \<Rightarrow> (u64 \<times> page_range list vm) res" where
  "AcpiOsMapMemory location len s = bind_res (early_map_memory location len s) (\<lambda>s'. Ok (location, s'))"

definition AcpiOsUnmapMemory :: "u64 \<Rightarrow> u64 \<Rightarrow> page_range list vm \<Rightarrow> page_range list vm res" where
  "AcpiOsUnmapMemory logical_address sz s = early_unmap_memory logical_address sz s"

definition AcpiOsGetRootPointer :: "u64 option \<Rightarrow> u64 res" where
  "AcpiOsGetRootPointer found = (case found of None \<Rightarrow> Fail Aborted | Some rsdp \<Rightarrow> Ok rsdp)"

subsection \<open>Lemmas on the loop\<close>

text \<open>The entries \<open>es\<close> one after the other from one offset to another, and handling them in turn.\<close>

fun laid_out :: "('e \<Rightarrow> nat) \<Rightarrow> (nat \<Rightarrow> 'e) \<Rightarrow> nat \<Rightarrow> 'e list \<Rightarrow> nat \<Rightarrow> bool" where
  "laid_out advance entry offset [] stop \<longleftrightarrow> offset = stop"
| "laid_out advance entry offset (e # es) stop \<longleftrightarrow>
     entry offset = e \<and> 0 < advance e \<and> laid_out advance entry (offset + advance e) es stop"

fun handle_all :: "('e \<Rightarrow> 's \<Rightarrow> 's res) \<Rightarrow> 'e list \<Rightarrow> 's \<Rightarrow> 's res" where
  "handle_all handle [] s = Ok s"
| "handle_all handle (e # es) s = bind_res (handle e s) (handle_all handle es)"

lemma handle_all_append: "handle_all handle (es @ es') s = bind_res (handle_all handle es s) (handle_all handle es')"
proof (induction es arbitrary: s)
  case (Cons e es)
  then show ?case by (cases "handle e s") simp_all
qed simp

lemma laid_out_le: "laid_out advance entry offset es stop \<Longrightarrow> offset \<le> stop"
proof (induction es arbitrary: offset)
  case (Cons e es)
  have "offset + advance e \<le> stop" by (rule Cons.IH) (use Cons.prems in simp)
  then show ?case by linarith
qed simp

lemma table_loop_laid:
  assumes "laid_out advance entry offset es stop" and "stop \<le> len"
  shows "table_loop handle advance len entry offset s =
    (case handle_all handle es s of Fail e \<Rightarrow> Some (Fail e) | Ok s' \<Rightarrow> table_loop handle advance len entry stop s')"
  using assms
proof (induction es arbitrary: offset s)
  case (Cons e es)
  have e: "entry offset = e" "0 < advance e" and l: "laid_out advance entry (offset + advance e) es stop"
    using Cons.prems(1) by simp_all
  have "offset < len" using laid_out_le [OF l] e(2) Cons.prems(2) by linarith
  then have "table_loop handle advance len entry offset s = (case handle e s of Fail x \<Rightarrow> Some (Fail x)
      | Ok s' \<Rightarrow> table_loop handle advance len entry (offset + advance e) s')" by (subst table_loop.simps) (simp only: e if_True)
  then show ?case using Cons.IH [OF l Cons.prems(2)] by (simp split: res.split)
qed simp

lemma table_loop_all:
  assumes "laid_out advance entry offset es len"
  shows "table_loop handle advance len entry offset s = Some (handle_all handle es s)"
  using table_loop_laid [OF assms, of len handle s] table_loop.simps [of handle advance len entry len] by (cases "handle_all handle es s") simp_all

lemma table_loop_ends:
  assumes "\<And>offset s s'. handle (entry offset) s = Ok s' \<Longrightarrow> 0 < advance (entry offset)"
  shows "\<exists>r. table_loop handle advance len entry offset s = Some r"
proof (induction "len - offset" arbitrary: offset s rule: less_induct)
  case less
  show ?case
  proof (cases "offset < len \<and> (\<exists>s'. handle (entry offset) s = Ok s')")
    case True
    then obtain s' where s': "handle (entry offset) s = Ok s'" by blast
    then have "0 < advance (entry offset)" by (rule assms)
    then have "len - (offset + advance (entry offset)) < len - offset" using True by linarith
    then obtain r where "table_loop handle advance len entry (offset + advance (entry offset)) s' = Some r"
      using less.hyps by blast
    then show ?thesis using True s' by (subst table_loop.simps) simp
  next
    case False
    then show ?thesis by (subst table_loop.simps) (cases "handle (entry offset) s"; simp)
  qed
qed

lemma table_loop_stuck:
  assumes "offset < len" and "advance (entry offset) = 0" and "handle (entry offset) s = Ok s"
  shows "table_loop handle advance len entry offset s = None"
proof (cases "table_loop handle advance len entry offset s")
  case (Some r)
  have "(handle, advance, len, entry, offset, s) = (handle, advance, len, entry, offset, s) \<longrightarrow> False"
  proof (rule table_loop.raw_induct [where P = "\<lambda>h a l e o' s' y. (h, a, l, e, o', s') = (handle, advance, len, entry, offset, s) \<longrightarrow> False", OF _ Some],
      intro impI)
    fix loop h a l e o' s' y
    assume IH: "\<And>h a l e o' s' y. loop h a l e o' s' = Some y \<Longrightarrow> (h, a, l, e, o', s') = (handle, advance, len, entry, offset, s) \<longrightarrow> False"
      and body: "(if o' < l then case h (e o') s' of Fail x \<Rightarrow> Some (Fail x) | Ok s'' \<Rightarrow> loop h a l e (o' + a (e o')) s'' else Some (Ok s')) = Some y"
      and eq: "(h, a, l, e, o', s') = (handle, advance, len, entry, offset, s)"
    have "loop h a l e o' s' = Some y" using body eq assms by simp
    from IH [OF this] eq show False by blast
  qed
  then show ?thesis by simp
qed simp

subsection \<open>Lemmas on the MADT\<close>

definition enabled_apics :: "acpi_layout \<Rightarrow> madt_entry list \<Rightarrow> (u8 \<times> u8) list" where
  "enabled_apics L es = concat (map (\<lambda>e. case e of
     Madt_Local_Apic processor_id apic_id flags \<Rightarrow> if flags AND madt_enabled L = 0 then [] else [(processor_id, apic_id)]
   | _ \<Rightarrow> []) es)"

lemma enabled_apics_simps [simp]:
  "enabled_apics L [] = []"
  "enabled_apics L (Madt_Local_Apic p i flags # es) = (if flags AND madt_enabled L = 0 then enabled_apics L es else (p, i) # enabled_apics L es)"
  "enabled_apics L (Madt_Io_Apic # es) = enabled_apics L es"
  "enabled_apics L (Madt_Interrupt_Override # es) = enabled_apics L es"
  "enabled_apics L (Madt_Local_Apic_Nmi # es) = enabled_apics L es"
  by (simp_all add: enabled_apics_def)

lemma madt_rest:
  assumes "Madt_Unsupported \<notin> set es" and "length cs + length (enabled_apics L es) \<le> MAX_NUM_CPUS"
  shows "handle_all (madt_handle L) es (False, cs)
    = Ok (False, cs @ map (\<lambda>(n, p, i). cpu_new n p i) (enumerate (length cs) (enabled_apics L es)))"
  using assms
proof (induction es arbitrary: cs)
  case (Cons e es)
  then show ?case by (cases e) (auto split: if_splits)
qed simp

lemma madt_all:
  assumes "Madt_Unsupported \<notin> set es" and "length (enabled_apics L es) \<le> MAX_NUM_CPUS"
  shows "\<exists>first. handle_all (madt_handle L) es (True, [boot]) = Ok (first, case enabled_apics L es of [] \<Rightarrow> [boot]
    | (p, i) # ps \<Rightarrow> boot\<lparr>cpu_acpi_id := p, cpu_apic_id := i\<rparr> # map (\<lambda>(n, p, i). cpu_new n p i) (enumerate 1 ps))"
  using assms
proof (induction es)
  case (Cons e es)
  then show ?case
    by (cases e) (auto simp: madt_rest [where cs = "[x]" for x, simplified])
qed auto

lemma new_cpus:
  "map cpu_index (map (\<lambda>(n, p, i). cpu_new n p i) (enumerate k ps)) = [k..<k + length ps]"
  "map (\<lambda>c. (cpu_acpi_id c, cpu_apic_id c)) (map (\<lambda>(n, p, i). cpu_new n p i) (enumerate k ps)) = ps"
  by (induction ps arbitrary: k) (auto simp: cpu_new_def upt_conv_Cons simp del: upt_Suc)

lemma madt_processors:
  assumes "laid_out (madt_advance L) entry (sz_madt L) es (unat len)" and "Madt_Unsupported \<notin> set es"
    and "length (enabled_apics L es) \<le> MAX_NUM_CPUS" and "cpu_index boot = 0"
  shows "\<exists>cpus. parse_madt L len entry [boot] = Some (Ok cpus) \<and> length cpus = max 1 (length (enabled_apics L es))
    \<and> map cpu_index cpus = [0..<length cpus]
    \<and> (enabled_apics L es \<noteq> [] \<longrightarrow> map (\<lambda>c. (cpu_acpi_id c, cpu_apic_id c)) cpus = enabled_apics L es)"
proof -
  obtain first where h: "handle_all (madt_handle L) es (True, [boot]) = Ok (first, case enabled_apics L es of [] \<Rightarrow> [boot]
      | (p, i) # ps \<Rightarrow> boot\<lparr>cpu_acpi_id := p, cpu_apic_id := i\<rparr> # map (\<lambda>(n, p, i). cpu_new n p i) (enumerate 1 ps))"
    using madt_all [OF assms(2,3)] by blast
  show ?thesis
  proof (cases "enabled_apics L es")
    case Nil
    then show ?thesis using h assms(4) by (simp add: parse_madt_def table_loop_all [OF assms(1)])
  next
    case (Cons p ps)
    note new_cpus [of 1 ps]
    then show ?thesis using Cons h assms(4)
      by (cases p) (simp add: parse_madt_def table_loop_all [OF assms(1)] upt_conv_Cons del: upt_Suc)
  qed
qed

subsection \<open>Lemmas on the SRAT\<close>

text \<open>The domains of a table in the order of their first appearance, and a domain's place among them, its node.\<close>

fun domain_of :: "acpi_layout \<Rightarrow> srat_entry \<Rightarrow> nat option" where
  "domain_of L (Srat_Cpu_Affinity lo hi0 hi1 hi2 _ flags) =
     (if flags AND srat_use_affinity L = 0 then None else Some (unat (cpu_domain lo hi0 hi1 hi2)))"
| "domain_of L (Srat_Mem_Affinity d _ _ flags) = (if flags AND srat_mem_enabled L = 0 then None else Some (unat d))"
| "domain_of L _ = None"

definition add_domain :: "nat option \<Rightarrow> nat list \<Rightarrow> nat list" where
  "add_domain d ds = (case d of None \<Rightarrow> ds | Some d \<Rightarrow> if d \<in> set ds then ds else ds @ [d])"

definition domains :: "acpi_layout \<Rightarrow> srat_entry list \<Rightarrow> nat list" where
  "domains L es = fold (\<lambda>e. add_domain (domain_of L e)) es []"

definition node_of :: "nat list \<Rightarrow> nat \<Rightarrow> nid" where
  "node_of ds d = int (length (takeWhile (\<lambda>x. x \<noteq> d) ds))"

lemma domains_snoc: "domains L (es @ [e]) = add_domain (domain_of L e) (domains L es)"
  by (simp add: domains_def)

lemma node_of_append: "d \<in> set ds \<Longrightarrow> node_of (ds @ xs) d = node_of ds d"
  by (simp add: node_of_def takeWhile_append1 [where x = d])

lemma node_of_nth: "d \<in> set ds \<Longrightarrow> 0 \<le> node_of ds d \<and> nat (node_of ds d) < length ds \<and> ds ! nat (node_of ds d) = d"
  unfolding node_of_def by (induction ds) auto

lemma node_of_new: "d \<notin> set ds \<Longrightarrow> node_of (ds @ xs) d = int (length ds) + node_of xs d"
  by (subst node_of_def, subst takeWhile_append2) (auto simp: node_of_def)

lemma add_domain_props:
  "distinct ds \<Longrightarrow> distinct (add_domain d ds)" "set (add_domain d ds) = set ds \<union> set_option d"
  "\<exists>xs. add_domain d ds = ds @ xs"
  by (auto simp: add_domain_def split: option.split)

text \<open>The maps that belong to a list of domains.\<close>

definition pxm_map :: "nat list \<Rightarrow> nid list" where
  "pxm_map ds = map (\<lambda>d. if d \<in> set ds then node_of ds d else NO_NID) [0..<MAX_PXM_DOMAINS]"

definition node_map :: "nat list \<Rightarrow> int list" where
  "node_map ds = map (\<lambda>n. if n < length ds then int (ds ! n) else - 1) [0..<MAX_NUMA_NODES]"

definition domains_ok :: "nat list \<Rightarrow> topology \<Rightarrow> bool" where
  "domains_ok ds s \<longleftrightarrow> distinct ds \<and> set ds \<subseteq> {..<MAX_PXM_DOMAINS} \<and> length (numa_nodes s) = length ds
     \<and> pxm_to_node_map s = pxm_map ds \<and> node_to_pxm_map s = node_map ds"

lemma setup_node_ok:
  assumes "domains_ok ds s" and "unat d < MAX_PXM_DOMAINS" and "ds' = add_domain (Some (unat d)) ds"
  shows "setup_node d s = Ok (node_of ds' (unat d), s\<lparr>numa_nodes := numa_nodes s @ replicate (length ds' - length ds) \<lparr>nn_memblocks = [], nn_pfn_start = 0, nn_pfn_end = 0\<rparr>,
      pxm_to_node_map := pxm_map ds', node_to_pxm_map := node_map ds'\<rparr>)"
proof -
  have at: "pxm_to_node_map s ! unat d = (if unat d \<in> set ds then node_of ds (unat d) else NO_NID)"
    using assms(1,2) by (simp add: domains_ok_def pxm_map_def)
  show ?thesis
  proof (cases "unat d \<in> set ds")
    case True
    then have "ds' = ds" "node_of ds (unat d) \<noteq> NO_NID" using assms(3) node_of_nth [of "unat d" ds]
      by (auto simp: add_domain_def NO_NID_def)
    then show ?thesis using at True assms(1,2) by (simp add: setup_node_def domains_ok_def Let_def)
  next
    case False
    have ds': "ds' = ds @ [unat d]" using False assms(3) by (simp add: add_domain_def)
    have "insert (unat d) (set ds) \<subseteq> {..<MAX_PXM_DOMAINS}" using assms(1,2) by (simp add: domains_ok_def)
    then have "card (insert (unat d) (set ds)) \<le> MAX_PXM_DOMAINS" using card_mono [of "{..<MAX_PXM_DOMAINS}"] by fastforce
    then have len: "length ds < MAX_NUMA_NODES"
      using False assms(1) by (simp add: domains_ok_def distinct_card MAX_PXM_DOMAINS_def)
    have n: "node_of ds' (unat d) = int (length ds)" using node_of_new [OF False, of "[unat d]"] by (simp add: ds' node_of_def)
    have "(pxm_map ds)[unat d := int (length ds)] = pxm_map ds'"
      by (rule nth_equalityI) (use False assms(2) in \<open>auto simp: pxm_map_def nth_list_update ds' node_of_append n [unfolded ds']\<close>)
    moreover have "(node_map ds)[length ds := int (unat d)] = node_map ds'"
      by (rule nth_equalityI) (auto simp: node_map_def nth_list_update ds' nth_append less_Suc_eq)
    ultimately show ?thesis using at False assms(1,2) len n
      by (simp add: setup_node_def domains_ok_def Let_def ds')
  qed
qed

text \<open>What a table means: the memory of each domain, and the node of each processor (the last one the table
  gives it).\<close>

fun block_of :: "acpi_layout \<Rightarrow> nat list \<Rightarrow> nat \<Rightarrow> srat_entry \<Rightarrow> numa_memblock list" where
  "block_of L ds d (Srat_Mem_Affinity d' base len flags) =
     (if flags AND srat_mem_enabled L \<noteq> 0 \<and> unat d' = d
      then [\<lparr>mb_start = pfn_down base, mb_end = pfn_up (base + len), mb_nid = node_of ds d\<rparr>] else [])"
| "block_of L ds d _ = []"

fun node_for :: "acpi_layout \<Rightarrow> nat list \<Rightarrow> nat \<Rightarrow> srat_entry \<Rightarrow> nid option \<Rightarrow> nid option" where
  "node_for L ds a (Srat_Cpu_Affinity lo hi0 hi1 hi2 apic_id flags) n =
     (if flags AND srat_use_affinity L \<noteq> 0 \<and> unat apic_id = a then Some (node_of ds (unat (cpu_domain lo hi0 hi1 hi2))) else n)"
| "node_for L ds a _ n = n"

definition node_memory :: "acpi_layout \<Rightarrow> nat list \<Rightarrow> srat_entry list \<Rightarrow> nat \<Rightarrow> numa_memblock list" where
  "node_memory L ds es d = concat (map (block_of L ds d) es)"

definition apic_node :: "acpi_layout \<Rightarrow> nat list \<Rightarrow> srat_entry list \<Rightarrow> nat \<Rightarrow> nid option \<Rightarrow> nid option" where
  "apic_node L ds es a n = fold (node_for L ds a) es n"

definition srat_topology :: "acpi_layout \<Rightarrow> cpu list \<Rightarrow> srat_entry list \<Rightarrow> topology" where
  "srat_topology L cpus es = (let ds = domains L es in
     \<lparr>tp_cpus = map (\<lambda>c. c\<lparr>cpu_nid := apic_node L ds es (unat (cpu_apic_id c)) (cpu_nid c)\<rparr>) cpus,
      numa_nodes = map (\<lambda>d. \<lparr>nn_memblocks = node_memory L ds es d, nn_pfn_start = 0, nn_pfn_end = 0\<rparr>) ds,
      apic_to_node_map = map (\<lambda>a. the (apic_node L ds es a (Some NO_NID))) [0..<MAX_LOCAL_APIC],
      pxm_to_node_map = pxm_map ds, node_to_pxm_map = node_map ds\<rparr>)"

text \<open>The entries the code accepts.\<close>

fun srat_entry_ok :: "acpi_layout \<Rightarrow> u8 set \<Rightarrow> srat_entry \<Rightarrow> bool" where
  "srat_entry_ok L ids (Srat_Cpu_Affinity lo hi0 hi1 hi2 apic_id flags) \<longleftrightarrow>
     (flags AND srat_use_affinity L \<noteq> 0 \<longrightarrow> unat (cpu_domain lo hi0 hi1 hi2) < MAX_PXM_DOMAINS \<and> apic_id \<in> ids)"
| "srat_entry_ok L ids (Srat_Mem_Affinity d _ _ flags) \<longleftrightarrow> (flags AND srat_mem_enabled L \<noteq> 0 \<longrightarrow> unat d < MAX_PXM_DOMAINS)"
| "srat_entry_ok L ids _ \<longleftrightarrow> False"

lemma domains_ok_topology:
  assumes "\<forall>e\<in>set es. srat_entry_ok L ids e"
  shows "domains_ok (domains L es) (srat_topology L cpus es)" "\<forall>e\<in>set es. set_option (domain_of L e) \<subseteq> set (domains L es)"
proof -
  have "distinct (domains L es) \<and> set (domains L es) \<subseteq> {..<MAX_PXM_DOMAINS} \<and> (\<forall>e\<in>set es. set_option (domain_of L e) \<subseteq> set (domains L es))"
    using assms
  proof (induction es rule: rev_induct)
    case (snoc e es)
    have "set_option (domain_of L e) \<subseteq> {..<MAX_PXM_DOMAINS}" using snoc.prems by (cases e) (auto split: if_splits)
    then show ?case using snoc by (auto simp: domains_snoc add_domain_props)
  qed (simp add: domains_def)
  then show "domains_ok (domains L es) (srat_topology L cpus es)" "\<forall>e\<in>set es. set_option (domain_of L e) \<subseteq> set (domains L es)"
    by (simp_all add: domains_ok_def srat_topology_def Let_def)
qed

lemma block_of_stable: "set_option (domain_of L e) \<subseteq> set ds \<Longrightarrow> block_of L (ds @ xs) d e = block_of L ds d e"
  by (cases e) (auto simp: node_of_append split: if_splits)

lemma node_for_stable: "set_option (domain_of L e) \<subseteq> set ds \<Longrightarrow> node_for L (ds @ xs) a e = node_for L ds a e"
  by (cases e) (auto simp: node_of_append fun_eq_iff split: if_splits)

lemma node_memory_stable:
  "\<forall>e\<in>set es. set_option (domain_of L e) \<subseteq> set ds \<Longrightarrow> node_memory L (ds @ xs) es d = node_memory L ds es d"
  unfolding node_memory_def by (rule arg_cong [where f = concat]) (simp add: block_of_stable)

lemma apic_node_stable:
  "\<forall>e\<in>set es. set_option (domain_of L e) \<subseteq> set ds \<Longrightarrow> apic_node L (ds @ xs) es a n = apic_node L ds es a n"
  unfolding apic_node_def by (induction es arbitrary: n) (simp_all add: node_for_stable)

lemma node_memory_other: "\<forall>e\<in>set es. set_option (domain_of L e) \<subseteq> set ds \<Longrightarrow> d \<notin> set ds \<Longrightarrow> node_memory L ds' es d = []"
  unfolding node_memory_def
proof (induction es)
  case (Cons e es)
  then show ?case by (cases e) (auto split: if_splits)
qed simp

lemma set_cpu_nid_ok:
  "distinct (map cpu_apic_id cs) \<Longrightarrow> a \<in> cpu_apic_id ` set cs
   \<Longrightarrow> set_cpu_nid a n cs = Some (map (\<lambda>c. if cpu_apic_id c = a then c\<lparr>cpu_nid := Some n\<rparr> else c) cs)"
proof (induction cs)
  case (Cons c cs)
  have "map (\<lambda>c. if cpu_apic_id c = a then c\<lparr>cpu_nid := Some n\<rparr> else c) cs = cs" if "cpu_apic_id c = a"
  proof (rule map_idI)
    fix x assume "x \<in> set cs"
    then have "cpu_apic_id x \<noteq> a" using Cons.prems(1) that by (auto simp: image_iff)
    then show "(if cpu_apic_id x = a then x\<lparr>cpu_nid := Some n\<rparr> else x) = x" by simp
  qed
  then show ?case using Cons by auto
qed simp

lemma small_scast:
  assumes "unat (w :: u32) < MAX_PXM_DOMAINS"
  shows "(scast w :: u64) = ucast w"
proof (rule bit_word_eqI)
  fix n :: nat
  have w: "unat w < 2 ^ 8" using assms by (simp add: MAX_PXM_DOMAINS_def MAX_NUMA_NODES_def)
  have "\<not> bit w n" if "8 \<le> n" for n
    using w that by (rule high_bits_zero)
  then show "bit (scast w :: u64) n = bit (ucast w :: u64) n" by (auto simp: bit_simps min_def)
qed

text \<open>One entry takes the topology of the entries before it to that of one entry more.\<close>

lemma srat_step:
  assumes ok: "\<forall>e\<in>set (es @ [e]). srat_entry_ok L (cpu_apic_id ` set cpus) e"
    and mem: "\<forall>d. length (node_memory L (domains L (es @ [e])) (es @ [e]) d) \<le> MAX_NUMA_MEMBLOCKS"
    and dist: "distinct (map cpu_apic_id cpus)"
  shows "srat_handle L e (srat_topology L cpus es) = Ok (srat_topology L cpus (es @ [e]))"
proof -
  let ?ds = "domains L es" and ?s = "srat_topology L cpus es"
  let ?ds' = "domains L (es @ [e])"
  have es: "\<forall>e\<in>set es. srat_entry_ok L (cpu_apic_id ` set cpus) e" using ok by simp
  note dom = domains_ok_topology(1) [OF es, of cpus] domains_ok_topology(2) [OF es]
  obtain xs where xs: "?ds' = ?ds @ xs" using add_domain_props(3) by (auto simp: domains_snoc)
  have M: "node_memory L ?ds' es d = node_memory L ?ds es d" for d unfolding xs by (rule node_memory_stable [OF dom(2)])
  have A: "apic_node L ?ds' es a n = apic_node L ?ds es a n" for a n unfolding xs by (rule apic_node_stable [OF dom(2)])
  have M': "node_memory L ?ds' (es @ [e]) d = node_memory L ?ds es d @ block_of L ?ds' d e" for d
    using M by (simp add: node_memory_def)
  have A': "apic_node L ?ds' (es @ [e]) a n = node_for L ?ds' a e (apic_node L ?ds es a n)" for a n
    using A by (simp add: apic_node_def)
  have new: "node_memory L ?ds es d = []" if "d \<in> set xs" for d
  proof (rule node_memory_other [OF dom(2)])
    have "distinct (?ds @ xs)" using dom(1) add_domain_props(1) xs by (metis domains_ok_def domains_snoc)
    then show "d \<notin> set ?ds" using that by auto
  qed
  define s1 where "s1 = ?s\<lparr>numa_nodes := map (\<lambda>d. \<lparr>nn_memblocks = node_memory L ?ds es d, nn_pfn_start = 0, nn_pfn_end = 0\<rparr>) ?ds',
      pxm_to_node_map := pxm_map ?ds', node_to_pxm_map := node_map ?ds'\<rparr>"
  have setd: "setup_node d ?s = Ok (node_of ?ds' (unat d), s1)" if "domain_of L e = Some (unat d)" "unat d < MAX_PXM_DOMAINS" for d
  proof -
    have "map (\<lambda>d. \<lparr>nn_memblocks = node_memory L ?ds es d, nn_pfn_start = 0, nn_pfn_end = 0\<rparr>) xs
        = replicate (length xs) \<lparr>nn_memblocks = [], nn_pfn_start = 0, nn_pfn_end = 0\<rparr>"
      by (rule nth_equalityI) (simp_all add: new)
    moreover have "length ?ds' - length ?ds = length xs" by (simp add: xs)
    moreover have "numa_nodes ?s = map (\<lambda>d. \<lparr>nn_memblocks = node_memory L ?ds es d, nn_pfn_start = 0, nn_pfn_end = 0\<rparr>) ?ds"
      by (simp add: srat_topology_def Let_def)
    moreover have "?ds' = add_domain (Some (unat d)) ?ds" by (simp only: domains_snoc that(1))
    note setup_node_ok [OF dom(1) that(2) this]
    ultimately show ?thesis unfolding s1_def by (simp only: xs map_append)
  qed
  show ?thesis
  proof (cases "domain_of L e")
    case None
    then have "?ds' = ?ds" "\<forall>d. block_of L ?ds d e = []" "\<forall>a n. node_for L ?ds a e n = n"
      using ok by (cases e; simp add: domains_snoc add_domain_def split: if_splits)+
    then have "srat_topology L cpus (es @ [e]) = ?s" using M' A' by (simp add: srat_topology_def)
    moreover have "srat_handle L e ?s = Ok ?s" using None ok by (cases e) (auto split: if_splits)
    ultimately show ?thesis by simp
  next
    case (Some d)
    have D: "distinct ?ds'" "d \<in> set ?ds'" using domains_ok_topology(1) [OF ok] Some
      by (simp_all add: domains_ok_def domains_snoc add_domain_props)
    show ?thesis
    proof (cases e)
      case (Srat_Cpu_Affinity lo hi0 hi1 hi2 apic_id flags)
      let ?w = "cpu_domain lo hi0 hi1 hi2" and ?n = "node_of ?ds' d"
      have e: "flags AND srat_use_affinity L \<noteq> 0" "d = unat ?w" "unat ?w < MAX_PXM_DOMAINS" "apic_id \<in> cpu_apic_id ` set cpus"
        using Some ok by (auto simp: Srat_Cpu_Affinity split: if_splits)
      have "unat (ucast ?w :: u64) = unat ?w" by (simp add: unat_ucast_up)
      then have "setup_node (scast ?w) ?s = Ok (?n, s1)" using setd [of "ucast ?w"] Some e(2,3) by (simp add: small_scast)
      moreover have a: "unat apic_id < MAX_LOCAL_APIC" using unat_lt_pow [of apic_id] by (simp add: MAX_LOCAL_APIC_def)
      moreover have "(apic_to_node_map s1)[unat apic_id := ?n] = map (\<lambda>a. the (apic_node L ?ds' (es @ [e]) a (Some NO_NID))) [0..<MAX_LOCAL_APIC]"
        using a e by (intro nth_equalityI) (auto simp: s1_def srat_topology_def Let_def A' [unfolded Srat_Cpu_Affinity] Srat_Cpu_Affinity nth_list_update)
      moreover have "set_cpu_nid apic_id ?n (tp_cpus s1)
          = Some (map (\<lambda>c. c\<lparr>cpu_nid := apic_node L ?ds' (es @ [e]) (unat (cpu_apic_id c)) (cpu_nid c)\<rparr>) cpus)"
        using dist e by (subst set_cpu_nid_ok) (auto simp: s1_def srat_topology_def Let_def comp_def image_image A' [unfolded Srat_Cpu_Affinity] Srat_Cpu_Affinity dest: unsigned_word_eqI)
      ultimately show ?thesis using e(1) M' [unfolded Srat_Cpu_Affinity] by (simp add: Srat_Cpu_Affinity srat_topology_def Let_def s1_def)
    next
      case (Srat_Mem_Affinity d' base len flags)
      let ?n = "node_of ?ds' d" and ?b = "\<lparr>mb_start = pfn_down base, mb_end = pfn_up (base + len), mb_nid = node_of ?ds' d\<rparr>"
      have e: "flags AND srat_mem_enabled L \<noteq> 0" "d = unat d'" "unat d' < MAX_PXM_DOMAINS"
        using Some ok by (auto simp: Srat_Mem_Affinity split: if_splits)
      have "unat (ucast d' :: u64) = unat d'" by (simp add: unat_ucast_up)
      then have s1: "setup_node (ucast d') ?s = Ok (?n, s1)" using setd [of "ucast d'"] Some e(2,3) by simp
      have n: "0 \<le> ?n" "nat ?n < length ?ds'" "?ds' ! nat ?n = d" using node_of_nth [OF D(2)] by simp_all
      have "length (node_memory L ?ds es d) < MAX_NUMA_MEMBLOCKS" using spec [OF mem, of d] e by (simp add: M' [unfolded Srat_Mem_Affinity] Srat_Mem_Affinity)
      moreover have "(numa_nodes s1)[nat ?n := \<lparr>nn_memblocks = node_memory L ?ds es d @ [?b], nn_pfn_start = 0, nn_pfn_end = 0\<rparr>]
          = map (\<lambda>d. \<lparr>nn_memblocks = node_memory L ?ds' (es @ [e]) d, nn_pfn_start = 0, nn_pfn_end = 0\<rparr>) ?ds'"
        using n D e by (intro nth_equalityI) (auto simp: s1_def nth_list_update M' [unfolded Srat_Mem_Affinity] Srat_Mem_Affinity nth_eq_iff_index_eq)
      ultimately have "add_memblock ?b s1 = Ok (s1\<lparr>numa_nodes := map (\<lambda>d. \<lparr>nn_memblocks = node_memory L ?ds' (es @ [e]) d, nn_pfn_start = 0, nn_pfn_end = 0\<rparr>) ?ds'\<rparr>)"
        using n by (simp add: add_memblock_def s1_def)
      then show ?thesis using e(1) s1 A' [unfolded Srat_Mem_Affinity] by (simp add: Srat_Mem_Affinity srat_topology_def Let_def s1_def)
    qed (use Some in simp_all)
  qed
qed

lemma srat_all:
  assumes "\<forall>e\<in>set es. srat_entry_ok L (cpu_apic_id ` set cpus) e"
    and "\<forall>d. length (node_memory L (domains L es) es d) \<le> MAX_NUMA_MEMBLOCKS" and "distinct (map cpu_apic_id cpus)"
  shows "handle_all (srat_handle L) es (srat_topology L cpus []) = Ok (srat_topology L cpus es)"
  using assms(1,2)
proof (induction es rule: rev_induct)
  case (snoc e es)
  have "length (node_memory L (domains L es) es d) \<le> MAX_NUMA_MEMBLOCKS" for d
  proof -
    have "\<forall>e\<in>set es. srat_entry_ok L (cpu_apic_id ` set cpus) e" using snoc.prems(1) by simp
    note stable = node_memory_stable [OF domains_ok_topology(2) [OF this]]
    obtain xs where "domains L (es @ [e]) = domains L es @ xs" using add_domain_props(3) by (auto simp: domains_snoc)
    then have "length (node_memory L (domains L es) es d) \<le> length (node_memory L (domains L (es @ [e])) (es @ [e]) d)"
      using stable [of xs d] by (simp add: node_memory_def)
    also have "\<dots> \<le> MAX_NUMA_MEMBLOCKS" using snoc.prems(2) by blast
    finally show ?thesis .
  qed
  then have "handle_all (srat_handle L) es (srat_topology L cpus []) = Ok (srat_topology L cpus es)"
    using snoc.IH snoc.prems(1) by simp
  then show ?case using srat_step [OF snoc.prems assms(3)] by (simp add: handle_all_append)
qed simp

lemma topology_empty:
  "srat_topology L cpus [] = \<lparr>tp_cpus = cpus, numa_nodes = [], apic_to_node_map = replicate MAX_LOCAL_APIC NO_NID,
     pxm_to_node_map = replicate MAX_PXM_DOMAINS NO_NID, node_to_pxm_map = replicate MAX_NUMA_NODES (- 1)\<rparr>"
  by (simp add: srat_topology_def domains_def apic_node_def pxm_map_def node_map_def map_replicate_const map_idI)

subsection \<open>Properties\<close>

text \<open>Reading a MADT of supported entries: processor \<open>k\<close> is the \<open>k\<close>-th enabled local APIC of the table, with
  its two identifiers and the index \<open>k\<close>; the boot processor, entered before, is the first.\<close>

theorem parse_madt_correct:
  assumes "laid_out (madt_advance L) entry (sz_madt L) es (unat len)" and "Madt_Unsupported \<notin> set es"
    and "length (enabled_apics L es) \<le> MAX_NUM_CPUS" and "cpu_index boot = 0"
  shows "\<exists>cpus. parse_madt L len entry [boot] = Some (Ok cpus) \<and> length cpus = max 1 (length (enabled_apics L es))
    \<and> map cpu_index cpus = [0..<length cpus]
    \<and> (enabled_apics L es \<noteq> [] \<longrightarrow> map (\<lambda>c. (cpu_acpi_id c, cpu_apic_id c)) cpus = enabled_apics L es)"
  using assms by (rule madt_processors)

text \<open>C13: Booting from tables whose entries the code accepts gives exactly the topology they describe: the
  processors of the MADT, a node for every proximity domain of the SRAT in the order of first
  appearance, with its memory in the order of the table, each processor's node, and the maps.\<close>

theorem acpi_boot_init_correct:
  assumes "laid_out (madt_advance L) mentry (sz_madt L) ms (unat mlen)" and "Madt_Unsupported \<notin> set ms"
    and "length (enabled_apics L ms) \<le> MAX_NUM_CPUS" and "enabled_apics L ms \<noteq> []" and "distinct (map snd (enabled_apics L ms))"
    and "laid_out (srat_advance L) sentry (sz_srat L) es (unat slen)"
    and "\<forall>e\<in>set es. srat_entry_ok L (snd ` set (enabled_apics L ms)) e"
    and "\<forall>d. length (node_memory L (domains L es) es d) \<le> MAX_NUMA_MEMBLOCKS" and "cpu_index boot = 0"
  shows "\<exists>cpus. map (\<lambda>c. (cpu_acpi_id c, cpu_apic_id c)) cpus = enabled_apics L ms \<and> map cpu_index cpus = [0..<length cpus]
    \<and> acpi_boot_init L True (Some (mlen, mentry)) (Some (slen, sentry)) [boot] [] = Some (Ok (srat_topology L cpus es))"
proof -
  obtain cpus where c: "parse_madt L mlen mentry [boot] = Some (Ok cpus)" "map cpu_index cpus = [0..<length cpus]"
      "map (\<lambda>c. (cpu_acpi_id c, cpu_apic_id c)) cpus = enabled_apics L ms"
    using madt_processors [OF assms(1-3,9)] assms(4) by blast
  have ids: "map snd (enabled_apics L ms) = map cpu_apic_id cpus" by (simp add: c(3) [symmetric] comp_def)
  then have "snd ` set (enabled_apics L ms) = cpu_apic_id ` set cpus" by (simp only: set_map [symmetric])
  then have "handle_all (srat_handle L) es (srat_topology L cpus []) = Ok (srat_topology L cpus es)"
    using assms(5,7,8) ids by (intro srat_all) simp_all
  then have "parse_srat L slen sentry (srat_topology L cpus []) = Some (Ok (srat_topology L cpus es))"
    by (simp add: parse_srat_def table_loop_all [OF assms(6)])
  then show ?thesis using c by (intro exI [of _ cpus]) (simp add: acpi_boot_init_def topology_empty)
qed

text \<open>C37: A node of its own for every proximity domain: \<open>setup_node\<close> never fails below 256, keeps the nodes
  given before, and leaves the two maps inverse to each other.\<close>

theorem setup_node_roundtrip:
  assumes "domains_ok ds s" and "unat d < MAX_PXM_DOMAINS"
  shows "\<exists>node s' ds'. setup_node d s = Ok (node, s') \<and> domains_ok ds' s' \<and> set ds' = insert (unat d) (set ds)
    \<and> pxm_to_node_map s' ! unat d = node \<and> node_to_pxm_map s' ! nat node = int (unat d) \<and> 0 \<le> node \<and> nat node < length (numa_nodes s')
    \<and> (\<forall>e\<in>set ds. pxm_to_node_map s' ! e = pxm_to_node_map s ! e \<and> (pxm_to_node_map s' ! e = node \<longleftrightarrow> e = unat d))"
proof -
  let ?ds = "add_domain (Some (unat d)) ds"
  note s' = setup_node_ok [OF assms refl]
  have D: "set ?ds = insert (unat d) (set ds)" by (simp add: add_domain_props)
  have len: "length ds + (length ?ds - length ds) = length ?ds" by (simp add: add_domain_def)
  have ok: "domains_ok ?ds (s\<lparr>numa_nodes := numa_nodes s @ replicate (length ?ds - length ds) \<lparr>nn_memblocks = [], nn_pfn_start = 0, nn_pfn_end = 0\<rparr>,
      pxm_to_node_map := pxm_map ?ds, node_to_pxm_map := node_map ?ds\<rparr>)"
    using assms len by (simp add: domains_ok_def add_domain_props)
  have le: "length ?ds \<le> MAX_NUMA_NODES"
    using card_mono [of "{..<MAX_PXM_DOMAINS}" "set ?ds"] ok by (simp add: domains_ok_def distinct_card MAX_PXM_DOMAINS_def)
  have n: "0 \<le> node_of ?ds e" "nat (node_of ?ds e) < length ?ds" "?ds ! nat (node_of ?ds e) = e" if "e \<in> set ?ds" for e
    using node_of_nth [OF that] by simp_all
  obtain xs where xs: "?ds = ds @ xs" using add_domain_props(3) by blast
  have at: "pxm_map ?ds ! e = node_of ?ds e" if "e \<in> set ?ds" for e
    using that D assms by (auto simp: pxm_map_def domains_ok_def)
  have old: "pxm_to_node_map s ! e = node_of ?ds e" if "e \<in> set ds" for e
    using that assms(1) unfolding xs by (auto simp: pxm_map_def domains_ok_def node_of_append)
  have "node_map ?ds ! nat (node_of ?ds (unat d)) = int (unat d)"
    using n [of "unat d"] D le by (simp add: node_map_def)
  moreover have "node_of ?ds e = node_of ?ds (unat d) \<longleftrightarrow> e = unat d" if "e \<in> set ds" for e
    using n(3) [of e] n(3) [of "unat d"] that D by auto
  ultimately show ?thesis using s' ok D at old n [of "unat d"] len assms(1)
    by (intro exI [of _ "node_of ?ds (unat d)"] exI [of _ ?ds] exI) (auto simp: domains_ok_def)
qed

text \<open>C27: An entry of a type the switch does not know does not advance the offset: a SRAT with one, reached
  after entries that were accepted, makes the parser run for ever.  Without such entries it always
  returns.\<close>

theorem parse_srat_endless:
  assumes "laid_out (srat_advance L) entry (sz_srat L) es offset" and "handle_all (srat_handle L) es s = Ok s'" and "offset < unat len"
    and "0 < sz_cpu_affinity L" and "0 < sz_mem_affinity L"
  shows "(entry offset = Srat_Other \<longrightarrow> parse_srat L len entry s = None)
    \<and> (Srat_Other \<notin> range entry \<longrightarrow> (\<exists>r. parse_srat L len entry s = Some r))"
proof (intro conjI impI)
  assume "entry offset = Srat_Other"
  then have "table_loop (srat_handle L) (srat_advance L) (unat len) entry offset s' = None"
    using assms(3) by (intro table_loop_stuck) simp_all
  then show "parse_srat L len entry s = None"
    using table_loop_laid [OF assms(1), of "unat len" "srat_handle L" s] assms(2,3) by (simp add: parse_srat_def)
next
  assume "Srat_Other \<notin> range entry"
  then have other: "entry place \<noteq> Srat_Other" for place by (metis rangeI)
  show "\<exists>r. parse_srat L len entry s = Some r" unfolding parse_srat_def
  proof (rule table_loop_ends)
    show "0 < srat_advance L (entry place)" if "srat_handle L (entry place) t = Ok t'" for place t t'
      using that other [of place] assms(4,5) by (cases "entry place") simp_all
  qed
qed

subsection \<open>Witnesses\<close>

text \<open>The sizes of the ACPI specification; two processors on one node each, a block of memory on each.\<close>

definition layout0 :: acpi_layout where
  "layout0 = \<lparr>sz_madt = 44, sz_local_apic = 8, sz_io_apic = 12, sz_interrupt_override = 10, sz_local_apic_nmi = 6,
     sz_srat = 48, sz_cpu_affinity = 16, sz_mem_affinity = 40, madt_enabled = 1, srat_use_affinity = 1, srat_mem_enabled = 1\<rparr>"

definition madt0 :: "nat \<Rightarrow> madt_entry" where
  "madt0 offset = (if offset = 44 then Madt_Local_Apic 0 0 1 else if offset = 52 then Madt_Local_Apic 1 4 1
     else if offset = 60 then Madt_Local_Apic 2 6 0 else Madt_Io_Apic)"

definition srat0 :: "nat \<Rightarrow> srat_entry" where
  "srat0 offset = (if offset = 48 then Srat_Cpu_Affinity 7 0 0 0 0 1 else if offset = 64 then Srat_Cpu_Affinity 3 0 0 0 4 1
     else if offset = 80 then Srat_Mem_Affinity 3 0x100000 0x200000 1 else if offset = 120 then Srat_Mem_Affinity 7 0x400000 0x100000 1
     else Srat_Other)"

lemmas tables0 = layout0_def madt0_def srat0_def cpu_new_def MAX_NUM_CPUS_def MAX_PXM_DOMAINS_def MAX_NUMA_NODES_def MAX_NUMA_MEMBLOCKS_def

theorem parse_madt_correct_witness:
  "\<exists>cpus. parse_madt layout0 80 madt0 [cpu_new 0 0 0] = Some (Ok cpus) \<and> map (\<lambda>c. (cpu_acpi_id c, cpu_apic_id c)) cpus = [(0, 0), (1, 4)]"
  using parse_madt_correct [of layout0 madt0 "[Madt_Local_Apic 0 0 1, Madt_Local_Apic 1 4 1, Madt_Local_Apic 2 6 0, Madt_Io_Apic]" 80 "cpu_new 0 0 0"]
  by (auto simp: tables0)

theorem acpi_boot_init_correct_witness:
  "\<exists>cpus. map (\<lambda>c. (cpu_acpi_id c, cpu_apic_id c)) cpus = [(0, 0), (1, 4)] \<and> map cpu_index cpus = [0, 1]
    \<and> acpi_boot_init layout0 True (Some (80, madt0)) (Some (160, srat0)) [cpu_new 0 0 0] []
      = Some (Ok (srat_topology layout0 cpus [Srat_Cpu_Affinity 7 0 0 0 0 1, Srat_Cpu_Affinity 3 0 0 0 4 1,
          Srat_Mem_Affinity 3 0x100000 0x200000 1, Srat_Mem_Affinity 7 0x400000 0x100000 1]))"
proof -
  let ?ms = "[Madt_Local_Apic 0 0 1, Madt_Local_Apic 1 4 1, Madt_Local_Apic 2 6 0, Madt_Io_Apic]"
  let ?es = "[Srat_Cpu_Affinity 7 0 0 0 0 1, Srat_Cpu_Affinity 3 0 0 0 4 1, Srat_Mem_Affinity 3 0x100000 0x200000 1, Srat_Mem_Affinity 7 0x400000 0x100000 1]"
  have en: "enabled_apics layout0 ?ms = [(0, 0), (1, 4)]" by (simp add: layout0_def)
  have "unat (cpu_domain lo 0 0 0) = unat lo" for lo by (simp add: cpu_domain_def unat_ucast_up)
  then have ok: "\<forall>e\<in>set ?es. srat_entry_ok layout0 (snd ` set (enabled_apics layout0 ?ms)) e" unfolding en by (simp add: tables0)
  have "length (node_memory layout0 ds ?es d) \<le> MAX_NUMA_MEMBLOCKS" for ds d by (simp add: node_memory_def tables0)
  then have mem: "\<forall>d. length (node_memory layout0 (domains layout0 ?es) ?es d) \<le> MAX_NUMA_MEMBLOCKS" by blast
  have "laid_out (madt_advance layout0) madt0 (sz_madt layout0) ?ms (unat (80 :: u32))"
    "laid_out (srat_advance layout0) srat0 (sz_srat layout0) ?es (unat (160 :: u32))" by (simp_all add: tables0)
  note laid = this
  have p: "Madt_Unsupported \<notin> set ?ms" "length (enabled_apics layout0 ?ms) \<le> MAX_NUM_CPUS" "enabled_apics layout0 ?ms \<noteq> []"
      "distinct (map snd (enabled_apics layout0 ?ms))" "cpu_index (cpu_new 0 0 0) = 0"
    unfolding en by (simp_all add: tables0)
  obtain cpus where c: "map (\<lambda>c. (cpu_acpi_id c, cpu_apic_id c)) cpus = [(0, 0), (1, 4)]" "map cpu_index cpus = [0..<length cpus]"
      "acpi_boot_init layout0 True (Some (80, madt0)) (Some (160, srat0)) [cpu_new 0 0 0] [] = Some (Ok (srat_topology layout0 cpus ?es))"
    using acpi_boot_init_correct [OF laid(1) p(1-4) laid(2) ok mem p(5)] unfolding en by (elim exE conjE) (rule that)
  have "length cpus = 2" using arg_cong [OF c(1), of length] by simp
  then have "map cpu_index cpus = [0, 1]" using c(2) by (simp add: upt_conv_Cons)
  with c(1,3) show ?thesis by (intro exI [of _ cpus] conjI)
qed

theorem setup_node_roundtrip_witness:
  "\<exists>node s'. setup_node 7 (srat_topology layout0 [] []) = Ok (node, s') \<and> node_to_pxm_map s' ! nat node = 7"
  using setup_node_roundtrip [of "[]" "srat_topology layout0 [] []" 7] by (auto simp: domains_ok_def srat_topology_def domains_def tables0)

definition srat1 :: "nat \<Rightarrow> srat_entry" where
  "srat1 offset = (if offset = 48 then Srat_Mem_Affinity 3 0x100000 0x200000 1 else Srat_Other)"

theorem parse_srat_endless_witness:
  "parse_srat layout0 96 srat1 (srat_topology layout0 [] []) = None"
proof -
  let ?es = "[Srat_Mem_Affinity 3 0x100000 0x200000 1]"
  have "\<forall>d. length (node_memory layout0 (domains layout0 ?es) ?es d) \<le> MAX_NUMA_MEMBLOCKS" by (simp add: node_memory_def tables0)
  then have "handle_all (srat_handle layout0) ?es (srat_topology layout0 [] []) = Ok (srat_topology layout0 [] ?es)"
    by (intro srat_all) (simp_all add: tables0)
  moreover have "laid_out (srat_advance layout0) srat1 (sz_srat layout0) ?es 88" by (simp add: tables0 srat1_def)
  ultimately show ?thesis using parse_srat_endless [of layout0 srat1 ?es 88 _ _ 96] by (simp add: layout0_def srat1_def)
qed

text \<open>Page tables in which the page at \<open>0x3000\<close> is mapped, as after mapping a table at its start.\<close>

definition table_mapped :: page_tables where
  "table_mapped = \<lparr>pt_root = 0x10f003, pt_mem = (\<lambda>_. 0)(0x10f000 := 0x10e003, 0x10e000 := 0x10d003,
     0x10d000 := 0x10c003, 0x10c018 := 0x3003)\<rparr>"

text \<open>Two tables in one page: mapping the second changes nothing; unmapping the first takes the page from
  both, and unmapping the second then stops the kernel.\<close>

theorem AcpiOs_shared_page:
  "AcpiOsMapMemory 0x3800 0x200 (rs, table_mapped) = Ok (0x3800, rs, table_mapped)
   \<and> bind_res (AcpiOsUnmapMemory 0x3000 0x100 (rs, table_mapped)) (AcpiOsUnmapMemory 0x3800 0x200) = Fail Assert_Failed"
  by (simp add: AcpiOsMapMemory_def AcpiOsUnmapMemory_def [abs_def] early_map_memory_def early_unmap_memory_def run_pte)
    (simp add: run_traverse run_pte table_mapped_def cong: pt_loop_weak_cong)

end
