(* ===== verification/Boot_Memory.thy ===== *)
theory Boot_Memory
  imports E820 Acpi Page_Allocator
begin

text \<open>
  The part of \<open>kmain\<close> (\<open>sys/main.cpp\<close>) that takes the machine's memory from the boot loader's map to the
  page allocators: the memory loops, the ACPI tables, \<open>numa_init\<close>, \<open>mem_map_init\<close>, \<open>trans_init\<close> and
  \<open>PageAllocator::Init\<close>, in the order of the code, on one state.  What the pieces guarantee is in
  their own theories; here it is composed: every frame a node's allocator holds at the end was usable
  memory, belongs to that node, and is held by no other node.
\<close>

subsection \<open>The pipeline\<close>

text \<open>While it reads its tables ACPICA maps and unmaps physical memory, in an order of its own.\<close>

datatype os_call = Os_Map u64 u64 | Os_Unmap u64 u64

fun run_os_call :: "os_call \<Rightarrow> page_range list vm \<Rightarrow> page_range list vm res" where
  "run_os_call (Os_Map location len) s = bind_res (AcpiOsMapMemory location len s) (\<lambda>(_, s'). Ok s')"
| "run_os_call (Os_Unmap logical_address len) s = AcpiOsUnmapMemory logical_address len s"

fun run_os_calls :: "os_call list \<Rightarrow> page_range list vm \<Rightarrow> page_range list vm res" where
  "run_os_calls [] s = Ok s"
| "run_os_calls (c # cs) s = bind_res (run_os_call c s) (run_os_calls cs)"

text \<open>The \<open>struct page\<close>s that \<open>mem_map_init\<close> constructs: one for every frame of a section that was
  marked, with the node of the mark, found again while the section's word is valid.\<close>

definition section_pages :: "(nat \<Rightarrow> u64) \<Rightarrow> (nat \<Rightarrow> u64) \<Rightarrow> pages" where
  "section_pages marked secs pfn =
     (let i = pfn_to_section_num pfn
      in if \<not> valid (secs i) \<or> \<not> present (secs i) then None
         else Some \<lparr>pg_usage = RESERVED, pg_nid = word_of_int (early_get_nid (marked i)), pg_order = 0\<rparr>)"

record boot =
  bt_topology :: topology
  bt_sections :: "nat \<Rightarrow> u64"
  bt_tables :: page_tables
  bt_allocators :: page_allocators

definition boot_sections ::
    "u64 \<Rightarrow> numa_node list \<Rightarrow> page_range list \<Rightarrow> (pages \<times> (nat \<Rightarrow> u64) \<times> page_range list) res" where
  "boot_sections psz nodes rs =
     bind_res (mark_blocks (concat (map nn_memblocks nodes)) (\<lambda>_. 0)) (\<lambda>marked.
       bind_res (mem_map_init psz nodes (\<lambda>_. 0, rs)) (\<lambda>(secs, rs').
         Ok (section_pages marked secs, secs, rs')))"

definition boot_nodes :: "u64 \<Rightarrow> topology \<Rightarrow> page_range list vm \<Rightarrow> boot res" where
  "boot_nodes psz topo s =
     (case numa_init (numa_nodes topo) (fst s) of (nodes, rs) \<Rightarrow>
        bind_res (boot_sections psz nodes rs) (\<lambda>(pages, secs, rs1).
          bind_res (my_node (tp_cpus topo) 0) (\<lambda>nid. bind_res (trans_init nid (rs1, snd s)) (\<lambda>(rs2, t).
            bind_res (page_allocator_init (length nodes) rs2 pages) (\<lambda>st.
              Ok \<lparr>bt_topology = topo\<lparr>numa_nodes := nodes\<rparr>, bt_sections = secs, bt_tables = t, bt_allocators = st\<rparr>)))))"

definition boot_memory ::
    "acpi_layout \<Rightarrow> (u32 \<times> (nat \<Rightarrow> madt_entry)) option \<Rightarrow> (u32 \<times> (nat \<Rightarrow> srat_entry)) option \<Rightarrow> os_call list
     \<Rightarrow> u64 \<Rightarrow> u64 \<Rightarrow> e820_entry list \<Rightarrow> cpu list \<Rightarrow> page_tables \<Rightarrow> boot res option" where
  "boot_memory L madt srat calls psz kend e820_map cpus t =
     (case bind_res (kmain_memory early_map_memory kend e820_map t) (run_os_calls calls) of
        Fail e \<Rightarrow> Some (Fail e)
      | Ok s \<Rightarrow> Option.bind (acpi_boot_init L True madt srat cpus []) (\<lambda>r. case r of
                  Fail e \<Rightarrow> Some (Fail e)
                | Ok topo \<Rightarrow> Some (boot_nodes psz topo s)))"

subsection \<open>Steps that only take pages\<close>

lemma on_node_append [simp]: "on_node (xs @ ys) p n \<longleftrightarrow> on_node xs p n \<or> on_node ys p n"
  by (auto simp: on_node_def)

lemma on_node_pages: "p \<in> pages_of rs \<longleftrightarrow> (\<exists>n. on_node rs p n)"
  by (auto simp: pages_of_def on_node_def)

lemma on_node_unique: "ranges_ok lo rs \<Longrightarrow> on_node rs p m \<Longrightarrow> on_node rs p n \<Longrightarrow> m = n"
proof (induction rs arbitrary: lo)
  case (Cons r rs)
  have "\<not> on_node rs p k" if "p \<in> range_pages r" for k
    using on_node_lower [of rs p k "r_hi r"] Cons.prems(1) that by (auto simp: range_pages_def)
  then show ?case using Cons by auto
qed simp

text \<open>From \<open>rs\<close> to \<open>rs'\<close> pages may have been taken; the others are still free, on their node.\<close>

definition takes :: "page_range list \<Rightarrow> page_range list \<Rightarrow> bool" where
  "takes rs rs' \<longleftrightarrow> pr_nid ` set rs' \<subseteq> pr_nid ` set rs \<and> (ranges_ok 0 rs \<longrightarrow> ranges_ok 0 rs' \<and> (\<forall>p n. on_node rs' p n \<longrightarrow> on_node rs p n))"

lemma takes_refl [simp]: "takes rs rs"
  by (simp add: takes_def)

lemma takes_trans: "takes a b \<Longrightarrow> takes b c \<Longrightarrow> takes a c"
  unfolding takes_def by blast

lemma takesD: "takes rs rs' \<Longrightarrow> ranges_ok 0 rs \<Longrightarrow> ranges_ok 0 rs'"
  "takes rs rs' \<Longrightarrow> ranges_ok 0 rs \<Longrightarrow> on_node rs' p n \<Longrightarrow> on_node rs p n"
  "takes rs rs' \<Longrightarrow> ranges_ok 0 rs \<Longrightarrow> pages_of rs' \<subseteq> pages_of rs"
  unfolding takes_def on_node_pages subset_iff by blast+

lemma early_allocate_page_shape:
  assumes "early_allocate_page n nid rs = Ok (p, rs')"
  obtains xs r ys where "rs = xs @ r # ys" and "pr_start r \<le> pr_end r - ucast n"
    and "rs' = xs @ ys \<or> rs' = xs @ r\<lparr>pr_npages := pr_npages r - ucast n\<rparr> # ys"
proof -
  have "\<exists>xs r ys. rs = xs @ r # ys \<and> pr_start r \<le> pr_end r - ucast n
    \<and> (rs' = xs @ ys \<or> rs' = xs @ r\<lparr>pr_npages := pr_npages r - ucast n\<rparr> # ys)"
    using assms
  proof (induction n nid rs arbitrary: p rs' rule: early_allocate_page.induct)
    case (2 n nid r rs)
    show ?case
    proof (cases "nid \<noteq> ANY_NID \<and> pr_nid r \<noteq> nid \<or> pr_end r - ucast n < pr_start r")
      case True
      then have "early_allocate_page n nid (r # rs) = bind_res (early_allocate_page n nid rs) (\<lambda>(p, rs'). Ok (p, r # rs'))"
        by (auto simp: Let_def)
      then obtain q rs1 where q: "early_allocate_page n nid rs = Ok (q, rs1)" "rs' = r # rs1"
        using "2.prems" by (auto simp: bind_res_Ok_iff)
      have "\<exists>xs r ys. rs = xs @ r # ys \<and> pr_start r \<le> pr_end r - ucast n
          \<and> (rs1 = xs @ ys \<or> rs1 = xs @ r\<lparr>pr_npages := pr_npages r - ucast n\<rparr> # ys)"
        using "2.IH" True q(1) by (cases "nid \<noteq> ANY_NID \<and> pr_nid r \<noteq> nid") auto
      then obtain xs r0 ys where "rs = xs @ r0 # ys" "pr_start r0 \<le> pr_end r0 - ucast n"
        "rs1 = xs @ ys \<or> rs1 = xs @ r0\<lparr>pr_npages := pr_npages r0 - ucast n\<rparr> # ys" by blast
      then show ?thesis using q(2) by (intro exI [of _ "r # xs"] exI [of _ r0] exI [of _ ys]) auto
    next
      case False
      then have "rs' = rs \<or> rs' = r\<lparr>pr_npages := pr_npages r - ucast n\<rparr> # rs"
        using "2.prems" by (auto simp: Let_def split: if_splits)
      then show ?thesis using False by (intro exI [of _ "[]"] exI [of _ r] exI [of _ rs]) auto
    qed
  qed simp
  then show thesis using that by blast
qed

lemma early_allocate_page_nids:
  "early_allocate_page n nid rs = Ok (p, rs') \<Longrightarrow> pr_nid ` set rs' \<subseteq> pr_nid ` set rs"
  by (erule early_allocate_page_shape) auto

lemma early_allocate_page_takes:
  assumes "early_allocate_page n nid rs = Ok (p, rs')" and "\<And>r. r \<in> set rs \<Longrightarrow> unat n \<le> r_hi r"
  shows "takes rs rs'"
  unfolding takes_def
proof (intro impI conjI early_allocate_page_nids [OF assms(1)])
  assume ok: "ranges_ok 0 rs"
  show "ranges_ok 0 rs'" using early_allocate_page_ok [OF assms(1) ok assms(2)] by blast
  obtain xs r ys where s: "rs = xs @ r # ys" "pr_start r \<le> pr_end r - ucast n"
    "rs' = xs @ ys \<or> rs' = xs @ r\<lparr>pr_npages := pr_npages r - ucast n\<rparr> # ys"
    using early_allocate_page_shape [OF assms(1)] .
  have r: "r \<in> set rs" "r_hi r \<le> 2 ^ 52" using s(1) ranges_ok_set [OF ok] by auto
  have e: "unat (pr_end r) = r_hi r" by (rule unat_pr_end [OF r(2)])
  have n: "unat (ucast n :: u64) = unat n" by (simp add: unat_ucast_up)
  have "unat (pr_end r - ucast n) = r_hi r - unat n"
    using assms(2) [OF r(1)] by (subst unat_sub_nowrap) (simp_all only: word_le_nat_alt n e)
  then have "unat n \<le> unat (pr_npages r)"
    using s(2) assms(2) [OF r(1)] by (simp add: word_le_nat_alt r_hi_def)
  then have "unat (pr_npages r - ucast n) \<le> unat (pr_npages r)"
    by (subst unat_sub_nowrap) (simp_all only: word_le_nat_alt n diff_le_self)
  then have "range_pages (r\<lparr>pr_npages := pr_npages r - ucast n\<rparr>) \<subseteq> range_pages r"
    by (auto simp: range_pages_def r_lo_def r_hi_def)
  then show "\<forall>p m. on_node rs' p m \<longrightarrow> on_node rs p m"
    using s(1,3) by (auto simp: on_node_def)
qed

text \<open>The page-table walks of the boot take their tables' pages from the ranges and nothing else.\<close>

lemma walk_takes:
  assumes "traverse_page_table 4 found on_empty vs ve Root b (rs, t) = Ok (rs', t')" and "never_false on_empty"
    and "\<And>entry s s1. on_empty entry s = Ok (True, s1) \<Longrightarrow> takes (fst s) (fst s1)"
    and "\<And>entry b l s s1. found entry b l s = Ok s1 \<Longrightarrow> fst s1 = fst s"
  shows "takes rs rs'"
proof -
  obtain log where "visits found on_empty (rs, t) log (rs', t')"
    using traverse_visits [OF assms(1,2)] by blast
  then have "takes (fst (rs, t)) (fst (rs', t'))"
  proof (rule visits_preserve)
    show "takes (fst a) (fst c)" if "takes (fst a) (fst b)" "takes (fst b) (fst c)" for a b c :: "page_range list vm"
      using that takes_trans by blast
    show "takes (fst s) (fst s1)" if "found entry b l s = Ok s1" for entry b l s s1
      using assms(4) [OF that] by simp
  qed (use assms(3) in simp_all)
  then show ?thesis by simp
qed

lemma one_page_takes: "early_allocate_page 1 nid rs = Ok (p, rs') \<Longrightarrow> takes rs rs'"
  using early_allocate_page_takes [of 1 nid rs p rs'] early_one_page [of 0 rs] early_allocate_page_nids [of 1 nid rs p rs']
  unfolding takes_def by blast

lemma new_table_takes: "new_table (early_allocate_page 1 nid) entry s = Ok (True, s1) \<Longrightarrow> takes (fst s) (fst s1)"
  using one_page_takes by (auto simp: new_table_def res_Ok_iff Let_def split: prod.splits)

lemma early_map_takes: "early_map_memory a l (rs, t) = Ok (rs', t') \<Longrightarrow> takes rs rs'"
  by (auto simp: early_map_memory_def early_map_entry_def res_Ok_iff split: prod.splits if_splits
      elim!: walk_takes [OF _ never_false_new_table new_table_takes])

lemma early_unmap_takes: "early_unmap_memory a l (rs, t) = Ok (rs', t') \<Longrightarrow> takes rs rs'"
  by (auto simp: early_unmap_memory_def unmap_entry_def never_false_def res_Ok_iff split: prod.splits if_splits
      elim!: walk_takes)

lemma trans_init_takes:
  assumes "trans_init nid (rs, t) = Ok (rs', t')"
  shows "takes rs rs'"
proof -
  obtain page a t1 where 1: "early_allocate_page 1 nid rs = Ok (page, a)"
    and 2: "traverse_page_table 4
       (\<lambda>entry base_virt. map_entry (pfn_to_addr page + (base_virt - LOCAL_TRANS_VMEM_START)) entry base_virt)
       (new_table (early_allocate_page 1 nid)) LOCAL_TRANS_VMEM_START (LOCAL_TRANS_VMEM_START + PAGE_SIZE)
       Root 0 (a, t) = Ok (rs', t1)"
    using assms by (auto simp: trans_init_def res_Ok_iff)
  have "takes a rs'"
    by (rule walk_takes [OF 2 never_false_new_table new_table_takes])
      (auto simp: map_entry_def res_Ok_iff split: prod.splits)
  then show ?thesis using one_page_takes [OF 1] takes_trans by blast
qed

lemma run_os_call_takes: "run_os_call c (rs, t) = Ok (rs', t') \<Longrightarrow> takes rs rs'"
  by (cases c) (auto simp: AcpiOsMapMemory_def AcpiOsUnmapMemory_def res_Ok_iff
      intro: early_map_takes early_unmap_takes)

lemma run_os_calls_takes: "run_os_calls cs (rs, t) = Ok (rs', t') \<Longrightarrow> takes rs rs'"
proof (induction cs arbitrary: rs t)
  case (Cons c cs)
  then obtain rs1 t1 where "run_os_call c (rs, t) = Ok (rs1, t1)" "run_os_calls cs (rs1, t1) = Ok (rs', t')"
    by (auto simp: res_Ok_iff)
  then show ?case using Cons.IH run_os_call_takes takes_trans by blast
qed simp

lemma build_maps_takes:
  assumes "build_maps psz is (secs, rs) = Ok (secs', rs')" and "ranges_ok 0 rs"
    and "\<And>p. p \<in> pages_of rs \<Longrightarrow> unat (section_map_pages psz) \<le> p"
  shows "takes rs rs'"
  using assms
proof (induction "is" arbitrary: secs rs)
  case (Cons i "is")
  show ?case
  proof (cases "present (secs i)")
    case True
    then obtain m rs1 where a: "early_allocate_page (section_map_pages psz) (early_get_nid (secs i)) rs = Ok (m, rs1)"
      and b: "build_maps psz is (secs(i := set_map psz (pfn_to_addr m) i), rs1) = Ok (secs', rs')"
      using Cons.prems(1) by (auto simp: bind_res_Ok_iff)
    have "unat (section_map_pages psz) \<le> r_hi r" if r: "r \<in> set rs" for r
    proof -
      have "r_lo r < r_hi r" using ranges_ok_set [OF Cons.prems(2) r] by blast
      then have "r_lo r \<in> pages_of rs" using r by (auto simp: pages_of_def range_pages_def)
      with Cons.prems(3) \<open>r_lo r < r_hi r\<close> show ?thesis by fastforce
    qed
    then have t: "takes rs rs1" by (rule early_allocate_page_takes [OF a])
    then have "takes rs1 rs'" using Cons.IH [OF b] takesD [OF t Cons.prems(2)] Cons.prems(3) by blast
    then show ?thesis using t takes_trans by blast
  qed (use Cons in auto)
qed simp

subsection \<open>Before the nodes are known\<close>

lemma free_page_range_nids:
  assumes "free_page_range start stop nid rs = Ok rs'"
  shows "pr_nid ` set rs' \<subseteq> insert nid (pr_nid ` set rs)"
proof -
  let ?r = "\<lparr>pr_start = start, pr_npages = stop - start, pr_nid = nid\<rparr>"
  let ?xs = "takeWhile (\<lambda>x. pr_start x < start) rs" and ?ys = "dropWhile (\<lambda>x. pr_start x < start) rs"
  obtain xs it where l: "link_prior ?xs ?r = (xs, it)" by fastforce
  have rs': "rs' = link_next xs it ?ys" using assms l by (auto simp: free_page_range_def Let_def res_Ok_iff)
  have "pr_nid it \<in> insert nid (pr_nid ` set rs) \<and> set xs \<subseteq> set rs"
  proof (cases "?xs = []")
    case True
    then show ?thesis using l by (auto simp: link_prior_def)
  next
    case False
    then have "last ?xs \<in> set rs" using last_in_set set_takeWhileD by metis
    then show ?thesis
      using l False by (auto simp: link_prior_def coalesce_def split: if_splits dest!: in_set_butlastD dest: set_takeWhileD)
  qed
  moreover have "pr_nid ` set (link_next xs it zs) \<subseteq> insert (pr_nid it) (pr_nid ` (set xs \<union> set zs))" for zs
    by (cases zs) (auto simp: coalesce_def)
  ultimately show ?thesis unfolding rs' by (fastforce dest: set_dropWhileD)
qed

definition unassigned :: "page_range list \<Rightarrow> bool" where
  "unassigned rs \<longleftrightarrow> (\<forall>r\<in>set rs. pr_nid r = ANY_NID)"

lemma unassigned_takes: "unassigned rs \<Longrightarrow> takes rs rs' \<Longrightarrow> unassigned rs'"
  by (force simp: unassigned_def takes_def)

lemma unassigned_free: "unassigned rs \<Longrightarrow> early_free_memory_range a l ANY_NID rs = Ok rs' \<Longrightarrow> unassigned rs'"
  using free_page_range_nids [of _ _ ANY_NID rs rs']
  by (fastforce simp: unassigned_def early_free_memory_range_def Let_def split: if_splits)

lemma unassigned_regions:
  assumes "e820_for_each_usable_region f es (rs, t) = Ok (rs', t')" and "unassigned rs"
    and "\<And>e rs t rs' t'. f e (rs, t) = Ok (rs', t') \<Longrightarrow> unassigned rs \<Longrightarrow> unassigned rs'"
  shows "unassigned rs'"
  using assms(1,2)
proof (induction es arbitrary: rs t)
  case (Cons e es)
  then show ?case by (auto simp: bind_res_Ok_iff split: if_splits intro: assms(3))
qed simp

lemma unassigned_kmain:
  assumes "kmain_memory early_map_memory kend es t = Ok (rs, t')"
  shows "unassigned rs"
proof -
  obtain rs1 t1 where
    1: "e820_for_each_usable_region (kmain_low_region early_map_memory kend) es ([], t) = Ok (rs1, t1)"
    and 2: "e820_for_each_usable_region kmain_high_region es (rs1, t1) = Ok (rs, t')"
    using assms by (auto simp: kmain_memory_def bind_res_Ok_iff)
  have "unassigned rs1"
    by (rule unassigned_regions [OF 1])
      (auto simp: unassigned_def [of "[]"] kmain_low_region_def Let_def bind_res_Ok_iff split: if_splits
        intro: unassigned_takes [OF _ early_map_takes] unassigned_free)
  then show ?thesis
    by (rule unassigned_regions [OF 2])
      (auto simp: kmain_high_region_def Let_def bind_res_Ok_iff split: if_splits intro: unassigned_free)
qed

lemma map_law_early_map: "map_law early_map_memory"
  using early_map_takes takesD by (fastforce simp: map_law_def)

subsection \<open>What the SRAT leaves\<close>

lemma table_loop_inv:
  assumes "table_loop handle advance len entry offset s = Some (Ok s')" and "I s"
    and "\<And>e s s'. handle e s = Ok s' \<Longrightarrow> I s \<Longrightarrow> I s'"
  shows "I s'"
proof -
  have "\<forall>s'. h = handle \<longrightarrow> I s \<longrightarrow> r = Ok s' \<longrightarrow> I s'" if "table_loop h a l e n s = Some r" for h a l e n s r
  proof (rule table_loop.raw_induct [where P = "\<lambda>h a l e n s r. \<forall>s'. h = handle \<longrightarrow> I s \<longrightarrow> r = Ok s' \<longrightarrow> I s'", OF _ that])
    fix loop h a l e n s r
    assume IH: "\<And>h a l e n s r. loop h a l e n s = Some r \<Longrightarrow> \<forall>s'. h = handle \<longrightarrow> I s \<longrightarrow> r = Ok s' \<longrightarrow> I s'"
      and body: "(if n < l then case h (e n) s of Fail x \<Rightarrow> Some (Fail x) | Ok s'' \<Rightarrow> loop h a l e (n + a (e n)) s'' else Some (Ok s)) = Some r"
    show "\<forall>s'. h = handle \<longrightarrow> I s \<longrightarrow> r = Ok s' \<longrightarrow> I s'"
    proof (intro allI impI)
      fix s' assume h: "h = handle" "I s" "r = Ok s'"
      show "I s'"
      proof (cases "n < l")
        case True
        then obtain s'' where "handle (e n) s = Ok s''" "loop h a l e (n + a (e n)) s'' = Some r"
          using body h by (cases "handle (e n) s") auto
        then show ?thesis using IH assms(3) h by blast
      next
        case False
        then show ?thesis using body h by simp
      qed
    qed
  qed
  then show ?thesis using assms(1,2) by blast
qed

text \<open>There is room for every node, a memory block carries the node it is listed under, and ends in
  the physical address space.\<close>

definition topology_ok :: "topology \<Rightarrow> bool" where
  "topology_ok s \<longleftrightarrow> length (numa_nodes s) \<le> MAX_NUMA_NODES \<and>
     (\<forall>n<length (numa_nodes s). \<forall>b\<in>set (nn_memblocks (numa_nodes s ! n)). mb_nid b = int n \<and> unat (mb_end b) \<le> 2 ^ 52)"

lemma setup_node_topology_ok: "setup_node d s = Ok (n, s') \<Longrightarrow> topology_ok s \<Longrightarrow> topology_ok s'"
  by (auto simp: setup_node_def topology_ok_def res_Ok_iff Let_def nth_append less_Suc_eq split: if_splits)

lemma pfn_up_bound: "unat (pfn_up a) \<le> 2 ^ 52"
proof -
  have "unat (a + PAGE_SIZE - 1) div 2 ^ 12 \<le> 2 ^ 64 div 2 ^ 12"
    by (rule div_le_mono) (use unat_lt_pow [of "a + PAGE_SIZE - 1"] in simp)
  then show ?thesis by (simp add: pfn_up_def PAGE_SHIFT_def unat_drop_bit_word)
qed

lemma srat_handle_topology_ok: "srat_handle L e s = Ok s' \<Longrightarrow> topology_ok s \<Longrightarrow> topology_ok s'"
proof (cases e)
  case (Srat_Mem_Affinity d base len flags)
  assume h: "srat_handle L e s = Ok s'" and ok: "topology_ok s"
  show ?thesis
  proof (cases "flags AND srat_mem_enabled L = 0")
    case False
    then obtain n s1 where "setup_node (ucast d) s = Ok (n, s1)"
      and 2: "add_memblock \<lparr>mb_start = pfn_down base, mb_end = pfn_up (base + len), mb_nid = n\<rparr> s1 = Ok s'"
      using h Srat_Mem_Affinity by (auto simp: res_Ok_iff)
    then have "topology_ok s1" using setup_node_topology_ok ok by blast
    with 2 show ?thesis
      by (auto simp: add_memblock_def topology_ok_def Let_def res_Ok_iff nth_list_update pfn_up_bound [simplified] split: if_splits)
  qed (use h ok Srat_Mem_Affinity in simp)
qed (auto simp: res_Ok_iff Let_def topology_ok_def split: if_splits option.splits dest!: setup_node_topology_ok)

lemma acpi_boot_init_topology_ok:
  assumes "acpi_boot_init L True madt srat cpus [] = Some (Ok topo)"
  shows "topology_ok topo"
proof -
  obtain len0 entry0 where m: "madt = Some (len0, entry0)" using assms by (cases madt) (auto simp: acpi_boot_init_def)
  then obtain r where r: "parse_madt L len0 entry0 cpus = Some r"
    using assms by (auto simp: acpi_boot_init_def bind_eq_Some_conv)
  obtain len entry s where "parse_srat L len entry s = Some (Ok topo)" "numa_nodes s = []"
    using assms m r by (cases r; cases srat) (auto simp: acpi_boot_init_def)
  then have "table_loop (srat_handle L) (srat_advance L) (unat len) entry (sz_srat L) s = Some (Ok topo)" and "topology_ok s"
    by (simp_all add: parse_srat_def topology_ok_def)
  then show ?thesis by (rule table_loop_inv) (rule srat_handle_topology_ok)
qed

subsection \<open>The memory of the nodes\<close>

definition block_frames :: "numa_memblock \<Rightarrow> nat set" where
  "block_frames b = {unat (mb_start b) ..< unat (mb_end b)}"

definition block_wf :: "numa_memblock \<Rightarrow> bool" where
  "block_wf b \<longleftrightarrow> mb_start b < mb_end b \<and> unat (mb_end b) \<le> 2 ^ 52"

text \<open>A free page has a node only through a memory block of that node.\<close>

definition assigned :: "numa_memblock set \<Rightarrow> page_range list \<Rightarrow> bool" where
  "assigned bs rs \<longleftrightarrow> (\<forall>p n. on_node rs p n \<longrightarrow> n = ANY_NID \<or> (\<exists>b\<in>bs. mb_nid b = n \<and> p \<in> block_frames b))"

lemma assigned_none: "unassigned rs \<Longrightarrow> assigned {} rs"
  by (auto simp: unassigned_def assigned_def on_node_def)

lemma assigned_takes: "assigned bs rs \<Longrightarrow> takes rs rs' \<Longrightarrow> ranges_ok 0 rs \<Longrightarrow> assigned bs rs'"
  unfolding assigned_def using takesD(2) by blast

lemma set_nid_assigned:
  assumes "ranges_ok 0 rs" and "assigned bs rs" and "block_wf b"
    and "rs' = early_set_nid_range (mb_start b) (mb_end b) (mb_nid b) rs"
  shows "ranges_ok 0 rs' \<and> pages_of rs' \<subseteq> pages_of rs \<and> assigned (insert b bs) rs'"
proof -
  have lt: "unat (mb_start b) < unat (mb_end b)" "unat (mb_end b) \<le> 2 ^ 52"
    using assms(3) by (auto simp: block_wf_def word_less_nat_alt)
  note h = early_set_nid_range_spec [OF assms(1) lt, of "mb_nid b", folded assms(4), unfolded set_nid_spec_def]
  have "n = ANY_NID \<or> (\<exists>c\<in>insert b bs. mb_nid c = n \<and> p \<in> block_frames c)" if on: "on_node rs' p n" for p n
  proof (cases "p \<in> block_frames b")
    case True
    then have "on_node rs' p (mb_nid b)" using h on by (auto simp: on_node_pages block_frames_def)
    then have "n = mb_nid b" using on_node_unique h on by blast
    then show ?thesis using True by blast
  next
    case False
    have p: "p \<in> pages_of rs'" "p \<in> pages_of rs" using h on by (auto simp: on_node_pages)
    then obtain m where m: "on_node rs p m" by (auto simp: on_node_pages)
    then have "on_node rs' p m \<or> on_node rs' p ANY_NID"
      using h p False by (auto simp: block_frames_def)
    then have "n = m \<or> n = ANY_NID" using on_node_unique h on by blast
    then show ?thesis using m assms(2) by (auto simp: assigned_def)
  qed
  then show ?thesis using h by (auto simp: assigned_def)
qed

lemma set_nid_blocks_assigned:
  assumes "ranges_ok 0 rs" and "assigned bs rs" and "\<forall>b\<in>set blocks. block_wf b"
  shows "ranges_ok 0 (set_nid_blocks blocks rs) \<and> pages_of (set_nid_blocks blocks rs) \<subseteq> pages_of rs
    \<and> assigned (bs \<union> set blocks) (set_nid_blocks blocks rs)"
  using assms
proof (induction blocks arbitrary: rs bs)
  case (Cons b blocks)
  then have s: "ranges_ok 0 (early_set_nid_range (mb_start b) (mb_end b) (mb_nid b) rs)"
    "pages_of (early_set_nid_range (mb_start b) (mb_end b) (mb_nid b) rs) \<subseteq> pages_of rs"
    "assigned (insert b bs) (early_set_nid_range (mb_start b) (mb_end b) (mb_nid b) rs)"
    using set_nid_assigned [OF Cons.prems(1,2) _ refl] by auto
  then show ?case using Cons.IH [OF s(1,3)] Cons.prems(3) by auto
qed simp

definition node_blocks :: "numa_node list \<Rightarrow> numa_memblock set" where
  "node_blocks nodes = (\<Union>n\<in>set nodes. set (nn_memblocks n))"

lemma node_blocks_Cons [simp]: "node_blocks (n # nodes) = set (nn_memblocks n) \<union> node_blocks nodes"
  by (simp add: node_blocks_def)

lemma numa_init_Cons:
  assumes "numa_init (node # nodes) rs = (nodes', rs')"
  obtains node' nodes1 where "numa_init nodes (set_nid_blocks (sort_key mb_start (nn_memblocks node)) rs) = (nodes1, rs')"
    and "nodes' = node' # nodes1" and "set (nn_memblocks node') = set (nn_memblocks node)"
proof -
  let ?bl = "sort_key mb_start (nn_memblocks node)"
  obtain nodes1 rs1 where n: "numa_init nodes (set_nid_blocks ?bl rs) = (nodes1, rs1)" by fastforce
  show thesis
  proof (rule that)
    show "numa_init nodes (set_nid_blocks ?bl rs) = (nodes1, rs')" using assms n by (simp add: Let_def)
    show "nodes' = hd nodes' # nodes1" using assms n by (auto simp: Let_def)
    have "nn_memblocks (hd nodes') = ?bl" using assms n by (auto simp: Let_def)
    then show "set (nn_memblocks (hd nodes')) = set (nn_memblocks node)" by simp
  qed
qed

abbreviation same_blocks :: "numa_node list \<Rightarrow> numa_node list \<Rightarrow> bool" where
  "same_blocks \<equiv> list_all2 (\<lambda>a b. set (nn_memblocks a) = set (nn_memblocks b))"

lemma numa_init_blocks: "numa_init nodes rs = (nodes', rs') \<Longrightarrow> same_blocks nodes nodes'"
proof (induction nodes arbitrary: rs nodes' rs')
  case (Cons node nodes)
  obtain node' nodes1 where "numa_init nodes (set_nid_blocks (sort_key mb_start (nn_memblocks node)) rs) = (nodes1, rs')"
    "nodes' = node' # nodes1" "set (nn_memblocks node') = set (nn_memblocks node)"
    by (rule numa_init_Cons [OF Cons.prems])
  then show ?case using Cons.IH by simp
qed simp

lemma same_blocks_all: "same_blocks nodes nodes' \<Longrightarrow> node_blocks nodes' = node_blocks nodes"
  by (induction nodes nodes' rule: list_all2_induct) (simp_all add: node_blocks_def)

lemma numa_init_assigned:
  assumes "numa_init nodes rs = (nodes', rs')" and "ranges_ok 0 rs" and "assigned bs rs"
    and "\<forall>b\<in>node_blocks nodes. block_wf b"
  shows "ranges_ok 0 rs' \<and> pages_of rs' \<subseteq> pages_of rs \<and> assigned (bs \<union> node_blocks nodes) rs'"
  using assms
proof (induction nodes arbitrary: rs bs nodes' rs')
  case (Cons node nodes)
  let ?bl = "sort_key mb_start (nn_memblocks node)"
  have wf: "\<forall>b\<in>set ?bl. block_wf b" "\<forall>b\<in>node_blocks nodes. block_wf b" using Cons.prems(4) by simp_all
  note s = set_nid_blocks_assigned [OF Cons.prems(2,3) wf(1)]
  obtain nodes1 where "numa_init nodes (set_nid_blocks ?bl rs) = (nodes1, rs')"
    by (rule numa_init_Cons [OF Cons.prems(1)])
  from Cons.IH [OF this _ _ wf(2), of "bs \<union> set ?bl"] s show ?case by (auto simp: Un_assoc)
qed (simp add: node_blocks_def)

subsection \<open>The sections\<close>

lemma mark_blocks_present:
  assumes "mark_blocks bs secs = Ok secs'"
  shows "(\<forall>i. present (secs i) \<longrightarrow> present (secs' i))
    \<and> (\<forall>b\<in>set bs. \<forall>q\<in>block_frames b. present (secs' (q div 2 ^ 15)))"
  using assms
proof (induction bs arbitrary: secs)
  case (Cons b bs)
  then obtain secs1 where 1: "mark_block b secs = Ok secs1" and 2: "mark_blocks bs secs1 = Ok secs'"
    by (auto simp: bind_res_Ok_iff)
  have "present (secs1 i)" if "present (secs i)" for i
    using 1 mark_sections_keeps that unfolding mark_block_def by metis
  moreover have "present (secs1 (q div 2 ^ 15))" if "q \<in> block_frames b" for q
    using mark_block_present [OF 1] that by (auto simp: block_frames_def)
  ultimately show ?case using Cons.IH [OF 2] by auto
qed simp

lemma build_maps_present:
  "build_maps psz is (secs, rs) = Ok (secs', rs') \<Longrightarrow> present (secs i) \<Longrightarrow> present (secs' i)"
proof (induction "is" arbitrary: secs rs)
  case (Cons j "is")
  then show ?case
    by (cases "present (secs j)") (auto simp: bind_res_Ok_iff present_set_map)
qed simp

lemma build_maps_absent_kept:
  "build_maps psz is (secs, rs) = Ok (secs', rs') \<Longrightarrow> \<not> present (secs i) \<Longrightarrow> secs' i = secs i"
proof (induction "is" arbitrary: secs rs)
  case (Cons j "is")
  then show ?case
    by (cases "present (secs j)"; cases "i = j") (fastforce simp: bind_res_Ok_iff)+
qed simp

text \<open>The array of section \<open>i\<close> starts at the frame \<open>base i\<close>, and its frames are not in \<open>F\<close>.\<close>

definition maps_outside :: "u64 \<Rightarrow> (nat \<Rightarrow> u64) \<Rightarrow> (nat \<Rightarrow> pfn) \<Rightarrow> nat set \<Rightarrow> bool" where
  "maps_outside psz secs base F \<longleftrightarrow> (\<forall>i<NUM_MEM_SECTIONS. present (secs i) \<longrightarrow> secs i = set_map psz (pfn_to_addr (base i)) i
     \<and> {unat (base i) ..< unat (base i) + unat (section_map_pages psz)} \<inter> F = {})"

lemma maps_outside_mono: "maps_outside psz secs base F \<Longrightarrow> G \<subseteq> F \<Longrightarrow> maps_outside psz secs base G"
  unfolding maps_outside_def by blast

lemma boot_sections_ok:
  assumes "boot_sections psz nodes rs = Ok (pages, secs, rs')" and "ranges_ok 0 rs"
    and "\<And>p. p \<in> pages_of rs \<Longrightarrow> unat (section_map_pages psz) \<le> p"
    and "\<forall>i. present (secs i) \<longrightarrow> valid (secs i)"
  shows "takes rs rs' \<and> (\<forall>b\<in>node_blocks nodes. \<forall>p. unat p \<in> block_frames b \<longrightarrow> pages p \<noteq> None)
    \<and> (\<forall>p m. pages p = Some m \<longrightarrow> pg_usage m = RESERVED) \<and> (\<exists>base. maps_outside psz secs base (pages_of rs'))"
proof -
  let ?N = "unat (section_map_pages psz)"
  let ?bs = "concat (map nn_memblocks nodes)"
  obtain marked where 1: "mark_blocks ?bs (\<lambda>_. 0) = Ok marked"
    and 2: "build_maps psz [0..<NUM_MEM_SECTIONS] (marked, rs) = Ok (secs, rs')"
    and 3: "pages = section_pages marked secs"
    using assms(1) by (auto simp: boot_sections_def mem_map_init_def bind_res_Ok_iff)
  have "takes rs rs'" by (rule build_maps_takes [OF 2 assms(2,3)])
  moreover have "pages p \<noteq> None" if b: "b \<in> node_blocks nodes" "unat p \<in> block_frames b" for b p
  proof -
    have "present (marked (pfn_to_section_num p))"
      using mark_blocks_present [OF 1] b unfolding section_num by (auto simp: node_blocks_def)
    then have "present (secs (pfn_to_section_num p))" by (rule build_maps_present [OF 2])
    then show ?thesis using assms(4) by (simp add: 3 section_pages_def Let_def)
  qed
  moreover have "pg_usage m = RESERVED" if "pages p = Some m" for p m
    using that by (auto simp: 3 section_pages_def Let_def split: if_splits)
  moreover have "\<exists>base. maps_outside psz secs base (pages_of rs')"
  proof -
    have "?N \<le> r_lo r" if "r \<in> set rs" for r
      using that ranges_ok_set [OF assms(2) that] by (intro assms(3)) (auto simp: pages_of_def range_pages_def)
    then have lo: "\<forall>r\<in>set rs. ?N \<le> r_lo r" by blast
    obtain base where base: "\<forall>i\<in>set [0..<NUM_MEM_SECTIONS]. present (marked i) \<longrightarrow>
          secs i = set_map psz (pfn_to_addr (base i)) i \<and> {unat (base i) ..< unat (base i) + ?N} \<subseteq> pages_of rs"
      "pages_of rs' = pages_of rs - (\<Union>i\<in>{i \<in> set [0..<NUM_MEM_SECTIONS]. present (marked i)}. {unat (base i) ..< unat (base i) + ?N})"
      using build_maps_correct [OF 2 distinct_upt assms(2) lo] by (elim exE conjE) (rule that)
    have "maps_outside psz secs base (pages_of rs')" unfolding maps_outside_def
    proof (intro allI impI)
      fix i assume i: "i < NUM_MEM_SECTIONS" "present (secs i)"
      then have m: "present (marked i)" using build_maps_absent_kept [OF 2, of i] by (cases "present (marked i)") auto
      have "{unat (base i) ..< unat (base i) + ?N} \<subseteq> (\<Union>i\<in>{i \<in> set [0..<NUM_MEM_SECTIONS]. present (marked i)}. {unat (base i) ..< unat (base i) + ?N})"
        using i(1) m by (intro UN_upper) simp
      then have "{unat (base i) ..< unat (base i) + ?N} \<inter> pages_of rs' = {}" unfolding base(2) by blast
      moreover have "secs i = set_map psz (pfn_to_addr (base i)) i" using base(1) i(1) m by simp
      ultimately show "secs i = set_map psz (pfn_to_addr (base i)) i \<and> {unat (base i) ..< unat (base i) + ?N} \<inter> pages_of rs' = {}" by blast
    qed
    then show ?thesis by blast
  qed
  ultimately show ?thesis by blast
qed

subsection \<open>The allocators of all nodes\<close>

text \<open>The frames the ranges give to node \<open>n\<close>.\<close>

definition given :: "page_range list \<Rightarrow> nat \<Rightarrow> nat set" where
  "given rs n = {p. on_node rs p (int n)}"

lemma given_disjoint: "ranges_ok lo rs \<Longrightarrow> m \<noteq> n \<Longrightarrow> given rs m \<inter> given rs n = {}"
  using on_node_unique by (fastforce simp: given_def)

lemma given_Cons: "given (r # rs) n = (if pr_nid r = int n then range_pages r else {}) \<union> given rs n"
  by (auto simp: given_def)

text \<open>The frames of the other nodes.\<close>

definition others :: "nat \<Rightarrow> (nat \<Rightarrow> nat set) \<Rightarrow> nat \<Rightarrow> pfn set" where
  "others N F n = {p. \<exists>m<N. m \<noteq> n \<and> unat p \<in> F m}"

lemma init_range_nid:
  assumes "init_range start stop nid st = Ok st'"
  shows "0 \<le> nid \<and> nat nid < length (allocators st)"
proof -
  have free: "0 \<le> nid \<and> nat nid < length (allocators st)" if "early_free_block p k nid st = Ok st1" for p k st1
    using that by (auto simp: early_free_block_def on_allocator_def res_Ok_iff)
  have low: "0 \<le> nid \<and> nat nid < length (allocators st)" if "init_low p d nid st = Ok st1" "p \<noteq> d" for p d st1
    using that free by (subst (asm) init_low.simps) (fastforce simp: res_Ok_iff Let_def)
  have high: "0 \<le> nid \<and> nat nid < length (allocators st)" if "init_high p d nid st = Ok st1" "p \<noteq> d" for p d st1
    using that free by (subst (asm) init_high.simps) (fastforce simp: res_Ok_iff Let_def)
  obtain d st1 where "start \<noteq> stop" "init_low start d nid st = Ok st1" "init_high d stop nid st1 = Ok st'"
    using assms by (auto simp: init_range_def res_Ok_iff Let_def)
  then show ?thesis using low high by (cases "start = d") (auto simp: init_low.simps)
qed

text \<open>A node's allocator does not notice what is written to the \<open>struct page\<close>s of other nodes' frames.\<close>

lemma buddy_inv_frame:
  assumes "buddy_inv X A (fl, pages)" and "\<And>q. q \<notin> X \<Longrightarrow> pages' q = pages q"
    and "\<And>q. pages' q = None \<longleftrightarrow> pages q = None" and "\<And>p k. (p, k) \<in> free_blocks fl \<Longrightarrow> p \<notin> X"
  shows "buddy_inv X A (fl, pages')"
proof (rule buddy_invI)
  note inv = buddy_invD [OF assms(1)]
  show "block_ok pages' b" if "b \<in> A \<union> free_blocks fl" for b
    using inv(3) [OF that] block_ok_cong [of pages pages' b] assms(3) by simp
  show "\<exists>m. pages' p = Some m \<and> pg_usage m = PAGE_ALLOCATOR \<and> pg_order m = k"
    if "(p, k) \<in> free_blocks fl" for p k
    using inv(5) [OF that] assms(2) [OF assms(4) [OF that]] by simp
  show "(p, pg_order m) \<in> free_blocks fl \<or> inside (A \<union> free_blocks fl) p"
    if "p \<notin> X" "pages' p = Some m" "pg_usage m = PAGE_ALLOCATOR" for p m
    using inv(6) [OF that(1) _ that(3)] that(2) assms(2) [OF that(1)] by simp
qed (use buddy_invD [OF assms(1)] in auto)

lemma node_inv_others:
  assumes "node_inv X {} n st" and "adds m st st' R" and "m \<noteq> n" and "{p. unat p \<in> R} \<subseteq> X"
    and "\<And>p. unat p \<in> frames_of n st \<Longrightarrow> p \<notin> X"
  shows "node_inv X {} n st'"
proof -
  have n: "n < length (allocators st)" and inv: "buddy_inv X {} (allocators st ! n, page_map st)"
    using assms(1) by (auto simp: node_inv_def)
  have "buddy_inv X {} (allocators st ! n, page_map st')"
  proof (rule buddy_inv_frame [OF inv])
    show "page_map st' q = page_map st q" if "q \<notin> X" for q
      using assms(2,4) that by (auto simp: adds_def)
    show "page_map st' q = None \<longleftrightarrow> page_map st q = None" for q
      using assms(2) by (simp add: adds_def)
    show "p \<notin> X" if "(p, k) \<in> free_blocks (allocators st ! n)" for p k
      using that head_in_block [of p k]
      by (intro assms(5)) (auto simp: frames_of_def free_frames_def simp del: head_in_block)
  qed
  then show ?thesis using n assms(2,3) by (simp add: node_inv_def adds_def)
qed

text \<open>\<open>Init\<close> over all the ranges: from a state in which every node holds the frames of the ranges
  already released.\<close>

definition holds :: "page_range list \<Rightarrow> page_range list \<Rightarrow> page_allocators \<Rightarrow> bool" where
  "holds all done st \<longleftrightarrow> (\<forall>n<length (allocators st). node_inv (others (length (allocators st)) (given all) n) {} n st \<and> frames_of n st = given done n)
     \<and> (\<forall>p n. n < length (allocators st) \<and> unat p \<in> given all n \<longrightarrow> page_map st p \<noteq> None)"

definition triple :: "page_range \<Rightarrow> pfn \<times> pfn \<times> nid" where
  "triple r = (pr_start r, pr_end r, pr_nid r)"

lemma init_step_holds:
  assumes "holds (done @ r # rs) done st" and "ranges_ok 0 (done @ r # rs)"
    and "pages_of (done @ r # rs) \<subseteq> {..<2 ^ 30}" and n: "pr_nid r = int n" "n < length (allocators st)"
  shows "\<exists>st'. init_range (pr_start r) (pr_end r) (pr_nid r) st = Ok st'
    \<and> holds (done @ r # rs) (done @ [r]) st' \<and> length (allocators st') = length (allocators st)"
proof -
  let ?all = "done @ r # rs"
  let ?X = "others (length (allocators st)) (given ?all)"
  have r: "r_lo r < r_hi r" "r_hi r \<le> 2 ^ 52" using ranges_ok_set [OF assms(2), of r] by auto
  have e: "unat (pr_start r) = r_lo r" "unat (pr_end r) = r_hi r"
    using unat_pr_end [OF r(2)] by (simp_all add: r_lo_def)
  then have R: "{unat (pr_start r) ..< unat (pr_end r)} = range_pages r" by (simp add: range_pages_def)
  have sub: "range_pages r \<subseteq> pages_of ?all" by auto
  have top: "r_hi r \<le> 2 ^ 30"
  proof -
    have "r_hi r - 1 \<in> range_pages r" using r(1) by (auto simp: range_pages_def)
    then have "r_hi r - 1 < 2 ^ 30" using sub assms(3) by blast
    then show ?thesis by linarith
  qed
  have once: "range_pages r \<inter> pages_of done = {}" "\<And>m. m \<noteq> n \<Longrightarrow> range_pages r \<inter> given ?all m = {}"
  proof -
    have "ranges_ok 0 done" "ranges_ok (ranges_end 0 done) (r # rs)"
      using assms(2) ranges_ok_append by blast+
    then have "q < r_lo r" if "q \<in> pages_of done" for q
      using ranges_ok_below_end [OF _ that] by fastforce
    then show "range_pages r \<inter> pages_of done = {}" by (fastforce simp: range_pages_def)
    have "range_pages r \<subseteq> given ?all n" using n(1) by (auto simp: given_def on_node_def)
    then show "\<And>m. m \<noteq> n \<Longrightarrow> range_pages r \<inter> given ?all m = {}"
      using given_disjoint [OF assms(2)] by blast
  qed
  have inv: "node_inv (?X n) {} n st" and fr: "frames_of n st = given done n"
    using assms(1) n(2) by (auto simp: holds_def)
  have mine: "range_pages r \<subseteq> given ?all n" using n(1) by (auto simp: given_def)
  moreover have "given done n \<subseteq> pages_of done" by (auto simp: given_def on_node_pages)
  ultimately have "fresh {} n st (range_pages r)"
    using assms(1) n(2) once(1) fr unfolding fresh_def holds_def by blast
  then have "\<exists>st'. init_range (pr_start r) (pr_end r) (int n) st = Ok st' \<and> node_inv (?X n) {} n st'
      \<and> adds n st st' (range_pages r)"
    using init_range_ok [OF inv, of "pr_start r" "pr_end r"] r(1) top unfolding R by (simp add: word_less_nat_alt e)
  then obtain st' where run: "init_range (pr_start r) (pr_end r) (pr_nid r) st = Ok st'"
    and st': "node_inv (?X n) {} n st'" "adds n st st' (range_pages r)"
    using n(1) by auto
  have "node_inv (?X m) {} m st' \<and> frames_of m st' = given (done @ [r]) m"
    if m: "m < length (allocators st)" for m
  proof (cases "m = n")
    case True
    then show ?thesis using st' fr n(1) by (auto simp: adds_def given_def)
  next
    case False
    have h: "node_inv (?X m) {} m st" "frames_of m st = given done m"
      using assms(1) m by (auto simp: holds_def)
    have "unat p \<in> given ?all m" if "unat p \<in> frames_of m st" for p :: pfn
      using h(2) that by (auto simp: given_def)
    then have free: "p \<notin> ?X m" if "unat p \<in> frames_of m st" for p
      using given_disjoint [OF assms(2)] that by (fastforce simp: others_def)
    have "{p. unat p \<in> range_pages r} \<subseteq> ?X m" using mine False n(2) by (auto simp: others_def)
    then have "node_inv (?X m) {} m st'"
      using node_inv_others [OF h(1) st'(2)] False free by blast
    moreover have "frames_of m st' = given (done @ [r]) m"
      using h(2) st'(2) False n(1) by (auto simp: adds_def frames_of_def given_def on_node_def)
    ultimately show ?thesis by blast
  qed
  then have "holds ?all (done @ [r]) st' \<and> length (allocators st') = length (allocators st)"
    using st'(2) assms(1) by (auto simp: holds_def adds_def)
  then show ?thesis using run by blast
qed

lemma init_ranges_holds:
  assumes "init_ranges (map triple rs) st = Ok st' \<or> (\<forall>r\<in>set rs. \<exists>n<length (allocators st). pr_nid r = int n)"
    and "holds (done @ rs) done st" and "ranges_ok 0 (done @ rs)" and "pages_of (done @ rs) \<subseteq> {..<2 ^ 30}"
  shows "\<exists>st'. init_ranges (map triple rs) st = Ok st' \<and> holds (done @ rs) (done @ rs) st'
    \<and> length (allocators st') = length (allocators st)"
  using assms
proof (induction rs arbitrary: "done" st)
  case (Cons r rs)
  have t: "init_ranges (map triple (r # rs)) st
      = bind_res (init_range (pr_start r) (pr_end r) (pr_nid r) st) (init_ranges (map triple rs))" for st
    by (simp add: triple_def)
  obtain n where n: "pr_nid r = int n" "n < length (allocators st)"
    using Cons.prems(1)
  proof
    assume "init_ranges (map triple (r # rs)) st = Ok st'"
    then obtain st1 where "init_range (pr_start r) (pr_end r) (pr_nid r) st = Ok st1"
      unfolding t bind_res_Ok_iff by blast
    from init_range_nid [OF this] show thesis using that zero_le_imp_eq_int by fastforce
  qed (use that in auto)
  obtain st1 where 1: "init_range (pr_start r) (pr_end r) (pr_nid r) st = Ok st1"
    and h: "holds (done @ r # rs) (done @ [r]) st1" "length (allocators st1) = length (allocators st)"
    using init_step_holds [OF Cons.prems(2-4) n] by blast
  have "init_ranges (map triple rs) st1 = Ok st' \<or> (\<forall>r\<in>set rs. \<exists>n<length (allocators st1). pr_nid r = int n)"
    using Cons.prems(1) unfolding t h(2) by (auto simp: 1)
  moreover have "done @ r # rs = (done @ [r]) @ rs" by simp
  ultimately show ?case using Cons.IH [of st1 "done @ [r]"] h Cons.prems(3,4) unfolding t 1 by (simp del: pages_of_simps)
qed simp

lemma page_allocator_init_holds:
  assumes "page_allocator_init N rs pages = Ok st \<or> (\<forall>r\<in>set rs. \<exists>n<N. pr_nid r = int n)"
    and "ranges_ok 0 rs" and "pages_of rs \<subseteq> {..<2 ^ 30}"
    and "\<And>p n. n < N \<Longrightarrow> unat p \<in> given rs n \<Longrightarrow> pages p \<noteq> None" and "\<And>p m. pages p = Some m \<Longrightarrow> pg_usage m = RESERVED"
  shows "\<exists>st. page_allocator_init N rs pages = Ok st \<and> holds rs rs st \<and> length (allocators st) = N"
proof -
  let ?st = "\<lparr>allocators = replicate N (\<lambda>_. []), page_map = pages\<rparr>"
  have "buddy_inv X {} (\<lambda>_. [], pages)" for X
    using assms(5) by (fastforce simp: buddy_inv_def free_blocks_def disjoint_blocks_def)
  then have h: "holds ([] @ rs) [] ?st"
    using assms(4) by (auto simp: holds_def node_inv_def frames_of_def free_frames_def free_blocks_def given_def)
  have "triple = (\<lambda>r. (pr_start r, pr_end r, pr_nid r))" by (simp add: triple_def fun_eq_iff)
  then have run: "page_allocator_init N rs pages = init_ranges (map triple rs) ?st"
    by (simp only: page_allocator_init_def release_free_pages_def fst_conv)
  show ?thesis using init_ranges_holds [OF _ h, of st] assms(1-3) unfolding run by simp
qed

subsection \<open>Properties\<close>

lemma boot_memory_ok:
  assumes "boot_memory L madt srat calls psz kend es cpus t = Some (Ok b)"
    and "\<forall>e\<in>set (ram es). entry_ok e" and "disjoint_entries (ram es)"
    and "4096 dvd unat kend" and "kend \<le> initial_map_end" and "usable_pages kend es \<subseteq> {..<2 ^ 30}"
    and "unat (section_map_pages psz) \<le> unat kend div 4096"
    and "\<forall>c\<in>node_blocks (numa_nodes (bt_topology b)). mb_start c < mb_end c"
    and "\<forall>i. present (bt_sections b i) \<longrightarrow> valid (bt_sections b i)"
  obtains rs where "holds rs rs (bt_allocators b)" and "ranges_ok 0 rs" and "pages_of rs \<subseteq> usable_pages kend es"
    and "assigned (node_blocks (numa_nodes (bt_topology b))) rs"
    and "length (allocators (bt_allocators b)) = length (numa_nodes (bt_topology b))"
    and "topology_ok (bt_topology b)" and "\<exists>base. maps_outside psz (bt_sections b) base (pages_of rs)"
proof -
  obtain rs1 t1 topo where
    0: "bind_res (kmain_memory early_map_memory kend es t) (run_os_calls calls) = Ok (rs1, t1)" and
    topo: "acpi_boot_init L True madt srat cpus [] = Some (Ok topo)" and
    3: "boot_nodes psz topo (rs1, t1) = Ok b"
  proof (cases "bind_res (kmain_memory early_map_memory kend es t) (run_os_calls calls)")
    case (Ok s)
    with assms(1) obtain r where "acpi_boot_init L True madt srat cpus [] = Some r"
      "(case r of Fail e \<Rightarrow> Some (Fail e) | Ok topo \<Rightarrow> Some (boot_nodes psz topo s)) = Some (Ok b)"
      by (auto simp: boot_memory_def bind_eq_Some_conv)
    then show ?thesis using Ok that by (cases s; cases r) auto
  qed (use assms(1) in \<open>simp add: boot_memory_def\<close>)
  obtain rs0 t0 where
    1: "kmain_memory early_map_memory kend es t = Ok (rs0, t0)" and 2: "run_os_calls calls (rs0, t0) = Ok (rs1, t1)"
    using 0 by (auto simp: bind_res_Ok_iff)
  obtain nodes rs2 pages secs rs3 nid rs4 t4 st where
    4: "numa_init (numa_nodes topo) rs1 = (nodes, rs2)" and
    5: "boot_sections psz nodes rs2 = Ok (pages, secs, rs3)" and
    6: "trans_init nid (rs3, t1) = Ok (rs4, t4)" and
    7: "page_allocator_init (length nodes) rs4 pages = Ok st" and
    b: "b = \<lparr>bt_topology = topo\<lparr>numa_nodes := nodes\<rparr>, bt_sections = secs, bt_tables = t4, bt_allocators = st\<rparr>"
    using 3 by (auto simp: boot_nodes_def bind_res_Ok_iff split: prod.splits)
  have k: "ranges_ok 0 rs0" "pages_of rs0 \<subseteq> usable_pages kend es"
    using kmain_memory_ok [OF 1 assms(2-5) map_law_early_map] by blast+
  note c = run_os_calls_takes [OF 2]
  have ok1: "ranges_ok 0 rs1" and p1: "pages_of rs1 \<subseteq> pages_of rs0"
    using takesD [OF c k(1)] by blast+
  have a1: "assigned {} rs1"
    by (rule assigned_none [OF unassigned_takes [OF unassigned_kmain [OF 1] c]])
  let ?bs = "node_blocks nodes"
  have tk: "topology_ok (topo\<lparr>numa_nodes := nodes\<rparr>)"
    using acpi_boot_init_topology_ok [OF topo] numa_init_blocks [OF 4] by (auto simp: topology_ok_def list_all2_conv_all_nth)
  have bs: "node_blocks (numa_nodes topo) = ?bs" using same_blocks_all [OF numa_init_blocks [OF 4]] by simp
  have mem: "\<exists>n<length nodes. c \<in> set (nn_memblocks (nodes ! n))" if "c \<in> ?bs" for c
    using that by (fastforce simp: node_blocks_def in_set_conv_nth [of _ nodes])
  have in_node: "mb_nid c < int (length nodes) \<and> unat (mb_end c) \<le> 2 ^ 52" if "c \<in> ?bs" for c
    using mem [OF that] tk by (auto simp: topology_ok_def)
  have wf: "\<forall>c\<in>node_blocks (numa_nodes topo). block_wf c"
    using assms(8) in_node by (simp add: b bs block_wf_def)
  have ok2: "ranges_ok 0 rs2" and p2: "pages_of rs2 \<subseteq> pages_of rs1" and a2: "assigned ?bs rs2"
    using numa_init_assigned [OF 4 ok1 a1 wf] by (simp_all add: bs)
  have above: "unat (section_map_pages psz) \<le> p" if "p \<in> pages_of rs2" for p
    using that p2 p1 k(2) assms(7) by (fastforce simp: usable_pages_def)
  have v: "\<forall>i. present (secs i) \<longrightarrow> valid (secs i)" using assms(9) by (simp add: b)
  note s = boot_sections_ok [OF 5 ok2 above v]
  have "pages_of rs4 \<subseteq> pages_of rs3" using s takesD [OF trans_init_takes [OF 6]] takesD(1) [OF _ ok2] by blast
  then have mo: "\<exists>base. maps_outside psz secs base (pages_of rs4)" using s maps_outside_mono by blast
  have t: "takes rs2 rs4" using s trans_init_takes [OF 6] takes_trans by blast
  have ok4: "ranges_ok 0 rs4" and p4: "pages_of rs4 \<subseteq> pages_of rs2" and a4: "assigned ?bs rs4"
    using takesD [OF t ok2] assigned_takes [OF a2 t ok2] by blast+
  have use: "pages_of rs4 \<subseteq> usable_pages kend es" using p4 p2 p1 k(2) by blast
  have small: "length nodes \<le> MAX_NUMA_NODES" using tk by (simp add: topology_ok_def)
  have found: "pages p \<noteq> None" if n: "n < length nodes" "unat p \<in> given rs4 n" for p n
  proof -
    have "int n \<noteq> ANY_NID" using n(1) small by (simp add: ANY_NID_def)
    then obtain c where "c \<in> ?bs" "unat p \<in> block_frames c"
      using a4 n(2) by (auto simp: assigned_def given_def)
    then show ?thesis using s by blast
  qed
  have "holds rs4 rs4 st \<and> length (allocators st) = length nodes"
    using page_allocator_init_holds [OF disjI1 [OF 7] ok4 _ found] use assms(6) s 7 by auto
  then show thesis using that [of rs4] ok4 use a4 tk mo by (simp add: b)
qed

text \<open>The frames of the memory the SRAT lists for node \<open>n\<close>.\<close>

definition node_frames :: "boot \<Rightarrow> nat \<Rightarrow> nat set" where
  "node_frames b n = (\<Union>c\<in>set (nn_memblocks (numa_nodes (bt_topology b) ! n)). block_frames c)"

lemma boot_memory_frames:
  assumes "boot_memory L madt srat calls psz kend es cpus t = Some (Ok b)"
    and "\<forall>e\<in>set (ram es). entry_ok e" and "disjoint_entries (ram es)"
    and "4096 dvd unat kend" and "kend \<le> initial_map_end" and "usable_pages kend es \<subseteq> {..<2 ^ 30}"
    and "unat (section_map_pages psz) \<le> unat kend div 4096"
    and "\<forall>c\<in>node_blocks (numa_nodes (bt_topology b)). mb_start c < mb_end c"
    and "\<forall>i. present (bt_sections b i) \<longrightarrow> valid (bt_sections b i)"
    and "n < length (numa_nodes (bt_topology b))"
  shows "node_inv (others (length (numa_nodes (bt_topology b))) (\<lambda>m. frames_of m (bt_allocators b)) n) {} n (bt_allocators b)
    \<and> frames_of n (bt_allocators b) \<subseteq> usable_pages kend es \<inter> node_frames b n
    \<and> (\<forall>m<length (numa_nodes (bt_topology b)). m \<noteq> n \<longrightarrow>
         frames_of m (bt_allocators b) \<inter> frames_of n (bt_allocators b) = {})
    \<and> (\<exists>base. maps_outside psz (bt_sections b) base (frames_of n (bt_allocators b)))"
proof -
  let ?N = "length (numa_nodes (bt_topology b))"
  obtain rs where h: "holds rs rs (bt_allocators b)" "ranges_ok 0 rs" "pages_of rs \<subseteq> usable_pages kend es"
    "assigned (node_blocks (numa_nodes (bt_topology b))) rs"
    "length (allocators (bt_allocators b)) = ?N" "topology_ok (bt_topology b)"
    "\<exists>base. maps_outside psz (bt_sections b) base (pages_of rs)"
    using boot_memory_ok [OF assms(1-9)] .
  have fr: "frames_of m (bt_allocators b) = given rs m" if "m < ?N" for m
    using h(1,5) that by (simp add: holds_def)
  have "others ?N (\<lambda>m. frames_of m (bt_allocators b)) n = others ?N (given rs) n"
    using fr by (auto simp: others_def)
  then have inv: "node_inv (others ?N (\<lambda>m. frames_of m (bt_allocators b)) n) {} n (bt_allocators b)"
    using h(1,5) assms(10) by (simp add: holds_def)
  have sub: "given rs n \<subseteq> pages_of rs" by (auto simp: given_def on_node_pages)
  then have "\<exists>base. maps_outside psz (bt_sections b) base (given rs n)" using h(7) maps_outside_mono by blast
  moreover have "given rs n \<subseteq> node_frames b n"
  proof
    fix p assume "p \<in> given rs n"
    moreover have "int n \<noteq> ANY_NID" using assms(10) h(6) by (auto simp: topology_ok_def ANY_NID_def)
    ultimately obtain c where c: "c \<in> node_blocks (numa_nodes (bt_topology b))" "mb_nid c = int n" "p \<in> block_frames c"
      using h(4) by (auto simp: assigned_def given_def)
    then obtain m where "m < ?N" "c \<in> set (nn_memblocks (numa_nodes (bt_topology b) ! m))"
      by (fastforce simp: node_blocks_def in_set_conv_nth [of _ "numa_nodes (bt_topology b)"])
    then show "p \<in> node_frames b n" using h(6) c by (auto simp: topology_ok_def node_frames_def)
  qed
  moreover have "\<forall>m<?N. m \<noteq> n \<longrightarrow> frames_of m (bt_allocators b) \<inter> frames_of n (bt_allocators b) = {}"
    using fr assms(10) given_disjoint [OF h(2)] by simp
  ultimately show ?thesis using fr [OF assms(10)] h(3) inv sub by auto
qed

text \<open>C8: When the boot has handed the memory over, each node's page allocator is well formed (exempting
  the heads of the blocks the others hold) and no block is in use; every frame it holds lies in a usable region above the kernel image and in the
  memory the SRAT lists for that very node, no frame is held by two nodes, and none belongs to the
  array of \<open>struct page\<close>s of a section.  This survives the
  cuts at the kernel's end and at 1 GB, the pages taken for page tables, ACPI mappings and the memory
  map, the splitting at the borders of the nodes and the cutting into blocks.\<close>

theorem boot_memory_safe:
  assumes "boot_memory L madt srat calls psz kend es cpus t = Some (Ok b)"
    and "\<forall>e\<in>set (ram es). entry_ok e" and "disjoint_entries (ram es)"
    and "4096 dvd unat kend" and "kend \<le> initial_map_end" and "usable_pages kend es \<subseteq> {..<2 ^ 30}"
    and "unat (section_map_pages psz) \<le> unat kend div 4096"
    and "\<forall>c\<in>node_blocks (numa_nodes (bt_topology b)). mb_start c < mb_end c"
    and "\<forall>i. present (bt_sections b i) \<longrightarrow> valid (bt_sections b i)"
    and "n < length (numa_nodes (bt_topology b))"
  shows "node_inv (others (length (numa_nodes (bt_topology b))) (\<lambda>m. frames_of m (bt_allocators b)) n) {} n (bt_allocators b)
    \<and> frames_of n (bt_allocators b) \<subseteq> usable_pages kend es \<inter> node_frames b n
    \<and> (\<forall>m<length (numa_nodes (bt_topology b)). m \<noteq> n \<longrightarrow>
         frames_of m (bt_allocators b) \<inter> frames_of n (bt_allocators b) = {})
    \<and> (\<exists>base. maps_outside psz (bt_sections b) base (frames_of n (bt_allocators b)))"
  using assms by (rule boot_memory_frames)

text \<open>A machine with 4 MB of usable memory above a 2 MB kernel, half of it on each of two nodes, on which
  ACPICA maps and unmaps one page.\<close>

definition e820_boot :: "e820_entry list" where
  "e820_boot = [\<lparr>e_addr = 0x200000, e_length = 0x400000, e_type = 1\<rparr>]"

definition srat_boot :: "nat \<Rightarrow> srat_entry" where
  "srat_boot offset = (if offset = 48 then Srat_Cpu_Affinity 7 0 0 0 0 1 else if offset = 64 then Srat_Cpu_Affinity 3 0 0 0 4 1
     else if offset = 80 then Srat_Mem_Affinity 3 0x200000 0x200000 1 else Srat_Mem_Affinity 7 0x400000 0x200000 1)"

definition calls_boot :: "os_call list" where
  "calls_boot = [Os_Map 0x7000 0x100, Os_Unmap 0x7000 0x100]"

text \<open>The first processor, with its task state segment at \<open>0x9000\<close> and its interrupt stack at \<open>0x7000\<close>.\<close>

definition cpu_boot :: cpu where
  "cpu_boot = (cpu_new 0 0 0)\<lparr>cpu_gdt := set_tss_addr 0x9000 gdt_new, cpu_tss := tss_new\<lparr>tss_ist := (tss_ist tss_new)[0 := 0x8000]\<rparr>\<rparr>"

definition nodes_boot :: "numa_node list" where
  "nodes_boot = [\<lparr>nn_memblocks = [\<lparr>mb_start = 0x400, mb_end = 0x600, mb_nid = 0\<rparr>], nn_pfn_start = 0, nn_pfn_end = 0\<rparr>,
     \<lparr>nn_memblocks = [\<lparr>mb_start = 0x200, mb_end = 0x400, mb_nid = 1\<rparr>], nn_pfn_start = 0, nn_pfn_end = 0\<rparr>]"

definition two_ranges :: "u64 \<Rightarrow> page_range list" where
  "two_ranges n = [\<lparr>pr_start = 0x200, pr_npages = 0x200, pr_nid = 1\<rparr>, \<lparr>pr_start = 0x400, pr_npages = n, pr_nid = 0\<rparr>]"

lemma case_rangesE:
  assumes "case r of Ok (rs, t) \<Rightarrow> rs = rs0 \<and> Q t | Fail e \<Rightarrow> False"
  obtains t where "r = Ok (rs0, t)" and "Q t"
  using assms by (auto split: res.splits)

lemma boot_ranges:
  obtains t1 t2 where "bind_res (kmain_memory early_map_memory 0x200000 e820_boot \<lparr>pt_root = 0, pt_mem = \<lambda>_. 0\<rparr>)
      (run_os_calls calls_boot) = Ok ([\<lparr>pr_start = 0x200, pr_npages = 0x3fc, pr_nid = 256\<rparr>], t1)"
    and "trans_init 0 (two_ranges 0xac, t1) = Ok (two_ranges 0xa8, t2)"
proof -
  have "case bind_res (kmain_memory early_map_memory 0x200000 e820_boot \<lparr>pt_root = 0, pt_mem = \<lambda>_. 0\<rparr>) (run_os_calls calls_boot) of
      Ok (rs, t) \<Rightarrow> rs = [\<lparr>pr_start = 0x200, pr_npages = 0x3fc, pr_nid = 256\<rparr>] \<and>
        (case trans_init 0 (two_ranges 0xac, t) of Ok (rs', t') \<Rightarrow> rs' = two_ranges 0xa8 \<and> True | Fail e \<Rightarrow> False)
    | Fail e \<Rightarrow> False"
    by code_simp
  then show thesis using that by (elim case_rangesE)
qed

lemma boot_topology:
  obtains topo where "acpi_boot_init layout0 True (Some (80, madt0)) (Some (160, srat_boot)) [cpu_boot] [] = Some (Ok topo)"
    and "numa_nodes topo = nodes_boot" and "my_node (tp_cpus topo) 0 = Ok 0"
proof -
  have "case acpi_boot_init layout0 True (Some (80, madt0)) (Some (160, srat_boot)) [cpu_boot] [] of
      Some (Ok topo) \<Rightarrow> numa_nodes topo = nodes_boot \<and> my_node (tp_cpus topo) 0 = Ok 0 | _ \<Rightarrow> False"
    by code_simp
  then show thesis using that by (auto split: option.splits res.splits)
qed

lemma build_maps_absent: "\<forall>i\<in>set is. \<not> present (secs i) \<Longrightarrow> build_maps psz is (secs, rs) = Ok (secs, rs)"
  by (induction "is") auto

lemma boot_sections_example:
  assumes "map nn_memblocks nodes = map nn_memblocks nodes_boot"
  obtains pages secs where "boot_sections 42 nodes (two_ranges 0x1fc) = Ok (pages, secs, two_ranges 0xac)"
    and "\<forall>i. present (secs i) \<longrightarrow> valid (secs i)"
    and "\<forall>p. unat p < 2 ^ 15 \<longrightarrow> pages p \<noteq> None" and "\<forall>p m. pages p = Some m \<longrightarrow> pg_usage m = RESERVED"
proof -
  let ?marked = "(\<lambda>_. 0)(0 := set_early_nid 0)" and ?secs = "(\<lambda>_. 0)(0 := set_map 42 (pfn_to_addr 0x4ac) 0)"
  have absent: "\<not> present 0" by (simp add: present_def)
  have cat: "concat (map nn_memblocks nodes) =
      [\<lparr>mb_start = 0x400, mb_end = 0x600, mb_nid = 0\<rparr>, \<lparr>mb_start = 0x200, mb_end = 0x400, mb_nid = 1\<rparr>]"
    unfolding assms by (simp add: nodes_boot_def)
  have m: "mark_blocks (concat (map nn_memblocks nodes)) (\<lambda>_. 0) = Ok ?marked"
    unfolding cat
    by (simp add: mark_block_def mark_sections.simps section_consts section_num Let_def present_set_early_nid absent
        mask_eq_exp_minus_1 fun_eq_iff)
  have n: "early_allocate_page (section_map_pages 42) 0 (two_ranges 0x1fc) = Ok (0x4ac, two_ranges 0xac)"
    by code_simp
  have up: "[0..<NUM_MEM_SECTIONS] = 0 # [Suc 0..<NUM_MEM_SECTIONS]" by (rule upt_conv_Cons) (simp add: section_consts)
  have "build_maps 42 [0..<NUM_MEM_SECTIONS] (?marked, two_ranges 0x1fc) = Ok (?secs, two_ranges 0xac)"
    unfolding up
    by (simp add: present_set_early_nid early_nid_roundtrip n build_maps_absent absent)
  then have run: "boot_sections 42 nodes (two_ranges 0x1fc) = Ok (section_pages ?marked ?secs, ?secs, two_ranges 0xac)"
    by (simp add: boot_sections_def mem_map_init_def m)
  have v: "present (?secs 0)" "valid (?secs 0)" by (simp_all add: present_set_map) code_simp+
  show thesis
  proof (rule that [OF run])
    show "\<forall>i. present (?secs i) \<longrightarrow> valid (?secs i)" using v(2) absent by simp
    show "\<forall>p. unat p < 2 ^ 15 \<longrightarrow> section_pages ?marked ?secs p \<noteq> None"
      using v by (simp add: section_pages_def section_num Let_def)
    show "\<forall>p m. section_pages ?marked ?secs p = Some m \<longrightarrow> pg_usage m = RESERVED"
      by (auto simp: section_pages_def Let_def split: if_splits)
  qed
qed

text \<open>What the boot of this machine needs and gives.\<close>

lemma boot_example:
  obtains b where "boot_memory layout0 (Some (80, madt0)) (Some (160, srat_boot)) calls_boot 42 0x200000 e820_boot [cpu_boot]
        \<lparr>pt_root = 0, pt_mem = \<lambda>_. 0\<rparr> = Some (Ok b)"
    "\<forall>e\<in>set (ram e820_boot). entry_ok e" "disjoint_entries (ram e820_boot)" "4096 dvd unat (0x200000 :: u64)"
    "0x200000 \<le> initial_map_end" "usable_pages 0x200000 e820_boot \<subseteq> {..<2 ^ 30}"
    "unat (section_map_pages 42) \<le> unat (0x200000 :: u64) div 4096"
    "\<forall>c\<in>node_blocks (numa_nodes (bt_topology b)). mb_start c < mb_end c"
    "\<forall>i. present (bt_sections b i) \<longrightarrow> valid (bt_sections b i)"
    "length (numa_nodes (bt_topology b)) = 2" "frames_of 0 (bt_allocators b) \<noteq> {}"
    "node_frames b 0 = {0x400 ..< 0x600}" "node_frames b 1 = {0x200 ..< 0x400}"
proof -
  obtain t1 t2 where t: "bind_res (kmain_memory early_map_memory 0x200000 e820_boot \<lparr>pt_root = 0, pt_mem = \<lambda>_. 0\<rparr>)
      (run_os_calls calls_boot) = Ok ([\<lparr>pr_start = 0x200, pr_npages = 0x3fc, pr_nid = 256\<rparr>], t1)"
    "trans_init 0 (two_ranges 0xac, t1) = Ok (two_ranges 0xa8, t2)" by (rule boot_ranges)
  obtain topo where topo: "acpi_boot_init layout0 True (Some (80, madt0)) (Some (160, srat_boot)) [cpu_boot] [] = Some (Ok topo)"
    "numa_nodes topo = nodes_boot" "my_node (tp_cpus topo) 0 = Ok 0" by (rule boot_topology)
  obtain nodes where nodes: "numa_init nodes_boot [\<lparr>pr_start = 0x200, pr_npages = 0x3fc, pr_nid = 256\<rparr>] = (nodes, two_ranges 0x1fc)"
    "map nn_memblocks nodes = map nn_memblocks nodes_boot" by (simp add: nodes_boot_def two_ranges_def pr_end_def)
  obtain pages secs where s: "boot_sections 42 nodes (two_ranges 0x1fc) = Ok (pages, secs, two_ranges 0xac)"
    "\<forall>i. present (secs i) \<longrightarrow> valid (secs i)" "\<forall>p. unat p < 2 ^ 15 \<longrightarrow> pages p \<noteq> None"
    "\<forall>p m. pages p = Some m \<longrightarrow> pg_usage m = RESERVED" by (rule boot_sections_example [OF nodes(2)])
  have len: "length nodes = 2" using arg_cong [OF nodes(2), of length] by (simp add: nodes_boot_def)
  have r: "ranges_ok 0 (two_ranges 0xa8)" "pages_of (two_ranges 0xa8) \<subseteq> {..<2 ^ 15}"
    by (auto simp: two_ranges_def r_lo_def r_hi_def range_pages_def)
  have "given (two_ranges 0xa8) m \<subseteq> pages_of (two_ranges 0xa8)" for m by (auto simp: given_def on_node_pages)
  then have "given (two_ranges 0xa8) m \<subseteq> {..<2 ^ 15}" for m using r(2) by (rule subset_trans)
  then have pg: "m < 2 \<Longrightarrow> unat p \<in> given (two_ranges 0xa8) m \<Longrightarrow> pages p \<noteq> None" for p m using s(3) by blast
  have "pages_of (two_ranges 0xa8) \<subseteq> {..<2 ^ 30}" using r(2) by force
  moreover have "\<forall>r\<in>set (two_ranges 0xa8). \<exists>n<2. pr_nid r = int n"
    unfolding two_ranges_def by (auto intro: exI [of _ "1 :: nat"] exI [of _ "0 :: nat"])
  moreover have "pg_usage m = RESERVED" if "pages p = Some m" for p m using s(4) that by blast
  ultimately have "\<exists>st. page_allocator_init 2 (two_ranges 0xa8) pages = Ok st
      \<and> holds (two_ranges 0xa8) (two_ranges 0xa8) st \<and> length (allocators st) = 2"
    by (intro page_allocator_init_holds [OF disjI2 r(1) _ pg])
  then obtain st where st: "page_allocator_init 2 (two_ranges 0xa8) pages = Ok st"
    and h: "holds (two_ranges 0xa8) (two_ranges 0xa8) st" "length (allocators st) = 2" by (elim exE conjE)
  have held: "frames_of 0 st \<noteq> {}"
  proof -
    have "frames_of 0 st = given (two_ranges 0xa8) 0" using h by (simp add: holds_def)
    moreover have "0x400 \<in> given (two_ranges 0xa8) 0"
      by (simp add: given_def on_node_def two_ranges_def range_pages_def r_lo_def r_hi_def)
    ultimately show ?thesis by blast
  qed
  let ?b = "\<lparr>bt_topology = topo\<lparr>numa_nodes := nodes\<rparr>, bt_sections = secs, bt_tables = t2, bt_allocators = st\<rparr>"
  have run: "boot_memory layout0 (Some (80, madt0)) (Some (160, srat_boot)) calls_boot 42 0x200000 e820_boot [cpu_boot]
      \<lparr>pt_root = 0, pt_mem = \<lambda>_. 0\<rparr> = Some (Ok ?b)"
    unfolding boot_memory_def t(1) topo(1)
    by (simp add: boot_nodes_def topo(2,3) nodes(1) s(1) t(2) len st)
  have ram: "ram e820_boot = [\<lparr>e_addr = 0x200000, e_length = 0x400000, e_type = 1\<rparr>]"
    by (simp add: e820_boot_def TYPE_RAM_def)
  have "usable_pages 0x200000 e820_boot \<subseteq> {..<0x600}"
    by (simp add: usable_pages_def ram entry_pages_def subset_iff)
  then have up: "usable_pages 0x200000 e820_boot \<subseteq> {..<2 ^ 30}" by force
  have psz: "unat (section_map_pages 42) \<le> unat (0x200000 :: u64) div 4096"
    by (simp add: section_map_pages_def section_consts align_up_def align_down_def PAGE_SIZE_eq PAGE_SHIFT_def)
  have blk: "nn_memblocks (nodes ! 0) = [\<lparr>mb_start = 0x400, mb_end = 0x600, mb_nid = 0\<rparr>]"
    "nn_memblocks (nodes ! 1) = [\<lparr>mb_start = 0x200, mb_end = 0x400, mb_nid = 1\<rparr>]"
    using nth_map [of 0 nodes nn_memblocks] nth_map [of 1 nodes nn_memblocks] len unfolding nodes(2) by (simp_all add: nodes_boot_def)
  have bs: "\<forall>c\<in>node_blocks nodes. mb_start c < mb_end c"
    using arg_cong [OF nodes(2), of "\<lambda>l. \<Union> (set (map set l))"] by (simp add: node_blocks_def nodes_boot_def)
  have "4096 dvd unat (0x200000 :: u64)" by simp
  moreover have "\<forall>e\<in>set (ram e820_boot). entry_ok e" "disjoint_entries (ram e820_boot)" by (simp_all add: ram entry_ok_def)
  moreover have "(0x200000 :: u64) \<le> initial_map_end" by (simp add: initial_map_end_eq)
  moreover have "node_frames ?b 0 = {0x400 ..< 0x600}" "node_frames ?b 1 = {0x200 ..< 0x400}"
    using blk by (simp_all add: node_frames_def block_frames_def)
  ultimately show ?thesis using that [of ?b] run up psz bs s(2) len held by simp
qed

theorem boot_memory_safe_witness:
  "\<exists>b. boot_memory layout0 (Some (80, madt0)) (Some (160, srat_boot)) calls_boot 42 0x200000 e820_boot [cpu_boot]
        \<lparr>pt_root = 0, pt_mem = \<lambda>_. 0\<rparr> = Some (Ok b)
    \<and> frames_of 0 (bt_allocators b) \<subseteq> {0x400 ..< 0x600} \<and> frames_of 1 (bt_allocators b) \<subseteq> {0x200 ..< 0x400}"
proof -
  obtain b where run: "boot_memory layout0 (Some (80, madt0)) (Some (160, srat_boot)) calls_boot 42 0x200000 e820_boot [cpu_boot]
        \<lparr>pt_root = 0, pt_mem = \<lambda>_. 0\<rparr> = Some (Ok b)"
    and c: "\<forall>e\<in>set (ram e820_boot). entry_ok e" "disjoint_entries (ram e820_boot)" "4096 dvd unat (0x200000 :: u64)"
    "0x200000 \<le> initial_map_end" "usable_pages 0x200000 e820_boot \<subseteq> {..<2 ^ 30}"
    "unat (section_map_pages 42) \<le> unat (0x200000 :: u64) div 4096"
    "\<forall>c\<in>node_blocks (numa_nodes (bt_topology b)). mb_start c < mb_end c"
    "\<forall>i. present (bt_sections b i) \<longrightarrow> valid (bt_sections b i)" and len: "length (numa_nodes (bt_topology b)) = 2"
    and nf: "node_frames b 0 = {0x400 ..< 0x600}" "node_frames b 1 = {0x200 ..< 0x400}"
    by (rule boot_example)
  have "0 < length (numa_nodes (bt_topology b))" "1 < length (numa_nodes (bt_topology b))" by (simp_all add: len)
  from this [THEN boot_memory_safe [OF run c]] nf
  have "frames_of 0 (bt_allocators b) \<subseteq> {0x400 ..< 0x600} \<and> frames_of 1 (bt_allocators b) \<subseteq> {0x200 ..< 0x400}" by simp
  then show ?thesis using run by blast
qed

end
