(* ===== verification/Smp_Boot.thy ===== *)
theory Smp_Boot
  imports Gp_Allocator Cpu VMem Sync Clock_Timer
begin

text \<open>
  \<open>sys/smp.cpp\<close>, \<open>sys/tls.cpp\<close>: bringing up the other processors.  The boot processor allocates the
  blocks of thread-local storage and the stacks, which it chains through their first words, and
  sends the interrupts; each processor then sets up its page tables, its block and its tables.
  Memory is bytes.  The trampoline in \<open>smp.S\<close> is assembly; what it does with the chain is not
  modelled.
\<close>

subsection \<open>Memory\<close>

type_synonym mem8 = "u64 \<Rightarrow> u8"

definition store64 :: "u64 \<Rightarrow> u64 \<Rightarrow> mem8 \<Rightarrow> mem8" where
  "store64 a v m = (\<lambda>x. if x - a < 8 then ucast (drop_bit (8 * unat (x - a)) v) else m x)"

definition load64 :: "u64 \<Rightarrow> mem8 \<Rightarrow> u64" where
  "load64 a m = foldr (\<lambda>i w. push_bit (8 * i) (ucast (m (a + of_nat i))) OR w) [0..<8] 0"

text \<open>\<open>std::copy\<close> between ranges that do not overlap.\<close>

definition copy_bytes :: "u64 \<Rightarrow> u64 \<Rightarrow> u64 \<Rightarrow> mem8 \<Rightarrow> mem8" where
  "copy_bytes src src_end dst m = (\<lambda>x. if x - dst < src_end - src then m (src + (x - dst)) else m x)"

subsection \<open>Thread-local storage\<close>

text \<open>The symbols of the linker script.\<close>

record tls_symbols =
  tls_start :: u64
  tls_end :: u64
  tcb0 :: u64

text \<open>A block: the template, then the address of the control block, which the FS base points to.\<close>

definition tls_block :: "tls_symbols \<Rightarrow> u64 \<Rightarrow> mem8 \<Rightarrow> mem8 \<times> msr_write list" where
  "tls_block L tcb m =
     (let m' = copy_bytes (tls_start L) (tls_end L) tcb m;
          tls_size = tls_end L - tls_start L;
          p = tcb + tls_size
      in (store64 p p m', [(MSR_IA32_FS_BASE, p)]))"

definition tls_init :: "tls_symbols \<Rightarrow> mem8 \<Rightarrow> mem8 \<times> msr_write list" where
  "tls_init L m = tls_block L (tcb0 L) m"

definition tls_region :: "tls_symbols \<Rightarrow> u64" where
  "tls_region L = align_up (tls_end L - tls_start L + 8) 64"

text \<open>The loop over the other processors; a block is allocated on the processor's node.\<close>

fun tls_smp_loop :: "env \<Rightarrow> u64 \<Rightarrow> cpu list \<Rightarrow> u64 list \<Rightarrow> gp \<Rightarrow> (u64 list \<times> gp) res option" where
  "tls_smp_loop e tls_size [] tls_ptrs g = Some (Ok (tls_ptrs, g))"
| "tls_smp_loop e tls_size (c # cs) tls_ptrs g =
     (case cpu_nid c of
        None \<Rightarrow> Some (Fail Undefined)
      | Some nid \<Rightarrow> Option.bind (gp_Alloc e tls_size nid g) (\<lambda>r. case r of
          Fail x \<Rightarrow> Some (Fail x)
        | Ok (p, g') \<Rightarrow>
            if p = 0 then Some (Fail Bug_On)
            else if length tls_ptrs \<ge> MAX_NUM_CPUS then Some (Fail Thrown)
            else tls_smp_loop e tls_size cs (tls_ptrs @ [p]) g'))"

definition tls_smp_init :: "env \<Rightarrow> tls_symbols \<Rightarrow> cpu list \<Rightarrow> gp \<Rightarrow> (u64 list \<times> gp) res option" where
  "tls_smp_init e L cpus g = tls_smp_loop e (tls_region L) (tl cpus) [tcb0 L] g"

definition tls_ap_init :: "tls_symbols \<Rightarrow> u64 list \<Rightarrow> nat \<Rightarrow> mem8 \<Rightarrow> (mem8 \<times> msr_write list) res" where
  "tls_ap_init L tls_ptrs index m = defined (index < length tls_ptrs) (Ok (tls_block L (tls_ptrs ! index) m))"

subsection \<open>The boot processor\<close>

definition SMP_START_ADDRESS :: u64 where "SMP_START_ADDRESS = 0x4000"

text \<open>A page for a stack: below 1 GB, which the trampoline maps.\<close>

definition stack_page :: "buddy \<Rightarrow> (pfn \<times> buddy) res" where
  "stack_page b = bind_res (AllocLocal 0 b) (\<lambda>(pfn, b').
     kbugon (pfn = 0) (kbugon (pfn_to_addr pfn \<ge> 2 ^ 30) (Ok (pfn, b'))))"

text \<open>The loop that chains the stacks through their first words.\<close>

fun stack_loop :: "nat \<Rightarrow> u64 \<Rightarrow> buddy \<Rightarrow> mem8 \<Rightarrow> (u64 \<times> buddy \<times> mem8) res" where
  "stack_loop 0 stack_list b m = Ok (stack_list, b, m)"
| "stack_loop (Suc n) stack_list b m =
     bind_res (stack_page b) (\<lambda>(pfn, b').
       let addr = pfn_to_addr pfn in stack_loop n addr b' (store64 addr stack_list m))"

definition start_cpu :: "cpu \<Rightarrow> msr_write list" where
  "start_cpu c = (let apic_id = cpu_apic_id c in
     apic_ipi apic_id 0 True DELIVERY_INIT @ apic_ipi apic_id (ucast (drop_bit 12 SMP_START_ADDRESS)) True DELIVERY_STARTUP)"

text \<open>\<open>smp_init\<close> up to the wait at the barrier; \<open>boot\<close> is the range of the trampoline's code.  The vector of
  processors holds the boot processor.  The result: the blocks, the head of the chain, memory and
  the interrupts sent.\<close>

definition smp_init ::
    "env \<Rightarrow> tls_symbols \<Rightarrow> u64 \<times> u64 \<Rightarrow> u64 \<Rightarrow> cpu list \<Rightarrow> gp \<Rightarrow> page_tables \<Rightarrow> mem8
     \<Rightarrow> (barrier \<times> u64 list \<times> u64 \<times> gp \<times> page_tables \<times> mem8 \<times> msr_write list) res option" where
  "smp_init e L boot cr3 cpus g t m =
     Option.bind (tls_smp_init e L cpus g) (\<lambda>r. Some
       (bind_res r (\<lambda>(tls_ptrs, g1).
        let num_aps = length cpus - 1; st = gp_pages g1
        in bind_res (stack_loop num_aps 0 (node_buddy (my_nid e) st) m) (\<lambda>(stack_list, b, m1).
           bind_res (map_memory cr3 (pfn_down SMP_START_ADDRESS) (pfn_down SMP_START_ADDRESS) PAGE_SIZE (b, t)) (\<lambda>(b', t').
           let m2 = copy_bytes (fst boot) (snd boot) SMP_START_ADDRESS m1
           in Ok (barrier_new, tls_ptrs, stack_list, gp_set_pages (set_node_buddy (my_nid e) b' st) g1, t', m2,
                  concat (map start_cpu (tl cpus))))))))"

subsection \<open>The other processors\<close>

fun find_cpu :: "u32 \<Rightarrow> cpu list \<Rightarrow> nat option" where
  "find_cpu ident [] = None"
| "find_cpu ident (c # cs) = (if ucast (cpu_apic_id c) = ident then Some 0 else map_option Suc (find_cpu ident cs))"

text \<open>\<open>smp_main\<close> up to the event loop: \<open>apic_base\<close> and \<open>idr\<close> are the registers it reads, \<open>vcpu_addr\<close>,
  \<open>tss_addr\<close> and \<open>boot_stack\<close> the addresses of this processor's clock and tables.  The result: the
  position of the processor, its \<open>cr3\<close>, the processors, memory and the registers written.\<close>

definition smp_main ::
    "tls_symbols \<Rightarrow> u64 list \<Rightarrow> u64 \<Rightarrow> u64 \<Rightarrow> u64 \<Rightarrow> u64 \<Rightarrow> u64 \<Rightarrow> cpu list \<Rightarrow> buddy vm \<Rightarrow> mem8
     \<Rightarrow> (nat \<times> u64 \<times> cpu list \<times> buddy vm \<times> mem8 \<times> msr_write list) res" where
  "smp_main L tls_ptrs apic_base idr vcpu_addr tss_addr boot_stack cpus vm m =
     (case find_cpu (apic_get_id idr) cpus of
        None \<Rightarrow> Fail Assert_Failed
      | Some i \<Rightarrow>
          let c = cpus ! i; cpu_index = cpu_index c
          in bind_res (vmem_ap_init vm) (\<lambda>(cr3, vm1).
             bind_res (trans_ap_init cr3 vm1) (\<lambda>(b, t).
             bind_res (tls_ap_init L tls_ptrs cpu_index m) (\<lambda>(m', fs).
             bind_res (cpu_init tss_addr boot_stack (c, b)) (\<lambda>(c', b').
             Ok (i, cr3, cpus[i := c'], (b', t), m', apic_init apic_base @ fs @ clock_ap_init vcpu_addr))))))"

subsection \<open>Lemmas\<close>

lemma bit_load64: "bit (load64 a m) n \<longleftrightarrow> n < 64 \<and> bit (m (a + of_nat (n div 8))) (n mod 8)"
proof -
  have "bit (foldr (\<lambda>i w. push_bit (8 * i) (ucast (m (a + of_nat i))) OR w) is (0 :: u64)) n
      \<longleftrightarrow> (\<exists>i\<in>set is. n < 64 \<and> 8 * i \<le> n \<and> bit (m (a + of_nat i)) (n - 8 * i))" for "is"
    by (induction "is") (auto simp: bit_simps bit_imp_le_length)
  moreover have "n < 64 \<and> 8 * i \<le> n \<and> bit (m (a + of_nat i)) (n - 8 * i) \<longleftrightarrow> n < 64 \<and> i = n div 8 \<and> bit (m (a + of_nat i)) (n - 8 * i)" for i
    using bit_imp_le_length [of "m (a + of_nat i)" "n - 8 * i"] by auto
  moreover have "n - 8 * (n div 8) = n mod 8" by (simp add: minus_mult_div_eq_mod)
  ultimately show ?thesis unfolding load64_def by auto
qed

lemma load64_store64: "load64 a (store64 a v m) = v"
proof (rule bit_word_eqI)
  fix n :: nat
  assume "n < LENGTH(64)"
  then have "n div 8 < 8" by simp
  then have "unat (of_nat (n div 8) :: u64) = n div 8" "(of_nat (n div 8) :: u64) < 8"
    by (simp_all add: unat_of_nat word_less_nat_alt)
  then show "bit (load64 a (store64 a v m)) n = bit v n" using \<open>n < LENGTH(64)\<close>
    by (simp add: bit_load64 store64_def bit_simps)
qed

lemma store64_outside: "8 \<le> x - a \<Longrightarrow> store64 a v m x = m x"
  by (drule leD) (simp add: store64_def)

lemma load64_cong: "(\<And>i. i < 8 \<Longrightarrow> m (a + of_nat i) = m' (a + of_nat i)) \<Longrightarrow> load64 a m = load64 a m'"
  unfolding load64_def by (rule foldr_cong) simp_all

text \<open>Stack pages are a source of pages.\<close>

interpretation stacks: page_source stack_page "\<lambda>s. free_frames (fst s)" "\<lambda>s. \<exists>A. buddy_inv {} A s"
proof
  fix s p s'
  assume inv: "\<exists>A. buddy_inv {} A s" and g: "stack_page s = Ok (p, s')"
  have "pfn_to_addr NO_PFN \<ge> 2 ^ 30" by (simp add: NO_PFN_def pfn_to_addr_def PAGE_SHIFT_def mask_eq_exp_minus_1)
  moreover have "\<not> pfn_to_addr p \<ge> 2 ^ 30" "AllocLocal 0 s = Ok (p, s')" using g by (auto simp: stack_page_def res_Ok_iff)
  ultimately have "buddy_page s = Ok (p, s')" by (cases "p = NO_PFN") (simp_all add: buddy_page_def)
  then show "(\<exists>A. buddy_inv {} A s') \<and> unat p \<in> free_frames (fst s)
      \<and> free_frames (fst s') = free_frames (fst s) - {unat p} \<and> unat p < 2 ^ 52"
    by (rule node.get_page [OF inv])
qed

text \<open>What taking \<open>n\<close> stacks off the chain gives, and what is left.\<close>

primrec pops :: "nat \<Rightarrow> mem8 \<Rightarrow> u64 \<Rightarrow> u64 list \<times> u64" where
  "pops 0 m a = ([], a)"
| "pops (Suc n) m a = (case pops n m (load64 a m) of (as, rest) \<Rightarrow> (a # as, rest))"

fun links :: "u64 list \<Rightarrow> u64 \<Rightarrow> mem8 \<Rightarrow> mem8" where
  "links [] head m = m"
| "links (a # as) head m = links as a (store64 a head m)"

definition apart :: "u64 \<Rightarrow> u64 \<Rightarrow> bool" where
  "apart a b \<longleftrightarrow> (\<forall>i<8. 8 \<le> b + of_nat i - a)"

lemma load64_apart: "apart a b \<Longrightarrow> load64 b (store64 a v m) = load64 b m"
  by (rule load64_cong) (simp add: apart_def store64_outside)

lemma links_snoc: "links (as @ [a]) head m = store64 a (last (head # as)) (links as head m)"
  by (induction as arbitrary: head m) simp_all

lemma links_outside: "\<forall>a\<in>set as. 8 \<le> x - a \<Longrightarrow> links as head m x = m x"
  by (induction as arbitrary: head m) (simp_all add: store64_outside)

lemma pops_store: "\<forall>b\<in>set (fst (pops n m h)). apart a b \<Longrightarrow> pops n (store64 a v m) h = pops n m h"
  by (induction n arbitrary: h) (simp_all add: load64_apart split: prod.splits)

lemma pops_links:
  assumes "\<And>a b. a \<in> set as \<Longrightarrow> b \<in> set as \<Longrightarrow> a \<noteq> b \<Longrightarrow> apart a b" and "distinct as"
  shows "pops (length as) (links as head m) (last (head # as)) = (rev as, head)"
  using assms
proof (induction as rule: rev_induct)
  case (snoc a as)
  then have IH: "pops (length as) (links as head m) (last (head # as)) = (rev as, head)" by simp
  have "\<forall>b\<in>set (fst (pops (length as) (links as head m) (last (head # as)))). apart a b"
    unfolding IH using snoc.prems by auto
  note pops_store [OF this, of "last (head # as)"]
  then show ?case using IH by (simp add: links_snoc load64_store64)
qed simp

lemma stack_loop_links:
  "stack_loop n head b m = Ok (h, b', m') \<Longrightarrow> \<exists>ps. take_pages stack_page n b = Ok (ps, b')
    \<and> h = last (head # map pfn_to_addr ps) \<and> m' = links (map pfn_to_addr ps) head m \<and> (\<forall>p\<in>set ps. pfn_to_addr p < 2 ^ 30)"
proof (induction n arbitrary: head b m)
  case (Suc n)
  obtain p b1 where p: "stack_page b = Ok (p, b1)" and r: "stack_loop n (pfn_to_addr p) b1 (store64 (pfn_to_addr p) head m) = Ok (h, b', m')"
    using Suc.prems by (auto simp: res_Ok_iff Let_def)
  have "pfn_to_addr p < 2 ^ 30" using p by (auto simp: stack_page_def res_Ok_iff)
  moreover obtain ps where "take_pages stack_page n b1 = Ok (ps, b')" "h = last (pfn_to_addr p # map pfn_to_addr ps)"
      "m' = links (map pfn_to_addr ps) (pfn_to_addr p) (store64 (pfn_to_addr p) head m)" "\<forall>p\<in>set ps. pfn_to_addr p < 2 ^ 30"
    using Suc.IH [OF r] by blast
  ultimately show ?case using p by (intro exI [of _ "p # ps"]) simp
qed simp

lemma pages_apart:
  assumes "p \<noteq> q" and "unat p < 2 ^ 51" and "unat q < 2 ^ 51"
  shows "apart (pfn_to_addr p) (pfn_to_addr q)"
  unfolding apart_def
proof (intro allI impI)
  fix i :: nat
  assume i: "i < 8"
  have a: "unat (pfn_to_addr p) = 4096 * unat p" "unat (pfn_to_addr q) = 4096 * unat q"
    using assms(2,3) by (simp_all add: unat_pfn_to_addr)
  have "unat (pfn_to_addr q + of_nat i) = 4096 * unat q + i" using a i assms(3) by (simp add: unat_word_ariths unat_of_nat)
  moreover have "4096 * unat p + 4096 \<le> 4096 * unat q \<or> 4096 * unat q + 4096 \<le> 4096 * unat p"
    using assms(1) by (auto simp: word_unat_eq_iff)
  ultimately have "8 \<le> unat (pfn_to_addr q + of_nat i - pfn_to_addr p)" using a i assms(2) by (auto simp: unat_sub_if')
  then show "8 \<le> pfn_to_addr q + of_nat i - pfn_to_addr p" by (simp add: word_le_nat_alt)
qed

text \<open>Setting up one block: its bytes as addresses, and what the others see.\<close>

definition tls_bytes :: "tls_symbols \<Rightarrow> nat" where "tls_bytes L = unat (tls_end L - tls_start L)"

definition block_at :: "tls_symbols \<Rightarrow> u64 \<Rightarrow> nat set" where "block_at L a = {unat a ..< unat a + tls_bytes L + 8}"

lemma offset_in_range:
  fixes a x :: u64
  assumes "unat a + n \<le> 2 ^ 64"
  shows "unat (x - a) < n \<longleftrightarrow> unat x \<in> {unat a ..< unat a + n}"
proof -
  have "unat x < 2 ^ 64" using unat_lt_pow [of x] by simp
  then show ?thesis using assms by (auto simp: unat_sub_if')
qed

lemma tls_block_effect:
  assumes "unat a + tls_bytes L + 8 \<le> 2 ^ 64"
  shows "unat x \<notin> block_at L a \<Longrightarrow> fst (tls_block L a m) x = m x"
    and "k < tls_bytes L \<Longrightarrow> fst (tls_block L a m) (a + of_nat k) = m (tls_start L + of_nat k)"
    and "load64 (a + of_nat (tls_bytes L)) (fst (tls_block L a m)) = a + of_nat (tls_bytes L)"
proof -
  let ?n = "tls_bytes L"
  have n: "tls_end L - tls_start L = of_nat ?n" "unat (of_nat ?n :: u64) = ?n"
    using assms by (simp_all add: tls_bytes_def)
  have b: "fst (tls_block L a m) = store64 (a + of_nat ?n) (a + of_nat ?n) (copy_bytes (tls_start L) (tls_end L) a m)"
    by (simp add: tls_block_def Let_def n(1))
  show "load64 (a + of_nat ?n) (fst (tls_block L a m)) = a + of_nat ?n" by (simp add: b load64_store64)
  have c: "copy_bytes (tls_start L) (tls_end L) a m x = (if unat (x - a) < ?n then m (tls_start L + (x - a)) else m x)" for x
    by (simp add: copy_bytes_def n word_less_nat_alt)
  have s: "store64 (a + of_nat ?n) v m' x = m' x" if "\<not> (?n \<le> unat (x - a) \<and> unat (x - a) < ?n + 8)" for x v m'
  proof -
    have "8 \<le> d - of_nat ?n" if "\<not> (?n \<le> unat d \<and> unat d < ?n + 8)" for d :: u64
      using that n(2) assms unat_lt_pow [of d] by (auto simp: word_le_nat_alt unat_sub_if')
    from this [OF that] have "8 \<le> x - (a + of_nat ?n)" by (simp add: diff_diff_add)
    then show ?thesis by (rule store64_outside)
  qed
  show "fst (tls_block L a m) x = m x" if "unat x \<notin> block_at L a"
  proof -
    have "\<not> unat (x - a) < ?n + 8" using that assms offset_in_range [of a "?n + 8" x] by (simp add: block_at_def add.assoc)
    then show ?thesis by (simp add: b s c)
  qed
  show "fst (tls_block L a m) (a + of_nat k) = m (tls_start L + of_nat k)" if "k < ?n"
  proof -
    have "unat (of_nat k :: u64) = k" using that assms by (simp add: unat_of_nat)
    then show ?thesis using that by (simp add: b s c)
  qed
qed

text \<open>Processors set up their blocks one after the other, in any order.\<close>

fun ap_inits :: "tls_symbols \<Rightarrow> u64 list \<Rightarrow> nat list \<Rightarrow> mem8 \<Rightarrow> mem8 res" where
  "ap_inits L tls_ptrs [] m = Ok m"
| "ap_inits L tls_ptrs (i # is) m = bind_res (tls_ap_init L tls_ptrs i m) (\<lambda>(m', _). ap_inits L tls_ptrs is m')"

definition blocks_ok :: "tls_symbols \<Rightarrow> u64 list \<Rightarrow> bool" where
  "blocks_ok L tls_ptrs \<longleftrightarrow> unat (tls_start L) + tls_bytes L \<le> 2 ^ 64
     \<and> (\<forall>i<length tls_ptrs. unat (tls_ptrs ! i) + tls_bytes L + 8 \<le> 2 ^ 64
          \<and> block_at L (tls_ptrs ! i) \<inter> {unat (tls_start L) ..< unat (tls_start L) + tls_bytes L} = {}
          \<and> (\<forall>j<length tls_ptrs. i \<noteq> j \<longrightarrow> block_at L (tls_ptrs ! i) \<inter> block_at L (tls_ptrs ! j) = {}))"

subsection \<open>Properties\<close>

text \<open>C24: The stacks for the other processors: as many different free pages below 1 GB as asked for, chained so
  that taking one after the other off the chain gives them all and leaves it empty; nothing else of
  memory is written.\<close>

theorem smp_stacks:
  assumes "buddy_inv {} A b" and "stack_loop n 0 b m = Ok (h, b', m')"
  shows "\<exists>ps. length ps = n \<and> distinct ps \<and> unat ` set ps \<subseteq> free_frames (fst b)
    \<and> free_frames (fst b') = free_frames (fst b) - unat ` set ps \<and> (\<forall>p\<in>set ps. pfn_to_addr p < 2 ^ 30)
    \<and> pops n m' h = (map pfn_to_addr ps, 0)
    \<and> (\<forall>x. (\<forall>p\<in>set ps. 8 \<le> x - pfn_to_addr p) \<longrightarrow> m' x = m x)"
proof -
  obtain ps where t: "take_pages stack_page n b = Ok (ps, b')" and h: "h = last (0 # map pfn_to_addr ps)"
      and m': "m' = links (map pfn_to_addr ps) 0 m" and low: "\<forall>p\<in>set ps. pfn_to_addr p < 2 ^ 30"
    using stack_loop_links [OF assms(2)] by blast
  have "\<exists>A. buddy_inv {} A b" using assms(1) by blast
  note t = stacks.take_pages_distinct [OF this t]
  have small: "unat p < 2 ^ 51" if "p \<in> set ps" for p
  proof -
    have "unat (pfn_to_addr p) < 2 ^ 30" using bspec [OF low that] by (simp add: word_less_nat_alt)
    moreover have "unat (pfn_to_addr p) = unat p * 4096" using t that by (intro unat_pfn_to_addr) blast
    ultimately show ?thesis by simp
  qed
  have "p = q" if "p \<in> set ps" "q \<in> set ps" "pfn_to_addr p = pfn_to_addr q" for p q
    using that small [OF that(1)] small [OF that(2)] unat_pfn_to_addr [of p] unat_pfn_to_addr [of q] by (simp add: word_unat_eq_iff)
  then have inj: "distinct (map pfn_to_addr ps)" using t by (auto simp: distinct_map intro!: inj_onI)
  have "apart a c" if "a \<in> set (map pfn_to_addr ps)" "c \<in> set (map pfn_to_addr ps)" "a \<noteq> c" for a c
    using that small by (auto intro!: pages_apart)
  from pops_links [OF this inj, of 0 m] have "pops n m' h = (map pfn_to_addr (rev ps), 0)"
    using t by (simp add: h m' rev_map)
  moreover have "m' x = m x" if "\<forall>p\<in>set ps. 8 \<le> x - pfn_to_addr p" for x
    using that unfolding m' by (intro links_outside) simp
  ultimately show ?thesis using t low by (intro exI [of _ "rev ps"]) auto
qed

text \<open>C23: Thread-local storage: with blocks that overlap neither each other nor the template, after any number of
  processors have set theirs up in any order each of them has the template followed by the address of
  its own control block, and nothing outside their blocks has changed.\<close>

theorem tls_blocks:
  assumes "blocks_ok L tls_ptrs" and "\<forall>i\<in>set is. i < length tls_ptrs"
  shows "\<exists>m'. ap_inits L tls_ptrs is m = Ok m'
    \<and> (\<forall>i\<in>set is. (\<forall>k<tls_bytes L. m' (tls_ptrs ! i + of_nat k) = m (tls_start L + of_nat k))
        \<and> load64 (tls_ptrs ! i + of_nat (tls_bytes L)) m' = tls_ptrs ! i + of_nat (tls_bytes L))
    \<and> (\<forall>x. (\<forall>i\<in>set is. unat x \<notin> block_at L (tls_ptrs ! i)) \<longrightarrow> m' x = m x)"
  using assms(2)
proof (induction "is" arbitrary: m)
  case (Cons i "is")
  let ?n = "tls_bytes L" and ?a = "tls_ptrs ! i" and ?m1 = "fst (tls_block L (tls_ptrs ! i) m)"
  have i: "i < length tls_ptrs" using Cons.prems by simp
  have a: "unat ?a + ?n + 8 \<le> 2 ^ 64" and t: "block_at L ?a \<inter> {unat (tls_start L) ..< unat (tls_start L) + ?n} = {}"
    and start: "unat (tls_start L) + ?n \<le> 2 ^ 64"
    using assms(1) i by (simp_all add: blocks_ok_def)
  note eff = tls_block_effect [OF a, where m = m]
  have add: "unat (b + of_nat k) = unat b + k" if "unat b + k < 2 ^ 64" for b :: u64 and k
    using that by (simp add: unat_word_ariths unat_of_nat)
  have template: "?m1 (tls_start L + of_nat k) = m (tls_start L + of_nat k)" if "k < ?n" for k
    by (rule eff(1)) (use that t start add [of "tls_start L" k] in auto)
  obtain m' where run: "ap_inits L tls_ptrs is ?m1 = Ok m'"
    and data: "\<And>j k. j \<in> set is \<Longrightarrow> k < ?n \<Longrightarrow> m' (tls_ptrs ! j + of_nat k) = ?m1 (tls_start L + of_nat k)"
    and self: "\<And>j. j \<in> set is \<Longrightarrow> load64 (tls_ptrs ! j + of_nat ?n) m' = tls_ptrs ! j + of_nat ?n"
    and out: "\<And>x. (\<forall>j\<in>set is. unat x \<notin> block_at L (tls_ptrs ! j)) \<Longrightarrow> m' x = ?m1 x"
    using Cons.IH [of ?m1] Cons.prems by auto
  have mine: "m' x = ?m1 x" if "i \<notin> set is" "unat x \<in> block_at L ?a" for x
  proof (rule out, rule ballI)
    fix j assume "j \<in> set is"
    then have "j < length tls_ptrs" "i \<noteq> j" using Cons.prems that(1) by auto
    then have "block_at L ?a \<inter> block_at L (tls_ptrs ! j) = {}" using assms(1) i by (simp add: blocks_ok_def)
    then show "unat x \<notin> block_at L (tls_ptrs ! j)" using that(2) by blast
  qed
  have inside: "unat (?a + of_nat k) \<in> block_at L ?a" if "k < ?n + 8" for k
    using that a add [of ?a k] by (simp add: block_at_def)
  have "m' (?a + of_nat k) = m (tls_start L + of_nat k)" if "k < ?n" for k
    using that data [of i k] template mine [OF _ inside [of k]] eff(2) [OF that] by (cases "i \<in> set is") simp_all
  moreover have "load64 (?a + of_nat ?n) m' = ?a + of_nat ?n"
  proof (cases "i \<in> set is")
    case False
    have "m' (?a + of_nat ?n + of_nat k) = ?m1 (?a + of_nat ?n + of_nat k)" if "k < 8" for k
      using mine [OF False inside [of "?n + k"]] that by (simp add: add.assoc)
    then show ?thesis using load64_cong [of m' "?a + of_nat ?n" ?m1] eff(3) by simp
  qed (rule self)
  moreover have "ap_inits L tls_ptrs (i # is) m = Ok m'"
    using run i by (simp add: tls_ap_init_def split: prod.split) (metis fst_conv)
  moreover have "m' x = m x" if "\<forall>j\<in>set (i # is). unat x \<notin> block_at L (tls_ptrs ! j)" for x
    using that out [of x] eff(1) [of x] by simp
  ultimately show ?case using data self template by auto
qed simp

subsection \<open>Witnesses\<close>

theorem smp_stacks_witness:
  "\<exists>b' m' ps. stack_loop 1 0 small_node (\<lambda>_. 0) = Ok (0x4000, b', m') \<and> length ps = 1 \<and> pops 1 m' 0x4000 = (map pfn_to_addr ps, 0)
     \<and> free_frames (fst b') = free_frames (fst small_node) - unat ` set ps"
proof -
  obtain b' m' where r: "stack_loop 1 0 small_node (\<lambda>_. 0) = Ok (0x4000, b', m')"
    by (simp add: stack_page_def small_alloc pfn_to_addr_def PAGE_SHIFT_def)
  with smp_stacks [OF small_inv r] show ?thesis by blast
qed

definition tls0 :: tls_symbols where "tls0 = \<lparr>tls_start = 0x1000, tls_end = 0x1010, tcb0 = 0x2000\<rparr>"

theorem tls_blocks_witness:
  "\<exists>m'. ap_inits tls0 [0x2000, 0x3000] [1, 0] (\<lambda>x. ucast x) = Ok m' \<and> (\<forall>k<16. m' (0x3000 + of_nat k) = ucast (0x1000 + of_nat k :: u64))
    \<and> load64 0x3010 m' = 0x3010 \<and> load64 0x2010 m' = 0x2010"
proof -
  have n: "tls_bytes tls0 = 16" by (simp add: tls_bytes_def tls0_def)
  have "blocks_ok tls0 [0x2000, 0x3000]" unfolding blocks_ok_def block_at_def n
    by (auto simp: tls0_def less_Suc_eq)
  moreover have "\<forall>i\<in>set [1, 0]. i < length [0x2000 :: u64, 0x3000]" by simp
  ultimately obtain m' where m': "ap_inits tls0 [0x2000, 0x3000] [1, 0] (\<lambda>x. ucast x) = Ok m'"
    "\<forall>i\<in>set [1, 0]. (\<forall>k<16. m' ([0x2000, 0x3000] ! i + of_nat k) = ucast (tls_start tls0 + of_nat k))
        \<and> load64 ([0x2000, 0x3000] ! i + of_nat 16) m' = [0x2000, 0x3000] ! i + of_nat 16"
    using tls_blocks [of tls0 "[0x2000, 0x3000]" "[1, 0]" "\<lambda>x. ucast x"] unfolding n by blast
  have "tls_start tls0 = 0x1000" by (simp add: tls0_def)
  with m'(2) show ?thesis by (intro exI [of _ m'] conjI m'(1)) simp_all
qed

end
