(* ===== verification/Console.thy ===== *)
theory Console
  imports Pci Sync
begin

text \<open>
  \<open>sys/UART_8250.cpp\<close>, \<open>sys/debug.cpp\<close>, \<open>sys/debug.hpp\<close>: the serial console and the printing of the
  kernel, on the hardware record of \<open>Pci\<close>.  Formatting is \<open>vsnprintf\<close> of the C library: printing takes
  the formatted text.  The lock is the flag of \<open>Sync\<close>; waiting for the transmitter, or for a lock
  nobody releases, for ever is the value \<open>None\<close>.
\<close>

subsection \<open>The UART\<close>

definition UART_PORT :: u16 where "UART_PORT = 0x3f8"
definition DATA_REG :: u16 where "DATA_REG = 0"
definition INT_ENABLE :: u16 where "INT_ENABLE = 1"
definition BAUD_DIV_LSB :: u16 where "BAUD_DIV_LSB = 0"
definition BAUD_DIV_MSB :: u16 where "BAUD_DIV_MSB = 1"
definition LINE_CNTL_REG :: u16 where "LINE_CNTL_REG = 3"
definition LINE_CNTL_REG_CHARLEN_8 :: u8 where "LINE_CNTL_REG_CHARLEN_8 = push_bit 0 1 OR push_bit 1 1"
definition LINE_CNTL_REG_DLAB :: u8 where "LINE_CNTL_REG_DLAB = push_bit 7 1"
definition LINE_STATUS_REG :: u16 where "LINE_STATUS_REG = 5"
definition LINE_STATUS_REG_THR_EMPTY :: u8 where "LINE_STATUS_REG_THR_EMPTY = push_bit 5 1"

text \<open>The state: the flag of \<open>console_lock\<close> and the hardware.\<close>

type_synonym 'h console = "bool \<times> 'h"

definition console_init :: "'h hardware \<Rightarrow> 'h console \<Rightarrow> 'h console" where
  "console_init hw s = (case s of (_, h0) \<Rightarrow>
     let h1 = out8 hw (UART_PORT + INT_ENABLE) 0 h0;
         h2 = out8 hw (UART_PORT + LINE_CNTL_REG) LINE_CNTL_REG_DLAB h1;
         h3 = out8 hw (UART_PORT + BAUD_DIV_LSB) 1 h2;
         h4 = out8 hw (UART_PORT + BAUD_DIV_MSB) 0 h3;
         h5 = out8 hw (UART_PORT + LINE_CNTL_REG) LINE_CNTL_REG_CHARLEN_8 h4
     in (False, h5))"

partial_function (option) write_locked :: "'h hardware \<Rightarrow> u8 \<Rightarrow> 'h \<Rightarrow> 'h option" where
  "write_locked hw c h =
     (case in8 hw (UART_PORT + LINE_STATUS_REG) h of (status, h') \<Rightarrow>
        if status AND LINE_STATUS_REG_THR_EMPTY = 0 then write_locked hw c h'
        else Some (out8 hw (UART_PORT + DATA_REG) c h'))"

declare write_locked.simps [code]

text \<open>The loop of \<open>console_write\<close> over the bytes of the array that \<open>str\<close> points into.\<close>

fun write_string :: "'h hardware \<Rightarrow> u8 list \<Rightarrow> 'h \<Rightarrow> 'h res option" where
  "write_string hw [] h = Some (Fail Undefined)"
| "write_string hw (c # cs) h =
     (if c = 0 then Some (Ok h) else Option.bind (write_locked hw c h) (write_string hw cs))"

text \<open>\<open>std::lock_guard\<close> takes the lock first and clears it at the end; no other processor is in between.\<close>

definition console_write :: "'h hardware \<Rightarrow> u8 list \<Rightarrow> 'h console \<Rightarrow> 'h console res option" where
  "console_write hw str s = (case s of (flag, h) \<Rightarrow>
     (case spin_round flag of
        (Inside, _) \<Rightarrow> Option.bind (write_string hw str h) (\<lambda>r. Some (bind_res r (\<lambda>h'. Ok (clear_flag True, h'))))
      | _ \<Rightarrow> None))"

subsection \<open>Printing and stopping\<close>

text \<open>\<open>vsnprintf\<close> puts the text and a terminating null into the buffer of its length plus one.\<close>

definition kvprintf :: "'h hardware \<Rightarrow> u8 list \<Rightarrow> 'h console \<Rightarrow> 'h console res option" where
  "kvprintf hw text s = console_write hw (text @ [0]) s"

definition kprintf :: "'h hardware \<Rightarrow> u8 list \<Rightarrow> 'h console \<Rightarrow> 'h console res option" where
  "kprintf hw text s = kvprintf hw text s"

text \<open>Several messages one after the other; \<open>kabort\<close> prints its own and then ``Aborting!'' and halts for ever,
  which is the outcome \<open>Fail\<close>; it is \<open>None\<close> when a message does not get out.\<close>

fun kprint_all :: "'h hardware \<Rightarrow> u8 list list \<Rightarrow> 'h console \<Rightarrow> 'h console res option" where
  "kprint_all hw [] s = Some (Ok s)"
| "kprint_all hw (m # ms) s = Option.bind (kprintf hw m s) (\<lambda>r. case r of Fail e \<Rightarrow> Some (Fail e) | Ok s' \<Rightarrow> kprint_all hw ms s')"

definition aborting :: "u8 list" where
  "aborting = [0x41, 0x62, 0x6f, 0x72, 0x74, 0x69, 0x6e, 0x67, 0x21, 0x0a]"

definition kabort :: "'h hardware \<Rightarrow> u8 list list \<Rightarrow> 'h console \<Rightarrow> ('h console \<times> fault) option" where
  "kabort hw messages s =
     Option.bind (kprint_all hw (messages @ [aborting]) s) (\<lambda>r. case r of
       Ok s' \<Rightarrow> Some (s', Aborted) | Fail e \<Rightarrow> Some (s, e))"

subsection \<open>What reaches the line\<close>

text \<open>The UART as its data sheet has it, seen through the number of polls until the transmitter is empty
  (\<open>None\<close>: never) and the bytes sent: a read of the line status counts the polls down and shows bit 5
  when there are none left; only a write of the data register sends.\<close>

definition uart_law :: "'h hardware \<Rightarrow> ('h \<Rightarrow> nat option) \<Rightarrow> ('h \<Rightarrow> u8 list) \<Rightarrow> bool" where
  "uart_law hw polls sent \<longleftrightarrow>
     (\<forall>h status h'. in8 hw 0x3fd h = (status, h') \<longrightarrow> sent h' = sent h \<and>
        (case polls h of
           None \<Rightarrow> \<not> bit status 5 \<and> polls h' = None
         | Some 0 \<Rightarrow> bit status 5
         | Some (Suc n) \<Rightarrow> \<not> bit status 5 \<and> polls h' = Some n))
     \<and> (\<forall>h c. sent (out8 hw 0x3f8 c h) = sent h @ [c])"

lemma thr_empty: "status AND LINE_STATUS_REG_THR_EMPTY = 0 \<longleftrightarrow> \<not> bit status 5" for status :: u8
proof -
  have "bit (status AND LINE_STATUS_REG_THR_EMPTY) n \<longleftrightarrow> n = 5 \<and> bit status 5" for n
    by (auto simp: LINE_STATUS_REG_THR_EMPTY_def bit_and_iff bit_push_bit_iff bit_1_iff simp del: push_bit_of_1 push_bit_numeral)
  then show ?thesis by (metis bit_0_eq bot_apply bot_bool_def bit_eqI)
qed

lemma uart_ports: "UART_PORT + LINE_STATUS_REG = 0x3fd" "UART_PORT + DATA_REG = 0x3f8"
  by (simp_all add: UART_PORT_def LINE_STATUS_REG_def DATA_REG_def)

lemma write_locked_ready:
  assumes "uart_law hw polls sent" and "polls h = Some n"
  shows "\<exists>h'. write_locked hw c h = Some h' \<and> sent h' = sent h @ [c]"
  using assms(2)
proof (induction n arbitrary: h)
  case 0
  obtain status h1 where 1: "in8 hw 0x3fd h = (status, h1)" by fastforce
  then have "bit status 5" "sent h1 = sent h" using assms(1) 0 unfolding uart_law_def by fastforce+
  then show ?case using assms(1) by (subst write_locked.simps) (simp add: uart_ports 1 thr_empty uart_law_def)
next
  case (Suc n)
  obtain status h1 where 1: "in8 hw 0x3fd h = (status, h1)" by fastforce
  then have "\<not> bit status 5" "sent h1 = sent h" "polls h1 = Some n" using assms(1) Suc.prems unfolding uart_law_def by fastforce+
  then show ?case using Suc.IH [of h1] by (subst write_locked.simps) (simp add: uart_ports 1 thr_empty)
qed

lemma write_locked_stuck:
  assumes "uart_law hw polls sent" and "polls h = None"
  shows "write_locked hw c h = None"
proof -
  have "hw0 = hw \<longrightarrow> polls h \<noteq> None" if "write_locked hw0 c h = Some h'" for hw0 c h h'
  proof (rule write_locked.raw_induct [where P = "\<lambda>hw0 c h h'. hw0 = hw \<longrightarrow> polls h \<noteq> None", OF _ that], intro impI)
    fix loop hw0 c h h'
    assume IH: "\<And>hw0 c h h'. loop hw0 c h = Some h' \<Longrightarrow> hw0 = hw \<longrightarrow> polls h \<noteq> None"
      and body: "(case in8 hw0 (UART_PORT + LINE_STATUS_REG) h of (status, h') \<Rightarrow>
          if status AND LINE_STATUS_REG_THR_EMPTY = 0 then loop hw0 c h' else Some (out8 hw0 (UART_PORT + DATA_REG) c h')) = Some h'"
      and hw: "hw0 = hw"
    obtain status h1 where 1: "in8 hw 0x3fd h = (status, h1)" by fastforce
    show "polls h \<noteq> None"
    proof
      assume "polls h = None"
      then have "\<not> bit status 5" "polls h1 = None" using assms(1) 1 unfolding uart_law_def by fastforce+
      then have "loop hw c h1 = Some h'" using body by (simp add: hw uart_ports 1 thr_empty)
      then show False using IH \<open>polls h1 = None\<close> by blast
    qed
  qed
  from this [of hw c h] show ?thesis using assms(2) by (cases "write_locked hw c h") auto
qed

lemma write_string_sends:
  assumes "uart_law hw polls sent" and "\<And>h. polls h \<noteq> None" and "0 \<in> set str"
  shows "\<exists>h'. write_string hw str h = Some (Ok h') \<and> sent h' = sent h @ takeWhile (\<lambda>c. c \<noteq> 0) str"
  using assms(3)
proof (induction str arbitrary: h)
  case (Cons c cs)
  show ?case
  proof (cases "c = 0")
    case False
    obtain n where "polls h = Some n" using assms(2) by fastforce
    then obtain h1 where 1: "write_locked hw c h = Some h1" "sent h1 = sent h @ [c]"
      using write_locked_ready [OF assms(1)] by blast
    obtain h' where "write_string hw cs h1 = Some (Ok h')" "sent h' = sent h1 @ takeWhile (\<lambda>c. c \<noteq> 0) cs"
      using Cons.IH [of h1] Cons.prems False by auto
    then show ?thesis using False 1 by simp
  qed simp
qed simp

lemma kprintf_sends:
  assumes "uart_law hw polls sent" and "\<forall>h. polls h \<noteq> None"
  shows "\<exists>h'. kprintf hw msg (False, h) = Some (Ok (False, h')) \<and> sent h' = sent h @ takeWhile (\<lambda>c. c \<noteq> 0) msg"
proof -
  obtain h' where "write_string hw (msg @ [0]) h = Some (Ok h')"
    "sent h' = sent h @ takeWhile (\<lambda>c. c \<noteq> 0) (msg @ [0])"
    using write_string_sends [OF assms(1), of "msg @ [0]" h] assms(2) by auto
  moreover have "takeWhile (\<lambda>c. c \<noteq> 0) (msg @ [0 :: u8]) = takeWhile (\<lambda>c. c \<noteq> 0) msg"
    by (induction msg) auto
  ultimately show ?thesis by (simp add: kprintf_def kvprintf_def console_write_def lock_ops)
qed

lemma kprintf_busy: "kprintf hw msg (True, h) = None"
  by (simp add: kprintf_def kvprintf_def console_write_def lock_ops)

text \<open>C34: Printing gives the lock back and sends exactly the text, up to its first null, in order, when the
  transmitter always empties in the end.  It never returns when the transmitter is stuck before the
  first character, or when the lock is held.\<close>

theorem kprintf_correct:
  assumes "uart_law hw polls sent"
  shows "((\<forall>h. polls h \<noteq> None) \<longrightarrow> (\<exists>h'. kprintf hw msg (False, h) = Some (Ok (False, h'))
           \<and> sent h' = sent h @ takeWhile (\<lambda>c. c \<noteq> 0) msg))
    \<and> (polls h = None \<and> c \<noteq> 0 \<longrightarrow> kprintf hw (c # msg) (False, h) = None)
    \<and> kprintf hw msg (True, h) = None"
  using kprintf_sends [OF assms] kprintf_busy write_locked_stuck [OF assms, of h c]
  by (auto simp: kprintf_def kvprintf_def console_write_def lock_ops)

text \<open>A line that is busy for two polls after every character.\<close>

definition line :: "(nat \<times> u8 list) hardware" where
  "line = \<lparr>in8 = (\<lambda>p (n, l). if p = 0x3fd then (if n = 0 then 0x20 else 0, (n - 1, l)) else (0, (n, l))),
     in16 = (\<lambda>_ h. (0, h)), in32 = (\<lambda>_ h. (0, h)), out8 = (\<lambda>p c (n, l). if p = 0x3f8 then (2, l @ [c]) else (n, l)),
     out16 = (\<lambda>_ _ h. h), out32 = (\<lambda>_ _ h. h), load8 = (\<lambda>_ h. (0, h)), load16 = (\<lambda>_ h. (0, h)), load32 = (\<lambda>_ h. (0, h)),
     store8 = (\<lambda>_ _ h. h), store16 = (\<lambda>_ _ h. h), store32 = (\<lambda>_ _ h. h)\<rparr>"

lemma line_law: "uart_law line (\<lambda>(n, l). Some n) snd"
  by (auto simp: uart_law_def line_def bit_iff_odd drop_bit_eq_div split: nat.split)

theorem kprintf_correct_witness:
  "\<exists>h'. kprintf line [0x48, 0x69] (False, (1, [])) = Some (Ok (False, h')) \<and> snd h' = [0x48, 0x69]"
  using kprintf_correct [OF line_law, of "[0x48, 0x69]" "(1, [])"] by auto

end
