(* ===== verification/Services.thy ===== *)
theory Services
  imports Console Gp_Allocator Acpi VMem_Allocator
begin

text \<open>
  What the kernel offers to the libraries linked into it, and what it does on processor exceptions:
  the calls of the C library (\<open>sys/newlib.cpp\<close>), the operating-system layer of ACPICA (\<open>sys/acpi.cpp\<close>)
  and the exception handlers (\<open>sys/idt.cpp\<close>, reached from the stubs of \<open>sys/isr.S\<close>).
\<close>

subsection \<open>The C library\<close>

text \<open>The calls whose body is \<open>UNIMPLEMENTED()\<close>; their arguments do not matter.\<close>

datatype newlib_stub =
    Newlib_exit | Newlib_execve | Newlib_getpid | Newlib_fork | Newlib_kill | Newlib_wait | Newlib_isatty
  | Newlib_close | Newlib_link | Newlib_lseek | Newlib_open | Newlib_read | Newlib_fstat | Newlib_stat
  | Newlib_unlink | Newlib_write

datatype newlib_stub_late =
    Newlib_realloc | Newlib_calloc | Newlib_sbrk | Newlib_gettimeofday
  | Newlib_lock_init_recursive | Newlib_lock_close_recursive | Newlib_lock_acquire
  | Newlib_lock_try_acquire_recursive | Newlib_lock_acquire_recursive | Newlib_lock_release
  | Newlib_lock_release_recursive

datatype newlib_call =
    Newlib_malloc u64 | Newlib_free u64 | Newlib_memalign u64 u64
  | Newlib_stub newlib_stub | Newlib_stub_late newlib_stub_late

fun newlib_unimplemented :: "newlib_stub \<Rightarrow> 'a res" where
  "newlib_unimplemented _ = Fail Unimplemented"

fun newlib_unimplemented_late :: "newlib_stub_late \<Rightarrow> 'a res" where
  "newlib_unimplemented_late _ = Fail Unimplemented"

text \<open>The result is the pointer returned, 0 where there is none.\<close>

fun newlib :: "env \<Rightarrow> newlib_call \<Rightarrow> gp \<Rightarrow> (u64 \<times> gp) res option" where
  "newlib e (Newlib_malloc sz) g = newlib_malloc e sz g"
| "newlib e (Newlib_free p) g = Some (bind_res (gp_Free e p g) (\<lambda>g'. Ok (0, g')))"
| "newlib e (Newlib_memalign alignment sz) g = newlib_memalign e alignment sz g"
| "newlib e (Newlib_stub c) g = Some (newlib_unimplemented c)"
| "newlib e (Newlib_stub_late c) g = Some (newlib_unimplemented_late c)"

subsection \<open>The operating-system layer of ACPICA\<close>

datatype acpi_sync_service =
    Acpi_CreateLock | Acpi_DeleteLock | Acpi_AcquireLock | Acpi_ReleaseLock | Acpi_CreateSemaphore
  | Acpi_DeleteSemaphore | Acpi_WaitSemaphore | Acpi_SignalSemaphore | Acpi_Allocate | Acpi_Free

datatype acpi_exec_service =
    Acpi_GetPhysicalAddress | Acpi_InstallInterruptHandler | Acpi_RemoveInterruptHandler | Acpi_GetThreadId
  | Acpi_Execute | Acpi_WaitEventsComplete | Acpi_Sleep | Acpi_Stall

datatype acpi_io_service =
    Acpi_ReadPort | Acpi_WritePort | Acpi_ReadMemory | Acpi_WriteMemory | Acpi_ReadPciConfiguration
  | Acpi_WritePciConfiguration | Acpi_Readable | Acpi_Writable | Acpi_GetTimer | Acpi_Signal

datatype acpi_table_service =
    Acpi_RedirectOutput | Acpi_GetLine | Acpi_GetTableByName | Acpi_GetTableByIndex | Acpi_GetTableByAddress
  | Acpi_OpenDirectory | Acpi_GetNextFilename | Acpi_CloseDirectory | Acpi_AcquireGlobalLock | Acpi_ReleaseGlobalLock

fun acpi_sync :: "acpi_sync_service \<Rightarrow> 'a res" where "acpi_sync _ = Fail Unimplemented"
fun acpi_exec :: "acpi_exec_service \<Rightarrow> 'a res" where "acpi_exec _ = Fail Unimplemented"
fun acpi_io :: "acpi_io_service \<Rightarrow> 'a res" where "acpi_io _ = Fail Unimplemented"
fun acpi_table :: "acpi_table_service \<Rightarrow> 'a res" where "acpi_table _ = Fail Unimplemented"

text \<open>\<open>AE_OK\<close> and what the services that succeed store: no override of a name, of a table, or of a
  table's address and length.\<close>

definition AE_OK :: u32 where "AE_OK = 0"
definition AcpiOsInitialize :: u32 where "AcpiOsInitialize = AE_OK"
definition AcpiOsPredefinedOverride :: "u32 \<times> u64" where "AcpiOsPredefinedOverride = (AE_OK, 0)"
definition AcpiOsTableOverride :: "u32 \<times> u64" where "AcpiOsTableOverride = (AE_OK, 0)"
definition AcpiOsPhysicalTableOverride :: "u32 \<times> u64 \<times> u32" where "AcpiOsPhysicalTableOverride = (AE_OK, 0, 0)"

definition AcpiOsPrintf :: "'h hardware \<Rightarrow> u8 list \<Rightarrow> 'h console \<Rightarrow> 'h console res option" where
  "AcpiOsPrintf hw msg s = kvprintf hw msg s"

subsection \<open>Exceptions\<close>

record exception_frame =
  ef_fpu :: "u64 list"
  ef_empty :: u64
  ef_r15 :: u64
  ef_r14 :: u64
  ef_r13 :: u64
  ef_r12 :: u64
  ef_r11 :: u64
  ef_r10 :: u64
  ef_r9 :: u64
  ef_r8 :: u64
  ef_rbp :: u64
  ef_rdi :: u64
  ef_rsi :: u64
  ef_rdx :: u64
  ef_rcx :: u64
  ef_rbx :: u64
  ef_rax :: u64
  ef_error_code :: u64
  ef_rip :: u64
  ef_cs :: u64
  ef_rflags :: u64
  ef_rsp :: u64
  ef_ss :: u64

text \<open>The values each call of \<open>kprintf\<close> prints; \<open>fmt\<close> is \<open>vsnprintf\<close> with the line's format.\<close>

definition frame_lines :: "exception_frame \<Rightarrow> u64 list list" where
  "frame_lines ef = [[ef_ss ef, ef_rsp ef], [ef_rflags ef], [ef_cs ef, ef_rip ef], [ef_error_code ef],
     [ef_rax ef, ef_rbx ef], [ef_rcx ef, ef_rdx ef], [ef_rsi ef, ef_rdi ef], [ef_rbp ef, ef_r8 ef],
     [ef_r9 ef, ef_r10 ef], [ef_r11 ef, ef_r12 ef], [ef_r13 ef, ef_r14 ef], [ef_r15 ef]]"

definition print_exception_frame ::
    "'h hardware \<Rightarrow> (nat \<Rightarrow> u64 list \<Rightarrow> u8 list) \<Rightarrow> exception_frame \<Rightarrow> 'h console \<Rightarrow> 'h console res option" where
  "print_exception_frame hw fmt ef s = kprint_all hw (map (\<lambda>(i, vs). fmt i vs) (enumerate 0 (frame_lines ef))) s"

text \<open>\<open>UNHANDLED_INTERRUPT\<close> and \<open>nmi_interrupt\<close> print and stop.\<close>

definition unhandled_interrupt ::
    "'h hardware \<Rightarrow> (nat \<Rightarrow> u64 list \<Rightarrow> u8 list) \<Rightarrow> u8 list \<Rightarrow> exception_frame \<Rightarrow> 'h console \<Rightarrow> ('h console \<times> fault) option" where
  "unhandled_interrupt hw fmt name ef s =
     Option.bind (kprintf hw name s) (\<lambda>r. case r of
       Fail e \<Rightarrow> Some (s, e)
     | Ok s1 \<Rightarrow> Option.bind (print_exception_frame hw fmt ef s1) (\<lambda>r. case r of
         Fail e \<Rightarrow> Some (s1, e)
       | Ok s2 \<Rightarrow> kabort hw [] s2))"

definition nmi_interrupt :: "'h hardware \<Rightarrow> 'h console \<Rightarrow> ('h console \<times> fault) option" where
  "nmi_interrupt hw s = kabort hw [] s"

text \<open>The handler of a vector: a page fault goes to the handler of its region, with \<open>bug\<close> the
  message when there is none; everything else stops.\<close>

datatype ('h, 'f) exception_result = Handled_By 'f | Stopped "'h console" fault | Silent

definition stop_with :: "('h console \<times> fault) option \<Rightarrow> ('h, 'f) exception_result" where
  "stop_with r = (case r of None \<Rightarrow> Silent | Some (s, e) \<Rightarrow> Stopped s e)"

definition page_fault_exception ::
    "'h hardware \<Rightarrow> u8 list \<Rightarrow> u64 \<Rightarrow> 'f regions \<Rightarrow> 'h console \<Rightarrow> ('h, 'f) exception_result" where
  "page_fault_exception hw bug fault_addr rs s =
     (case handle_page_fault fault_addr rs of
        Ok handler \<Rightarrow> Handled_By handler
      | Fail e \<Rightarrow> stop_with (kabort hw [bug] s))"

definition exception ::
    "'h hardware \<Rightarrow> (nat \<Rightarrow> u64 list \<Rightarrow> u8 list) \<Rightarrow> (nat \<Rightarrow> u8 list) \<Rightarrow> u8 list \<Rightarrow> nat \<Rightarrow> exception_frame \<Rightarrow> u64
     \<Rightarrow> 'f regions \<Rightarrow> 'h console \<Rightarrow> ('h, 'f) exception_result" where
  "exception hw fmt name bug vector ef cr2 rs s =
     (if vector = 2 then stop_with (nmi_interrupt hw s)
      else if vector = 14 then page_fault_exception hw bug cr2 rs s
      else stop_with (unhandled_interrupt hw fmt (name vector) ef s))"

subsection \<open>Printing several messages\<close>

definition visible :: "u8 list \<Rightarrow> u8 list" where "visible msg = takeWhile (\<lambda>c. c \<noteq> 0) msg"

lemma kprint_all_sends:
  assumes "uart_law hw polls sent" and "\<forall>h. polls h \<noteq> None"
  shows "\<exists>h'. kprint_all hw ms (False, h) = Some (Ok (False, h')) \<and> sent h' = sent h @ concat (map visible ms)"
proof (induction ms arbitrary: h)
  case (Cons m ms)
  obtain h1 where 1: "kprintf hw m (False, h) = Some (Ok (False, h1))" "sent h1 = sent h @ visible m"
    using kprintf_sends [OF assms] unfolding visible_def by blast
  obtain h' where "kprint_all hw ms (False, h1) = Some (Ok (False, h'))" "sent h' = sent h1 @ concat (map visible ms)"
    using Cons.IH by blast
  then show ?case using 1 by simp
qed simp

lemma kabort_sends:
  assumes "uart_law hw polls sent" and "\<forall>h. polls h \<noteq> None"
  shows "\<exists>h'. kabort hw ms (False, h) = Some ((False, h'), Aborted) \<and> sent h' = sent h @ concat (map visible ms) @ aborting"
proof -
  have "visible aborting = aborting" by (simp add: visible_def aborting_def)
  then show ?thesis using kprint_all_sends [OF assms, of "ms @ [aborting]" h] by (auto simp: kabort_def)
qed

lemma kabort_busy: "kabort hw ms (True, h) = None"
  by (cases ms) (simp_all add: kabort_def kprintf_busy)

text \<open>What an exception without a handler leaves on the line: for the non-maskable interrupt only the
  last message; for a page fault the message of the missing region and the last message; for every
  other one the name, the registers in twelve messages and the last message.\<close>

definition last_words :: "(nat \<Rightarrow> u64 list \<Rightarrow> u8 list) \<Rightarrow> (nat \<Rightarrow> u8 list) \<Rightarrow> u8 list \<Rightarrow> nat \<Rightarrow> exception_frame \<Rightarrow> u8 list" where
  "last_words fmt name bug vector ef =
     (if vector = 2 then []
      else if vector = 14 then visible bug
      else visible (name vector)
        @ visible (fmt 0 [ef_ss ef, ef_rsp ef]) @ visible (fmt 1 [ef_rflags ef])
        @ visible (fmt 2 [ef_cs ef, ef_rip ef]) @ visible (fmt 3 [ef_error_code ef])
        @ visible (fmt 4 [ef_rax ef, ef_rbx ef]) @ visible (fmt 5 [ef_rcx ef, ef_rdx ef])
        @ visible (fmt 6 [ef_rsi ef, ef_rdi ef]) @ visible (fmt 7 [ef_rbp ef, ef_r8 ef])
        @ visible (fmt 8 [ef_r9 ef, ef_r10 ef]) @ visible (fmt 9 [ef_r11 ef, ef_r12 ef])
        @ visible (fmt 10 [ef_r13 ef, ef_r14 ef]) @ visible (fmt 11 [ef_r15 ef])) @ aborting"

lemma last_words_printed:
  "last_words fmt name bug vector ef =
     (if vector = 2 then [] else if vector = 14 then visible bug
      else visible (name vector) @ concat (map visible (map (\<lambda>(i, vs). fmt i vs) (enumerate 0 (frame_lines ef))))) @ aborting"
  by (simp add: last_words_def frame_lines_def eval_nat_numeral)

lemma exception_stops:
  fixes busy :: bool
  assumes "uart_law hw polls sent" and "\<forall>h. polls h \<noteq> None"
    and no: "\<not> (vector = 14 \<and> (\<exists>f. handle_page_fault cr2 rs = Ok f))"
  shows "if busy then exception hw fmt name bug vector ef cr2 rs (busy, h) = Silent
    else \<exists>h'. exception hw fmt name bug vector ef cr2 rs (busy, h) = Stopped (False, h') Aborted
           \<and> sent h' = sent h @ last_words fmt name bug vector ef"
proof -
  let ?ms = "map (\<lambda>(i, vs). fmt i vs) (enumerate 0 (frame_lines ef))"
  show ?thesis
  proof (cases busy)
    case True
    have "unhandled_interrupt hw fmt (name vector) ef (True, h) = None"
      by (simp add: unhandled_interrupt_def kprintf_busy)
    then show ?thesis using no True kabort_busy [of hw]
      by (auto simp: exception_def page_fault_exception_def nmi_interrupt_def stop_with_def split: res.splits)
  next
    case False
    obtain h1 where k: "kabort hw [] (False, h) = Some ((False, h1), Aborted)" "sent h1 = sent h @ aborting"
      using kabort_sends [OF assms(1,2), of "[]" h] by auto
    obtain h2 where b: "kabort hw [bug] (False, h) = Some ((False, h2), Aborted)" "sent h2 = sent h @ visible bug @ aborting"
      using kabort_sends [OF assms(1,2), of "[bug]" h] by auto
    obtain h3 where n: "kprintf hw (name vector) (False, h) = Some (Ok (False, h3))" "sent h3 = sent h @ visible (name vector)"
      using kprintf_sends [OF assms(1,2)] unfolding visible_def by blast
    obtain h4 where p: "kprint_all hw ?ms (False, h3) = Some (Ok (False, h4))" "sent h4 = sent h3 @ concat (map visible ?ms)"
      using kprint_all_sends [OF assms(1,2)] by blast
    obtain h5 where a: "kabort hw [] (False, h4) = Some ((False, h5), Aborted)" "sent h5 = sent h4 @ aborting"
      using kabort_sends [OF assms(1,2), of "[]" h4] by auto
    have "unhandled_interrupt hw fmt (name vector) ef (False, h) = Some ((False, h5), Aborted)
        \<and> sent h5 = sent h @ visible (name vector) @ concat (map visible ?ms) @ aborting"
      using n p a by (simp add: unhandled_interrupt_def print_exception_frame_def)
    then show ?thesis using no False k b
      by (auto simp: exception_def page_fault_exception_def nmi_interrupt_def stop_with_def last_words_printed split: res.splits)
  qed
qed

text \<open>C35: The kernel goes on after an exception only when it is a page fault in a region that has a handler.
  Otherwise it stops, and the serial line has got exactly this: for the non-maskable interrupt the last
  message alone, for a page fault without a handler the message that there is no region and the last
  message, and for every other exception its name, the saved registers in the order
  \<open>print_exception_frame\<close> has them, and the last message.  When the console is locked, as when the
  processor was printing, the handler spins on the lock and nothing appears.\<close>

theorem exception_correct:
  assumes "uart_law hw polls sent" and "\<forall>h. polls h \<noteq> None"
  shows "if vector = 14 \<and> (\<exists>f. handle_page_fault cr2 rs = Ok f)
    then \<exists>f. handle_page_fault cr2 rs = Ok f \<and> exception hw fmt name bug vector ef cr2 rs (busy, h) = Handled_By f
    else if busy then exception hw fmt name bug vector ef cr2 rs (busy, h) = Silent
    else \<exists>h'. exception hw fmt name bug vector ef cr2 rs (busy, h) = Stopped (False, h') Aborted
           \<and> sent h' = sent h @ last_words fmt name bug vector ef"
proof (cases "vector = 14 \<and> (\<exists>f. handle_page_fault cr2 rs = Ok f)")
  case True
  then show ?thesis by (auto simp: exception_def page_fault_exception_def)
next
  case False
  show ?thesis unfolding if_not_P [OF False] by (rule exception_stops [OF assms False])
qed

text \<open>A breakpoint on the line of \<open>Console\<close>.\<close>

definition frame0 :: exception_frame where
  "frame0 = \<lparr>ef_fpu = replicate 64 0, ef_empty = 0, ef_r15 = 0, ef_r14 = 0, ef_r13 = 0, ef_r12 = 0, ef_r11 = 0, ef_r10 = 0,
     ef_r9 = 0, ef_r8 = 0, ef_rbp = 0, ef_rdi = 0, ef_rsi = 0, ef_rdx = 0, ef_rcx = 0, ef_rbx = 0, ef_rax = 0,
     ef_error_code = 0, ef_rip = 0x100000, ef_cs = 8, ef_rflags = 2, ef_rsp = 0x200000, ef_ss = 0\<rparr>"

theorem exception_correct_witness:
  "\<exists>h'. exception line (\<lambda>i vs. [0x23]) (\<lambda>v. [0x62, 0x70]) [0x21] 3 frame0 0 ([] :: unit regions) (False, (1, [])) = Stopped (False, h') Aborted
    \<and> snd h' = [0x62, 0x70] @ replicate 12 0x23 @ aborting"
proof -
  have "last_words (\<lambda>i vs. [0x23]) (\<lambda>v. [0x62, 0x70]) [0x21] 3 frame0 = [0x62, 0x70] @ replicate 12 0x23 @ aborting"
    by code_simp
  then show ?thesis
    using exception_correct [where hw = line and fmt = "\<lambda>i vs. [0x23]" and name = "\<lambda>v. [0x62, 0x70]" and bug = "[0x21]"
        and vector = 3 and ef = frame0 and ?cr2.0 = 0 and rs = "[] :: unit regions" and busy = False and h = "(1, [])", OF line_law]
    by auto
qed

end
