(* ===== verification/Malloc_Heap.thy ===== *)
theory Malloc_Heap
  imports Gp_Allocator
begin

text \<open>
  The kernel's heap as a whole: the 23 size classes of \<open>general_purpose_allocator\<close> over one page
  allocator.  What a class does to its own slabs leaves the other classes alone, so that blocks
  handed out by \<open>malloc\<close> and \<open>memalign\<close> do not overlap, whatever their sizes and whichever
  processors of the node ask for them, as long as the frees between them stay home: no slab goes back to the
  page allocator and no object to a remote list.
\<close>

subsection \<open>What an operation leaves alone\<close>

lemma alloc_from_partial_frame:
  assumes "alloc_from_partial r c s = Ok (x, s')"
  shows "slab_number s' = slab_number s" and "\<And>d. remote_check (caches s' d) = remote_check (caches s d)"
    and "\<And>q. q \<notin> set (partial_page_list (caches s c)) \<Longrightarrow> slab_pages s' q = slab_pages s q"
    and "\<And>q. sd_root (slab_pages s' q) = sd_root (slab_pages s q)"
    and "\<And>d. d \<noteq> c \<Longrightarrow> caches s' d = caches s d"
  using assms by (auto simp: alloc_from_partial_def Let_def res_Ok_iff split: list.splits if_splits)

lemma add_objects_frame:
  assumes "add_objects r c p n addr s = Ok s'"
  defines "touched \<equiv> (\<lambda>j. pfn_down (addr + of_nat j * sr_size r)) ` {..<n}"
  shows "frames s' = frames s \<and> caches s' = caches s \<and> slab_number s' = slab_number s
    \<and> (\<forall>q. q \<noteq> p \<and> q \<notin> touched \<longrightarrow> slab_pages s' q = slab_pages s q)
    \<and> (\<forall>q. sd_root (slab_pages s' q) = (if q \<in> touched then slab_number s else sd_root (slab_pages s q)))"
  using assms(1) unfolding touched_def
proof (induction n arbitrary: addr s)
  case (Suc n)
  let ?s1 = "set_data p ((slab_pages s p)\<lparr>sd_list := addr # sd_list (slab_pages s p)\<rparr>) s"
  let ?s2 = "set_data (pfn_down addr) ((slab_pages ?s1 (pfn_down addr))\<lparr>sd_cache := Some c, sd_root := slab_number s\<rparr>) ?s1"
  let ?T = "(\<lambda>j. pfn_down (addr + sr_size r + of_nat j * sr_size r)) ` {..<n}"
  have a: "add_objects r c p n (addr + sr_size r) ?s2 = Ok s'"
    using Suc.prems by (auto simp: require_page_def Let_def res_Ok_iff)
  have T: "(\<lambda>j. pfn_down (addr + of_nat j * sr_size r)) ` {..<Suc n} = insert (pfn_down addr) ?T"
    unfolding lessThan_Suc_eq_insert_0 image_insert image_image by (simp add: algebra_simps)
  show ?case unfolding T using Suc.IH [OF a] by (auto split: if_splits)
qed simp

lemma add_slab_frame:
  assumes "AddSlab r c p s = Ok s'"
  obtains m where "page_map (frames s) p = Some m"
    "frames s' = (frames s)\<lparr>page_map := (page_map (frames s))(p \<mapsto> m\<lparr>pg_usage := SLAB_ALLOCATOR\<rparr>)\<rparr>"
    "slab_number s' = slab_number s" "\<And>d. remote_check (caches s' d) = remote_check (caches s d)"
    "\<And>q. q \<noteq> p \<Longrightarrow> q \<notin> pfn_down ` objects r p \<Longrightarrow> slab_pages s' q = slab_pages s q"
    "\<And>q. sd_root (slab_pages s' q) = (if q \<in> pfn_down ` objects r p then slab_number s else sd_root (slab_pages s q))"
    "\<And>d. d \<noteq> c \<Longrightarrow> caches s' d = caches s d"
proof -
  obtain m where m: "page_at (page_map (frames s)) p = Ok (Some m)"
    using assms by (auto simp: AddSlab_def res_Ok_iff split: option.splits)
  then have pm: "page_map (frames s) p = Some m" by (auto simp: page_at_def res_Ok_iff)
  let ?s2 = "set_data p ((slab_pages s p)\<lparr>sd_list := [], sd_used := 0\<rparr>)
    (s\<lparr>frames := (frames s)\<lparr>page_map := (page_map (frames s))(p \<mapsto> m\<lparr>pg_usage := SLAB_ALLOCATOR\<rparr>)\<rparr>\<rparr>)"
  obtain s3 where s3: "add_objects r c p (num_objects r) (pfn_to_addr p) ?s2 = Ok s3" and push: "push_partial p c s3 = Ok s'"
    using assms m by (auto simp: AddSlab_def res_Ok_iff Let_def num_objects_def)
  have T: "(\<lambda>j. pfn_down (pfn_to_addr p + of_nat j * sr_size r)) ` {..<num_objects r} = pfn_down ` objects r p"
    by (simp add: objects_def object_def image_image)
  have s': "s' = set_cache c ((caches s3 c)\<lparr>partial_page_list := p # partial_page_list (caches s3 c)\<rparr>) s3"
    using push by (auto simp: push_partial_def res_Ok_iff)
  note f = add_objects_frame [OF s3, unfolded T]
  show thesis by (rule that [OF pm]) (use f in \<open>auto simp: s'\<close>)
qed

text \<open>The state of a class, seen from another one: it only reads the page data of its own slabs.\<close>

lemma foreign_data:
  assumes inv: "slab_inv r S loc s" and f: "same_pages (frames s) f"
    and d: "\<And>p q. p \<in> dom S \<Longrightarrow> unat q \<in> block (p, sr_order r) \<Longrightarrow> data q = slab_pages s q"
  shows "slab_inv r S loc (s\<lparr>slab_pages := data, frames := f\<rparr>)" (is "slab_inv r S loc ?s")
proof -
  have head: "data p = slab_pages s p" if "p \<in> dom S" for p using d [OF that head_in_block] .
  have obj: "data (pfn_down x) = slab_pages s (pfn_down x)" if "p \<in> dom S" "x \<in> objects r p" for p x
  proof -
    have "slab_at r p" using inv that(1) by (auto simp: slab_inv_def slabs_ok_def)
    from object_frame(1) [OF _ this that(2)] show ?thesis using inv d [OF that(1)] by (simp add: slab_inv_def)
  qed
  have own: "sd_cache (data (pfn_down x)) = Some c" if "S p = Some c" "x \<in> objects r p" for p c x
    using obj [of p x] domI [of S p c] inv that by (auto simp: slab_inv_def slabs_ok_def)
  have "slabs_ok r S ?s"
    using inv f head own unfolding slab_inv_def slabs_ok_def same_pages_def by (auto simp: domI)
  moreover have "lists_ok loc S ?s" using inv head by (simp add: slab_inv_def lists_ok_def outgoing_def)
  moreover have "partial_ok r S ?s"
  proof -
    have "S p = Some c \<and> sd_list (data p) \<noteq> [] \<longleftrightarrow> S p = Some c \<and> sd_list (slab_pages s p) \<noteq> []" for p c
      using head by (auto simp: domI)
    then show ?thesis using inv by (simp add: slab_inv_def partial_ok_def)
  qed
  moreover have "outgoing_ok r S loc ?s" using inv by (simp add: slab_inv_def outgoing_ok_def outgoing_cache_def)
  ultimately show ?thesis using inv by (simp add: slab_inv_def)
qed

text \<open>Marking the head of a block held by a client keeps the buddy allocator well formed.\<close>

lemma mark_held:
  assumes inv: "buddy_inv X A (fl, pages)" and b: "(p, k) \<in> A" and m: "pages p = Some m"
  shows "buddy_inv X A (fl, pages(p \<mapsto> m\<lparr>pg_usage := SLAB_ALLOCATOR\<rparr>))"
proof -
  have "(p, j) \<notin> free_blocks fl" for j
    using inv_head_free [of X p k A fl pages j] inv b by (simp add: insert_absorb)
  then show ?thesis using inv_mono [OF inv_mark [OF inv m], of "m\<lparr>pg_usage := SLAB_ALLOCATOR\<rparr>" X] by auto
qed

subsection \<open>Allocation from one class\<close>

text \<open>No cache of the class has had its remote list reach the watermark.\<close>

definition calm :: "slab \<Rightarrow> bool" where "calm s \<longleftrightarrow> (\<forall>c. \<not> remote_check (caches s c))"

text \<open>The pages of the class's objects point to its root.\<close>

definition owned :: "slab_root \<Rightarrow> (pfn \<Rightarrow> cache_id option) \<Rightarrow> slab \<Rightarrow> bool" where
  "owned r S s \<longleftrightarrow> (\<forall>p\<in>dom S. \<forall>x\<in>objects r p. sd_root (slab_pages s (pfn_down x)) = slab_number s)"

text \<open>One class over a node's page allocator, some of whose blocks \<open>A\<close> are its slabs.\<close>

definition class_inv :: "pfn set \<Rightarrow> slab_root \<Rightarrow> (pfn \<Rightarrow> cache_id option) \<Rightarrow> (u64 \<Rightarrow> place option) \<Rightarrow> blk set \<Rightarrow> nid \<Rightarrow> slab \<Rightarrow> bool" where
  "class_inv X r S loc A n s \<longleftrightarrow> slab_inv r S loc s \<and> frames_ok X r S A n (frames s) \<and> owned r S s \<and> calm s"

text \<open>At most one slab is taken from the free frames.\<close>

definition takes_block :: "slab_root \<Rightarrow> nid \<Rightarrow> page_allocators \<Rightarrow> page_allocators \<Rightarrow> bool" where
  "takes_block r n f f' \<longleftrightarrow> (\<exists>p. free_frames (allocators f ! nat n) - block (p, sr_order r) \<subseteq> free_frames (allocators f' ! nat n))"

text \<open>The frames that the node's allocator holds or has given to clients.\<close>

definition region :: "blk set \<Rightarrow> nid \<Rightarrow> page_allocators \<Rightarrow> nat set" where
  "region A n f = (\<Union>b\<in>A. block b) \<union> free_frames (allocators f ! nat n)"

lemma takes_block_refl [simp]: "takes_block r n f f"
  by (auto simp: takes_block_def)

text \<open>What an operation through the cache \<open>c\<close> may change: it may add slabs made of blocks that were free,
  and page data of the class's own slabs.\<close>

definition extends :: "pfn set \<Rightarrow> slab_root \<Rightarrow> cache_id \<Rightarrow> (pfn \<Rightarrow> cache_id option) \<Rightarrow> blk set \<Rightarrow> nid \<Rightarrow> slab \<Rightarrow> slab
    \<Rightarrow> (pfn \<Rightarrow> cache_id option) \<Rightarrow> (u64 \<Rightarrow> place option) \<Rightarrow> blk set \<Rightarrow> bool" where
  "extends X r c S A n s s' S' loc' A' \<longleftrightarrow>
     class_inv X r S' loc' A' n s' \<and> dom (cpu_allocators s') = dom (cpu_allocators s) \<and> slab_number s' = slab_number s
     \<and> (\<forall>d. d \<noteq> c \<longrightarrow> caches s' d = caches s d)
     \<and> same_pages (frames s) (frames s') \<and> A \<subseteq> A' \<and> dom S \<subseteq> dom S' \<and> (\<forall>p\<in>dom S' - dom S. (p, sr_order r) \<notin> A)
     \<and> takes_block r n (frames s) (frames s') \<and> region A' n (frames s') \<subseteq> region A n (frames s)
     \<and> (\<forall>q. (\<forall>p\<in>dom S'. unat q \<notin> block (p, sr_order r)) \<longrightarrow> slab_pages s' q = slab_pages s q)"

definition gives :: "pfn set \<Rightarrow> slab_root \<Rightarrow> cache_id \<Rightarrow> (pfn \<Rightarrow> cache_id option) \<Rightarrow> (u64 \<Rightarrow> place option) \<Rightarrow> blk set \<Rightarrow> nid \<Rightarrow> slab
    \<Rightarrow> u64 \<Rightarrow> slab \<Rightarrow> (pfn \<Rightarrow> cache_id option) \<Rightarrow> (u64 \<Rightarrow> place option) \<Rightarrow> blk set \<Rightarrow> bool" where
  "gives X r c S loc A n s x s' S' loc' A' \<longleftrightarrow> extends X r c S A n s s' S' loc' A'
     \<and> x \<noteq> 0 \<and> x \<notin> clients loc \<and> clients loc' = insert x (clients loc)"

lemma frames_okD:
  assumes "frames_ok X r S A n fs"
  shows "0 \<le> n" and "nat n < length (allocators fs)" and "buddy_inv X A (allocators fs ! nat n, page_map fs)"
    and "p \<in> dom S \<Longrightarrow> (p, sr_order r) \<in> A" and "0 \<notin> dom S" and "0 \<notin> free_frames (allocators fs ! nat n)"
  using assms by (auto simp: frames_ok_def)

lemma class_pop:
  assumes c: "class_inv X r S loc A n s" and l: "object_list (caches s c) \<noteq> [] \<or> partial_page_list (caches s c) \<noteq> []"
  shows "\<exists>x s' loc'. SlabCache_Alloc e r c s = Some (Ok (x, s')) \<and> gives X r c S loc A n s x s' S loc' A
    \<and> frames s' = frames s"
proof -
  have inv: "slab_inv r S loc s" and fr: "frames_ok X r S A n (frames s)" and ow: "owned r S s" and ca: "calm s"
    using c by (simp_all add: class_inv_def)
  have given: "gives X r c S loc A n s x s' S loc' A"
    if "slab_inv r S loc' s'" "x \<notin> clients loc" "clients loc' = insert x (clients loc)" "cpu_allocators s' = cpu_allocators s"
      "slab_number s' = slab_number s" "frames s' = frames s" "\<And>d. remote_check (caches s' d) = remote_check (caches s d)"
      "\<And>q. sd_root (slab_pages s' q) = sd_root (slab_pages s q)" "\<And>d. d \<noteq> c \<Longrightarrow> caches s' d = caches s d"
      "\<And>q. (\<forall>p\<in>dom S. unat q \<notin> block (p, sr_order r)) \<Longrightarrow> slab_pages s' q = slab_pages s q" for x s' loc'
  proof -
    have "loc' x \<noteq> None" using that(3) by (auto simp: clients_def)
    then have "x \<noteq> 0" using object_nonzero [OF that(1) frames_okD(5) [OF fr]] by blast
    moreover have "class_inv X r S loc' A n s'" using that fr ow ca by (simp add: class_inv_def owned_def calm_def)
    ultimately show ?thesis using that by (simp add: gives_def extends_def same_pages_def)
  qed
  have move: "x \<notin> clients loc \<and> clients (loc(x \<mapsto> With_Client)) = insert x (clients loc)"
    if "loc x \<noteq> Some With_Client" for x using that by (auto simp: clients_def)
  show ?thesis
  proof (cases "object_list (caches s c)")
    case (Cons x xs)
    let ?s = "set_cache c ((caches s c)\<lparr>object_list := xs\<rparr>) s"
    note pop = pop_object [OF inv Cons]
    have "gives X r c S loc A n s x ?s S (loc(x \<mapsto> With_Client)) A"
      using pop(1) move [of x] by (intro given [OF pop(2)]) auto
    moreover have "SlabCache_Alloc e r c s = Some (Ok (x, ?s))" by (subst SlabCache_Alloc.simps) (simp add: Cons)
    ultimately show ?thesis using set_cache_sel(4) by blast
  next
    case Nil
    have ne: "partial_page_list (caches s c) \<noteq> []" using l Nil by simp
    then obtain x s' where a: "alloc_from_partial r c s = Ok (x, s')" "loc x \<noteq> Some With_Client"
      "slab_inv r S (loc(x \<mapsto> With_Client)) s'" "cpu_allocators s' = cpu_allocators s" "frames s' = frames s"
      using take_from_slab [OF inv, of c] by blast
    note f = alloc_from_partial_frame [OF a(1)]
    have "q \<notin> set (partial_page_list (caches s c))" if q: "\<forall>p\<in>dom S. unat q \<notin> block (p, sr_order r)" for q
    proof
      assume "q \<in> set (partial_page_list (caches s c))"
      then have "q \<in> dom S" using partial_list(2) [OF inv, of c] by auto
      then show False using q head_in_block [of q "sr_order r"] by blast
    qed
    then have "gives X r c S loc A n s x s' S (loc(x \<mapsto> With_Client)) A"
      using a f move [of x] by (intro given [OF a(3)]) auto
    moreover have "SlabCache_Alloc e r c s = Some (Ok (x, s'))"
      using ca Nil a(1) by (subst SlabCache_Alloc.simps) (simp add: calm_def)
    ultimately show ?thesis using a(5) by blast
  qed
qed

lemma page_grow:
  assumes inv: "slab_inv r S loc s" and fr: "frames_ok X r S A n (frames s)"
  shows "(Alloc (sr_order r) n (frames s) = Ok (NO_PFN, frames s)
        \<and> (\<forall>k. sr_order r \<le> k \<and> k \<le> MAX_ORDER \<longrightarrow> (allocators (frames s) ! nat n) k = []))
    \<or> (\<exists>p f. Alloc (sr_order r) n (frames s) = Ok (p, f) \<and> p \<noteq> NO_PFN \<and> p \<noteq> 0 \<and> slab_inv r S loc (s\<lparr>frames := f\<rparr>)
        \<and> slab_at r p \<and> (\<forall>q. unat q \<in> block (p, sr_order r) \<longrightarrow> page_map f q \<noteq> None)
        \<and> (\<forall>q\<in>dom S. block (p, sr_order r) \<inter> block (q, sr_order r) = {})
        \<and> (p, sr_order r) \<notin> A \<and> frames_ok X r S (insert (p, sr_order r) A) n f \<and> same_pages (frames s) f
        \<and> takes_block r n (frames s) f \<and> region (insert (p, sr_order r) A) n f \<subseteq> region A n (frames s))"
proof (rule disjE [OF page_alloc [OF inv fr]]; (elim exE conjE)?)
  fix p f assume p: "Alloc (sr_order r) n (frames s) = Ok (p, f)" "p \<noteq> NO_PFN" "p \<noteq> 0" "slab_inv r S loc (s\<lparr>frames := f\<rparr>)"
    "slab_at r p" "\<forall>q. unat q \<in> block (p, sr_order r) \<longrightarrow> page_map f q \<noteq> None"
    "\<forall>q\<in>dom S. block (p, sr_order r) \<inter> block (q, sr_order r) = {}"
  let ?fl = "allocators (frames s) ! nat n"
  note d = frames_okD [OF fr]
  obtain b where b: "AllocLocal (sr_order r) (?fl, page_map (frames s)) = Ok (p, b)"
    and f: "f = \<lparr>allocators = (allocators (frames s))[nat n := fst b], page_map = snd b\<rparr>"
    using p(1) d(1,2) by (auto simp: Alloc_def on_allocator_def res_Ok_iff split: if_splits)
  from AllocLocal_ok [OF d(3), of "sr_order r"] b p(2)
  have new: "(p, sr_order r) \<notin> A" "buddy_inv X (insert (p, sr_order r) A) b" "block (p, sr_order r) \<subseteq> free_frames ?fl"
    "free_frames (fst b) = free_frames ?fl - block (p, sr_order r)" by auto
  have "frames_ok X r S (insert (p, sr_order r) A) n f"
    using d new(2,4) by (auto simp: frames_ok_def f)
  moreover have "same_pages (frames s) f" using AllocLocal_present [OF b] by (simp add: same_pages_def f)
  moreover have "takes_block r n (frames s) f"
    unfolding takes_block_def using new(4) d(2) by (intro exI [of _ p]) (simp add: f)
  moreover have "region (insert (p, sr_order r) A) n f \<subseteq> region A n (frames s)"
    using new(3,4) d(2) by (auto simp: region_def f)
  ultimately show ?thesis using p new(1) by (intro disjI2 exI [of _ p] exI [of _ f]) simp
qed simp

lemma class_alloc:
  assumes c: "class_inv X r S loc A n s"
  shows "(alloc_or_grow e r c n s = Some (Ok (0, s)) \<and> object_list (caches s c) = [] \<and> partial_page_list (caches s c) = []
        \<and> (\<forall>k. sr_order r \<le> k \<and> k \<le> MAX_ORDER \<longrightarrow> (allocators (frames s) ! nat n) k = []))
    \<or> (\<exists>x s' S' loc' A'. alloc_or_grow e r c n s = Some (Ok (x, s')) \<and> gives X r c S loc A n s x s' S' loc' A')"
proof (cases "object_list (caches s c) \<noteq> [] \<or> partial_page_list (caches s c) \<noteq> []")
  case True
  from class_pop [OF c True, of e] obtain x s' loc' where a: "SlabCache_Alloc e r c s = Some (Ok (x, s'))"
    "gives X r c S loc A n s x s' S loc' A" by blast
  then have "alloc_or_grow e r c n s = Some (Ok (x, s'))" by (simp add: alloc_or_grow_def gives_def extends_def)
  then show ?thesis using a(2) by blast
next
  case False
  have inv: "slab_inv r S loc s" and fr: "frames_ok X r S A n (frames s)" and ow: "owned r S s" and ca: "calm s"
    using c by (simp_all add: class_inv_def)
  have none: "SlabCache_Alloc e r c s = Some (Ok (0, s))"
    using False ca by (subst SlabCache_Alloc.simps) (simp add: calm_def alloc_from_partial_def Let_def)
  from page_grow [OF inv fr] show ?thesis
  proof (elim disjE exE conjE)
    assume "Alloc (sr_order r) n (frames s) = Ok (NO_PFN, frames s)"
      "\<forall>k. sr_order r \<le> k \<and> k \<le> MAX_ORDER \<longrightarrow> (allocators (frames s) ! nat n) k = []"
    then show ?thesis using none False by (simp add: alloc_or_grow_def)
  next
    fix p f assume p: "Alloc (sr_order r) n (frames s) = Ok (p, f)" "p \<noteq> NO_PFN" "p \<noteq> 0" "slab_inv r S loc (s\<lparr>frames := f\<rparr>)"
      "slab_at r p" "\<forall>q. unat q \<in> block (p, sr_order r) \<longrightarrow> page_map f q \<noteq> None"
      "\<forall>q\<in>dom S. block (p, sr_order r) \<inter> block (q, sr_order r) = {}"
      "(p, sr_order r) \<notin> A" "frames_ok X r S (insert (p, sr_order r) A) n f" "same_pages (frames s) f" "takes_block r n (frames s) f"
      "region (insert (p, sr_order r) A) n f \<subseteq> region A n (frames s)"
    let ?S = "S(p \<mapsto> c)" and ?A = "insert (p, sr_order r) A" and ?s = "s\<lparr>frames := f\<rparr>"
    let ?loc = "\<lambda>x. if x \<in> objects r p then Some (In_Slab p) else loc x"
    obtain s3 where s3: "AddSlab r c p ?s = Ok s3" "slab_inv r ?S ?loc s3"
      "object_list (caches s3 c) = []" "partial_page_list (caches s3 c) \<noteq> []" "cpu_allocators s3 = cpu_allocators s"
      using add_slab_ok [OF p(4,5), of c] p(6,7) False by auto
    have root: "root_ok r" using inv by (simp add: slab_inv_def)
    obtain m where m: "page_map f p = Some m"
      "frames s3 = f\<lparr>page_map := (page_map f)(p \<mapsto> m\<lparr>pg_usage := SLAB_ALLOCATOR\<rparr>)\<rparr>"
      "slab_number s3 = slab_number s" "\<And>d. remote_check (caches s3 d) = remote_check (caches s d)"
      "\<And>q. q \<noteq> p \<Longrightarrow> q \<notin> pfn_down ` objects r p \<Longrightarrow> slab_pages s3 q = slab_pages s q"
      "\<And>q. sd_root (slab_pages s3 q) = (if q \<in> pfn_down ` objects r p then slab_number s else sd_root (slab_pages s q))"
      "\<And>d. d \<noteq> c \<Longrightarrow> caches s3 d = caches s d"
      by (rule add_slab_frame [OF s3(1)]) simp
    have sub: "unat q \<in> block (p, sr_order r)" if "q = p \<or> q \<in> pfn_down ` objects r p" for q
      using that object_frame(1) [OF root p(5)] by auto
    have "frames_ok X r ?S ?A n (frames s3)"
    proof -
      note d = frames_okD [OF p(9)]
      have "buddy_inv X ?A (allocators f ! nat n, (page_map f)(p \<mapsto> m\<lparr>pg_usage := SLAB_ALLOCATOR\<rparr>))"
        by (rule mark_held [OF d(3) insertI1 m(1)])
      then show ?thesis using d p(3) by (auto simp: frames_ok_def m(2))
    qed
    moreover have "owned r ?S s3" using ow by (auto simp: owned_def m(3,6))
    moreover have "calm s3" using ca by (simp add: calm_def m(4))
    ultimately have "class_inv X r ?S ?loc ?A n s3" using s3(2) by (simp add: class_inv_def)
    from class_pop [OF this, of c e] s3(4) obtain x s4 loc4 where x: "SlabCache_Alloc e r c s3 = Some (Ok (x, s4))"
      "gives X r c ?S ?loc ?A n s3 x s4 ?S loc4 ?A" "frames s4 = frames s3" by auto
    have "y \<notin> objects r p" if ly: "loc y \<noteq> None" for y
    proof
      assume y: "y \<in> objects r p"
      obtain q d where "S q = Some d" "y \<in> objects r q" "slab_at r q" by (rule object_owner [OF inv ly])
      moreover from this have "q = p" using objects_of_slabs [OF root _ p(5) _ y] by blast
      ultimately show False using p(7) head_in_block [of p "sr_order r"] by blast
    qed
    then have cl: "clients ?loc = clients loc" by (auto simp: clients_def)
    have "page_map (frames s) p \<noteq> None" using p(10) m(1) unfolding same_pages_def by (metis option.distinct(1))
    then have same: "same_pages (frames s) (frames s3)" using p(10) by (auto simp: same_pages_def m(2))
    have taken: "takes_block r n (frames s) (frames s4)"
      using p(11) by (simp add: takes_block_def x(3) m(2))
    have reg: "region ?A n (frames s4) \<subseteq> region A n (frames s)"
      using p(12) by (simp add: region_def x(3) m(2))
    have far: "slab_pages s4 q = slab_pages s q" if q: "\<forall>p'\<in>dom ?S. unat q \<notin> block (p', sr_order r)" for q
    proof -
      have "unat q \<notin> block (p, sr_order r)" using q by simp
      then have "q \<noteq> p" "q \<notin> pfn_down ` objects r p" using sub by blast+
      then show ?thesis using x(2) q m(5) by (simp add: gives_def extends_def)
    qed
    have "gives X r c S loc A n s x s4 ?S loc4 ?A"
      using x(2) same far taken reg p(8) s3(5) m(3,7) unfolding gives_def extends_def cl by (auto simp: same_pages_def)
    moreover have "alloc_or_grow e r c n s = Some (Ok (x, s4))"
      using none p(1,2) s3(1) x by (simp add: alloc_or_grow_def gives_def extends_def)
    ultimately show ?thesis by blast
  qed
qed

subsection \<open>The heap\<close>

text \<open>\<open>loc k\<close> and \<open>S k\<close> are the places of the objects and the slabs of class \<open>k\<close>; the classes share the page
  data, and the slabs of different classes are different blocks.  A processor without a
  representative has not used its caches.\<close>

definition unused_caches :: "slab \<Rightarrow> bool" where
  "unused_caches s \<longleftrightarrow> (\<forall>i. cpu_allocators s i = None \<longrightarrow> caches s (Cpu_Cache i) = SlabCache_new)"

definition heap_parts :: "pfn set \<Rightarrow> nid \<Rightarrow> blk set \<Rightarrow> (nat \<Rightarrow> pfn \<Rightarrow> cache_id option) \<Rightarrow> (nat \<Rightarrow> u64 \<Rightarrow> place option) \<Rightarrow> gp \<Rightarrow> bool" where
  "heap_parts X n A S loc g \<longleftrightarrow> gp_construct gp_sizes = Ok (gp_roots g) \<and> length (gp_slabs g) = 23
     \<and> (\<forall>k<23. slab_number (gp_slabs g ! k) = k \<and> unused_caches (gp_slabs g ! k)
         \<and> slab_pages (gp_slabs g ! k) = slab_pages (gp_slabs g ! 0) \<and> frames (gp_slabs g ! k) = frames (gp_slabs g ! 0)
         \<and> dom (cpu_allocators (gp_slabs g ! k)) = dom (cpu_allocators (gp_slabs g ! 0))
         \<and> class_inv X (gp_roots g ! k) (S k) (loc k) A n (gp_slabs g ! k))
     \<and> (\<forall>j<23. \<forall>k<23. j \<noteq> k \<longrightarrow> dom (S j) \<inter> dom (S k) = {})"

lemma heap_partsD:
  assumes "heap_parts X n A S loc g"
  shows "gp_construct gp_sizes = Ok (gp_roots g)" and "length (gp_slabs g) = 23"
    and "\<And>k. k < 23 \<Longrightarrow> slab_number (gp_slabs g ! k) = k" and "\<And>k. k < 23 \<Longrightarrow> unused_caches (gp_slabs g ! k)"
    and "\<And>k. k < 23 \<Longrightarrow> slab_pages (gp_slabs g ! k) = slab_pages (gp_slabs g ! 0)"
    and "\<And>k. k < 23 \<Longrightarrow> frames (gp_slabs g ! k) = frames (gp_slabs g ! 0)"
    and "\<And>k. k < 23 \<Longrightarrow> dom (cpu_allocators (gp_slabs g ! k)) = dom (cpu_allocators (gp_slabs g ! 0))"
    and "\<And>k. k < 23 \<Longrightarrow> class_inv X (gp_roots g ! k) (S k) (loc k) A n (gp_slabs g ! k)"
    and "\<And>j k. j < 23 \<Longrightarrow> k < 23 \<Longrightarrow> j \<noteq> k \<Longrightarrow> dom (S j) \<inter> dom (S k) = {}"
  using assms unfolding heap_parts_def by blast+

lemma heap_hd: "heap_parts X n A S loc g \<Longrightarrow> hd (gp_slabs g) = gp_slabs g ! 0"
  using heap_partsD(2) [of X n A S loc g] by (intro hd_conv_nth) auto

lemma share_nth:
  assumes "j < length (gp_slabs g)"
  shows "gp_slabs (share k s g) ! j
    = (if j = k then s else (gp_slabs g ! j)\<lparr>slab_pages := slab_pages s, frames := frames s\<rparr>)"
    and "length (gp_slabs (share k s g)) = length (gp_slabs g)" and "gp_roots (share k s g) = gp_roots g"
  using assms by (simp_all add: share_def nth_enumerate_eq)

text \<open>Two slabs of the heap that start in different frames do not meet.\<close>

lemma slabs_apart:
  assumes "frames_ok X r S A n fs" and "frames_ok X r' S' A n fs" and "p \<in> dom S" and "p' \<in> dom S'" and "p \<noteq> p'"
  shows "block (p, sr_order r) \<inter> block (p', sr_order r') = {}"
proof -
  have "(p, sr_order r) \<in> A" "(p', sr_order r') \<in> A" "disjoint_blocks (A \<union> free_blocks (allocators fs ! nat n))"
    using assms frames_okD(3,4) buddy_invD(4) by blast+
  then show ?thesis using assms(5) unfolding disjoint_blocks_def by blast
qed

text \<open>The same holds of the slabs a class gains.\<close>

lemma extends_apart:
  assumes e: "extends X r c S A n s s' S' loc' A'" and fr: "frames_ok X r' T A n fs" and d: "dom S \<inter> dom T = {}"
    and p: "p \<in> dom S'" and t: "t \<in> dom T"
  shows "p \<noteq> t" and "block (p, sr_order r) \<inter> block (t, sr_order r') = {}"
proof -
  have fr': "frames_ok X r S' A' n (frames s')" and sub: "A \<subseteq> A'" using e by (auto simp: extends_def class_inv_def)
  have in_A: "(p, sr_order r) \<in> A'" "(t, sr_order r') \<in> A'" "(t, sr_order r') \<in> A"
    using frames_okD(4) [OF fr' p] frames_okD(4) [OF fr t] sub by auto
  have dis: "block b \<inter> block b' = {}" if "b \<in> A'" "b' \<in> A'" "b \<noteq> b'" for b b'
    using buddy_invD(4) [OF frames_okD(3) [OF fr']] that unfolding disjoint_blocks_def by blast
  show "p \<noteq> t"
  proof
    assume eq: "p = t"
    then have "p \<in> dom S' - dom S" using p t d by blast
    then have "(p, sr_order r) \<notin> A" using e by (simp add: extends_def)
    then have "(p, sr_order r) \<noteq> (t, sr_order r')" using in_A(3) by metis
    from dis [OF in_A(1,2) this] show False
      using head_in_block [of p "sr_order r"] head_in_block [of t "sr_order r'"] eq by blast
  qed
  then show "block (p, sr_order r) \<inter> block (t, sr_order r') = {}" using dis [OF in_A(1,2)] by blast
qed

text \<open>An operation on class \<open>k\<close> keeps every other class well formed.\<close>

lemma foreign_class:
  assumes e: "extends X r c S A n s s' S' loc' A'" and ci: "class_inv X r' T loc A n t" and d: "dom S \<inter> dom T = {}"
    and same: "slab_pages t = slab_pages s" "frames t = frames s"
  shows "class_inv X r' T loc A' n (t\<lparr>slab_pages := slab_pages s', frames := frames s'\<rparr>)" (is "class_inv X r' T loc A' n ?t")
proof -
  have inv: "slab_inv r' T loc t" and fr: "frames_ok X r' T A n (frames t)" and ow: "owned r' T t" and ca: "calm t"
    using ci by (simp_all add: class_inv_def)
  have fr': "frames_ok X r S' A' n (frames s')" and sub: "A \<subseteq> A'" and sp: "same_pages (frames s) (frames s')"
    using e by (auto simp: extends_def class_inv_def)
  have data: "slab_pages s' q = slab_pages t q" if "p \<in> dom T" "unat q \<in> block (p, sr_order r')" for p q
  proof -
    have "\<forall>p'\<in>dom S'. unat q \<notin> block (p', sr_order r)" using extends_apart(2) [OF e fr d _ that(1)] that(2) by blast
    then show ?thesis using e same by (simp add: extends_def)
  qed
  have "slab_inv r' T loc ?t" by (rule foreign_data [OF inv]) (use sp same data in auto)
  moreover have "frames_ok X r' T A' n (frames s')"
    using frames_okD [OF fr'] frames_okD(4,5) [OF fr] sub by (auto simp: frames_ok_def)
  moreover have "owned r' T ?t"
  proof -
    have "slab_pages s' (pfn_down x) = slab_pages t (pfn_down x)" if "p \<in> dom T" "x \<in> objects r' p" for p x
    proof -
      have "slab_at r' p" "root_ok r'" using inv that(1) by (auto simp: slab_inv_def slabs_ok_def)
      from data [OF that(1) object_frame(1) [OF this(2,1) that(2)]] show ?thesis .
    qed
    then show ?thesis using ow by (simp add: owned_def)
  qed
  ultimately show ?thesis using ca by (simp add: class_inv_def calm_def)
qed

lemma heap_share:
  assumes h: "heap_parts X n A S loc g" and k: "k < 23"
    and e: "extends X (gp_roots g ! k) (Cpu_Cache i) (S k) A n (gp_slabs g ! k) s' S' loc' A'"
    and i: "i \<in> dom (cpu_allocators (gp_slabs g ! k))"
  shows "heap_parts X n A' (S(k := S')) (loc(k := loc')) (share k s' g)" (is "heap_parts X n A' ?S ?loc ?g")
proof -
  note d = heap_partsD [OF h]
  have nth: "gp_slabs ?g ! j = (if j = k then s' else (gp_slabs g ! j)\<lparr>slab_pages := slab_pages s', frames := frames s'\<rparr>)"
    if "j < 23" for j using that d(2) by (simp add: share_nth)
  have pages: "slab_pages (gp_slabs ?g ! j) = slab_pages s'" "frames (gp_slabs ?g ! j) = frames s'" if "j < 23" for j
    using nth [OF that] by simp_all
  have cpus: "dom (cpu_allocators (gp_slabs ?g ! j)) = dom (cpu_allocators (gp_slabs g ! 0))" if "j < 23" for j
    using nth [OF that] d(7) [OF that] e by (auto simp: extends_def)
  have unused: "unused_caches (gp_slabs ?g ! j)" if "j < 23" for j
  proof (cases "j = k")
    case True
    have "cpu_allocators (gp_slabs g ! k) m = None \<and> m \<noteq> i" if "cpu_allocators s' m = None" for m
      using e i that unfolding extends_def by (metis domIff)
    then show ?thesis
      using e d(4) [OF k] nth [OF that] True by (simp add: unused_caches_def extends_def)
  qed (use nth [OF that] d(4) [OF that] in \<open>simp add: unused_caches_def\<close>)
  have inv: "class_inv X (gp_roots ?g ! j) (?S j) (?loc j) A' n (gp_slabs ?g ! j)" if j: "j < 23" for j
  proof (cases "j = k")
    case True
    then show ?thesis using e nth [OF j] by (simp add: extends_def share_def)
  next
    case False
    have "class_inv X (gp_roots g ! j) (S j) (loc j) A' n ((gp_slabs g ! j)\<lparr>slab_pages := slab_pages s', frames := frames s'\<rparr>)"
      by (rule foreign_class [OF e d(8) [OF j] d(9) [OF k j False [symmetric]]])
        (use d(5,6) [OF j] d(5,6) [OF k] in simp_all)
    then show ?thesis using False nth [OF j] by (simp add: share_def)
  qed
  have apart: "dom (?S j) \<inter> dom (?S m) = {}" if jm: "j < 23" "m < 23" "j \<noteq> m" for j m
  proof -
    have fr: "frames_ok X (gp_roots g ! l) (S l) A n (frames (gp_slabs g ! l))" if "l < 23" for l
      using d(8) [OF that] by (simp add: class_inv_def)
    have "dom S' \<inter> dom (S l) = {}" if "l < 23" "l \<noteq> k" for l
      using extends_apart(1) [OF e fr [OF that(1)] d(9) [OF k that(1)]] that(2) by blast
    then show ?thesis using d(9) jm by (cases "j = k"; cases "m = k") (simp_all add: Int_commute)
  qed
  have num: "slab_number (gp_slabs ?g ! j) = j" if "j < 23" for j
    using nth [OF that] d(3) [OF that] d(3) [OF k] e by (auto simp: extends_def)
  have len: "length (gp_slabs ?g) = 23" "gp_roots ?g = gp_roots g" using d(2) by (simp_all add: share_def)
  show ?thesis
    unfolding heap_parts_def using d(1) len num unused pages cpus inv apart by simp
qed

text \<open>The blocks in use: \<open>L\<close> maps the address of each to the number of bytes asked for.\<close>

definition heap_ok :: "pfn set \<Rightarrow> nat set \<Rightarrow> nid \<Rightarrow> (u64 \<Rightarrow> u64 option) \<Rightarrow> gp \<Rightarrow> bool" where
  "heap_ok X R n L g \<longleftrightarrow> (\<exists>A S loc. heap_parts X n A S loc g \<and> region A n (gp_pages g) \<subseteq> R
     \<and> (\<forall>x z. L x = Some z \<longrightarrow> (\<exists>k<23. loc k x = Some With_Client \<and> z \<le> sr_size (gp_roots g ! k))))"

lemma class_owner:
  assumes h: "heap_parts X n A S loc g" and k: "k < 23" and x: "loc k x \<noteq> None"
  obtains p where "p \<in> dom (S k)" "x \<in> objects (gp_roots g ! k) p" "slab_at (gp_roots g ! k) p" "root_ok (gp_roots g ! k)"
    "unat (pfn_down x) \<in> block (p, sr_order (gp_roots g ! k))" "x \<noteq> 0"
    "sd_root (slab_pages (gp_slabs g ! 0) (pfn_down x)) = k" "sd_cache (slab_pages (gp_slabs g ! 0) (pfn_down x)) \<noteq> None"
proof -
  note d = heap_partsD [OF h]
  have inv: "slab_inv (gp_roots g ! k) (S k) (loc k) (gp_slabs g ! k)" and ow: "owned (gp_roots g ! k) (S k) (gp_slabs g ! k)"
    and fr: "frames_ok X (gp_roots g ! k) (S k) A n (frames (gp_slabs g ! k))"
    using d(8) [OF k] by (simp_all add: class_inv_def)
  obtain p c where p: "S k p = Some c" "x \<in> objects (gp_roots g ! k) p" "slab_at (gp_roots g ! k) p"
    "sd_cache (slab_pages (gp_slabs g ! k) (pfn_down x)) = Some c" "unat (pfn_down x) \<in> block (p, sr_order (gp_roots g ! k))"
    by (rule object_owner [OF inv x])
  have "p \<in> dom (S k)" using p(1) by blast
  moreover have "sd_root (slab_pages (gp_slabs g ! k) (pfn_down x)) = k"
    using ow calculation p(2) d(3) [OF k] by (simp add: owned_def)
  moreover have "root_ok (gp_roots g ! k)" using inv by (simp add: slab_inv_def)
  moreover have "x \<noteq> 0" by (rule object_nonzero [OF inv frames_okD(5) [OF fr] x])
  ultimately show ?thesis using that p d(5) [OF k] by simp
qed

text \<open>Objects of the heap have disjoint bytes, within one class and across classes.\<close>

lemma heap_disjoint:
  assumes h: "heap_parts X n A S loc g" and j: "j < 23" "loc j x \<noteq> None" and k: "k < 23" "loc k y \<noteq> None"
    and ne: "x \<noteq> y \<or> j \<noteq> k"
  shows "extent (gp_roots g ! j) x \<inter> extent (gp_roots g ! k) y = {}"
proof (cases "j = k")
  case True
  then show ?thesis
    using clients_disjoint [of "gp_roots g ! j" "S j" "loc j" "gp_slabs g ! j" x y] heap_partsD(8) [OF h j(1)] j(2) k(2) ne
    by (auto simp: class_inv_def)
next
  case False
  let ?r = "gp_roots g ! j" and ?r' = "gp_roots g ! k"
  obtain p where p: "p \<in> dom (S j)" "x \<in> objects ?r p" "slab_at ?r p" "root_ok ?r" by (rule class_owner [OF h j])
  obtain q where q: "q \<in> dom (S k)" "y \<in> objects ?r' q" "slab_at ?r' q" "root_ok ?r'" by (rule class_owner [OF h k])
  have "p \<noteq> q" using heap_partsD(9) [OF h j(1) k(1) False] p(1) q(1) by blast
  moreover have "frames_ok X ?r (S j) A n (frames (gp_slabs g ! 0))" "frames_ok X ?r' (S k) A n (frames (gp_slabs g ! 0))"
    using heap_partsD(6,8) [OF h] j(1) k(1) by (metis class_inv_def)+
  ultimately have "block (p, sr_order ?r) \<inter> block (q, sr_order ?r') = {}" using slabs_apart p(1) q(1) by blast
  moreover have "(0::nat) < 2 ^ sr_order ?r" "(0::nat) < 2 ^ sr_order ?r'" by simp_all
  ultimately have "unat p + 2 ^ sr_order ?r \<le> unat q \<or> unat q + 2 ^ sr_order ?r' \<le> unat p"
    unfolding block_def by (auto simp: disjoint_iff)
  then have "(unat p + 2 ^ sr_order ?r) * 4096 \<le> unat q * 4096 \<or> (unat q + 2 ^ sr_order ?r') * 4096 \<le> unat p * 4096"
    by (auto simp: mult_le_mono1)
  then show ?thesis using extent_in_slab [OF p(4,3,2)] extent_in_slab [OF q(4,3,2)] by fastforce
qed

subsection \<open>Allocation and freeing\<close>

definition heap_cpus :: "gp \<Rightarrow> nat set" where
  "heap_cpus g = dom (cpu_allocators (gp_slabs g ! 0))"

lemma heap_cpus_share:
  assumes h: "heap_parts X n A S loc g" and k: "k < 23" and s: "dom (cpu_allocators s) = dom (cpu_allocators (gp_slabs g ! k))"
  shows "heap_cpus (share k s g) = heap_cpus g"
  using heap_partsD(2) [OF h] heap_partsD(7) [OF h k] s by (simp add: heap_cpus_def share_nth)

text \<open>A request of a supported size goes to a class that holds it.\<close>

lemma class_of:
  assumes "gp_construct gp_sizes = Ok rs" and "sz \<le> 0x800000"
  obtains k where "k < 23" "indexer 0 gp_sizes sz = of_nat k" "(of_nat k :: u64) \<noteq> - 1" "unat (of_nat k :: u64) = k"
    "sz \<le> sr_size (rs ! k)" "root_ok (rs ! k)"
proof -
  obtain k where k: "k < 23" "indexer 0 gp_sizes sz = of_nat k" "sz \<le> sr_size (rs ! k)" "root_ok (rs ! k)"
    using gp_class_fits [of sz] assms by (auto simp: Let_def)
  have u: "unat (of_nat k :: u64) = k" using k(1) by (simp add: unat_of_nat)
  have "of_nat k \<noteq> (- 1 :: u64)"
  proof
    assume "of_nat k = (- 1 :: u64)"
    then have "k = unat (- 1 :: u64)" using u by simp
    then show False using k(1) by (simp add: unsigned_minus_1_eq_mask mask_eq_exp_minus_1)
  qed
  then show ?thesis using that k u by blast
qed

lemma heap_alloc:
  assumes h: "heap_ok X R n L g" and e: "my_nid e = n" "my_cpu e \<in> heap_cpus g"
  shows "(0x800000 < sz \<and> gp_Alloc e sz n g = Some (Fail Bug_On))
    \<or> (\<exists>k<23. gp_Alloc e sz n g = Some (Fail Bug_On) \<and> indexer 0 gp_sizes sz = of_nat k
        \<and> (\<forall>j. sr_order (gp_roots g ! k) \<le> j \<and> j \<le> MAX_ORDER \<longrightarrow> (allocators (gp_pages g) ! nat n) j = []))
    \<or> (\<exists>x g'. gp_Alloc e sz n g = Some (Ok (x, g')) \<and> heap_ok X R n (L(x \<mapsto> sz)) g' \<and> L x = None \<and> x \<noteq> 0
        \<and> heap_cpus g' = heap_cpus g \<and> gp_roots g' = gp_roots g
        \<and> takes_block (gp_roots g ! unat (indexer 0 gp_sizes sz)) n (gp_pages g) (gp_pages g'))"
proof (cases "sz \<le> 0x800000")
  case False
  then show ?thesis using gp_class_fits [of sz e n g] by auto
next
  case True
  obtain A S loc where h: "heap_parts X n A S loc g" and reg: "region A n (gp_pages g) \<subseteq> R"
    and L: "\<And>x z. L x = Some z \<Longrightarrow> \<exists>k<23. loc k x = Some With_Client \<and> z \<le> sr_size (gp_roots g ! k)"
    using h by (auto simp: heap_ok_def)
  note d = heap_partsD [OF h]
  obtain k where k: "k < 23" "indexer 0 gp_sizes sz = of_nat k" "(of_nat k :: u64) \<noteq> - 1" "unat (of_nat k :: u64) = k"
    "sz \<le> sr_size (gp_roots g ! k)" by (rule class_of [OF d(1) True])
  let ?r = "gp_roots g ! k" and ?s = "gp_slabs g ! k" and ?c = "Cpu_Cache (my_cpu e)"
  have a: "gp_Alloc e sz n g = Option.bind (alloc_or_grow e ?r ?c n ?s) (\<lambda>t.
      Some (bind_res t (\<lambda>(ret, s). kbugon (ret = 0) (Ok (ret, share k s g)))))"
    using k(2-4) e(1) by (simp add: gp_Alloc_def SlabAllocator_Alloc_def Let_def)
  have pages: "gp_pages g = frames ?s" using heap_hd [OF h] d(6) [OF k(1)] by (simp add: gp_pages_def)
  from class_alloc [OF d(8) [OF k(1)], of e ?c] show ?thesis
  proof (elim disjE exE conjE)
    assume "alloc_or_grow e ?r ?c n ?s = Some (Ok (0, ?s))"
      "\<forall>j. sr_order ?r \<le> j \<and> j \<le> MAX_ORDER \<longrightarrow> (allocators (frames ?s) ! nat n) j = []"
    then show ?thesis using a k(1,2) by (intro disjI2 disjI1 exI [of _ k]) (simp add: pages)
  next
    fix x s' S' loc' A' assume x: "alloc_or_grow e ?r ?c n ?s = Some (Ok (x, s'))" "gives X ?r ?c (S k) (loc k) A n ?s x s' S' loc' A'"
    have ext: "extends X ?r ?c (S k) A n ?s s' S' loc' A'" and nz: "x \<noteq> 0" and new: "x \<notin> clients (loc k)"
      and cl: "clients loc' = insert x (clients (loc k))" using x(2) by (simp_all add: gives_def)
    have cpu: "my_cpu e \<in> dom (cpu_allocators ?s)" using e(2) d(7) [OF k(1)] by (simp add: heap_cpus_def)
    note h' = heap_share [OF h k(1) ext cpu]
    let ?g = "share k s' g" and ?loc = "loc(k := loc')"
    have roots: "gp_roots ?g = gp_roots g" by (simp add: share_def)
    have held: "?loc j y = Some With_Client \<longleftrightarrow> loc j y = Some With_Client \<or> j = k \<and> y = x" for j y
      using cl by (auto simp: clients_def)
    have pages': "gp_pages ?g = frames s'"
    proof -
      have "0 < length (gp_slabs g)" using d(2) by simp
      then have "gp_slabs ?g ! 0 = (if 0 = k then s' else (gp_slabs g ! 0)\<lparr>slab_pages := slab_pages s', frames := frames s'\<rparr>)"
        by (rule share_nth)
      then show ?thesis using heap_hd [OF h'] by (simp add: gp_pages_def)
    qed
    have "L x = None"
    proof (rule ccontr)
      assume "L x \<noteq> None"
      then obtain j where j: "j < 23" "loc j x = Some With_Client" using L by blast
      then have ne: "j \<noteq> k" using new by (auto simp: clients_def)
      have jx: "?loc j x \<noteq> None" "?loc k x \<noteq> None" using held [of j x] held [of k x] j(2) by auto
      obtain p where "root_ok (gp_roots ?g ! j)" by (rule class_owner [OF h' j(1) jx(1)])
      moreover obtain q where "root_ok (gp_roots ?g ! k)" by (rule class_owner [OF h' k(1) jx(2)])
      moreover have "extent (gp_roots ?g ! j) x \<inter> extent (gp_roots ?g ! k) x = {}"
        using heap_disjoint [OF h' j(1) jx(1) k(1) jx(2)] ne by blast
      ultimately show False by (auto simp: extent_def root_ok_def)
    qed
    moreover have "heap_ok X R n (L(x \<mapsto> sz)) ?g"
    proof -
      have "\<exists>j<23. ?loc j y = Some With_Client \<and> z \<le> sr_size (gp_roots ?g ! j)" if "(L(x \<mapsto> sz)) y = Some z" for y z
        using that L [of y z] k(1,5) unfolding held roots by (auto split: if_splits)
      moreover have "region A' n (gp_pages ?g) \<subseteq> R" using ext reg unfolding pages pages' extends_def by blast
      ultimately show ?thesis unfolding heap_ok_def using h' by blast
    qed
    moreover have "heap_cpus ?g = heap_cpus g"
      using ext by (intro heap_cpus_share [OF h k(1)]) (simp add: extends_def)
    moreover have "gp_Alloc e sz n g = Some (Ok (x, ?g))" using a x(1) nz by simp
    moreover have "takes_block (gp_roots g ! unat (indexer 0 gp_sizes sz)) n (gp_pages g) (gp_pages ?g)"
      using ext k(2,4) pages pages' by (simp add: extends_def)
    ultimately show ?thesis using nz roots by blast
  qed
qed

text \<open>\<open>flush_stays e r c n s\<close>: flushing \<open>n\<close> objects of the cache returns each to a slab of this cache that has
  other objects out; none goes to another processor's cache and no slab to the page allocator.\<close>

primrec flush_stays :: "env \<Rightarrow> slab_root \<Rightarrow> cache_id \<Rightarrow> nat \<Rightarrow> slab \<Rightarrow> bool" where
  "flush_stays e r c 0 s \<longleftrightarrow> True"
| "flush_stays e r c (Suc n) s \<longleftrightarrow> (case object_list (caches s c) of
     [] \<Rightarrow> True
   | obj # rest \<Rightarrow>
       let d = slab_pages s (addr_to_slab_pfn obj (sr_order r))
       in sd_cache d = Some c \<and> 1 < sd_used d
          \<and> (case flush_object e r c obj (set_cache c ((caches s c)\<lparr>object_list := rest\<rparr>) s) of
               Ok s' \<Rightarrow> flush_stays e r c n s' | Fail _ \<Rightarrow> True))"

text \<open>A free that stays on the processor: the object's page is of its node, and its cache of the object's
  class is below the high-water mark (or flushes nothing, as for the classes above 256 KiB), or the flush stays
  with the processor's own slabs.\<close>

definition at_node :: "nid \<Rightarrow> u64 \<Rightarrow> gp \<Rightarrow> bool" where
  "at_node n x g \<longleftrightarrow> (case page_map (gp_pages g) (pfn_down x) of None \<Rightarrow> False | Some m \<Rightarrow> uint (pg_nid m) = n)"

definition below_mark :: "env \<Rightarrow> u64 \<Rightarrow> gp \<Rightarrow> bool" where
  "below_mark e x g \<longleftrightarrow> (let k = sd_root (slab_pages (hd (gp_slabs g)) (pfn_down x)); r = gp_roots g ! k
     in sr_free_batch r = 0
        \<or> length (object_list (caches (gp_slabs g ! k) (Cpu_Cache (my_cpu e)))) < unat (sr_hiwater r))"

definition stays_home :: "env \<Rightarrow> u64 \<Rightarrow> gp \<Rightarrow> bool" where
  "stays_home e x g \<longleftrightarrow> below_mark e x g \<or>
     (let k = sd_root (slab_pages (hd (gp_slabs g)) (pfn_down x)); r = gp_roots g ! k;
          s = gp_slabs g ! k; c = Cpu_Cache (my_cpu e)
      in flush_stays e r c (unat (sr_free_batch r)) (set_cache c ((caches s c)\<lparr>object_list := x # object_list (caches s c)\<rparr>) s))"

text \<open>What such a free keeps: everything but the class's own lists and counts.\<close>

definition keeps :: "pfn set \<Rightarrow> slab_root \<Rightarrow> cache_id \<Rightarrow> (pfn \<Rightarrow> cache_id option) \<Rightarrow> blk set \<Rightarrow> nid \<Rightarrow> slab \<Rightarrow> slab
    \<Rightarrow> (u64 \<Rightarrow> place option) \<Rightarrow> bool" where
  "keeps X r c S A n s s' loc' \<longleftrightarrow> extends X r c S A n s s' S loc' A \<and> frames s' = frames s"

lemma keepsI:
  assumes "class_inv X r S loc A n s" and "slab_inv r S loc' s'" and "frames s' = frames s"
    and "dom (cpu_allocators s') = dom (cpu_allocators s)" and "slab_number s' = slab_number s"
    and "\<And>d. d \<noteq> c \<Longrightarrow> caches s' d = caches s d" and "remote_check (caches s' c) = remote_check (caches s c)"
    and "\<And>q. sd_root (slab_pages s' q) = sd_root (slab_pages s q)"
    and "\<And>q. \<forall>p\<in>dom S. unat q \<notin> block (p, sr_order r) \<Longrightarrow> slab_pages s' q = slab_pages s q"
  shows "keeps X r c S A n s s' loc'"
proof -
  have "remote_check (caches s' d) = remote_check (caches s d)" for d using assms(6,7) by (cases "d = c") simp_all
  then have "class_inv X r S loc' A n s'" using assms(1-3,5,8) by (simp add: class_inv_def owned_def calm_def)
  then show ?thesis using assms(3-6,9) by (simp add: keeps_def extends_def same_pages_def)
qed

lemma keeps_trans:
  assumes "keeps X r c S A n s s1 loc1" and "keeps X r c S A n s1 s2 loc2"
  shows "keeps X r c S A n s s2 loc2"
  using assms by (simp add: keeps_def extends_def same_pages_def)

lemma flush_step:
  assumes ci: "class_inv X r S loc A n s" and l: "object_list (caches s c) = x # xs"
    and d: "sd_cache (slab_pages s (addr_to_slab_pfn x (sr_order r))) = Some c"
      "1 < sd_used (slab_pages s (addr_to_slab_pfn x (sr_order r)))"
  shows "\<exists>s' loc'. flush_object e r c x (set_cache c ((caches s c)\<lparr>object_list := xs\<rparr>) s) = Ok s'
    \<and> keeps X r c S A n s s' loc' \<and> clients loc' = clients loc"
proof -
  let ?s = "set_cache c ((caches s c)\<lparr>object_list := xs\<rparr>) s" and ?p = "addr_to_slab_pfn x (sr_order r)"
  have inv: "slab_inv r S loc s" using ci by (simp add: class_inv_def)
  note pop = pop_object [OF inv l]
  have x: "(loc(x \<mapsto> With_Client)) x = Some With_Client" by simp
  obtain c' where p: "S ?p = Some c'" "x \<in> objects r ?p"
    by (rule object_owner [OF pop(2), of x]) auto
  have req: "require_page ?p ?s k = k" for k :: "slab res"
    using require_page_ok [OF pop(2) p(1)] head_cache(2) [OF pop(2) p(1)] by blast
  have c: "S ?p = Some c" using head_cache(1) [OF pop(2) p(1)] d(1) p(1) by simp
  have "1 < sd_used (slab_pages ?s ?p)" using d(2) by simp
  note ret = return_to_slab_keeps [OF pop(2) c p(2) x this]
  let ?U = "with_object ?p x c ?s" and ?loc = "loc(x \<mapsto> With_Client, x \<mapsto> In_Slab ?p)"
  have "flush_object e r c x ?s = Ok ?U" using ret(1) [of e] d(1) by (simp add: flush_object_def req)
  moreover have other: "q \<noteq> ?p" if "\<forall>p\<in>dom S. unat q \<notin> block (p, sr_order r)" for q
    using that domI [of S ?p, OF c] head_in_block [of ?p "sr_order r"] by blast
  moreover have "keeps X r c S A n s ?U ?loc"
    by (rule keepsI [OF ci ret(2)]) (use other in \<open>simp_all add: with_object_def update_slab_def Let_def\<close>)
  moreover have "clients ?loc = clients loc" using pop(1) by (auto simp: clients_def)
  ultimately show ?thesis by blast
qed

lemma flush_home:
  assumes "class_inv X r S loc A n s" and "flush_stays e r c m s"
  shows "\<exists>s' loc'. FlushFreeList e r c m s = Ok s' \<and> keeps X r c S A n s s' loc' \<and> clients loc' = clients loc"
  using assms
proof (induction m arbitrary: s loc)
  case 0
  have "slab_inv r S loc s" using 0(1) by (simp add: class_inv_def)
  then have "keeps X r c S A n s s loc" by (intro keepsI [OF 0(1)]) simp_all
  then show ?case by auto
next
  case (Suc m)
  show ?case
  proof (cases "object_list (caches s c)")
    case Nil
    have "slab_inv r S loc s" using Suc.prems(1) by (simp add: class_inv_def)
    then have "keeps X r c S A n s s loc" by (intro keepsI [OF Suc.prems(1)]) simp_all
    then show ?thesis using Nil by auto
  next
    case (Cons x xs)
    let ?s = "set_cache c ((caches s c)\<lparr>object_list := xs\<rparr>) s"
    obtain s1 loc1 where s1: "flush_object e r c x ?s = Ok s1" "keeps X r c S A n s s1 loc1" "clients loc1 = clients loc"
      using flush_step [OF Suc.prems(1) Cons, of e] Suc.prems(2) Cons by (auto simp: Let_def)
    have "class_inv X r S loc1 A n s1" using s1(2) by (simp add: keeps_def extends_def)
    moreover have "flush_stays e r c m s1" using Suc.prems(2) Cons s1(1) by (simp add: Let_def)
    ultimately obtain s' loc' where r: "FlushFreeList e r c m s1 = Ok s'" "keeps X r c S A n s1 s' loc'" "clients loc' = clients loc1"
      using Suc.IH by blast
    have "FlushFreeList e r c (Suc m) s = Ok s'" using Cons s1(1) r(1) by simp
    then show ?thesis using keeps_trans [OF s1(2) r(2)] r(3) s1(3) by (intro exI [of _ s'] exI [of _ loc']) simp
  qed
qed

lemma heap_free:
  assumes h: "heap_ok X R n L g" and x: "L x = Some z" and e: "my_nid e = n" "my_cpu e \<in> heap_cpus g"
    and stay: "at_node n x g" "stays_home e x g"
  shows "\<exists>g'. gp_Free e x g = Ok g' \<and> heap_ok X R n (L(x := None)) g' \<and> heap_cpus g' = heap_cpus g"
proof -
  obtain A S loc where h: "heap_parts X n A S loc g" and reg: "region A n (gp_pages g) \<subseteq> R"
    and L: "\<And>x z. L x = Some z \<Longrightarrow> \<exists>k<23. loc k x = Some With_Client \<and> z \<le> sr_size (gp_roots g ! k)"
    using h by (auto simp: heap_ok_def)
  note d = heap_partsD [OF h]
  obtain k where k: "k < 23" "loc k x = Some With_Client" using L [OF x] by blast
  then have kx: "loc k x \<noteq> None" by simp
  let ?r = "gp_roots g ! k" and ?s = "gp_slabs g ! k" and ?c = "Cpu_Cache (my_cpu e)"
  let ?s1 = "set_cache ?c ((caches ?s ?c)\<lparr>object_list := x # object_list (caches ?s ?c)\<rparr>) ?s"
  let ?loc1 = "(loc k)(x \<mapsto> In_Cache ?c)"
  obtain p where p: "p \<in> dom (S k)" "slab_at ?r p" "unat (pfn_down x) \<in> block (p, sr_order ?r)"
    "sd_root (slab_pages (gp_slabs g ! 0) (pfn_down x)) = k" "sd_cache (slab_pages (gp_slabs g ! 0) (pfn_down x)) \<noteq> None"
    by (rule class_owner [OF h k(1) kx])
  obtain m where m: "page_map (frames (gp_slabs g ! 0)) (pfn_down x) = Some m" "uint (pg_nid m) = n"
    using stay(1) by (auto simp: at_node_def gp_pages_def heap_hd [OF h] split: option.splits)
  have low: "unat (pfn_down x) < 17179869184" using p(2,3) by (auto simp: slab_at_def block_def)
  have "cpu_allocators ?s (my_cpu e) \<noteq> None"
    using e(2) d(7) [OF k(1)] unfolding heap_cpus_def by blast
  then have get: "get_cpu_allocator e (my_cpu e) ?s = Ok ?s" by (auto simp: get_cpu_allocator_def)
  have inv: "slab_inv ?r (S k) (loc k) ?s" using d(8) [OF k(1)] by (simp add: class_inv_def)
  have k1: "keeps X ?r ?c (S k) A n ?s ?s1 ?loc1"
    by (rule keepsI [OF d(8) [OF k(1)] push_object [OF inv k(2)]]) simp_all
  then have ci1: "class_inv X ?r (S k) ?loc1 A n ?s1" by (simp add: keeps_def extends_def)
  have cl1: "clients ?loc1 = clients (loc k) - {x}" by (auto simp: clients_def)
  have "\<exists>s' loc'. SlabCache_Free e ?r ?c x ?s = Ok s' \<and> keeps X ?r ?c (S k) A n ?s s' loc' \<and> clients loc' = clients (loc k) - {x}"
  proof (cases "length (object_list (caches ?s1 ?c)) > unat (sr_hiwater ?r) \<and> sr_free_batch ?r \<noteq> 0")
    case True
    then have "flush_stays e ?r ?c (unat (sr_free_batch ?r)) ?s1"
      using stay(2) by (auto simp: stays_home_def below_mark_def heap_hd [OF h] p(4) Let_def)
    from flush_home [OF ci1 this] obtain s' loc' where s': "FlushFreeList e ?r ?c (unat (sr_free_batch ?r)) ?s1 = Ok s'"
      "keeps X ?r ?c (S k) A n ?s1 s' loc'" "clients loc' = clients ?loc1" by blast
    have "SlabCache_Free e ?r ?c x ?s = FlushFreeList e ?r ?c (unat (sr_free_batch ?r)) ?s1"
      using True by (simp only: SlabCache_Free_def Let_def if_True)
    then show ?thesis using s'(1,3) keeps_trans [OF k1 s'(2)] cl1 by (intro exI [of _ s'] exI [of _ loc']) (simp only: simp_thms)
  next
    case False
    then have "SlabCache_Free e ?r ?c x ?s = Ok ?s1" by (auto simp: SlabCache_Free_def Let_def)
    then show ?thesis using k1 cl1 by blast
  qed
  then obtain s' loc' where s': "SlabCache_Free e ?r ?c x ?s = Ok s'" "keeps X ?r ?c (S k) A n ?s s' loc'"
    "clients loc' = clients (loc k) - {x}" by blast
  have ext: "extends X ?r ?c (S k) A n ?s s' (S k) loc' A" and fr: "frames s' = frames ?s"
    using s'(2) by (simp_all add: keeps_def)
  have "SlabAllocator_Free e ?r (my_cpu e) x ?s = Ok s'"
    using s'(1) m e(1) low d(6) [OF k(1)] by (simp add: SlabAllocator_Free_def page_at_low)
  then have f: "gp_Free e x g = Ok (share k s' g)"
    using p(4,5) m(1) low k(1) d(2) get by (simp add: gp_Free_def heap_hd [OF h] require_page_def page_at_low Let_def)
  have "my_cpu e \<in> dom (cpu_allocators ?s)" using e(2) d(7) [OF k(1)] by (simp add: heap_cpus_def)
  note h' = heap_share [OF h k(1) ext this]
  have "\<exists>j<23. (loc(k := loc')) j y = Some With_Client \<and> w \<le> sr_size (gp_roots (share k s' g) ! j)"
    if y: "(L(x := None)) y = Some w" for y w
  proof -
    have yx: "y \<noteq> x" "L y = Some w" using y by (auto split: if_splits)
    obtain j where j: "j < 23" "loc j y = Some With_Client" "w \<le> sr_size (gp_roots g ! j)" using L [OF yx(2)] by blast
    moreover have "loc' y = Some With_Client" if "j = k" using s'(3) j(2) yx(1) that by (auto simp: clients_def)
    ultimately show ?thesis by (intro exI [of _ j]) (simp add: share_def)
  qed
  moreover have "gp_pages (share k s' g) = gp_pages g"
  proof -
    have "0 < length (gp_slabs g)" using d(2) by simp
    then have "frames (gp_slabs (share k s' g) ! 0) = frames (gp_slabs g ! 0)"
      using d(6) [OF k(1)] fr by (simp add: share_nth)
    then show ?thesis using heap_hd [OF h'] heap_hd [OF h] by (simp add: gp_pages_def)
  qed
  ultimately have "heap_ok X R n (L(x := None)) (share k s' g)" unfolding heap_ok_def using h' reg by metis
  moreover have "heap_cpus (share k s' g) = heap_cpus g"
    by (rule heap_cpus_share [OF h k(1)]) (use ext in \<open>simp add: extends_def\<close>)
  ultimately show ?thesis using f by blast
qed

subsection \<open>Representatives\<close>

definition with_cpu :: "env \<Rightarrow> slab \<Rightarrow> slab" where
  "with_cpu e s = (if cpu_allocators s (my_cpu e) = None then set_allocator (my_cpu e) SlabAllocator_new s else s)"

lemma get_unused:
  assumes "unused_caches s" and "new_ok e"
  shows "get_cpu_allocator e (my_cpu e) s = Ok (with_cpu e s)"
proof (cases "cpu_allocators s (my_cpu e)")
  case None
  then have "caches s (Cpu_Cache (my_cpu e)) = SlabCache_new" using assms(1) by (simp add: unused_caches_def)
  then have "set_cache (Cpu_Cache (my_cpu e)) SlabCache_new (set_allocator (my_cpu e) SlabAllocator_new s)
      = set_allocator (my_cpu e) SlabAllocator_new s"
    by (intro slab.equality) (simp_all add: set_cache_def set_allocator_def fun_upd_idem)
  then show ?thesis using None assms(2) by (simp add: get_cpu_allocator_def with_cpu_def)
qed (simp add: get_cpu_allocator_def with_cpu_def)

lemma cpu_allocators_of_ok:
  "\<forall>s\<in>set ss. unused_caches s \<Longrightarrow> new_ok e \<Longrightarrow> cpu_allocators_of e ss = Ok (map (with_cpu e) ss)"
  by (induction ss) (simp_all add: get_unused)

lemma with_cpu_class:
  assumes "class_inv X r S loc A n s" shows "class_inv X r S loc A n (with_cpu e s)"
proof (cases "cpu_allocators s (my_cpu e)")
  case None
  let ?s = "set_allocator (my_cpu e) SlabAllocator_new s"
  have o: "outgoing ?s = outgoing s" "outgoing_cache ?s = outgoing_cache s"
    using None by (auto simp: outgoing_def outgoing_cache_def SlabAllocator_new_def)
  have "lists_ok loc S ?s = lists_ok loc S s" by (simp only: lists_ok_def o set_allocator_sel)
  moreover have "outgoing_ok r S loc ?s = outgoing_ok r S loc s" by (simp only: outgoing_ok_def o)
  ultimately have "slab_inv r S loc ?s" using assms by (simp add: class_inv_def slab_inv_def partial_ok_def)
  then show ?thesis using assms None by (simp add: class_inv_def with_cpu_def owned_def calm_def)
qed (use assms in \<open>simp add: with_cpu_def\<close>)

lemma with_cpu_sel:
  "slab_number (with_cpu e s) = slab_number s" "slab_pages (with_cpu e s) = slab_pages s" "frames (with_cpu e s) = frames s"
  "dom (cpu_allocators (with_cpu e s)) = insert (my_cpu e) (dom (cpu_allocators s))"
  by (auto simp: with_cpu_def)

lemma heap_new:
  assumes h: "heap_ok X R n L g" and e: "new_ok e"
  shows "\<exists>g'. gp_new e g = Ok g' \<and> heap_ok X R n L g' \<and> heap_cpus g' = insert (my_cpu e) (heap_cpus g)"
proof -
  obtain A S loc where h: "heap_parts X n A S loc g" and reg: "region A n (gp_pages g) \<subseteq> R"
    and L: "\<And>x z. L x = Some z \<Longrightarrow> \<exists>k<23. loc k x = Some With_Client \<and> z \<le> sr_size (gp_roots g ! k)"
    using h by (auto simp: heap_ok_def)
  note d = heap_partsD [OF h]
  let ?g = "g\<lparr>gp_slabs := map (with_cpu e) (gp_slabs g)\<rparr>"
  have nth: "gp_slabs ?g ! k = with_cpu e (gp_slabs g ! k)" if "k < 23" for k using that d(2) by simp
  have "\<forall>s\<in>set (gp_slabs g). unused_caches s" using d(2,4) by (auto simp: in_set_conv_nth)
  then have "gp_new e g = Ok ?g" using e by (simp add: gp_new_def cpu_allocators_of_ok)
  moreover have "heap_ok X R n L ?g"
  proof -
    have un: "unused_caches (gp_slabs ?g ! k)" if "k < 23" for k
      using d(4) [OF that] unfolding nth [OF that] by (simp add: unused_caches_def with_cpu_def)
    have ci: "class_inv X (gp_roots ?g ! k) (S k) (loc k) A n (gp_slabs ?g ! k)" if "k < 23" for k
      using with_cpu_class [OF d(8) [OF that]] unfolding nth [OF that] by simp
    have sel: "slab_number (gp_slabs ?g ! k) = k" "slab_pages (gp_slabs ?g ! k) = slab_pages (gp_slabs ?g ! 0)"
      "frames (gp_slabs ?g ! k) = frames (gp_slabs ?g ! 0)"
      "dom (cpu_allocators (gp_slabs ?g ! k)) = dom (cpu_allocators (gp_slabs ?g ! 0))" if "k < 23" for k
      using d(3,5-7) [OF that] nth [OF that] nth [of 0] by (simp_all only: with_cpu_sel zero_less_numeral)
    have "length (gp_slabs ?g) = 23" "gp_roots ?g = gp_roots g" using d(2) by simp_all
    then have "heap_parts X n A S loc ?g" unfolding heap_parts_def using un ci sel d(1,9) by metis
    moreover have "gp_pages ?g = gp_pages g"
    proof -
      have "gp_slabs g \<noteq> []" using d(2) by auto
      then show ?thesis by (simp add: gp_pages_def hd_map with_cpu_sel)
    qed
    ultimately show ?thesis unfolding heap_ok_def using L reg \<open>gp_roots ?g = gp_roots g\<close> by metis
  qed
  moreover have "heap_cpus ?g = insert (my_cpu e) (heap_cpus g)" using d(2) by (simp add: heap_cpus_def with_cpu_sel)
  ultimately show ?thesis by blast
qed

text \<open>The heap that \<open>Init\<close> makes, over any well-formed allocator of the node with the frames \<open>R\<close>.\<close>

definition node_ready :: "pfn set \<Rightarrow> nat set \<Rightarrow> nid \<Rightarrow> page_allocators \<Rightarrow> bool" where
  "node_ready X R n fs \<longleftrightarrow> 0 \<le> n \<and> nat n < length (allocators fs) \<and> 0 \<notin> R
     \<and> (\<exists>A. buddy_inv X A (allocators fs ! nat n, page_map fs) \<and> region A n fs \<subseteq> R)"

lemma heap_Init:
  assumes "node_ready X R n fs"
  shows "\<exists>g. gp_Init data fs = Ok g \<and> heap_ok X R n Map.empty g \<and> heap_cpus g = {}"
proof -
  obtain A where A: "0 \<le> n" "nat n < length (allocators fs)" "buddy_inv X A (allocators fs ! nat n, page_map fs)"
    "0 \<notin> free_frames (allocators fs ! nat n)" "region A n fs \<subseteq> R"
    using assms by (auto simp: node_ready_def region_def)
  obtain rs where rs: "gp_construct gp_sizes = Ok rs" "length rs = 23" "\<forall>k<23. root_ok (rs ! k)"
    using gp_construct_ok [of gp_sizes] gp_sizes_max gp_sizes_length by auto
  let ?s = "\<lambda>k. \<lparr>slab_number = k, caches = (\<lambda>_. SlabCache_new), cpu_allocators = Map.empty, node_allocators = (\<lambda>_. False),
    slab_pages = data, frames = fs\<rparr>"
  let ?g = "\<lparr>gp_roots = rs, gp_slabs = map ?s [0..<23]\<rparr>"
  have g: "gp_Init data fs = Ok ?g" using rs(1,2) by (simp add: gp_Init_def)
  have nth: "gp_slabs ?g ! k = ?s k" if "k < 23" for k using that by simp
  have "class_inv X (rs ! k) Map.empty Map.empty A n (?s k)" if "k < 23" for k
    using rs(3) that A
    by (auto simp: class_inv_def slab_inv_defs frames_ok_def owned_def calm_def SlabCache_new_def outgoing_def outgoing_cache_def)
  then have "heap_parts X n A (\<lambda>_. Map.empty) (\<lambda>_. Map.empty) ?g"
    unfolding heap_parts_def using rs(1) nth by (simp add: unused_caches_def)
  moreover have "gp_slabs ?g \<noteq> []" by simp
  then have "gp_pages ?g = fs" using nth [of 0] hd_conv_nth [of "gp_slabs ?g"] by (simp add: gp_pages_def)
  ultimately have "heap_ok X R n Map.empty ?g" unfolding heap_ok_def using A(5) by fastforce
  moreover have "heap_cpus ?g = {}" by (simp add: heap_cpus_def)
  ultimately show ?thesis using g by blast
qed

subsection \<open>Runs of the heap\<close>

text \<open>The calls of the processors of node \<open>n\<close>, in any interleaving: a processor's first use constructs
  its representative; \<open>malloc\<close> and \<open>memalign\<close> put a block in use; only a block in use is freed.  Frees are those
  of \<open>stays_home\<close> for an object of the node.  Left out are frees whose flush gives a slab
  back to \<open>PageAllocator::Free\<close>, which hands out overlapping blocks when the slab's lower buddy is free
  (\<open>Free_lower_buddy_overlap\<close>), and those that put objects on another node's or processor's remote list, after
  which an allocation may never return (\<open>SlabCache_Alloc_returns_iff\<close>): the invariant does not survive them.\<close>

inductive heap_step :: "nid \<Rightarrow> gp \<times> (u64 \<Rightarrow> u64 option) \<Rightarrow> gp \<times> (u64 \<Rightarrow> u64 option) \<Rightarrow> bool" for n where
  first_use: "new_ok e \<Longrightarrow> gp_new e g = Ok g' \<Longrightarrow> heap_step n (g, L) (g', L)"
| malloc: "my_nid e = n \<Longrightarrow> my_cpu e \<in> heap_cpus g \<Longrightarrow> newlib_malloc e sz g = Some (Ok (x, g'))
    \<Longrightarrow> heap_step n (g, L) (g', L(x \<mapsto> sz))"
| memalign: "my_nid e = n \<Longrightarrow> my_cpu e \<in> heap_cpus g \<Longrightarrow> newlib_memalign e al sz g = Some (Ok (x, g'))
    \<Longrightarrow> heap_step n (g, L) (g', L(x \<mapsto> max sz al))"
| free: "my_nid e = n \<Longrightarrow> my_cpu e \<in> heap_cpus g \<Longrightarrow> L x \<noteq> None \<Longrightarrow> at_node n x g \<Longrightarrow> stays_home e x g
    \<Longrightarrow> gp_Free e x g = Ok g' \<Longrightarrow> heap_step n (g, L) (g', L(x := None))"

lemma heap_step_ok:
  assumes "heap_step n (g, L) (g', L')" and h: "heap_ok X R n L g"
  shows "heap_ok X R n L' g'"
  using assms(1)
proof (cases rule: heap_step.cases)
  case (first_use e)
  then show ?thesis using heap_new [OF h first_use(2)] by auto
next
  case (malloc e sz x)
  then show ?thesis using heap_alloc [OF h malloc(2,3), of sz] by (auto simp: newlib_malloc_def)
next
  case (memalign e al sz x)
  then have "gp_Alloc e (max sz al) n g = Some (Ok (x, g'))"
    by (auto simp: newlib_memalign_def res_Ok_iff split: Option.bind_splits)
  then show ?thesis using heap_alloc [OF h memalign(2,3), of "max sz al"] memalign(1) by auto
next
  case (free e x)
  then obtain z where "L x = Some z" by blast
  from heap_free [OF h this free(2,3,5,6)] show ?thesis using free by auto
qed

definition heap_run :: "nid \<Rightarrow> page_allocators \<Rightarrow> (pfn \<Rightarrow> slab_data) \<Rightarrow> gp \<times> (u64 \<Rightarrow> u64 option) \<Rightarrow> bool" where
  "heap_run n fs data gL \<longleftrightarrow> (\<exists>g. gp_Init data fs = Ok g \<and> (heap_step n)\<^sup>*\<^sup>* (g, Map.empty) gL)"

lemma heap_run_ok:
  assumes "node_ready X R n fs" and "heap_run n fs data (g, L)"
  shows "heap_ok X R n L g"
proof -
  obtain g0 where g0: "gp_Init data fs = Ok g0" "(heap_step n)\<^sup>*\<^sup>* (g0, Map.empty) (g, L)"
    using assms(2) by (auto simp: heap_run_def)
  have "heap_ok X R n Map.empty g0" using heap_Init [OF assms(1), of data] g0(1) by auto
  with g0(2) show ?thesis
    by (induction rule: rtranclp_induct2 [of _ g0 Map.empty, consumes 1]) (auto intro: heap_step_ok)
qed

text \<open>The bytes of a block.\<close>

definition bytes :: "u64 \<Rightarrow> u64 \<Rightarrow> nat set" where "bytes x z = {unat x ..< unat x + unat z}"

lemma heap_blocks:
  assumes "heap_ok X R n L g"
  shows "L x = Some z \<Longrightarrow> x \<noteq> 0 \<and> unat x + unat z \<le> 2 ^ 46 \<and> (\<forall>b\<in>bytes x z. b div 4096 \<in> R - free_frames (allocators (gp_pages g) ! nat n))"
    and "L x = Some z \<Longrightarrow> L y = Some w \<Longrightarrow> x \<noteq> y \<Longrightarrow> bytes x z \<inter> bytes y w = {}"
proof -
  obtain A S loc where h: "heap_parts X n A S loc g" and reg: "region A n (gp_pages g) \<subseteq> R"
    and L: "\<And>x z. L x = Some z \<Longrightarrow> \<exists>k<23. loc k x = Some With_Client \<and> z \<le> sr_size (gp_roots g ! k)"
    using assms by (auto simp: heap_ok_def)
  have ext: "\<exists>k<23. loc k x \<noteq> None \<and> bytes x z \<subseteq> extent (gp_roots g ! k) x" if "L x = Some z" for x z
    using L [OF that] by (auto simp: bytes_def extent_def word_le_nat_alt)
  show "bytes x z \<inter> bytes y w = {}" if "L x = Some z" "L y = Some w" "x \<noteq> y"
    using ext [OF that(1)] ext [OF that(2)] heap_disjoint [OF h] that(3) by blast
  assume x: "L x = Some z"
  obtain k where k: "k < 23" "loc k x \<noteq> None" and sub: "bytes x z \<subseteq> extent (gp_roots g ! k) x" and z: "z \<le> sr_size (gp_roots g ! k)"
    using L [OF x] by (auto simp: bytes_def extent_def word_le_nat_alt)
  let ?r = "gp_roots g ! k" and ?fl = "allocators (gp_pages g) ! nat n"
  obtain p where p: "p \<in> dom (S k)" "x \<in> objects ?r p" "slab_at ?r p" "root_ok ?r" "x \<noteq> 0" by (rule class_owner [OF h k])
  have fr: "frames_ok X ?r (S k) A n (gp_pages g)"
    using heap_partsD(8,6) [OF h k(1)] by (simp add: class_inv_def gp_pages_def heap_hd [OF h])
  note in_slab = extent_in_slab [OF p(4,3,2)]
  have pA: "(p, sr_order ?r) \<in> A" using frames_okD(4) [OF fr p(1)] .
  note bd = buddy_invD(2,4) [OF frames_okD(3) [OF fr]]
  have "block (p, sr_order ?r) \<inter> block b = {}" if "b \<in> free_blocks ?fl" for b
  proof -
    have "(p, sr_order ?r) \<noteq> b" using pA that bd(1) by blast
    then show ?thesis using bd(2) pA that unfolding disjoint_blocks_def by blast
  qed
  then have "block (p, sr_order ?r) \<inter> free_frames ?fl = {}" unfolding free_frames_def by blast
  moreover have "b div 4096 \<in> block (p, sr_order ?r)" if "b \<in> bytes x z" for b
    using subsetD [OF in_slab subsetD [OF sub that]] by (auto simp: block_def less_mult_imp_div_less)
  moreover have "block (p, sr_order ?r) \<subseteq> R" using pA reg unfolding region_def by blast
  ultimately have "\<forall>b\<in>bytes x z. b div 4096 \<in> R - free_frames ?fl" by blast
  moreover have "unat x + unat z \<le> 2 ^ 46"
  proof -
    have "unat z \<le> unat (sr_size ?r)" "0 < unat (sr_size ?r)" using z p(4) by (simp_all add: word_le_nat_alt root_ok_def)
    then have "unat x + unat (sr_size ?r) - 1 \<in> extent ?r x" by (auto simp: extent_def)
    from subsetD [OF in_slab this] have "unat x + unat (sr_size ?r) \<le> (unat p + 2 ^ sr_order ?r) * 4096"
      using \<open>0 < unat (sr_size ?r)\<close> by auto
    also have "\<dots> \<le> 2 ^ 34 * 4096" using p(3) by (intro mult_le_mono1) (simp add: slab_at_def)
    finally show ?thesis using \<open>unat z \<le> unat (sr_size ?r)\<close> by simp
  qed
  ultimately show "x \<noteq> 0 \<and> unat x + unat z \<le> 2 ^ 46 \<and> (\<forall>b\<in>bytes x z. b div 4096 \<in> R - free_frames ?fl)" using p(5) by blast
qed

subsection \<open>Properties\<close>

text \<open>C2: However the processors of a node interleave \<open>malloc\<close> and \<open>memalign\<close> of any sizes with frees that stay home,
  from the kernel's start, the blocks in
  use are never null, never overlap, end below the 64 TiB that page structures cover, and lie in the
  frames \<open>R\<close> of the node, none of them in one that the page allocator holds free.  A free stays home when
  the object is of the processor's node and its cache is below the high-water mark, or every object
  flushed goes back to a slab of the processor's own cache that has others out.  Runs with other frees, to remote lists or
  with a slab given back to the page allocator, are not covered: after the latter blocks may
  overlap.\<close>

theorem heap_blocks_disjoint:
  assumes "node_ready X R n fs" and "heap_run n fs data (g, L)"
  shows "(\<forall>x z. L x = Some z \<longrightarrow> x \<noteq> 0 \<and> unat x + unat z \<le> 2 ^ 46
      \<and> (\<forall>b\<in>bytes x z. b div 4096 \<in> R - free_frames (allocators (gp_pages g) ! nat n)))
    \<and> (\<forall>x y z w. L x = Some z \<and> L y = Some w \<and> x \<noteq> y \<longrightarrow> bytes x z \<inter> bytes y w = {})"
  using heap_blocks [OF heap_run_ok [OF assms]] by blast

text \<open>A machine with four free frames: the first processor constructs its representative and
  allocates 64 bytes.\<close>

definition pages4 :: page_allocators where
  "pages4 = \<lparr>allocators = [fst small_node], page_map = snd small_node\<rparr>"

definition data4 :: "pfn \<Rightarrow> slab_data" where
  "data4 = (\<lambda>_. \<lparr>sd_list = [], sd_cache = None, sd_root = 0, sd_used = 0\<rparr>)"

lemma pages4_frames: "free_frames (allocators pages4 ! nat 0) = {4..<8}"
  by (auto simp: pages4_def small_node_def free_frames_def free_blocks_def block_def MAX_ORDER_def split: if_splits)

lemma pages4_ready: "node_ready {} {4..<8} 0 pages4"
  using small_inv pages4_frames by (auto simp: node_ready_def pages4_def region_def)

lemma class_order:
  assumes "gp_construct gp_sizes = Ok rs"
  shows "indexer 0 gp_sizes 64 = 3 \<and> sr_order (rs ! 3) = 0 \<and> indexer 0 gp_sizes 100 = 5 \<and> sr_order (rs ! 5) = 0"
proof -
  obtain rs' where "gp_construct gp_sizes = Ok rs'" "\<forall>k<23. SlabAllocatorRoot (gp_sizes ! k) 0 = Ok (rs' ! k)"
    using gp_construct_ok [of gp_sizes] gp_sizes_max gp_sizes_length by auto
  then have "SlabAllocatorRoot (gp_sizes ! 3) 0 = Ok (rs ! 3)" "SlabAllocatorRoot (gp_sizes ! 5) 0 = Ok (rs ! 5)"
    using assms by auto
  then have "SlabAllocatorRoot 64 0 = Ok (rs ! 3)" "SlabAllocatorRoot 128 0 = Ok (rs ! 5)" by (simp_all add: gp_sizes_def)
  moreover have "(case SlabAllocatorRoot 64 0 of Ok r \<Rightarrow> sr_order r | Fail _ \<Rightarrow> 1) = 0" by code_simp
  moreover have "(case SlabAllocatorRoot 128 0 of Ok r \<Rightarrow> sr_order r | Fail _ \<Rightarrow> 1) = 0" by code_simp
  ultimately show ?thesis by (simp add: gp_sizes_def)
qed

text \<open>Free frames mean that some free block is there for a slab of one frame.\<close>

lemma no_blocks_no_frames:
  assumes "\<forall>j. 0 \<le> j \<and> j \<le> MAX_ORDER \<longrightarrow> fl j = []" shows "free_frames fl = {}"
  using assms by (auto simp: free_frames_def free_blocks_def)

lemma env0: "my_nid env0 = 0" "my_cpu env0 = 0" "new_ok env0"
  by (simp_all add: env0_def)

lemma first_use_run:
  assumes ready: "node_ready X R 0 fs"
  obtains g where "heap_run 0 fs data4 (g, Map.empty)" "0 \<in> heap_cpus g" "gp_pages g = fs" "gp_construct gp_sizes = Ok (gp_roots g)"
proof -
  obtain rs where rs: "gp_construct gp_sizes = Ok rs" "length rs = 23"
    using gp_construct_ok [of gp_sizes] gp_sizes_max gp_sizes_length by auto
  obtain g0 where g0: "gp_Init data4 fs = Ok g0" "heap_ok X R 0 Map.empty g0" using heap_Init [OF ready, of data4] by blast
  have all: "\<forall>s\<in>set (gp_slabs g0). frames s = fs \<and> unused_caches s" "gp_slabs g0 \<noteq> []" "gp_roots g0 = rs"
    using g0(1) rs by (auto simp: gp_Init_def unused_caches_def)
  let ?g = "g0\<lparr>gp_slabs := map (with_cpu env0) (gp_slabs g0)\<rparr>"
  have g: "gp_new env0 g0 = Ok ?g" using all(1) by (simp add: gp_new_def cpu_allocators_of_ok env0)
  have "(heap_step 0)\<^sup>*\<^sup>* (g0, Map.empty) (?g, Map.empty)"
    by (rule r_into_rtranclp, rule heap_step.first_use [OF env0(3) g])
  then have "heap_run 0 fs data4 (?g, Map.empty)" using g0(1) by (auto simp: heap_run_def)
  moreover have "0 \<in> heap_cpus ?g" using heap_new [OF g0(2) env0(3)] g by (auto simp: env0)
  moreover have "gp_pages ?g = fs" using all(1,2) by (simp add: gp_pages_def hd_map with_cpu_sel)
  ultimately show ?thesis using that [of ?g] rs(1) all(3) by simp
qed

lemma small_index: "k < 23 \<Longrightarrow> of_nat k = (3 :: u64) \<longleftrightarrow> k = 3" "k < 23 \<Longrightarrow> of_nat k = (5 :: u64) \<longleftrightarrow> k = 5"
proof -
  assume "k < 23"
  then have "unat (of_nat k :: u64) = k" by (simp add: unat_of_nat)
  then show "of_nat k = (3 :: u64) \<longleftrightarrow> k = 3" "of_nat k = (5 :: u64) \<longleftrightarrow> k = 5" by (auto simp: word_eq_unat)
qed

text \<open>With a frame free, the first processor gets blocks of 64 and of 100 bytes.\<close>

lemma small_malloc:
  assumes ready: "node_ready X R 0 fs" and run: "heap_run 0 fs data4 (g, L)" and cpu: "0 \<in> heap_cpus g"
    and roots: "gp_construct gp_sizes = Ok (gp_roots g)" and free: "free_frames (allocators (gp_pages g) ! nat 0) \<noteq> {}"
    and sz: "sz = 64 \<or> sz = 100"
  obtains x g' where "newlib_malloc env0 sz g = Some (Ok (x, g'))" "heap_run 0 fs data4 (g', L(x \<mapsto> sz))" "L x = None"
    "0 \<in> heap_cpus g'" "gp_construct gp_sizes = Ok (gp_roots g')"
    "\<exists>p. free_frames (allocators (gp_pages g) ! nat 0) - block (p, 0) \<subseteq> free_frames (allocators (gp_pages g') ! nat 0)"
proof -
  note order = class_order [OF roots]
  have m: "newlib_malloc env0 sz g = gp_Alloc env0 sz 0 g" by (simp add: newlib_malloc_def env0)
  have "\<not> (\<forall>j. 0 \<le> j \<and> j \<le> MAX_ORDER \<longrightarrow> (allocators (gp_pages g) ! nat 0) j = [])"
    using no_blocks_no_frames [of "allocators (gp_pages g) ! nat 0"] free by (rule contrapos_nn [rotated]) assumption
  then obtain x g' where x: "gp_Alloc env0 sz 0 g = Some (Ok (x, g'))" "L x = None" "heap_cpus g' = heap_cpus g" "gp_roots g' = gp_roots g"
    "takes_block (gp_roots g ! unat (indexer 0 gp_sizes sz)) 0 (gp_pages g) (gp_pages g')"
    using heap_alloc [OF heap_run_ok [OF ready run] env0(1), of sz] cpu sz order small_index by (auto simp: env0)
  have o: "sr_order (gp_roots g ! unat (indexer 0 gp_sizes sz)) = 0" using sz order by auto
  have "heap_step 0 (g, L) (g', L(x \<mapsto> sz))"
    by (rule heap_step.malloc [of env0]) (use x(1) m cpu in \<open>simp_all add: env0\<close>)
  then have "heap_run 0 fs data4 (g', L(x \<mapsto> sz))"
    using run unfolding heap_run_def by (meson rtranclp.rtrancl_into_rtrancl)
  moreover have "\<exists>p. free_frames (allocators (gp_pages g) ! nat 0) - block (p, 0) \<subseteq> free_frames (allocators (gp_pages g') ! nat 0)"
    using x(5) unfolding takes_block_def o .
  ultimately show ?thesis using that x m cpu roots by simp
qed

lemma two_blocks:
  obtains g x y where "heap_run 0 pages4 data4 (g, [x \<mapsto> 64, y \<mapsto> 100])" "x \<noteq> y"
proof -
  obtain g where g: "heap_run 0 pages4 data4 (g, Map.empty)" "0 \<in> heap_cpus g" "gp_pages g = pages4" "gp_construct gp_sizes = Ok (gp_roots g)"
    by (rule first_use_run [OF pages4_ready])
  have f: "free_frames (allocators (gp_pages g) ! nat 0) \<noteq> {}" unfolding g(3) pages4_frames by simp
  obtain x g1 where "newlib_malloc env0 64 g = Some (Ok (x, g1))" and x: "heap_run 0 pages4 data4 (g1, [x \<mapsto> 64])"
    and "Map.empty x = (None :: u64 option)" and g1: "0 \<in> heap_cpus g1" "gp_construct gp_sizes = Ok (gp_roots g1)"
    and t: "\<exists>p. free_frames (allocators (gp_pages g) ! nat 0) - block (p, 0) \<subseteq> free_frames (allocators (gp_pages g1) ! nat 0)"
    by (rule small_malloc [OF pages4_ready g(1,2,4) f disjI1 [OF refl]])
  obtain p where p: "{4..<8} - block (p, 0) \<subseteq> free_frames (allocators (gp_pages g1) ! nat 0)"
    using t unfolding g(3) pages4_frames by blast
  have "4 \<in> {4..<8} - block (p, 0) \<or> 5 \<in> {4..<8} - block (p, 0)" by (auto simp: block_def)
  then have f1: "free_frames (allocators (gp_pages g1) ! nat 0) \<noteq> {}" using p by blast
  obtain y g2 where y: "heap_run 0 pages4 data4 (g2, [x \<mapsto> 64, y \<mapsto> 100])" "[x \<mapsto> (64 :: u64)] y = None"
    by (rule small_malloc [OF pages4_ready x g1 f1 disjI2 [OF refl]])
  then have "x \<noteq> y" by (auto split: if_splits)
  then show ?thesis using that y(1) by blast
qed

lemma first_block:
  assumes ready: "node_ready X R 0 fs" and free: "free_frames (allocators fs ! 0) \<noteq> {}"
  obtains g x where "heap_run 0 fs data4 (g, [x \<mapsto> 64])"
proof -
  obtain g where g: "heap_run 0 fs data4 (g, Map.empty)" "0 \<in> heap_cpus g" "gp_pages g = fs" "gp_construct gp_sizes = Ok (gp_roots g)"
    by (rule first_use_run [OF ready])
  have f: "free_frames (allocators (gp_pages g) ! nat 0) \<noteq> {}" using free by (simp add: g(3))
  show ?thesis by (rule small_malloc [OF ready g(1,2,4) f disjI1 [OF refl]]) (rule that)
qed

theorem heap_blocks_disjoint_witness:
  "\<exists>g x y. heap_run 0 pages4 data4 (g, [x \<mapsto> 64, y \<mapsto> 100]) \<and> x \<noteq> 0 \<and> y \<noteq> 0 \<and> bytes x 64 \<inter> bytes y 100 = {}"
proof -
  obtain g x y where r: "heap_run 0 pages4 data4 (g, [x \<mapsto> 64, y \<mapsto> 100])" "x \<noteq> y" by (rule two_blocks)
  from heap_blocks_disjoint [OF pages4_ready r(1)] r(2)
  have "x \<noteq> 0 \<and> y \<noteq> 0 \<and> bytes x 64 \<inter> bytes y 100 = {}" by (auto split: if_splits)
  then show ?thesis using r by blast
qed

text \<open>C9: In such a run (of allocations and frees that stay home) a call always returns: \<open>malloc\<close> stops the kernel
  only for more than 8 MiB or when the page allocator of the node has no free block for a slab of the class, and
  otherwise gives a new block in a state of the run; freeing a block in use succeeds if it stays home: below the
  mark, or flushing only into the processor's own slabs without emptying one.\<close>

theorem heap_calls_return:
  assumes "node_ready X R n fs" and "heap_run n fs data (g, L)" and "my_nid e = n" and "my_cpu e \<in> heap_cpus g"
  shows "((0x800000 < sz \<and> newlib_malloc e sz g = Some (Fail Bug_On))
      \<or> (\<exists>k<23. newlib_malloc e sz g = Some (Fail Bug_On) \<and> indexer 0 gp_sizes sz = of_nat k
          \<and> (\<forall>j. sr_order (gp_roots g ! k) \<le> j \<and> j \<le> MAX_ORDER \<longrightarrow> (allocators (gp_pages g) ! nat n) j = []))
      \<or> (\<exists>x g'. newlib_malloc e sz g = Some (Ok (x, g')) \<and> L x = None \<and> heap_run n fs data (g', L(x \<mapsto> sz))))
    \<and> (\<forall>x. L x \<noteq> None \<and> at_node n x g \<and> stays_home e x g
        \<longrightarrow> (\<exists>g'. gp_Free e x g = Ok g' \<and> heap_run n fs data (g', L(x := None))))"
proof -
  note h = heap_run_ok [OF assms(1,2)]
  have step: "heap_run n fs data gL" if "heap_step n (g, L) gL" for gL
    using assms(2) that unfolding heap_run_def by (meson rtranclp.rtrancl_into_rtrancl)
  have m: "heap_run n fs data (g', L(x \<mapsto> sz))" if "newlib_malloc e sz g = Some (Ok (x, g'))" for x g'
    by (rule step [OF heap_step.malloc [OF assms(3,4) that]])
  have f: "\<exists>g'. gp_Free e x g = Ok g' \<and> heap_run n fs data (g', L(x := None))"
    if x: "L x \<noteq> None" "at_node n x g" "stays_home e x g" for x
  proof -
    obtain z where "L x = Some z" using x(1) by blast
    from heap_free [OF h this assms(3,4) x(2,3)] obtain g' where "gp_Free e x g = Ok g'" by blast
    then show ?thesis using step heap_step.free [where L = L and x = x, OF assms(3,4) x] by blast
  qed
  have "newlib_malloc e sz g = gp_Alloc e sz n g" by (simp add: newlib_malloc_def assms(3))
  then show ?thesis using heap_alloc [OF h assms(3,4), of sz] m f by auto
qed

theorem heap_calls_return_witness:
  "\<exists>g g' x. heap_run 0 pages4 data4 (g, Map.empty) \<and> newlib_malloc env0 64 g = Some (Ok (x, g'))
     \<and> heap_run 0 pages4 data4 (g', [x \<mapsto> 64])"
proof -
  obtain g where g: "heap_run 0 pages4 data4 (g, Map.empty)" "0 \<in> heap_cpus g" "gp_pages g = pages4" "gp_construct gp_sizes = Ok (gp_roots g)"
    by (rule first_use_run [OF pages4_ready])
  have "\<not> (\<forall>j. 0 \<le> j \<and> j \<le> MAX_ORDER \<longrightarrow> (allocators (gp_pages g) ! nat 0) j = [])"
    using no_blocks_no_frames pages4_frames unfolding g(3) by fastforce
  then obtain x g' where "newlib_malloc env0 64 g = Some (Ok (x, g'))" "heap_run 0 pages4 data4 (g', [x \<mapsto> 64])"
    using heap_calls_return [OF pages4_ready g(1) env0(1), of 64] g(2) class_order [OF g(4)] small_index(1) by (auto simp: env0)
  then show ?thesis using g(1) by blast
qed

end
