(* ===== verification/Boot_Heap.thy ===== *)
theory Boot_Heap
  imports Boot_Memory Malloc_Heap
begin

text \<open>
  From the firmware's memory map to \<open>malloc\<close>: the page allocators that \<open>kmain\<close> leaves behind
  (\<open>Boot_Memory\<close>) are the ones the kernel's heap (\<open>Malloc_Heap\<close>) runs on.
\<close>

lemma boot_node_ready:
  assumes "boot_memory L madt srat calls psz kend es cpus t = Some (Ok b)"
    and "\<forall>e\<in>set (ram es). entry_ok e" and "disjoint_entries (ram es)"
    and "4096 dvd unat kend" and "kend \<le> initial_map_end" and "usable_pages kend es \<subseteq> {..<2 ^ 30}"
    and "unat (section_map_pages psz) \<le> unat kend div 4096"
    and "\<forall>c\<in>node_blocks (numa_nodes (bt_topology b)). mb_start c < mb_end c"
    and "\<forall>i. present (bt_sections b i) \<longrightarrow> valid (bt_sections b i)"
    and "n < length (numa_nodes (bt_topology b))" and "0 < kend"
  obtains X where "node_ready X (frames_of n (bt_allocators b)) (int n) (bt_allocators b)"
proof -
  note f = boot_memory_frames [OF assms(1-10)]
  have "0 < unat kend" using assms(11) by (simp add: word_less_nat_alt)
  moreover obtain k where "unat kend = 4096 * k" using assms(4) by blast
  ultimately have "0 < unat kend div 4096" by simp
  then have "0 \<notin> frames_of n (bt_allocators b)" using f by (auto simp: usable_pages_def)
  then show ?thesis using that f by (auto simp: node_ready_def node_inv_def region_def frames_of_def)
qed

text \<open>The frames that blocks in use touch.\<close>

definition live_frames :: "(u64 \<Rightarrow> u64 option) \<Rightarrow> nat set" where
  "live_frames L = (\<Union>x\<in>dom L. (\<lambda>i. i div 4096) ` bytes x (the (L x)))"

text \<open>On a machine booted from any sound E820 map, SRAT and MADT, every block in use that came from
  \<open>malloc\<close> or \<open>memalign\<close> on node \<open>n\<close>, in any run of the node's processors whose frees stay home, is usable RAM above the kernel
  image and of that node, meets no other block in use and no frame of another node's allocator, and
  is not in an array of \<open>struct page\<close>s.\<close>

lemma boot_heap_safe:
  assumes "boot_memory L madt srat calls psz kend es cpus t = Some (Ok b)"
    and "\<forall>e\<in>set (ram es). entry_ok e" and "disjoint_entries (ram es)"
    and "4096 dvd unat kend" and "kend \<le> initial_map_end" and "usable_pages kend es \<subseteq> {..<2 ^ 30}"
    and "unat (section_map_pages psz) \<le> unat kend div 4096"
    and "\<forall>c\<in>node_blocks (numa_nodes (bt_topology b)). mb_start c < mb_end c"
    and "\<forall>i. present (bt_sections b i) \<longrightarrow> valid (bt_sections b i)"
    and "n < length (numa_nodes (bt_topology b))" and "0 < kend"
    and "heap_run (int n) (bt_allocators b) data (g, live)"
  shows "live_frames live \<subseteq> usable_pages kend es \<inter> node_frames b n
    \<and> (\<forall>x y z w. live x = Some z \<and> live y = Some w \<and> x \<noteq> y \<longrightarrow> bytes x z \<inter> bytes y w = {})
    \<and> (\<forall>m<length (numa_nodes (bt_topology b)). m \<noteq> n \<longrightarrow> live_frames live \<inter> frames_of m (bt_allocators b) = {})
    \<and> (\<exists>base. maps_outside psz (bt_sections b) base (live_frames live))"
proof -
  note f = boot_memory_frames [OF assms(1-10)]
  obtain X where "node_ready X (frames_of n (bt_allocators b)) (int n) (bt_allocators b)"
    by (rule boot_node_ready [OF assms(1-11)])
  note h = heap_blocks [OF heap_run_ok [OF this assms(12)]]
  have sub: "live_frames live \<subseteq> frames_of n (bt_allocators b)" using h(1) by (fastforce simp: live_frames_def)
  have "\<exists>base. maps_outside psz (bt_sections b) base (live_frames live)"
    using f maps_outside_mono [OF _ sub] by blast
  moreover have "\<forall>m<length (numa_nodes (bt_topology b)). m \<noteq> n \<longrightarrow> live_frames live \<inter> frames_of m (bt_allocators b) = {}"
    using f sub by blast
  moreover have "live_frames live \<subseteq> usable_pages kend es \<inter> node_frames b n" using f sub by blast
  ultimately show ?thesis using h(2) by blast
qed

end
