(* ===== verification/Kernel_Main.thy ===== *)
theory Kernel_Main
  imports Boot_Heap Services Smp_Boot Event_Manager Clock_Timer Net
begin

text \<open>
  \<open>sys/main.cpp\<close>: \<open>kmain\<close> from the boot loader's call to the event loop, over the models of the parts it
  initialises, with the small pieces it needs that have no theory of their own: printing the E820
  map, the start of the Ebbs, running an event's function, and \<open>sys/power.cpp\<close>.
\<close>

subsection \<open>Text\<close>

definition text_of :: "string \<Rightarrow> u8 list" where "text_of s = map of_char s"

definition text_line :: "string \<Rightarrow> u8 list" where "text_line s = text_of s @ [10]"

subsection \<open>The E820 map on the console\<close>

text \<open>The comparisons of entries, by address.\<close>

definition e820_eq :: "e820_entry \<Rightarrow> e820_entry \<Rightarrow> bool" where "e820_eq lhs rhs \<longleftrightarrow> e_addr lhs = e_addr rhs"
definition e820_ne :: "e820_entry \<Rightarrow> e820_entry \<Rightarrow> bool" where "e820_ne lhs rhs \<longleftrightarrow> \<not> e820_eq lhs rhs"
definition e820_less :: "e820_entry \<Rightarrow> e820_entry \<Rightarrow> bool" where "e820_less lhs rhs \<longleftrightarrow> e_addr lhs < e_addr rhs"
definition e820_greater :: "e820_entry \<Rightarrow> e820_entry \<Rightarrow> bool" where "e820_greater lhs rhs \<longleftrightarrow> e820_less rhs lhs"
definition e820_le :: "e820_entry \<Rightarrow> e820_entry \<Rightarrow> bool" where "e820_le lhs rhs \<longleftrightarrow> \<not> e820_greater lhs rhs"
definition e820_ge :: "e820_entry \<Rightarrow> e820_entry \<Rightarrow> bool" where "e820_ge lhs rhs \<longleftrightarrow> \<not> e820_less lhs rhs"

lemma e820_init_sorted: "e820_init rs = Ok es \<Longrightarrow> sorted_wrt e820_le es"
proof -
  assume "e820_init rs = Ok es"
  then obtain es0 where "es = sort_key e_addr es0" by (auto simp: e820_init_def bind_res_Ok_iff)
  then have "sorted_wrt (\<lambda>x y. e_addr x \<le> e_addr y) es" using sorted_sort_key [of e_addr es0] by (simp add: sorted_wrt_map)
  moreover have "e820_le = (\<lambda>x y. e_addr x \<le> e_addr y)" by (simp add: fun_eq_iff e820_le_def e820_greater_def e820_less_def not_less)
  ultimately show ?thesis by simp
qed

definition TYPE_RESERVED_UNUSABLE :: u32 where "TYPE_RESERVED_UNUSABLE = 2"
definition TYPE_ACPI_RECLAIMABLE :: u32 where "TYPE_ACPI_RECLAIMABLE = 3"
definition TYPE_ACPI_NVS :: u32 where "TYPE_ACPI_NVS = 4"
definition TYPE_BAD_MEMORY :: u32 where "TYPE_BAD_MEMORY = 5"

text \<open>\<open>rtext\<close> and \<open>other\<close> are \<open>vsnprintf\<close> on the formats of a range and of an unnamed type.\<close>

definition e820_type_text :: "(u32 \<Rightarrow> u8 list) \<Rightarrow> u32 \<Rightarrow> u8 list" where
  "e820_type_text other t =
     (if t = TYPE_RAM then text_of ''usable'' else if t = TYPE_RESERVED_UNUSABLE then text_of ''reserved''
      else if t = TYPE_ACPI_RECLAIMABLE then text_of ''ACPI data'' else if t = TYPE_ACPI_NVS then text_of ''ACPI NVS''
      else if t = TYPE_BAD_MEMORY then text_of ''unusable'' else other t)"

definition e820_map_texts :: "(u64 \<times> u64 \<Rightarrow> u8 list) \<Rightarrow> (u32 \<Rightarrow> u8 list) \<Rightarrow> e820_entry list \<Rightarrow> u8 list list" where
  "e820_map_texts rtext other es = text_line ''e820_map:'' # concat (map (\<lambda>e.
     [rtext (e_addr e, e_addr e + e_length e - 1), e820_type_text other (e_type e), [10]]) es)"

definition e820_print_map ::
    "'h hardware \<Rightarrow> (u64 \<times> u64 \<Rightarrow> u8 list) \<Rightarrow> (u32 \<Rightarrow> u8 list) \<Rightarrow> e820_entry list \<Rightarrow> 'h console \<Rightarrow> 'h console res option" where
  "e820_print_map hw rtext other es s = kprint_all hw (e820_map_texts rtext other es) s"

subsection \<open>Starting Ebbs, running events, powering off\<close>

definition EventManager_Init :: "rep_map local_id_map \<Rightarrow> rep_map local_id_map" where
  "EventManager_Init m = snd (lim_insert (event_manager_id, Map.empty) m)"

definition LocalIdMap_HandleFault :: "u64 \<Rightarrow> ebb_id \<Rightarrow> trans_table \<times> 's \<Rightarrow> (u64 \<times> trans_table \<times> 's) res" where
  "LocalIdMap_HandleFault the_map = single_HandleFault local_id_map_id the_map"

definition NetworkManager_HandleFault :: "u64 \<Rightarrow> ebb_id \<Rightarrow> trans_table \<times> 's \<Rightarrow> (u64 \<times> trans_table \<times> 's) res" where
  "NetworkManager_HandleFault the_manager = single_HandleFault network_manager_id the_manager"

text \<open>\<open>NetworkManager::Init\<close>: lwIP's initialisation, then its timeouts after 10 milliseconds.\<close>

definition NetworkManager_Init :: "('s \<Rightarrow> 's) \<Rightarrow> u64 \<Rightarrow> int \<Rightarrow> 'f \<Rightarrow> 's \<times> 'f timers \<Rightarrow> (msr_write list \<times> 's \<times> 'f timers) res" where
  "NetworkManager_Init lwip_init ticks_per_us now check_timeouts st = (case st of (s, ts) \<Rightarrow>
     bind_res (timer_Start ticks_per_us now 10000 check_timeouts ts) (\<lambda>(w, ts'). Ok (w, lwip_init s, ts')))"

definition lwip_printf :: "'h hardware \<Rightarrow> u8 list \<Rightarrow> 'h console \<Rightarrow> 'h console res option" where
  "lwip_printf hw msg s = kvprintf hw msg s"

definition lwip_assert :: "'h hardware \<Rightarrow> u8 list \<Rightarrow> 'h console \<Rightarrow> ('h console \<times> fault) option" where
  "lwip_assert hw msg s = Option.bind (kvprintf hw msg s) (\<lambda>r. case r of Fail e \<Rightarrow> Some (s, e) | Ok s1 \<Rightarrow> kabort hw [] s1)"

text \<open>The outcome of code that may stop the processor: the console it leaves, or no return at all.\<close>

datatype ('h, 'k) outcome_of = Dead "'h console" fault | Hang | Alive 'k

definition aborts :: "('h console \<times> fault) option \<Rightarrow> ('h, 'k) outcome_of" where
  "aborts r = (case r of None \<Rightarrow> Hang | Some (s, e) \<Rightarrow> Dead s e)"

text \<open>\<open>invoke_function\<close>: what the function of an event ends with.\<close>

datatype function_end = Returned | Threw "u8 list" | Threw_Other

definition invoke_function :: "'h hardware \<Rightarrow> function_end \<Rightarrow> 'h console \<Rightarrow> ('h, 'h console) outcome_of" where
  "invoke_function hw f s =
     (case f of Returned \<Rightarrow> Alive s
      | Threw what \<Rightarrow> aborts (kabort hw [text_of ''Unhandled exception caught: '' @ what @ [10]] s)
      | Threw_Other \<Rightarrow> aborts (kabort hw [text_line ''Unhandled exception caught!''] s))"

text \<open>\<open>poweroff\<close>: the four calls of ACPICA with the message of a failed one; \<open>None\<close> is success.\<close>

fun poweroff :: "'h hardware \<Rightarrow> u8 list option list \<Rightarrow> 'h console \<Rightarrow> ('h console \<times> fault) option" where
  "poweroff hw [] s = kabort hw [] s"
| "poweroff hw (Some msg # statuses) s =
     Option.bind (kprintf hw msg s) (\<lambda>r. case r of Fail e \<Rightarrow> Some (s, e) | Ok s1 \<Rightarrow> kabort hw [] s1)"
| "poweroff hw (None # statuses) s = poweroff hw statuses s"

subsection \<open>Slab allocators as Ebbs\<close>

definition SlabAllocator_Construct ::
    "('i \<Rightarrow> bool) \<Rightarrow> ('i \<Rightarrow> ebb_id) \<Rightarrow> (ebb_id \<Rightarrow> 'i \<Rightarrow> 'i) \<Rightarrow> bool \<Rightarrow> u64 \<Rightarrow> 'i \<times> slab_root local_id_map
     \<Rightarrow> (u64 \<times> 'i \<times> slab_root local_id_map) res" where
  "SlabAllocator_Construct is_empty first erase memory sz st = (case st of (ids, m) \<Rightarrow>
     bind_res (AllocateLocal is_empty first erase ids) (\<lambda>(eid, ids').
       if \<not> memory then Fail Thrown
       else bind_res (SlabAllocatorRoot sz 0) (\<lambda>allocator_root.
              Ok (ebb_ref eid, ids', snd (lim_insert (eid, allocator_root) m)))))"

text \<open>\<open>slab_of\<close> is the state of a root, \<open>allocator_at\<close> the address of the processor's allocator in it.\<close>

definition SlabAllocator_HandleFault ::
    "env \<Rightarrow> (slab_root \<Rightarrow> slab) \<Rightarrow> (slab_root \<Rightarrow> nat \<Rightarrow> u64) \<Rightarrow> ebb_id \<Rightarrow> trans_table \<times> slab_root local_id_map
     \<Rightarrow> (u64 \<times> slab \<times> trans_table) res" where
  "SlabAllocator_HandleFault e slab_of allocator_at eid st = (case st of (table, m) \<Rightarrow>
     case lim_find eid m of
       None \<Rightarrow> Fail Assert_Failed
     | Some allocator_root \<Rightarrow>
         bind_res (get_cpu_allocator e (my_cpu e) (slab_of allocator_root)) (\<lambda>s.
           let allocator = allocator_at allocator_root (my_cpu e)
           in Ok (allocator, s, cache_ref eid allocator table)))"

text \<open>The first access to an Ebb just constructed, with its id new in the map, reaches the root made for it.\<close>

lemma SlabAllocator_Construct_fault:
  assumes "SlabAllocator_Construct is_empty first erase memory sz (ids, m) = Ok (ref, ids', m')" and "m (first ids) = None"
  obtains r where "SlabAllocatorRoot sz 0 = Ok r" and "ref = ebb_ref (first ids)" and "m' = m(first ids \<mapsto> r)"
    and "SlabAllocator_HandleFault e slab_of allocator_at (first ids) (table, m') =
      bind_res (get_cpu_allocator e (my_cpu e) (slab_of r))
        (\<lambda>s. Ok (allocator_at r (my_cpu e), s, cache_ref (first ids) (allocator_at r (my_cpu e)) table))"
  using assms
  by (auto simp: SlabAllocator_Construct_def AllocateLocal_def kbugon_def bind_res_Ok_iff Let_def lim_insert_def
      SlabAllocator_HandleFault_def lim_find_def split: if_splits)

text \<open>The destructor of a cache: its lists must be empty; a slab left over is reported.\<close>

definition SlabCache_destroy :: "'h hardware \<Rightarrow> slab_cache \<Rightarrow> 'h console \<Rightarrow> 'h console res option" where
  "SlabCache_destroy hw c s =
     (if object_list c \<noteq> [] \<or> remote_objects c \<noteq> [] then Some (Fail Assert_Failed)
      else if partial_page_list c \<noteq> []
      then kprintf hw (text_line ''Memory leak detected, slab partial page list is not empty'') s
      else Some (Ok s))"

subsection \<open>\<open>kmain\<close>\<close>

text \<open>The machine: its devices, processor, memory and tables, the symbols of the linker script, ACPICA's
  calls, and \<open>vsnprintf\<close> on the formats of the memory map.\<close>

record 'h machine =
  hw :: "'h hardware"
  range_text :: "u64 \<times> u64 \<Rightarrow> u8 list"
  type_text :: "u32 \<Rightarrow> u8 list"
  cpuid_leaf :: "u32 \<Rightarrow> cpuid_result"
  code_segment :: u16
  int_entry :: "nat \<Rightarrow> u64"
  event_entry :: u64
  memory8 :: mem8
  tls :: tls_symbols
  wall_addr :: u64
  vcpu_addr :: u64
  wall_mem :: "nat \<Rightarrow> wall_clock"
  wall_rounds :: "(nat \<times> nat \<times> nat \<times> nat) list"
  tss_addr :: u64
  boot_stack :: u64
  mmap_addr :: u64
  mmap_length :: u32
  kend_addr :: u64
  page_struct_size :: u64
  layout :: acpi_layout
  madt_table :: "(u32 \<times> (nat \<Rightarrow> madt_entry)) option"
  srat_table :: "(u32 \<times> (nat \<Rightarrow> srat_entry)) option"
  acpica_calls :: "os_call list"
  boot_tables :: page_tables
  page_data :: "pfn \<Rightarrow> slab_data"

text \<open>What a started kernel has; \<open>System_Init\<close> stands for the function \<open>kmain\<close> spawns.  The Ebbs' entries in the
  id map are not followed, and the memory of the allocators' own objects, which \<open>slab_init\<close> prepares, is
  the field \<open>new_ok\<close> of the processors' environment.\<close>

datatype kernel_event = System_Init

record 'h kernel =
  k_console :: "'h console"
  k_features :: cpuid_features
  k_idt :: "128 word list"
  k_memory :: mem8
  k_msrs :: "msr_write list"
  k_ports :: "(u16 \<times> u8) list"
  k_boot_time :: int
  k_map :: "e820_entry list"
  k_boot :: boot
  k_heap :: gp
  k_virt :: virt
  k_events :: "kernel_event event_manager"

definition banner :: "u8 list" where "banner = text_line ''EbbRT Copyright 2013-2014 SESA Developers''"
definition reboot :: "u8 list" where "reboot = text_line ''EbbRT reboot detected... aborting!''"

text \<open>A step that fails stops the processor (its message is left out), one that does not return hangs it.\<close>

definition proceed :: "'h console \<Rightarrow> 'a res \<Rightarrow> ('a \<Rightarrow> ('h, 'k) outcome_of) \<Rightarrow> ('h, 'k) outcome_of" where
  "proceed s r f = (case r of Fail e \<Rightarrow> Dead s e | Ok x \<Rightarrow> f x)"

definition await :: "'h console \<Rightarrow> 'a res option \<Rightarrow> ('a \<Rightarrow> ('h, 'k) outcome_of) \<Rightarrow> ('h, 'k) outcome_of" where
  "await s r f = (case r of None \<Rightarrow> Hang | Some t \<Rightarrow> proceed s t f)"

definition init_early :: "'h machine \<Rightarrow> 'h console \<Rightarrow> ('h, 'h console \<times> cpuid_features \<times> mem8 \<times> msr_write list \<times> (u16 \<times> u8) list \<times> int \<times> cpu) outcome_of" where
  "init_early M s =
     await s (kprintf (hw M) banner s) (\<lambda>s1.
       let features = cpuid_init (cpuid_leaf M) \<lparr>x2apic = False, kvm_pv_eoi = False, kvm_clocksource2 = False\<rparr>;
           (m, fs_base) = tls_init (tls M) (memory8 M)
       in await s1 (clock_init features (wall_addr M) (vcpu_addr M) (wall_mem M) (wall_rounds M)) (\<lambda>(clock_msrs, boot_time).
          proceed s1 (disable_pic features) (\<lambda>ports.
          proceed s1 (cpu_init (tss_addr M) (boot_stack M) (cpu_new 0 0 0, \<lambda>_. [], Map.empty)) (\<lambda>(c, _).
            Alive (s1, features, m, fs_base @ clock_msrs, ports, boot_time, c)))))"

definition init_memory :: "'h machine \<Rightarrow> mem8 \<Rightarrow> cpu \<Rightarrow> 'h console \<Rightarrow> ('h, 'h console \<times> e820_entry list \<times> boot) outcome_of" where
  "init_memory M m c s =
     await s (map_option Ok (for_each_mmregion m (mmap_addr M) (mmap_length M))) (\<lambda>regions.
     proceed s (e820_init regions) (\<lambda>es.
     await s (e820_print_map (hw M) (range_text M) (type_text M) es s) (\<lambda>s1.
     await s1 (boot_memory (layout M) (madt_table M) (srat_table M) (acpica_calls M) (page_struct_size M) (kend_addr M)
                 es [c] (boot_tables M)) (\<lambda>b. Alive (s1, es, b)))))"

definition then_do :: "('h, 'a) outcome_of \<Rightarrow> ('a \<Rightarrow> ('h, 'k) outcome_of) \<Rightarrow> ('h, 'k) outcome_of" where
  "then_do r f = (case r of Dead s e \<Rightarrow> Dead s e | Hang \<Rightarrow> Hang | Alive x \<Rightarrow> f x)"

definition kmain :: "'h machine \<Rightarrow> bool \<Rightarrow> 'h console \<Rightarrow> ('h, 'h kernel) outcome_of" where
  "kmain M started_once s0 =
     (let s = console_init (hw M) s0
      in if started_once then aborts (kabort (hw M) [reboot] s)
         else then_do (init_early M s) (\<lambda>(s1, features, m, msrs, ports, boot_time, c).
              then_do (init_memory M m c s1) (\<lambda>(s2, es, b).
              proceed s2 (gp_Init (page_data M) (bt_allocators b)) (\<lambda>g.
              proceed s2 (event_manager_new (vmem_allocator_init, 0)) (\<lambda>(em, v).
                Alive \<lparr>k_console = s2, k_features = features,
                  k_idt = idt_init (code_segment M) (int_entry M) (event_entry M),
                  k_memory = m, k_msrs = msrs, k_ports = ports, k_boot_time = boot_time, k_map = es, k_boot = b, k_heap = g,
                  k_virt = v, k_events = StartProcessingEvents (SpawnLocal System_Init em)\<rparr>)))))"


subsection \<open>A started kernel\<close>

lemma alive_simps:
  "proceed s r f = Alive k \<longleftrightarrow> (\<exists>x. r = Ok x \<and> f x = Alive k)"
  "await s q f = Alive k \<longleftrightarrow> (\<exists>x. q = Some (Ok x) \<and> f x = Alive k)"
  "then_do out g = Alive k \<longleftrightarrow> (\<exists>x. out = Alive x \<and> g x = Alive k)"
  by (auto simp: proceed_def await_def then_do_def split: res.splits option.splits outcome_of.splits)

lemma aborts_not_Alive [simp]: "aborts r \<noteq> Alive k"
  by (auto simp: aborts_def split: option.splits)

lemma init_memory_Alive:
  assumes "init_memory M m c s = Alive (s', es, b)"
  shows "\<exists>rs. for_each_mmregion m (mmap_addr M) (mmap_length M) = Some rs \<and> e820_init rs = Ok es"
    and "boot_memory (layout M) (madt_table M) (srat_table M) (acpica_calls M) (page_struct_size M) (kend_addr M) es [c]
        (boot_tables M) = Some (Ok b)"
  using assms by (auto simp: init_memory_def alive_simps)

text \<open>Entered a second time it says so on the serial line and stops.\<close>

lemma kmain_reboot:
  assumes "uart_law (hw M) polls sent" and "\<forall>h. polls h \<noteq> None"
  shows "\<exists>h'. kmain M True s = Dead (False, h') Aborted \<and> sent h' = sent (snd (console_init (hw M) s)) @ reboot @ aborting"
proof -
  have "visible reboot = reboot" unfolding visible_def reboot_def text_line_def text_of_def by code_simp
  moreover have "console_init (hw M) s = (False, snd (console_init (hw M) s))"
    by (simp add: console_init_def Let_def split: prod.split)
  ultimately show ?thesis
    using kabort_sends [OF assms, of "[reboot]" "snd (console_init (hw M) s)"] by (auto simp: kmain_def aborts_def)
qed

text \<open>What is behind a started kernel: its memory was handed over, its heap is new, and its event manager
  waits with one event.\<close>

lemma kmain_AliveE:
  assumes "kmain M started s = Alive k"
  obtains c s1 s2 em where "\<not> started" and "init_memory M (k_memory k) c s1 = Alive (s2, k_map k, k_boot k)"
    and "gp_Init (page_data M) (bt_allocators (k_boot k)) = Ok (k_heap k)"
    and "event_manager_new (vmem_allocator_init, 0) = Ok (em, k_virt k)"
    and "k_events k = StartProcessingEvents (SpawnLocal System_Init em)"
proof -
  have 1: "\<not> started" using assms by (cases started) (simp_all add: kmain_def Let_def)
  obtain s1 features m msrs ports boot_time c s2 es b g em v where
    m: "init_memory M m c s1 = Alive (s2, es, b)" and g: "gp_Init (page_data M) (bt_allocators b) = Ok g"
    and e: "event_manager_new (vmem_allocator_init, 0) = Ok (em, v)"
    and k: "\<lparr>k_console = s2, k_features = features, k_idt = idt_init (code_segment M) (int_entry M) (event_entry M),
       k_memory = m, k_msrs = msrs, k_ports = ports, k_boot_time = boot_time, k_map = es, k_boot = b, k_heap = g,
       k_virt = v, k_events = StartProcessingEvents (SpawnLocal System_Init em)\<rparr> = k"
    using assms unfolding kmain_def Let_def if_not_P [OF 1] alive_simps split_paired_Ex prod.case outcome_of.inject(2)
    by (elim exE conjE) (rule that)
  show thesis by (rule that [of c s1 s2 em]) (use 1 m g e in \<open>simp_all add: k [symmetric]\<close>)
qed

lemma kernel_events_reachable:
  assumes "kmain M started s = Alive k"
  shows "em_reachable \<lparr>mgr = k_events k, virt = k_virt k, saved = []\<rparr>"
proof -
  obtain c s1 s2 em where e: "event_manager_new (vmem_allocator_init, 0) = Ok (em, k_virt k)"
    and k: "k_events k = StartProcessingEvents (SpawnLocal System_Init em)" using assms by (rule kmain_AliveE)
  have "StartProcessingEvents (SpawnLocal System_Init em) = SpawnLocal System_Init (StartProcessingEvents em)"
    by (simp add: StartProcessingEvents_def SpawnLocal_def)
  then show ?thesis
    using reach_step [OF reach_init [OF init_partition e] em_step.step_spawn [where f = System_Init]] k by simp
qed

text \<open>C1: A kernel that has come up, from \<open>kmain\<close> on, was entered for the first time, has the boot loader's memory
  map sorted, and an event manager in a reachable state; and its heap is safe when the RAM of that map is sound, in
  every run of a node's processors made of allocations and of frees that stay home: each block in use from \<open>malloc\<close> or
  \<open>memalign\<close> is usable RAM above the kernel image and of that
  node, meets no other block in use and no frame of another node's allocator, and is not in an array of
  \<open>struct page\<close>s.  Frees that stay home are those of an object of the node by which no slab goes back to the page
  allocator and nothing to another processor's cache (\<open>stays_home\<close> of \<open>Malloc_Heap\<close>); runs with other frees are not
  covered, since the page allocator may then hand out overlapping blocks.\<close>

theorem kernel_heap_safe:
  assumes "kmain M started s = Alive k"
    and "\<forall>e\<in>set (ram (k_map k)). entry_ok e" and "disjoint_entries (ram (k_map k))"
    and "4096 dvd unat (kend_addr M)" and "0 < kend_addr M" and "kend_addr M \<le> initial_map_end"
    and "usable_pages (kend_addr M) (k_map k) \<subseteq> {..<2 ^ 30}"
    and "unat (section_map_pages (page_struct_size M)) \<le> unat (kend_addr M) div 4096"
    and "\<forall>c\<in>node_blocks (numa_nodes (bt_topology (k_boot k))). mb_start c < mb_end c"
    and "\<forall>i. present (bt_sections (k_boot k) i) \<longrightarrow> valid (bt_sections (k_boot k) i)"
    and "n < length (numa_nodes (bt_topology (k_boot k)))"
    and "(heap_step (int n))\<^sup>*\<^sup>* (k_heap k, Map.empty) (g, live)"
  shows "\<not> started
    \<and> (\<exists>rs. for_each_mmregion (k_memory k) (mmap_addr M) (mmap_length M) = Some rs \<and> e820_init rs = Ok (k_map k))
    \<and> live_frames live \<subseteq> usable_pages (kend_addr M) (k_map k) \<inter> node_frames (k_boot k) n
    \<and> (\<forall>x y z w. live x = Some z \<and> live y = Some w \<and> x \<noteq> y \<longrightarrow> bytes x z \<inter> bytes y w = {})
    \<and> (\<forall>m<length (numa_nodes (bt_topology (k_boot k))). m \<noteq> n \<longrightarrow>
         live_frames live \<inter> frames_of m (bt_allocators (k_boot k)) = {})
    \<and> (\<exists>base. maps_outside (page_struct_size M) (bt_sections (k_boot k)) base (live_frames live))
    \<and> em_reachable \<lparr>mgr = k_events k, virt = k_virt k, saved = []\<rparr>"
proof -
  obtain c s1 s2 em where up: "\<not> started" "init_memory M (k_memory k) c s1 = Alive (s2, k_map k, k_boot k)"
      "gp_Init (page_data M) (bt_allocators (k_boot k)) = Ok (k_heap k)" using assms(1) by (rule kmain_AliveE)
  note mem = init_memory_Alive [OF up(2)]
  have run: "heap_run (int n) (bt_allocators (k_boot k)) (page_data M) (g, live)"
    using up(3) assms(12) by (auto simp: heap_run_def)
  show ?thesis
    using up(1) mem(1) boot_heap_safe [OF mem(2) assms(2,3,4,6,7,8,9,10,11,5) run]
      kernel_events_reachable [OF assms(1)] by simp
qed

text \<open>A machine with KVM's features, the serial line of \<open>Console\<close> and the memory of \<open>Boot_Memory\<close>'s example.\<close>

definition mmap0 :: "(mmregion \<times> u8 list) list" where
  "mmap0 = [(\<lparr>mm_size = 20, mm_base_address = 0x200000, mm_length = 0x400000, mm_type = 1\<rparr>, [])]"

definition mem0 :: mem8 where
  "mem0 a = (if 0x3000 \<le> a \<and> a < 0x3018 then concat (map mmregion_bytes mmap0) ! unat (a - 0x3000) else 0)"

definition cpuid0 :: "u32 \<Rightarrow> cpuid_result" where
  "cpuid0 leaf =
     (if leaf = 0 then \<lparr>r_eax = 1, r_ebx = 0, r_ecx = 0, r_edx = 0\<rparr>
      else if leaf = 1 then \<lparr>r_eax = 0, r_ebx = 0, r_ecx = 0x200000, r_edx = 0\<rparr>
      else if leaf = 0x40000000 then \<lparr>r_eax = 0x40000001, r_ebx = 0x4b4d564b, r_ecx = 0x564b4d56, r_edx = 0x4d\<rparr>
      else \<lparr>r_eax = 0x48, r_ebx = 0, r_ecx = 0, r_edx = 0\<rparr>)"

definition machine0 :: "(nat \<times> u8 list) machine" where
  "machine0 = \<lparr>hw = line, range_text = (\<lambda>_. text_of ''range ''), type_text = (\<lambda>_. text_of ''type''), cpuid_leaf = cpuid0,
     code_segment = 8, int_entry = (\<lambda>_. 0x5000), event_entry = 0x6000, memory8 = mem0, tls = tls0, wall_addr = 0x2100,
     vcpu_addr = 0x2200, wall_mem = (\<lambda>_. \<lparr>wc_version = 2, wc_sec = 5, wc_nsec = 7\<rparr>), wall_rounds = [(0, 1, 2, 3)],
     tss_addr = 0x9000, boot_stack = 0x7000, mmap_addr = 0x3000, mmap_length = 24, kend_addr = 0x200000,
     page_struct_size = 42, layout = layout0, madt_table = Some (80, madt0), srat_table = Some (160, srat_boot),
     acpica_calls = calls_boot, boot_tables = \<lparr>pt_root = 0, pt_mem = \<lambda>_. 0\<rparr>, page_data = data4\<rparr>"

lemma early0:
  obtains h' features m msrs ports boot_time where
    "init_early machine0 (False, h) = Alive ((False, h'), features, m, msrs, ports, boot_time, cpu_boot)"
    and "bytes_at m 0x3000 (concat (map mmregion_bytes mmap0))"
proof -
  let ?f = "cpuid_init cpuid0 \<lparr>x2apic = False, kvm_pv_eoi = False, kvm_clocksource2 = False\<rparr>"
  obtain h1 where p: "kprintf line banner (False, h) = Some (Ok (False, h1))"
    using kprintf_sends [OF line_law, of banner h] by auto
  have f: "?f = \<lparr>x2apic = True, kvm_pv_eoi = True, kvm_clocksource2 = True\<rparr>" by code_simp
  have clock: "clock_init ?f 0x2100 0x2200 (\<lambda>_. \<lparr>wc_version = 2, wc_sec = 5, wc_nsec = 7\<rparr>) [(0, 1, 2, 3)] =
      Some (Ok ([(MSR_KVM_WALL_CLOCK_NEW, 0x2100), (MSR_KVM_SYSTEM_TIME_NEW, 0x2201)], 5000000007))"
    unfolding f by (simp add: clock_init_def setup_system_time_def)
  have cpu: "cpu_init 0x9000 0x7000 (cpu_new 0 0 0, \<lambda>_. [], Map.empty) = Ok (cpu_boot, \<lambda>_. [], Map.empty)"
    by (simp add: cpu_init_def cpu_new_def cpu_boot_def set_ist_entry_def tss_new_def PAGE_SIZE_eq)
  obtain m w where m: "tls_init tls0 mem0 = (m, w)" by fastforce
  have "bytes_at (fst (tls_init tls0 mem0)) 0x3000 (concat (map mmregion_bytes mmap0))" by code_simp
  then have b: "bytes_at m 0x3000 (concat (map mmregion_bytes mmap0))" by (simp add: m)
  have "init_early machine0 (False, h) = Alive ((False, h1), ?f, m,
      w @ [(MSR_KVM_WALL_CLOCK_NEW, 0x2100), (MSR_KVM_SYSTEM_TIME_NEW, 0x2201)], [(0x21, 0xff), (0xa1, 0xff)], 5000000007, cpu_boot)"
    using p m clock cpu by (simp add: init_early_def machine0_def await_def proceed_def disable_pic_def f)
  then show thesis using b by (rule that)
qed

lemma regions0:
  assumes "bytes_at m 0x3000 (concat (map mmregion_bytes mmap0))"
  shows "for_each_mmregion m 0x3000 24 = Some (map fst mmap0)" and "e820_init (map fst mmap0) = Ok e820_boot"
proof -
  have "read_mmregion m 0x3000 = fst (hd mmap0)"
    using assms by (intro read_mmregion_bytes [where pad = "[]"]) (simp add: mmap0_def)
  then have "mmregions_from m 0x3000 0x3018 = Some (map fst mmap0)"
    by (subst mmregions_from.simps, subst mmregions_from.simps) (simp add: mmap0_def)
  then show "for_each_mmregion m 0x3000 24 = Some (map fst mmap0)" by (simp add: for_each_mmregion_def)
  show "e820_init (map fst mmap0) = Ok e820_boot"
    by (simp add: e820_init_def mmap0_def e820_boot_def MAX_NUM_E820_ENTRIES_def)
qed

text \<open>This machine comes up.\<close>

lemma kmain0:
  assumes "boot_memory layout0 (Some (80, madt0)) (Some (160, srat_boot)) calls_boot 42 0x200000 e820_boot [cpu_boot]
      \<lparr>pt_root = 0, pt_mem = \<lambda>_. 0\<rparr> = Some (Ok b)"
    and "gp_Init data4 (bt_allocators b) = Ok g"
  obtains k where "kmain machine0 False (lock, h) = Alive k" and "k_map k = e820_boot" and "k_boot k = b" and "k_heap k = g"
proof -
  obtain h0 where c: "console_init line (lock, h) = (False, h0)" by (simp add: console_init_def Let_def)
  obtain h1 features m msrs ports boot_time where
    e: "init_early machine0 (False, h0) = Alive ((False, h1), features, m, msrs, ports, boot_time, cpu_boot)"
    and bs: "bytes_at m 0x3000 (concat (map mmregion_bytes mmap0))" by (rule early0)
  obtain h2 where p: "e820_print_map line (\<lambda>_. text_of ''range '') (\<lambda>_. text_of ''type'') e820_boot (False, h1) =
      Some (Ok (False, h2))" using kprint_all_sends [OF line_law] by (fastforce simp: e820_print_map_def)
  have i: "init_memory machine0 m cpu_boot (False, h1) = Alive ((False, h2), e820_boot, b)"
    using regions0 [OF bs] p assms(1) by (simp add: init_memory_def machine0_def await_def proceed_def)
  obtain em :: "kernel_event event_manager" and v where "event_manager_new (vmem_allocator_init, 0) = Ok (em, v)"
    by (simp add: event_manager_new_def AllocateStack_def STACK_NPAGES_def init_alloc)
  then have "kmain machine0 False (lock, h) = Alive \<lparr>k_console = (False, h2), k_features = features,
      k_idt = idt_init 8 (\<lambda>_. 0x5000) 0x6000, k_memory = m, k_msrs = msrs, k_ports = ports, k_boot_time = boot_time,
      k_map = e820_boot, k_boot = b, k_heap = g, k_virt = v, k_events = StartProcessingEvents (SpawnLocal System_Init em)\<rparr>"
    using c e i assms(2) by (simp add: kmain_def machine0_def then_do_def proceed_def)
  then show thesis by (rule that) simp_all
qed

theorem kernel_heap_safe_witness:
  "\<exists>k g x. kmain machine0 False (False, (0, [])) = Alive k \<and> (heap_step 0)\<^sup>*\<^sup>* (k_heap k, Map.empty) (g, [x \<mapsto> 64])
     \<and> live_frames [x \<mapsto> 64] \<subseteq> {0x400 ..< 0x600}"
proof -
  obtain b where run: "boot_memory layout0 (Some (80, madt0)) (Some (160, srat_boot)) calls_boot 42 0x200000 e820_boot [cpu_boot]
        \<lparr>pt_root = 0, pt_mem = \<lambda>_. 0\<rparr> = Some (Ok b)"
    and c: "\<forall>e\<in>set (ram e820_boot). entry_ok e" "disjoint_entries (ram e820_boot)" "4096 dvd unat (0x200000 :: u64)"
    "0x200000 \<le> initial_map_end" "usable_pages 0x200000 e820_boot \<subseteq> {..<2 ^ 30}"
    "unat (section_map_pages 42) \<le> unat (0x200000 :: u64) div 4096"
    "\<forall>c\<in>node_blocks (numa_nodes (bt_topology b)). mb_start c < mb_end c"
    "\<forall>i. present (bt_sections b i) \<longrightarrow> valid (bt_sections b i)" and len: "length (numa_nodes (bt_topology b)) = 2"
    and held: "frames_of 0 (bt_allocators b) \<noteq> {}" and nf: "node_frames b 0 = {0x400 ..< 0x600}"
    by (rule boot_example)
  have n: "0 < length (numa_nodes (bt_topology b))" "(0 :: u64) < 0x200000" by (simp_all add: len)
  obtain X where ready: "node_ready X (frames_of 0 (bt_allocators b)) 0 (bt_allocators b)"
    using boot_node_ready [OF run c n] by auto
  obtain g x where "heap_run 0 (bt_allocators b) data4 (g, [x \<mapsto> 64])"
    by (rule first_block [OF ready]) (use held in \<open>simp add: frames_of_def\<close>)
  then obtain g0 where g0: "gp_Init data4 (bt_allocators b) = Ok g0" "(heap_step 0)\<^sup>*\<^sup>* (g0, Map.empty) (g, [x \<mapsto> 64])"
    unfolding heap_run_def by blast
  obtain k where k: "kmain machine0 False (False, (0, [])) = Alive k" "k_map k = e820_boot" "k_boot k = b" "k_heap k = g0"
    by (rule kmain0 [OF run g0(1)])
  have "kend_addr machine0 = 0x200000" "page_struct_size machine0 = 42" by (simp_all add: machine0_def)
  then have "live_frames [x \<mapsto> 64] \<subseteq> {0x400 ..< 0x600}"
    using kernel_heap_safe [OF k(1), of 0 g "[x \<mapsto> 64]", unfolded k(2,3,4)] c n g0(2) nf by simp
  then show ?thesis using k(1) g0(2) unfolding k(4) [symmetric] by blast
qed

end
