(* ===== verification/Spec2Isabelle.thy ===== *)
theory Spec2Isabelle
  imports Page_Allocator E820 VMem VMem_Allocator Ebb Event_Manager Cpu Slab_Alloc Gp_Allocator Sync Clock_Timer
    Pci_Scan Virtio_Net Boot_Memory Smp_Boot Services Boot_Heap Kernel_Main
begin

text \<open>
  \<^bold>\<open>EbbRT bare metal\<close>: a library operating system for one address space, whose services are Ebbs (objects
  with one representative per processor, reached through a per-processor translation table) and whose
  processors each run an event loop.  The C++ of \<open>src/sys\<close> is modelled from the boot loader's call of
  \<open>kmain\<close> to the event loop, with the memory allocators, the virtual memory, the devices and the network
  glue behind it.

  \<^bold>\<open>How the parts work together.\<close>  The boot loader leaves a memory map; \<open>kmain\<close> sorts it (\<open>E820\<close>), gives
  what lies above the kernel image to the early allocator (\<open>Early_Pages\<close>), maps it (\<open>VMem\<close>), reads
  processors and nodes from the firmware's tables (\<open>Acpi\<close>), builds the map of page structures
  (\<open>Mem_Map\<close>), and hands the free frames to one buddy allocator per node (\<open>Page_Allocator\<close>).  Slab
  allocators (\<open>Slab\<close>) cut frames into objects; 23 of them are the size classes of \<open>malloc\<close>
  (\<open>Gp_Allocator\<close>).  Kernel virtual pages (\<open>VMem_Allocator\<close>) hold the stacks of events
  (\<open>Event_Manager\<close>), whose frames come with the first fault.  The other processors get stacks and
  thread-local storage from the first (\<open>Smp_Boot\<close>).  A virtio network card is found on the PCI bus
  (\<open>Pci\<close>, \<open>Pci_Scan\<close>, \<open>Virtio_Driver\<close>), moves frames over two rings (\<open>Vring\<close>) in owned buffers (\<open>Buffer\<close>), and
  lwIP sits behind the network manager (\<open>Net\<close>, \<open>Virtio_Net\<close>).

  \<^bold>\<open>How code becomes definitions.\<close>  A C++ function is a definition with its name where HOL allows it.
  Integers are words of their width and wrap.  A function that may stop the kernel returns \<open>'a res\<close>
  (\<open>Prelude\<close>): \<open>Fail\<close> carries the macro that stopped it, an uncaught exception, or undefined behaviour.
  A loop that need not end is a \<open>partial_function\<close> with the value \<open>None\<close> for not returning, or consumes
  a list of the values it reads; where the code always returns, a theorem says so.  Members and
  globals are fields of records passed along; containers are lists in iteration order, finite maps or
  functions.  Operations under a lock are one step; where the atomic accesses themselves matter
  (\<open>Sync\<close>, \<open>Vring\<close>, \<open>Clock_Timer\<close>), other agents act between any two of them, in program order.

  \<^bold>\<open>Theories\<close>, with the files under \<open>src/sys\<close> they model.

  \<^item> \<open>Prelude\<close>, \<open>Align_Pfn\<close>, \<open>Bit_Fields\<close>: outcomes, words and intervals; \<open>align.hpp\<close>, \<open>pfn.hpp\<close>, \<open>fls.hpp\<close>;
    bit-fields of packed structures.
  \<^item> \<open>Page_Source\<close>: the interface of a source of single frames as a locale, interpreted on the early
    allocator, on the buddy allocator and on the stacks of the other processors.
  \<^item> \<open>Early_Pages\<close>: \<open>early_page_allocator.cpp\<close>.  The set of free ranges as an ordered list; inserting
    with coalescing, allocation from the top, assignment of nodes.
  \<^item> \<open>E820\<close>: \<open>multiboot.hpp\<close>, \<open>e820.cpp\<close> and the memory loops of \<open>kmain\<close>.
  \<^item> \<open>Mem_Map\<close>: \<open>numa.cpp\<close>, \<open>mem_map.cpp\<close>.  Nodes, memory blocks, sections and the page structures.
  \<^item> \<open>Page_Allocator\<close>: \<open>page_allocator.cpp\<close>.  Free lists per order, splitting, freeing, the initial cut of
    a node's ranges; the invariant \<open>buddy_inv\<close> relates lists, page structures and held blocks.
  \<^item> \<open>VMem\<close>: \<open>vmem.cpp\<close>, \<open>vmem.hpp\<close>, and the tables of \<open>trans.cpp\<close>.  Page-table entries and the traversal,
    as a recursion over the levels with its step relation \<open>visits\<close>; \<open>leads\<close> is the processor's own walk.
  \<^item> \<open>VMem_Allocator\<close>: \<open>vmem_allocator.cpp\<close>.  The regions as a partition of the address space.
  \<^item> \<open>Ebb\<close>: \<open>trans.hpp\<close>, \<open>ebb_allocator.cpp\<close>, \<open>local_id_map.cpp\<close>, \<open>multicore_ebb_static.hpp\<close>.  The interval
    set of Boost is a parameter with the laws of the locale \<open>id_set\<close>, which sets of ids satisfy.
  \<^item> \<open>Event_Manager\<close>: \<open>event_manager.cpp\<close> as a transition system with reachable states.
  \<^item> \<open>Cpu\<close>: \<open>cpu.cpp\<close>, \<open>idt.cpp\<close>, \<open>apic.cpp\<close>, \<open>cpuid.cpp\<close>.  Descriptors bit by bit, registers written.
  \<^item> \<open>Slab\<close>, \<open>Slab_Sizes\<close>, \<open>Slab_Inv\<close>, \<open>Slab_Alloc\<close>: \<open>slab_allocator.cpp\<close>.  Operations; orders, batches and
    waste; the places an object can be in; what allocating and freeing do.
  \<^item> \<open>Gp_Allocator\<close>, \<open>Malloc_Heap\<close>: \<open>general_purpose_allocator.hpp\<close> and the calls of \<open>newlib.cpp\<close>; runs of
    the whole heap (\<open>heap_step\<close>) and their invariant \<open>heap_ok\<close>.
  \<^item> \<open>Sync\<close>: \<open>spinlock.hpp\<close>, \<open>recursive_spinlock.hpp\<close>, \<open>semaphore.hpp\<close>, \<open>condition_variable.hpp\<close>, \<open>gthread.cpp\<close>;
    the barrier is in \<open>spinlock.hpp\<close>.
  \<^item> \<open>Clock_Timer\<close>: \<open>clock.cpp\<close>, \<open>timer.cpp\<close>.
  \<^item> \<open>Acpi\<close>: the parsers of \<open>acpi.cpp\<close> and its memory services; \<open>Services\<close>: the other services for ACPICA, the
    rest of \<open>newlib.cpp\<close>, the exception handlers of \<open>idt.cpp\<close>.
  \<^item> \<open>Console\<close>: \<open>UART_8250.cpp\<close>, \<open>debug.cpp\<close>.
  \<^item> \<open>Buffer\<close>, \<open>Vring\<close>, \<open>Vring_Inv\<close>, \<open>Virtio_Queue\<close>, \<open>Virtio_Driver\<close>: \<open>buffer.hpp\<close> and \<open>virtio.hpp\<close>; \<open>Virtio_Net\<close>:
    \<open>virtio_net.cpp\<close>; \<open>Net\<close>: \<open>net.cpp\<close>; \<open>Pci\<close>, \<open>Pci_Scan\<close>: \<open>pci.cpp\<close>.
  \<^item> \<open>Smp_Boot\<close>: \<open>smp.cpp\<close>, \<open>tls.cpp\<close>.
  \<^item> \<open>Boot_Memory\<close>, \<open>Boot_Heap\<close>, \<open>Kernel_Main\<close>: \<open>main.cpp\<close> composed from the above, first its memory, then
    the heap on it, then \<open>kmain\<close> itself, with \<open>power.cpp\<close> and the printing of the memory map.
\<close>

text \<open>
  \<^bold>\<open>What the theorems show.\<close>

  \<^item> Composition.  From \<open>kmain\<close> to any run of \<open>malloc\<close>, \<open>memalign\<close> and frees that stay home (see below), blocks
    in use are usable memory above the kernel, of the right node, and disjoint (\<open>kernel_heap_safe\<close>, over
    \<open>boot_memory_safe\<close> and \<open>heap_blocks_disjoint\<close>); \<open>heap_calls_return\<close> says when the calls return and
    when they stop the kernel.
  \<^item> Page allocation.  Each operation keeps its invariant and takes or gives exactly the frames it
    should.  Freeing a block whose lower buddy is free is the exception: \<open>Free_lower_buddy_overlap\<close>
    shows, for any such block, that it keeps the wrong head and that the block handed out next reaches
    into the frames above it, so that \<open>Free_correct\<close> assumes there is none.
  \<^item> Slabs.  An object is in one place; allocation gives a new one; \<open>SlabCache_Alloc_returns_iff\<close>
    characterises the states in which the retry loop never ends.
  \<^item> Virtual memory and events.  The traversal covers exactly its interval, through the entries the
    processor's walk for each page leads to; regions stay a partition;
    stacks of events are disjoint and have one owner in every reachable state.
  \<^item> Firmware and devices.  The topology equals a declarative reading of the tables; the enumeration
    finds the devices, unless a CardBus pointer makes it write past its registers; the rings keep every
    descriptor in one place whatever the device publishes, until the driver reads past the used ring.
  \<^item> Network.  A frame sent reaches the device as the code orders its segments, one received reaches
    lwIP; \<open>receive_frees_twice\<close>, \<open>ReceivePacket_bytes\<close> and \<open>used_ring_not_wrapped\<close> show where this breaks.
  \<^item> Processors, clock, console.  The barrier and the boot stacks under every interleaving, readings of
    the clock during an update, timers that are due, what reaches the serial line.

  A theorem that needs more than the code checks states it as a hypothesis and has a witness on a
  concrete input.

  \<^bold>\<open>Parameters and bounds.\<close>  \<open>psz\<close> is the size of \<open>struct page\<close>, which depends on Boost's hooks;
  \<open>acpi_layout\<close> the sizes and flags of ACPICA's structures; \<open>hardware\<close> what ports and device memory do,
  with \<open>uart_law\<close> and \<open>config_space\<close> as their documented behaviour; the list of mapping calls
  ACPICA makes; the texts \<open>vsnprintf\<close> produces; the results of lwIP's functions; whether \<open>operator new\<close> of
  an allocator object succeeds (\<open>new_ok\<close>).  Physical memory is below \<open>2 ^ 30\<close> frames where a theorem says
  so, because section numbers and frame arithmetic wrap beyond; sections number \<open>2 ^ 15\<close> frames each.  No
  definition has fuel: recursions are structural or have a measure (the level of the page table, the
  order of a block, the rest of an interval); the loops that read changing memory (clock, used ring,
  timer) consume the list of values they read, and the theorems say which lists are long enough.
  In runs of the heap processors of one node act in any order.  Their frees stay home
  (\<open>stays_home\<close>): the object is of the node, and the cache is below its high-water mark or the flush puts
  every object back into a slab of the same cache that has others out.  Runs with other frees are not
  covered: a slab that goes back to the page allocator meets its faulty \<open>Free\<close>, after which blocks can
  overlap, and objects on remote lists can make an allocation hang.  The allocator objects made on
  demand take no frames in the model, and a function called by a timer does not start another.

  \<^bold>\<open>Not modelled.\<close>  Assembly (\<open>boot.S\<close>, \<open>isr.S\<close>, \<open>stack.S\<close>, \<open>smp.S\<close>) and the linker script; their effect is a
  parameter or a step of the models.  Third-party code: ACPICA, lwIP, Boost, TBB, newlib and the C++
  runtime.  Weak memory: processors see each other's accesses in program order.  The contents of
  objects: the heap is about addresses.  The function that \<open>kmain\<close> spawns is an event of the kernel; its
  steps are modelled one by one and not composed, because each depends on devices and on lwIP.
  Helper templates without behaviour of their own (\<open>explicitly_constructed.hpp\<close>, \<open>cache_aligned.hpp\<close>,
  \<open>constexpr.hpp\<close>, \<open>priority.hpp\<close>), the configuration of lwIP, and the build.
\<close>

end
